(* ===== verification/JS_Prelude.thy ===== *)
theory JS_Prelude
  imports Main
begin

text \<open>
  The vocabulary the components share. A JavaScript string is a list of UTF-16 code
  units, a shell string a list of bytes; both are the type \<open>jstring\<close> of this theory,
  a list of natural numbers, so that every statement covers every string of the
  program. The functions are the parts of the language and of its string library that
  the sources use: prefix and suffix tests, \<open>indexOf\<close>, \<open>slice\<close> and \<open>substr\<close>,
  \<open>split\<close> and \<open>join\<close>, and \<open>String.prototype.replace\<close> with a global regular
  expression, together with the \<open>$\<close> patterns of a replacement string. The theory also
  holds the interface of an invariant of a state machine, which the stateful
  components interpret.
\<close>

section \<open>Strings\<close>

type_synonym jstring = "nat list"

primrec js :: "string \<Rightarrow> jstring" where
  "js [] = []"
| "js (c # cs) = of_char c # js cs"

text \<open>The class \<open>\s\<close> of a regular expression: white space and line terminators.\<close>

definition is_js_space :: "nat \<Rightarrow> bool" where
  "is_js_space c \<longleftrightarrow> (9 \<le> c \<and> c \<le> 13) \<or> c = 32 \<or> c = 160 \<or> c = 5760 \<or>
     (8192 \<le> c \<and> c \<le> 8202) \<or> c = 8232 \<or> c = 8233 \<or> c = 8239 \<or> c = 8287 \<or>
     c = 12288 \<or> c = 65279"

text \<open>The four line terminators, which the dot of a regular expression does not match.\<close>

definition is_line_end :: "nat \<Rightarrow> bool" where
  "is_line_end c \<longleftrightarrow> c = 10 \<or> c = 13 \<or> c = 8232 \<or> c = 8233"

definition startsWith :: "'a list \<Rightarrow> 'a list \<Rightarrow> bool" where
  "startsWith p s \<longleftrightarrow> take (length p) s = p"

definition endsWith :: "'a list \<Rightarrow> 'a list \<Rightarrow> bool" where
  "endsWith p s \<longleftrightarrow> length p \<le> length s \<and> drop (length s - length p) s = p"

text \<open>\<open>s.slice(i, j)\<close> for \<open>0 \<le> i\<close> and \<open>0 \<le> j\<close>, and \<open>s.substr(i, n)\<close>.\<close>

definition slice :: "nat \<Rightarrow> nat \<Rightarrow> 'a list \<Rightarrow> 'a list" where
  "slice i j s = take (j - i) (drop i s)"

definition substr :: "nat \<Rightarrow> nat \<Rightarrow> 'a list \<Rightarrow> 'a list" where
  "substr i n s = take n (drop i s)"

text \<open>
  \<open>slice.call(xs, i, j)\<close>: negative positions count from the end, and both are cut to the
  length.
\<close>

definition relIndex :: "int \<Rightarrow> nat \<Rightarrow> nat" where
  "relIndex i n = (if i < 0 then nat (max (i + int n) 0) else nat (min i (int n)))"

definition jsSlice :: "int \<Rightarrow> int \<Rightarrow> 'a list \<Rightarrow> 'a list" where
  "jsSlice i j xs = slice (relIndex i (length xs)) (relIndex j (length xs)) xs"

text \<open>\<open>s.indexOf(p)\<close>: the least position where \<open>p\<close> occurs, \<open>-1\<close> for none.\<close>

fun indexFrom :: "nat \<Rightarrow> 'a list \<Rightarrow> 'a list \<Rightarrow> int" where
  "indexFrom i p [] = (if p = [] then int i else -1)"
| "indexFrom i p (c # s) = (if startsWith p (c # s) then int i else indexFrom (Suc i) p s)"

definition indexOf :: "'a list \<Rightarrow> 'a list \<Rightarrow> int" where
  "indexOf p s = indexFrom 0 p s"

definition occurs_in :: "'a list \<Rightarrow> 'a list \<Rightarrow> bool" where
  "occurs_in p s \<longleftrightarrow> indexOf p s > -1"

text \<open>\<open>xs.join(sep)\<close> and \<open>s.split(c)\<close> for a separator of one character.\<close>

fun join :: "'a list \<Rightarrow> 'a list list \<Rightarrow> 'a list" where
  "join sep [] = []"
| "join sep [x] = x"
| "join sep (x # y # xs) = x @ sep @ join sep (y # xs)"

fun splitOn :: "'a \<Rightarrow> 'a list \<Rightarrow> 'a list list" where
  "splitOn c [] = [[]]"
| "splitOn c (x # xs) =
     (if x = c then [] # splitOn c xs
      else case splitOn c xs of w # ws \<Rightarrow> (x # w) # ws | [] \<Rightarrow> [[x]])"

section \<open>Replacement\<close>

text \<open>
  \<open>s.replace(/re/g, f)\<close>. A matcher \<open>m\<close> gives the length of the match of the
  expression at the head of the remaining input; none of the expressions of the
  sources matches the empty string, so a length of 0 counts as no match. The function
  \<open>r\<close> gets the text before the match, the match and the text after it.
\<close>

function replaceAll ::
  "(jstring \<Rightarrow> nat option) \<Rightarrow> (jstring \<Rightarrow> jstring \<Rightarrow> jstring \<Rightarrow> jstring) \<Rightarrow> jstring \<Rightarrow> jstring \<Rightarrow> jstring"
where
  "replaceAll m r pre [] = []"
| "replaceAll m r pre (c # s) =
     (case m (c # s) of
        Some (Suc n) \<Rightarrow>
          r pre (c # take n s) (drop n s) @ replaceAll m r (pre @ c # take n s) (drop n s)
      | _ \<Rightarrow> c # replaceAll m r (pre @ [c]) s)"
  by pat_completeness auto
termination
  by (relation "measure (\<lambda>(m, r, pre, s). length s)") auto

text \<open>A literal as a matcher.\<close>

definition lit :: "jstring \<Rightarrow> jstring \<Rightarrow> nat option" where
  "lit p s = (if startsWith p s then Some (length p) else None)"

text \<open>
  \<open>GetSubstitution\<close> of the language for a match without capture groups: in a
  replacement string \<open>$$\<close> is a dollar sign, \<open>$&\<close> the match, \<open>$`\<close> what precedes
  it and \<open>$'\<close> what follows it; every other dollar sign stands for itself.
\<close>

fun getSubstitution :: "jstring \<Rightarrow> jstring \<Rightarrow> jstring \<Rightarrow> jstring \<Rightarrow> jstring" where
  "getSubstitution pre mtch post [] = []"
| "getSubstitution pre mtch post [c] = [c]"
| "getSubstitution pre mtch post (c # d # s) =
     (if c = 36 \<and> d = 36 then 36 # getSubstitution pre mtch post s
      else if c = 36 \<and> d = 38 then mtch @ getSubstitution pre mtch post s
      else if c = 36 \<and> d = 96 then pre @ getSubstitution pre mtch post s
      else if c = 36 \<and> d = 39 then post @ getSubstitution pre mtch post s
      else c # getSubstitution pre mtch post (d # s))"

text \<open>The replacement of the first occurrence of a text, and the decimal form of a number.\<close>

definition replaceFirst :: "jstring \<Rightarrow> jstring \<Rightarrow> jstring \<Rightarrow> jstring" where
  "replaceFirst p r s =
     (if indexOf p s = -1 then s
      else let k = nat (indexOf p s) in take k s @ r @ drop (k + length p) s)"

fun dec :: "nat \<Rightarrow> jstring" where
  "dec n = (if n < 10 then [48 + n] else dec (n div 10) @ [48 + n mod 10])"

declare dec.simps [simp del]

section \<open>Lemmas on strings\<close>

named_theorems text_simps \<open>rewrite rules for the string library\<close>

lemma startsWith_iff: "startsWith p s \<longleftrightarrow> (\<exists>t. s = p @ t)"
  unfolding startsWith_def by (metis append_eq_conv_conj append_take_drop_id)

lemma endsWith_iff: "endsWith p s \<longleftrightarrow> (\<exists>t. s = t @ p)"
proof
  assume "endsWith p s"
  then have "s = take (length s - length p) s @ p"
    unfolding endsWith_def by (metis append_take_drop_id)
  then show "\<exists>t. s = t @ p" ..
qed (auto simp: endsWith_def)

lemma startsWith_append [simp]: "startsWith p (p @ s)"
  by (auto simp: startsWith_iff)

lemma startsWith_Nil [simp]: "startsWith [] s" "startsWith (c # p) [] = False"
  by (auto simp: startsWith_def)

lemma startsWith_Cons [simp]: "startsWith (c # p) (d # s) \<longleftrightarrow> c = d \<and> startsWith p s"
  by (auto simp: startsWith_def)

lemma join_Cons [text_simps]: "xs \<noteq> [] \<Longrightarrow> join sep (x # xs) = x @ sep @ join sep xs"
  by (cases xs) auto

lemma splitOn_not_Nil [simp]: "splitOn c s \<noteq> []"
  by (induction s) (auto split: list.splits)

lemma length_splitOn [text_simps]: "length (splitOn c s) = Suc (count_list s c)"
  by (induction s) (auto split: list.splits)

lemma join_splitOn: "join [c] (splitOn c s) = s"
proof (induction s)
  case (Cons x s)
  then show ?case
    by (cases "splitOn c s"; cases "tl (splitOn c s)") (auto simp: text_simps)
qed simp

lemma splitOn_free: "w \<in> set (splitOn c s) \<Longrightarrow> c \<notin> set w"
  by (induction s arbitrary: w) (auto split: list.splits if_splits)

lemma splitOn_append_sep:
  "c \<notin> set w \<Longrightarrow> splitOn c (w @ c # s) = w # splitOn c s"
  by (induction w) auto

lemma splitOn_no_sep: "c \<notin> set w \<Longrightarrow> splitOn c w = [w]"
  by (induction w) auto

lemma splitOn_join:
  "ps \<noteq> [] \<Longrightarrow> \<forall>p \<in> set ps. c \<notin> set p \<Longrightarrow> splitOn c (join [c] ps) = ps"
  by (induction ps rule: induct_list012) (auto simp: splitOn_no_sep splitOn_append_sep)

lemma splitOn_sep: "splitOn c (u @ c # t) = splitOn c u @ splitOn c t"
proof (induction u)
  case (Cons x u)
  then show ?case by (cases "splitOn c u") auto
qed simp

lemma join_append: "xs \<noteq> [] \<Longrightarrow> ys \<noteq> [] \<Longrightarrow> join sep (xs @ ys) = join sep xs @ sep @ join sep ys"
proof (induction sep xs rule: join.induct)
  case (2 sep x)
  then show ?case by (cases ys) auto
qed auto

text \<open>What \<open>indexOf\<close> returns: the first occurrence, or \<open>-1\<close> when there is none.\<close>

lemma indexFrom_cases:
  "(indexFrom i p s = -1 \<and> (\<forall>j \<le> length s. \<not> startsWith p (drop j s))) \<or>
   (\<exists>k \<le> length s. indexFrom i p s = int (i + k) \<and> startsWith p (drop k s) \<and>
      (\<forall>j < k. \<not> startsWith p (drop j s)))"
proof (induction i p s rule: indexFrom.induct)
  case (1 i p)
  then show ?case by (auto simp: startsWith_def)
next
  case (2 i p c s)
  show ?case
  proof (cases "startsWith p (c # s)")
    case True
    then show ?thesis by (intro disjI2 exI [of _ 0]) simp
  next
    case no: False
    from "2.IH" [OF no] show ?thesis
    proof (elim disjE exE conjE)
      assume "indexFrom (Suc i) p s = -1" "\<forall>j \<le> length s. \<not> startsWith p (drop j s)"
      with no show ?thesis
        by (intro disjI1) (auto simp: drop_Cons split: nat.splits)
    next
      fix k assume "k \<le> length s" "indexFrom (Suc i) p s = int (Suc i + k)"
        "startsWith p (drop k s)" "\<forall>j < k. \<not> startsWith p (drop j s)"
      with no show ?thesis
        by (intro disjI2 exI [of _ "Suc k"]) (auto simp: drop_Cons split: nat.splits)
    qed
  qed
qed

lemma indexOf_cases:
  obtains (none) "indexOf p s = -1" "\<And>j. j \<le> length s \<Longrightarrow> \<not> startsWith p (drop j s)"
  | (found) k where "k \<le> length s" "indexOf p s = int k" "startsWith p (drop k s)"
      "\<And>j. j < k \<Longrightarrow> \<not> startsWith p (drop j s)"
  using indexFrom_cases [of 0 p s] unfolding indexOf_def by auto

lemma occurs_in_iff: "occurs_in p s \<longleftrightarrow> (\<exists>u v. s = u @ p @ v)"
proof
  assume "occurs_in p s"
  then obtain k where "startsWith p (drop k s)"
    by (cases rule: indexOf_cases [of p s]) (auto simp: occurs_in_def)
  then obtain v where "drop k s = p @ v" by (auto simp: startsWith_iff)
  then have "s = take k s @ p @ v" by (metis append_take_drop_id)
  then show "\<exists>u v. s = u @ p @ v" by blast
next
  assume "\<exists>u v. s = u @ p @ v"
  then obtain u v where s: "s = u @ p @ v" by blast
  then have "startsWith p (drop (length u) s)" "length u \<le> length s" by auto
  then show "occurs_in p s"
    by (cases rule: indexOf_cases [of p s]) (auto simp: occurs_in_def)
qed

text \<open>A concatenation to which one element alone contributes.\<close>

lemma concat_map_single:
  assumes "distinct xs" "x \<in> set xs" "\<And>y. y \<in> set xs \<Longrightarrow> y \<noteq> x \<Longrightarrow> g y = []"
  shows "concat (map g xs) = g x"
  using assms
proof (induction xs)
  case (Cons y ys)
  then show ?case by (cases "y = x") (auto simp: concat_eq_Nil_conv)
qed simp

text \<open>The decimal form determines the number and consists of digits.\<close>

lemma dec_value: "foldl (\<lambda>a c. a * 10 + (c - 48)) 0 (dec n) = n"
proof (induction n rule: dec.induct)
  case (1 n)
  then show ?case by (subst dec.simps) (simp add: div_mult_mod_eq)
qed

lemma dec_inject [simp]: "dec m = dec n \<longleftrightarrow> m = n"
  by (metis dec_value)

lemma dec_digit: "c \<in> set (dec n) \<Longrightarrow> 48 \<le> c \<and> c \<le> 57"
proof (induction n rule: dec.induct)
  case (1 n)
  then show ?case by (subst (asm) (2) dec.simps) (auto split: if_splits)
qed

section \<open>Lemmas on replacement\<close>

text \<open>
  Text in which no match starts is copied; what follows it is replaced with the copied
  text in front.
\<close>

lemma replaceAll_skip:
  assumes "\<And>u v. a = u @ v \<Longrightarrow> v \<noteq> [] \<Longrightarrow> m (v @ s) = None"
  shows "replaceAll m r pre (a @ s) = a @ replaceAll m r (pre @ a) s"
  using assms
proof (induction a arbitrary: pre)
  case Nil
  then show ?case by simp
next
  case (Cons c a)
  have "m ((c # a) @ s) = None" using Cons.prems [of "[]" "c # a"] by simp
  moreover have "replaceAll m r (pre @ [c]) (a @ s) = a @ replaceAll m r ((pre @ [c]) @ a) s"
    using Cons.prems by (intro Cons.IH) (metis append_Cons)
  ultimately show ?case by simp
qed

lemma replaceAll_match:
  assumes "m (a @ s) = Some (length a)" and "a \<noteq> []"
  shows "replaceAll m r pre (a @ s) = r pre a s @ replaceAll m r (pre @ a) s"
  using assms by (cases a) auto

lemma lit_no_head: "p \<noteq> [] \<Longrightarrow> hd p \<noteq> c \<Longrightarrow> lit p (c # s) = None"
  by (cases p) (auto simp: lit_def)

lemma lit_mismatch: "\<not> startsWith p (c # s) \<Longrightarrow> lit p (c # s) = None"
  by (simp add: lit_def)

lemma lit_match: "startsWith p (c # s) \<Longrightarrow> lit p (c # s) = Some (length p)"
  by (simp add: lit_def)

lemma lit_self [simp]: "lit p (p @ s) = Some (length p)"
  by (simp add: lit_def)

lemma replaceAll_lit_skip:
  assumes "p \<noteq> []" and "hd p \<notin> set a"
  shows "replaceAll (lit p) r pre (a @ s) = a @ replaceAll (lit p) r (pre @ a) s"
proof (rule replaceAll_skip)
  fix u v assume "a = u @ v" "v \<noteq> []"
  with assms show "lit p (v @ s) = None" by (cases v) (auto intro!: lit_no_head)
qed

lemma replaceAll_lit_absent:
  "p \<noteq> [] \<Longrightarrow> hd p \<notin> set a \<Longrightarrow> replaceAll (lit p) r pre a = a"
  using replaceAll_lit_skip [of p a r pre "[]"] by simp

lemma getSubstitution_plain:
  "36 \<notin> set t \<Longrightarrow> getSubstitution pre mtch post t = t"
  by (induction pre mtch post t rule: getSubstitution.induct) auto

section \<open>Invariants of state machines\<close>

text \<open>
  The interface between a component with state and its properties: an initial state, a
  step relation, and a predicate that holds initially and that every step keeps. The
  reachable states of the machine then satisfy the predicate.
\<close>

inductive reach :: "('s \<Rightarrow> bool) \<Rightarrow> ('s \<Rightarrow> 's \<Rightarrow> bool) \<Rightarrow> 's \<Rightarrow> bool"
  for init :: "'s \<Rightarrow> bool" and step :: "'s \<Rightarrow> 's \<Rightarrow> bool"
where
  reach_init: "init s \<Longrightarrow> reach init step s"
| reach_step: "reach init step s \<Longrightarrow> step s t \<Longrightarrow> reach init step t"

locale invariant_machine =
  fixes init :: "'s \<Rightarrow> bool"
    and step :: "'s \<Rightarrow> 's \<Rightarrow> bool"
    and inv :: "'s \<Rightarrow> bool"
  assumes inv_init: "init s \<Longrightarrow> inv s"
    and inv_step: "inv s \<Longrightarrow> step s t \<Longrightarrow> inv t"
begin

lemma reach_inv: "reach init step s \<Longrightarrow> inv s"
  by (induction rule: reach.induct) (auto intro: inv_init inv_step)

lemma steps_inv: "step\<^sup>*\<^sup>* s t \<Longrightarrow> inv s \<Longrightarrow> inv t"
  by (induction rule: rtranclp_induct) (auto intro: inv_step)

end

text \<open>
  The interface of a refinement: each event moves the detailed state and the abstract state,
  and the relation between them is kept. Then it holds after every sequence of events.
\<close>

locale event_simulation =
  fixes cstep :: "'e \<Rightarrow> 's \<Rightarrow> 's"
    and astep :: "'e \<Rightarrow> 'r \<Rightarrow> 'r"
    and rel :: "'s \<Rightarrow> 'r \<Rightarrow> bool"
  assumes sim_step: "rel s r \<Longrightarrow> rel (cstep ev s) (astep ev r)"
begin

lemma sim_run: "rel s r \<Longrightarrow> rel (fold cstep evs s) (fold astep evs r)"
  by (induction evs arbitrary: s r) (auto intro: sim_step)

end

end
