(* ===== verification/Underscore_Timing.thy ===== *)
theory Underscore_Timing
  imports JS_Prelude
begin

text \<open>
  The rate limiters of \<^verbatim>\<open>underscore.js\<close>: \<open>throttle\<close>, \<open>debounce\<close> and \<open>delay\<close>. A limiter is a record of the
  variables its closure holds, the calls it made to the wrapped function with the
  time of each included; its timer is the time at which the timer is due. Times are the
  milliseconds that \<open>now\<close> returns. The wrapped function does not call the limiter
  itself. The lemmas show how often the wrapped function runs, that a throttled call is
  answered in the end, and which calls of a sequence a debounced function answers.
\<close>

section \<open>Throttle\<close>

text \<open>\<open>options.leading !== false\<close> and \<open>options.trailing !== false\<close>.\<close>

record t_options =
  leading :: bool
  trailing :: bool

record 'a throttle =
  t_timeout :: "int option"
  t_previous :: int
  t_args :: "'a option"
  t_calls :: "(int \<times> 'a option) list"

definition initThrottle :: "'a throttle" where
  "initThrottle = \<lparr>t_timeout = None, t_previous = 0, t_args = None, t_calls = []\<rparr>"

text \<open>\<open>result = func.apply(context, args); if (!timeout) context = args = null;\<close>\<close>

definition t_apply :: "int \<Rightarrow> 'a throttle \<Rightarrow> 'a throttle" where
  "t_apply now s =
     (let s1 = s\<lparr>t_calls := t_calls s @ [(now, t_args s)]\<rparr>
      in if t_timeout s1 = None then s1\<lparr>t_args := None\<rparr> else s1)"

definition t_later :: "t_options \<Rightarrow> int \<Rightarrow> 'a throttle \<Rightarrow> 'a throttle" where
  "t_later opts now s =
     t_apply now (s\<lparr>t_previous := (if \<not> leading opts then 0 else now), t_timeout := None\<rparr>)"

text \<open>\<open>setTimeout\<close> at a time, with a delay.\<close>

definition timerDue :: "int \<Rightarrow> int \<Rightarrow> int" where
  "timerDue now wait = now + max wait 0"

definition throttled :: "int \<Rightarrow> t_options \<Rightarrow> int \<Rightarrow> 'a \<Rightarrow> 'a throttle \<Rightarrow> 'a throttle" where
  "throttled wait opts now x s =
     (let s1 = (if t_previous s = 0 \<and> \<not> leading opts then s\<lparr>t_previous := now\<rparr> else s);
          remaining = wait - (now - t_previous s1);
          s2 = s1\<lparr>t_args := Some x\<rparr>
      in if remaining \<le> 0 \<or> remaining > wait
         then t_apply now (s2\<lparr>t_timeout := None, t_previous := now\<rparr>)
         else if t_timeout s2 = None \<and> trailing opts
         then s2\<lparr>t_timeout := Some (timerDue now remaining)\<rparr>
         else s2)"

definition t_cancel :: "'a throttle \<Rightarrow> 'a throttle" where
  "t_cancel s = s\<lparr>t_previous := 0, t_timeout := None, t_args := None\<rparr>"

text \<open>What can happen to a limiter: a call, its timer, and a call of \<open>cancel\<close>.\<close>

datatype 'a limiter_event = Call int 'a | Timer int | Cancel

fun t_step :: "int \<Rightarrow> t_options \<Rightarrow> 'a limiter_event \<Rightarrow> 'a throttle \<Rightarrow> 'a throttle" where
  "t_step wait opts (Call now x) s = throttled wait opts now x s"
| "t_step wait opts (Timer now) s = (if t_timeout s = None then s else t_later opts now s)"
| "t_step wait opts Cancel s = t_cancel s"

section \<open>Debounce\<close>

record 'a debounce =
  d_timeout :: "int option"
  d_previous :: int
  d_args :: "'a option"
  d_calls :: "(int \<times> 'a option) list"

definition initDebounce :: "'a debounce" where
  "initDebounce = \<lparr>d_timeout = None, d_previous = 0, d_args = None, d_calls = []\<rparr>"

definition d_apply :: "int \<Rightarrow> 'a debounce \<Rightarrow> 'a debounce" where
  "d_apply now s = s\<lparr>d_calls := d_calls s @ [(now, d_args s)]\<rparr>"

definition d_later :: "int \<Rightarrow> bool \<Rightarrow> int \<Rightarrow> 'a debounce \<Rightarrow> 'a debounce" where
  "d_later wait immediate now s =
     (let passed = now - d_previous s
      in if wait > passed then s\<lparr>d_timeout := Some (timerDue now (wait - passed))\<rparr>
         else
           let s1 = s\<lparr>d_timeout := None\<rparr>;
               s2 = (if \<not> immediate then d_apply now s1 else s1)
           in if d_timeout s2 = None then s2\<lparr>d_args := None\<rparr> else s2)"

definition debounced :: "int \<Rightarrow> bool \<Rightarrow> int \<Rightarrow> 'a \<Rightarrow> 'a debounce \<Rightarrow> 'a debounce" where
  "debounced wait immediate now x s =
     (let s1 = s\<lparr>d_args := Some x, d_previous := now\<rparr>
      in if d_timeout s1 = None
         then let s2 = s1\<lparr>d_timeout := Some (timerDue now wait)\<rparr>
              in if immediate then d_apply now s2 else s2
         else s1)"

definition d_cancel :: "'a debounce \<Rightarrow> 'a debounce" where
  "d_cancel s = s\<lparr>d_timeout := None, d_args := None\<rparr>"

text \<open>The timers that are due up to a time run when they are due; a timer may start another.\<close>

function d_settle :: "int \<Rightarrow> bool \<Rightarrow> int \<Rightarrow> 'a debounce \<Rightarrow> 'a debounce" where
  "d_settle wait immediate until s =
     (case d_timeout s of
        None \<Rightarrow> s
      | Some due \<Rightarrow> if due \<le> until then d_settle wait immediate until (d_later wait immediate due s) else s)"
  by pat_completeness auto
termination
  by (relation "measure (\<lambda>(wait, immediate, until, s).
      case d_timeout s of None \<Rightarrow> 0 | Some due \<Rightarrow> nat (until - due + 1))")
    (auto simp: d_later_def Let_def timerDue_def d_apply_def split: option.splits)

declare d_settle.simps [simp del]

text \<open>A sequence of calls at their times, and the timers up to a last moment.\<close>

fun d_run :: "int \<Rightarrow> bool \<Rightarrow> (int \<times> 'a) list \<Rightarrow> int \<Rightarrow> 'a debounce \<Rightarrow> 'a debounce" where
  "d_run wait immediate [] until s = d_settle wait immediate until s"
| "d_run wait immediate ((now, x) # cs) until s =
     d_run wait immediate cs until (debounced wait immediate now x (d_settle wait immediate now s))"

section \<open>Delay\<close>

text \<open>A delayed call is due \<open>wait\<close> after it was asked for; \<open>defer\<close> waits for one millisecond.\<close>

definition delay :: "'a \<Rightarrow> int \<Rightarrow> int \<Rightarrow> int \<times> 'a" where
  "delay x wait now = (timerDue now wait, x)"

definition deferU :: "'a \<Rightarrow> int \<Rightarrow> int \<times> 'a" where
  "deferU x = delay x 1"

section \<open>Lemmas: rate of a throttled function\<close>

definition timely :: "int \<Rightarrow> 'a limiter_event \<Rightarrow> 'a throttle \<Rightarrow> bool" where
  "timely clock e s \<longleftrightarrow>
     (case e of
        Call now x \<Rightarrow> clock \<le> now
      | Timer now \<Rightarrow> clock \<le> now \<and> (\<forall>due. t_timeout s = Some due \<longrightarrow> due \<le> now)
      | Cancel \<Rightarrow> False)"

fun eventTime :: "'a limiter_event \<Rightarrow> int" where
  "eventTime (Call now x) = now"
| "eventTime (Timer now) = now"
| "eventTime Cancel = 0"

text \<open>The calls of the wrapped function are \<open>wait\<close> apart.\<close>

fun apart :: "int \<Rightarrow> (int \<times> 'b) list \<Rightarrow> bool" where
  "apart w (a # b # cs) = (fst a + w \<le> fst b \<and> apart w (b # cs))"
| "apart w cs = True"

lemma apart_snoc: "apart w (cs @ [c]) \<longleftrightarrow> apart w cs \<and> (cs \<noteq> [] \<longrightarrow> fst (last cs) + w \<le> fst c)"
  by (induction w cs rule: apart.induct) auto

text \<open>The clock is part of the state, and it never runs backwards.\<close>

definition throttle_inv :: "int \<Rightarrow> t_options \<Rightarrow> int \<times> 'a throttle \<Rightarrow> bool" where
  "throttle_inv wait opts cs \<longleftrightarrow>
     (case cs of (clock, s) \<Rightarrow>
       0 < clock \<and> apart wait (t_calls s) \<and> t_previous s \<le> clock \<and>
       (t_calls s \<noteq> [] \<longrightarrow> fst (last (t_calls s)) \<le> clock) \<and>
       (t_calls s \<noteq> [] \<longrightarrow> t_previous s \<noteq> 0 \<longrightarrow> fst (last (t_calls s)) \<le> t_previous s) \<and>
       (t_calls s \<noteq> [] \<longrightarrow> t_previous s = 0 \<longrightarrow> \<not> leading opts) \<and>
       (t_previous s = 0 \<longrightarrow> \<not> leading opts \<longrightarrow> t_timeout s = None) \<and>
       (case t_timeout s of None \<Rightarrow> True | Some due \<Rightarrow> t_previous s + wait \<le> due) \<and>
       0 \<le> t_previous s)"

inductive throttle_tick :: "int \<Rightarrow> t_options \<Rightarrow> int \<times> 'a throttle \<Rightarrow> int \<times> 'a throttle \<Rightarrow> bool"
  for wait opts where
  "timely clock e s \<Longrightarrow> throttle_tick wait opts (clock, s) (eventTime e, t_step wait opts e s)"

inductive_cases throttle_tickE: "throttle_tick wait opts cs cs'"

lemma throttle_inv_step:
  assumes "throttle_inv wait opts (clock, s)" "timely clock e s"
  shows "throttle_inv wait opts (eventTime e, t_step wait opts e s)"
proof (cases e)
  case (Call now x)
  then show ?thesis using assms
    by (auto simp: throttle_inv_def timely_def throttled_def t_apply_def Let_def timerDue_def apart_snoc
        split: option.splits)
next
  case (Timer now)
  then show ?thesis using assms
    by (auto simp: throttle_inv_def timely_def t_later_def t_apply_def Let_def apart_snoc
        split: option.splits)
qed (use assms in \<open>simp add: timely_def\<close>)

definition throttle_start :: "int \<times> 'a throttle \<Rightarrow> bool" where
  "throttle_start cs \<longleftrightarrow> 0 < fst cs \<and> snd cs = initThrottle"

interpretation tm: invariant_machine throttle_start "throttle_tick wait opts" "throttle_inv wait opts"
  for wait opts
proof unfold_locales
  show "throttle_inv wait opts cs" if "throttle_start cs" for cs :: "int \<times> 'a throttle"
    using that by (auto simp: throttle_start_def initThrottle_def throttle_inv_def)
  show "throttle_inv wait opts cs'" if "throttle_inv wait opts cs" "throttle_tick wait opts cs cs'"
    for cs cs' :: "int \<times> 'a throttle"
    using that by (auto elim!: throttle_tickE intro: throttle_inv_step simp del: t_step.simps)
qed

section \<open>Lemmas: progress\<close>

text \<open>
  A machine that owes something while \<open>owes\<close> holds: every event that may happen keeps the
  measure, and the helpful ones lower it or settle the debt. A run in which a helpful
  event always comes in the end settles every debt.
\<close>

locale owing_machine =
  fixes step :: "'e \<Rightarrow> 's \<Rightarrow> 's"
    and allowed :: "'s \<Rightarrow> 'e \<Rightarrow> bool"
    and owes :: "'s \<Rightarrow> bool"
    and helpful :: "'s \<Rightarrow> 'e \<Rightarrow> bool"
    and rank :: "'s \<Rightarrow> nat"
  assumes keeps: "owes s \<Longrightarrow> allowed s e \<Longrightarrow> owes (step e s) \<Longrightarrow> rank (step e s) \<le> rank s"
    and lowers: "owes s \<Longrightarrow> allowed s e \<Longrightarrow> helpful s e \<Longrightarrow> owes (step e s) \<Longrightarrow> rank (step e s) < rank s"
begin

definition fair_run :: "(nat \<Rightarrow> 'e) \<Rightarrow> (nat \<Rightarrow> 's) \<Rightarrow> bool" where
  "fair_run ev r \<longleftrightarrow>
     (\<forall>i. r (Suc i) = step (ev i) (r i) \<and> allowed (r i) (ev i)) \<and>
     (\<forall>i. owes (r i) \<longrightarrow> (\<exists>j\<ge>i. helpful (r j) (ev j) \<or> \<not> owes (r j)))"

lemma rank_mono:
  assumes "fair_run ev r" "i \<le> j" "\<forall>k. i \<le> k \<and> k \<le> j \<longrightarrow> owes (r k)"
  shows "rank (r j) \<le> rank (r i)"
  using assms(2,3)
proof (induction rule: dec_induct)
  case (step n)
  have "rank (r (Suc n)) \<le> rank (r n)"
    using assms(1) step(1,2,4) keeps [of "r n" "ev n"]
    by (metis fair_run_def le_Suc_eq order_refl)
  then show ?case using step by (meson le_SucI le_trans)
qed simp

lemma settles:
  assumes run: "fair_run ev r"
  shows "\<exists>j\<ge>i. \<not> owes (r j)"
proof (induction "rank (r i)" arbitrary: i rule: less_induct)
  case less
  show ?case
  proof (rule ccontr)
    assume no: "\<not> (\<exists>j\<ge>i. \<not> owes (r j))"
    then obtain j where j: "j \<ge> i" "helpful (r j) (ev j)" using run by (auto simp: fair_run_def)
    have "rank (r (Suc j)) < rank (r j)"
      using no j run lowers [of "r j" "ev j"] by (metis fair_run_def le_SucI)
    also have "rank (r j) \<le> rank (r i)" using rank_mono [OF run j(1)] no by auto
    finally obtain k where "k \<ge> Suc j" "\<not> owes (r k)" using less by blast
    then show False using no j(1) by (meson Suc_leD le_trans)
  qed
qed

end

text \<open>A throttled function with a trailing call owes a call while it holds arguments.\<close>

definition t_owes :: "'a throttle \<Rightarrow> bool" where
  "t_owes s \<longleftrightarrow> t_args s \<noteq> None \<and> t_timeout s \<noteq> None"

definition not_cancel :: "'a throttle \<Rightarrow> 'a limiter_event \<Rightarrow> bool" where
  "not_cancel s e \<longleftrightarrow> e \<noteq> Cancel"

definition is_timer :: "'a throttle \<Rightarrow> 'a limiter_event \<Rightarrow> bool" where
  "is_timer s e \<longleftrightarrow> (\<exists>now. e = Timer now)"

interpretation to: owing_machine "t_step wait opts" not_cancel t_owes is_timer "\<lambda>s. 0"
  for wait opts
  by unfold_locales (auto simp: t_owes_def is_timer_def t_later_def t_apply_def Let_def)

lemmas initThrottle_defs = throttled_def t_later_def t_apply_def t_owes_def Let_def

lemma t_owes_iff:
  assumes "trailing opts" "r 0 = initThrottle" "\<And>i. r (Suc i) = t_step wait opts (ev i) (r i)" "\<And>i. ev i \<noteq> Cancel"
  shows "(t_args (r i) = None) = (t_timeout (r i) = None)"
proof (induction i)
  case 0
  show ?case using assms(2) by (simp add: initThrottle_def)
next
  case (Suc i)
  then show ?case using assms(1,3) assms(4) [of i] by (cases "ev i") (auto simp: initThrottle_defs)
qed

text \<open>While a call is owed, the arguments held are those of the latest call.\<close>

definition is_call :: "'a limiter_event \<Rightarrow> bool" where
  "is_call e \<longleftrightarrow> (\<exists>t x. e = Call t x)"

lemma t_held_latest:
  assumes run: "\<And>i. r (Suc i) = t_step wait opts (ev i) (r i)" "\<And>i. ev i \<noteq> Cancel"
    and i: "is_call (ev i)" "Suc i \<le> m" and owes: "\<And>n. Suc i \<le> n \<Longrightarrow> n \<le> m \<Longrightarrow> t_owes (r n)"
  shows "\<exists>k t y. i \<le> k \<and> k < m \<and> ev k = Call t y \<and> t_args (r m) = Some y \<and>
    (\<forall>l. k < l \<and> l < m \<longrightarrow> \<not> is_call (ev l))"
  using i(2) owes
proof (induction m rule: dec_induct)
  case base
  obtain t x where e: "ev i = Call t x" using i(1) by (auto simp: is_call_def)
  have "t_args (r (Suc i)) = Some x"
    using base [of "Suc i"] e run(1) [of i] by (auto simp: initThrottle_defs split: if_splits)
  with e show ?case by (intro exI [of _ i]) auto
next
  case (step m)
  have o: "t_owes (r m)" "t_owes (r (Suc m))" using step by simp_all
  show ?case
  proof (cases "ev m")
    case (Call t x)
    then have "t_args (r (Suc m)) = Some x"
      using o(2) run(1) [of m] by (auto simp: initThrottle_defs split: if_splits)
    with Call step(1) show ?thesis by (intro exI [of _ m]) auto
  next
    case (Timer t)
    then show ?thesis using o run(1) [of m] by (auto simp: initThrottle_defs)
  qed (use run(2) [of m] in simp)
qed

section \<open>Lemmas: a debounced sequence of calls\<close>

text \<open>
  The calls a debounced function answers. At the end of a burst it answers the last call,
  \<open>wait\<close> after it; with \<open>immediate\<close> it answers the first one at once.
\<close>

fun burstEnds :: "int \<Rightarrow> (int \<times> 'a) list \<Rightarrow> (int \<times> 'a option) list" where
  "burstEnds wait [] = []"
| "burstEnds wait [(t, x)] = [(t + wait, Some x)]"
| "burstEnds wait ((t, x) # (t', y) # cs) =
     (if t + wait \<le> t' then [(t + wait, Some x)] else []) @ burstEnds wait ((t', y) # cs)"

fun burstStarts :: "int \<Rightarrow> int option \<Rightarrow> (int \<times> 'a) list \<Rightarrow> (int \<times> 'a option) list" where
  "burstStarts wait prev [] = []"
| "burstStarts wait prev ((t, x) # cs) =
     (if (case prev of None \<Rightarrow> True | Some p \<Rightarrow> p + wait \<le> t) then [(t, Some x)] else []) @
     burstStarts wait (Some t) cs"

text \<open>A limiter that is waiting after a call at time \<open>t\<close>.\<close>

definition d_waiting :: "int \<Rightarrow> int \<Rightarrow> int \<Rightarrow> 'a \<Rightarrow> 'a debounce \<Rightarrow> bool" where
  "d_waiting wait clock t x s \<longleftrightarrow>
     d_previous s = t \<and> d_args s = Some x \<and>
     (\<exists>due. d_timeout s = Some due \<and> clock < due \<and> due \<le> t + wait)"

definition d_answer :: "bool \<Rightarrow> int \<Rightarrow> 'a \<Rightarrow> (int \<times> 'a option) list" where
  "d_answer immediate t x = (if immediate then [] else [(t, Some x)])"

lemma d_settle_waiting:
  assumes "d_waiting wait clock t x s" "t \<le> clock" "clock \<le> until"
  shows "if t + wait \<le> until
    then d_timeout (d_settle wait imm until s) = None \<and>
         d_calls (d_settle wait imm until s) = d_calls s @ d_answer imm (t + wait) x
    else d_waiting wait until t x (d_settle wait imm until s) \<and>
         d_calls (d_settle wait imm until s) = d_calls s"
proof -
  obtain due where d: "d_timeout s = Some due" "clock < due" "due \<le> t + wait"
    using assms(1) by (auto simp: d_waiting_def)
  have late: "d_timeout (d_settle wait imm until u) = None \<and>
      d_calls (d_settle wait imm until u) = d_calls u @ d_answer imm (t + wait) x"
    if "d_timeout u = Some (t + wait)" "d_previous u = t" "d_args u = Some x" "t + wait \<le> until" for u
    using that by (simp add: d_settle.simps [of _ _ _ u] d_settle.simps d_later_def d_apply_def d_answer_def Let_def)
  show ?thesis
  proof (cases "due \<le> until \<and> due < t + wait")
    case True
    have e: "d_settle wait imm until s = d_settle wait imm until (s\<lparr>d_timeout := Some (t + wait)\<rparr>)"
      using True d assms(1)
      by (simp add: d_settle.simps [of _ _ _ s] d_later_def d_waiting_def timerDue_def Let_def add.commute)
    show ?thesis
    proof (cases "t + wait \<le> until")
      case True
      with late [of "s\<lparr>d_timeout := Some (t + wait)\<rparr>"] assms(1) show ?thesis
        unfolding e by (simp add: d_waiting_def)
    next
      case False
      with assms(1) d show ?thesis unfolding e by (simp add: d_settle.simps d_waiting_def)
    qed
  next
    case False
    then show ?thesis
      using late [of s] d assms by (auto simp: d_waiting_def d_settle.simps [of _ _ _ s])
  qed
qed

lemma d_settle_idle: "d_timeout s = None \<Longrightarrow> d_settle wait imm until s = s"
  by (simp add: d_settle.simps)

lemma debounced_waiting:
  assumes "0 < wait" "d_timeout s = None \<or> d_waiting wait t p y s" "p \<le> t"
  shows "d_waiting wait t t x (debounced wait imm t x s)"
    "d_calls (debounced wait imm t x s) =
      d_calls s @ (if imm \<and> d_timeout s = None then [(t, Some x)] else [])"
  using assms by (auto simp: d_waiting_def debounced_def d_apply_def timerDue_def Let_def)

lemma d_run_waiting:
  assumes "0 < wait" "d_waiting wait t t x s" "sorted (t # map fst cs)"
    "last (t # map fst cs) + wait \<le> until"
  shows "d_calls (d_run wait imm cs until s) =
    d_calls s @ (if imm then burstStarts wait (Some t) cs else burstEnds wait ((t, x) # cs))"
  using assms(2-)
proof (induction cs arbitrary: t x s)
  case Nil
  then show ?case using d_settle_waiting [of wait t t x s until imm] assms(1) by (auto simp: d_answer_def)
next
  case (Cons c cs)
  obtain t' y where c: "c = (t', y)" by (cases c)
  let ?s = "d_settle wait imm t' s"
  have le: "t \<le> t'" using Cons.prems c by simp
  have st: "if t + wait \<le> t' then d_timeout ?s = None \<and> d_calls ?s = d_calls s @ d_answer imm (t + wait) x
      else d_waiting wait t' t x ?s \<and> d_calls ?s = d_calls s"
    using d_settle_waiting [OF Cons.prems(1), of t' imm] le by simp
  then have w: "d_timeout ?s = None \<or> d_waiting wait t' t x ?s" by (auto split: if_splits)
  have "d_calls (d_run wait imm cs until (debounced wait imm t' y ?s)) =
      d_calls (debounced wait imm t' y ?s) @
      (if imm then burstStarts wait (Some t') cs else burstEnds wait ((t', y) # cs))"
    using Cons.prems c by (intro Cons.IH debounced_waiting(1) [OF assms(1) w le]) auto
  then show ?case
    using st c by (auto simp: debounced_waiting(2) [OF assms(1) w le] d_answer_def d_waiting_def split: if_splits)
qed

section \<open>Properties\<close>

text \<open>
  C21. A throttled function is not called more often than once in \<open>wait\<close> milliseconds, with
  or without the leading call: while the clock does not run backwards, timers do not
  run early and the limiter is not cancelled, the calls of the wrapped function
  are at least \<open>wait\<close> apart, however late the timers are.
\<close>
theorem throttle_rate:
  "reach throttle_start (throttle_tick wait opts) (clock, s) \<Longrightarrow> apart wait (t_calls s)"
  using tm.reach_inv [of wait opts "(clock, s)"] by (simp add: throttle_inv_def)

theorem throttle_rate_witness:
  "let opts = \<lparr>leading = True, trailing = True\<rparr>;
       s1 = throttled 100 opts 1000 (1 :: nat) initThrottle;
       s2 = throttled 100 opts 1010 2 s1;
       s3 = t_step 100 opts (Timer 1150) s2
   in apart 100 (t_calls s3) \<and> t_calls s3 = [(1000, Some 1), (1150, Some 2)]"
proof -
  let ?o = "\<lparr>leading = True, trailing = True\<rparr>"
  let ?e = "[Call 1000 (1 :: nat), Call 1010 2, Timer 1150]"
  have "reach throttle_start (throttle_tick 100 ?o)
      (1150, t_step 100 ?o (?e ! 2) (t_step 100 ?o (?e ! 1) (t_step 100 ?o (?e ! 0) initThrottle)))"
  proof -
    have "reach throttle_start (throttle_tick 100 ?o) (1, initThrottle :: nat throttle)"
      by (rule reach.intros) (simp add: throttle_start_def)
    then have "reach throttle_start (throttle_tick 100 ?o) (1000, t_step 100 ?o (?e ! 0) initThrottle)"
      by (rule reach.intros) (use throttle_tick.intros [of 1 "?e ! 0"] in \<open>simp add: timely_def\<close>)
    then have "reach throttle_start (throttle_tick 100 ?o)
        (1010, t_step 100 ?o (?e ! 1) (t_step 100 ?o (?e ! 0) initThrottle))"
      by (rule reach.intros) (use throttle_tick.intros [of 1000 "?e ! 1"] in \<open>simp add: timely_def\<close>)
    then show ?thesis
      by (rule reach.intros)
        (use throttle_tick.intros [of 1010 "?e ! 2" "t_step 100 ?o (?e ! 1) (t_step 100 ?o (?e ! 0) initThrottle)" 100 ?o]
          in \<open>simp add: timely_def initThrottle_def throttled_def t_apply_def timerDue_def Let_def\<close>)
  qed
  from throttle_rate [OF this] show ?thesis
    by (simp add: initThrottle_def throttled_def t_later_def t_apply_def timerDue_def Let_def)
qed

text \<open>
  C22. Every call of a throttled function with a trailing call is answered: in every
  infinite run without \<open>cancel\<close> in which a timer that was started runs in the end
  unless it is cleared, the wrapped function is called after each call of the limiter,
  with the arguments of that call or, when more calls came in the meantime, of the
  latest one.
\<close>
theorem throttle_responds:
  assumes opts: "trailing opts" and start: "r 0 = initThrottle"
    and run: "\<And>i. r (Suc i) = t_step wait opts (ev i) (r i)" "\<And>i. ev i \<noteq> Cancel"
    and fair: "\<And>i. t_timeout (r i) \<noteq> None \<Longrightarrow> \<exists>j\<ge>i. (\<exists>now. ev j = Timer now) \<or> t_timeout (r j) = None"
    and call: "ev i = Call now x"
  shows "\<exists>k j t t' y. i \<le> k \<and> k \<le> j \<and> ev k = Call t y \<and> (\<forall>l. k < l \<and> l \<le> j \<longrightarrow> \<not> is_call (ev l)) \<and>
    t_calls (r (Suc j)) = t_calls (r j) @ [(t', Some y)]"
proof -
  have iff: "t_owes (r n) \<longleftrightarrow> t_timeout (r n) \<noteq> None" for n
    using t_owes_iff [OF opts start run] by (auto simp: t_owes_def)
  have "to.fair_run wait opts ev r"
    using run fair by (auto simp: to.fair_run_def not_cancel_def is_timer_def iff)
  then obtain n where "n \<ge> Suc i" "\<not> t_owes (r n)" using to.settles by blast
  then have "\<exists>j. i \<le> j \<and> \<not> t_owes (r (Suc j))" by (intro exI [of _ "n - 1"]) auto
  then obtain j where j: "i \<le> j" "\<not> t_owes (r (Suc j))" "\<And>m. i \<le> m \<Longrightarrow> m < j \<Longrightarrow> t_owes (r (Suc m))"
    using exists_least_iff [of "\<lambda>j. i \<le> j \<and> \<not> t_owes (r (Suc j))"] by auto
  have owes: "t_owes (r m)" if "Suc i \<le> m" "m \<le> j" for m
    using j(3) [of "m - 1"] that by (cases m) auto
  show ?thesis
  proof (cases "ev j")
    case (Call t y)
    then have "t_calls (r (Suc j)) = t_calls (r j) @ [(t, Some y)]"
      using j(2) run(1) [of j] opts by (auto simp: initThrottle_defs split: if_splits)
    with Call j(1) show ?thesis by (intro exI [of _ j]) auto
  next
    case (Timer t)
    then have m: "Suc i \<le> j" using call j(1) by (metis le_antisym limiter_event.distinct(1) not_less_eq_eq)
    have "is_call (ev i)" using call by (simp add: is_call_def)
    from t_held_latest [OF run this m owes] obtain k t0 y where k: "i \<le> k" "k < j" "ev k = Call t0 y"
      "t_args (r j) = Some y" "\<forall>l. k < l \<and> l < j \<longrightarrow> \<not> is_call (ev l)" by auto
    have "t_calls (r (Suc j)) = t_calls (r j) @ [(t, Some y)]"
      using Timer run(1) [of j] owes [OF m] k(4) by (auto simp: initThrottle_defs)
    moreover have "\<forall>l. k < l \<and> l \<le> j \<longrightarrow> \<not> is_call (ev l)"
      using k(5) Timer by (metis is_call_def le_neq_implies_less limiter_event.distinct(1))
    ultimately show ?thesis using k by (intro exI [of _ k] exI [of _ j]) auto
  qed (use run(2) in blast)
qed

definition sampleEvents :: "nat \<Rightarrow> nat limiter_event" where
  "sampleEvents i = (if i = 0 then Call 1000 1 else if i = 1 then Call 1010 2 else Timer 1150)"

definition sampleRun :: "nat \<Rightarrow> nat throttle" where
  "sampleRun = rec_nat initThrottle (\<lambda>i. t_step 100 \<lparr>leading = True, trailing = True\<rparr> (sampleEvents i))"

theorem throttle_responds_witness:
  "\<exists>k j t t' y. 1 \<le> k \<and> k \<le> j \<and> sampleEvents k = Call t y \<and>
    t_calls (sampleRun (Suc j)) = t_calls (sampleRun j) @ [(t', Some y)]"
proof -
  have run: "sampleRun 0 = initThrottle"
    "sampleRun (Suc i) = t_step 100 \<lparr>leading = True, trailing = True\<rparr> (sampleEvents i) (sampleRun i)" for i
    by (simp_all add: sampleRun_def)
  have fair: "\<exists>j\<ge>i. (\<exists>now. sampleEvents j = Timer now) \<or> t_timeout (sampleRun j) = None" for i
    by (rule exI [of _ "i + 2"]) (simp add: sampleEvents_def)
  have "\<exists>k j t t' y. 1 \<le> k \<and> k \<le> j \<and> sampleEvents k = Call t y \<and>
      (\<forall>l. k < l \<and> l \<le> j \<longrightarrow> \<not> is_call (sampleEvents l)) \<and>
      t_calls (sampleRun (Suc j)) = t_calls (sampleRun j) @ [(t', Some y)]"
    by (rule throttle_responds [OF _ run _ fair]) (auto simp: sampleEvents_def)
  then show ?thesis by blast
qed

text \<open>
  C23. What a debounced function answers. For calls in the order of their times,
  timers that run when they are due, and enough time after the last call, the
  wrapped function is called exactly once for each burst of calls: \<open>wait\<close> after the last
  call of the burst and with its arguments, or, with \<open>immediate\<close>, at the first call of the burst
  and with its arguments. A burst ends when \<open>wait\<close> milliseconds pass without a call.
\<close>
theorem debounce_bursts:
  fixes cs :: "(int \<times> 'a) list"
  assumes "0 < wait" "sorted (map fst cs)" "cs \<noteq> []" "fst (last cs) + wait \<le> until"
  shows "d_calls (d_run wait imm cs until initDebounce) =
    (if imm then burstStarts wait None cs else burstEnds wait cs)"
proof -
  obtain t x cs' where c: "cs = (t, x) # cs'" using assms(3) by (metis list.exhaust surj_pair)
  have w: "d_waiting wait t t x (debounced wait imm t x initDebounce)"
    "d_calls (debounced wait imm t x initDebounce) = (if imm then [(t, Some x)] else [])"
    using debounced_waiting [OF assms(1), of "initDebounce :: 'a debounce" t t] by (auto simp: initDebounce_def)
  have "last (t # map fst cs') + wait \<le> until"
    using assms(4) c by (cases cs' rule: rev_cases) auto
  then show ?thesis
    using d_run_waiting [OF assms(1) w(1), of cs' until] assms(2) c w(2)
    by (simp add: d_settle_idle initDebounce_def)
qed

theorem debounce_bursts_witness:
  "d_calls (d_run 50 False [(0, 1), (20, 2 :: nat), (90, 3)] 200 initDebounce) = [(70, Some 2), (140, Some 3)]"
  using debounce_bursts [of 50 "[(0, 1), (20, 2 :: nat), (90, 3)]" 200 False] by simp

end
