(* ===== verification/Underscore_Values.thy ===== *)
theory Underscore_Values
  imports JS_Prelude
begin

text \<open>
  The values of the language as the collection library of the manual
  (\<^verbatim>\<open>prebuilts/qemu/share/doc/qemu/_static/underscore.js\<close>) sees them, its type tests, and its
  deep comparison \<open>isEqual\<close>. Primitive values are compared by value; arrays, objects and
  functions live in a heap and are compared by address, so that sharing and cycles are
  part of the model. Numbers are the integers with the two infinities, \<open>NaN\<close> and the
  negative zero. Symbols, typed arrays, maps and sets, and the library's own wrapper
  objects are left out; so are objects with an own property called \<open>constructor\<close>.
\<close>

section \<open>Values\<close>

datatype jsnum = NaN | NegInf | NegZero | Fin int | PosInf

datatype val = Undef | Null | Bool bool | Num jsnum | Str jstring | Ref nat

text \<open>The constructor of an object: \<open>Object\<close> of some frame, or another function.\<close>

datatype ctor = ObjectOf nat | ClassOf nat

datatype hobj =
    HArr "val list"
  | HArgs "val list"
  | HObj ctor "(jstring \<times> val) list"
  | HFun nat
  | HBool bool
  | HNum jsnum
  | HStr jstring
  | HDate jsnum
  | HRegExp jstring

type_synonym heap = "hobj list"

definition hget :: "heap \<Rightarrow> nat \<Rightarrow> hobj option" where
  "hget h p = (if p < length h then Some (h ! p) else None)"

text \<open>\<open>a === b\<close> on numbers and on values.\<close>

definition numEq :: "jsnum \<Rightarrow> jsnum \<Rightarrow> bool" where
  "numEq m n \<longleftrightarrow> m \<noteq> NaN \<and> n \<noteq> NaN \<and>
     (m = n \<or> m \<in> {NegZero, Fin 0} \<and> n \<in> {NegZero, Fin 0})"

fun strictEq :: "val \<Rightarrow> val \<Rightarrow> bool" where
  "strictEq (Num m) (Num n) = numEq m n"
| "strictEq a b = (a = b)"

section \<open>Type tests\<close>

text \<open>The name that \<open>Object.prototype.toString\<close> gives a value.\<close>

datatype cls = CUndefined | CNull | CBoolean | CNumber | CString | CArray | CArguments | CObject
  | CFunction | CDate | CRegExp

definition classOf :: "heap \<Rightarrow> val \<Rightarrow> cls" where
  "classOf h v =
     (case v of
        Undef \<Rightarrow> CUndefined | Null \<Rightarrow> CNull | Bool b \<Rightarrow> CBoolean | Num n \<Rightarrow> CNumber | Str s \<Rightarrow> CString
      | Ref p \<Rightarrow>
          (case hget h p of
             None \<Rightarrow> CUndefined
           | Some (HArr xs) \<Rightarrow> CArray | Some (HArgs xs) \<Rightarrow> CArguments | Some (HObj c es) \<Rightarrow> CObject
           | Some (HFun f) \<Rightarrow> CFunction | Some (HBool b) \<Rightarrow> CBoolean | Some (HNum n) \<Rightarrow> CNumber
           | Some (HStr s) \<Rightarrow> CString | Some (HDate n) \<Rightarrow> CDate | Some (HRegExp s) \<Rightarrow> CRegExp))"

definition tagTester :: "cls \<Rightarrow> heap \<Rightarrow> val \<Rightarrow> bool" where
  "tagTester c h v \<longleftrightarrow> classOf h v = c"

definition isString :: "heap \<Rightarrow> val \<Rightarrow> bool" where "isString = tagTester CString"
definition isNumber :: "heap \<Rightarrow> val \<Rightarrow> bool" where "isNumber = tagTester CNumber"
definition isDate :: "heap \<Rightarrow> val \<Rightarrow> bool" where "isDate = tagTester CDate"
definition isRegExp :: "heap \<Rightarrow> val \<Rightarrow> bool" where "isRegExp = tagTester CRegExp"
definition isFunction :: "heap \<Rightarrow> val \<Rightarrow> bool" where "isFunction = tagTester CFunction"
definition isArguments :: "heap \<Rightarrow> val \<Rightarrow> bool" where "isArguments = tagTester CArguments"
definition isArray :: "heap \<Rightarrow> val \<Rightarrow> bool" where "isArray = tagTester CArray"

definition isNull :: "val \<Rightarrow> bool" where "isNull v \<longleftrightarrow> v = Null"
definition isUndefined :: "val \<Rightarrow> bool" where "isUndefined v \<longleftrightarrow> v = Undef"

text \<open>\<open>v == null\<close>.\<close>

definition nullish :: "val \<Rightarrow> bool" where
  "nullish v \<longleftrightarrow> v = Undef \<or> v = Null"

definition isBoolean :: "heap \<Rightarrow> val \<Rightarrow> bool" where
  "isBoolean h v \<longleftrightarrow> v = Bool True \<or> v = Bool False \<or> classOf h v = CBoolean"

text \<open>\<open>typeof v\<close> is \<open>function\<close> or, \<open>null\<close> apart, \<open>object\<close>.\<close>

definition isObject :: "heap \<Rightarrow> val \<Rightarrow> bool" where
  "isObject h v \<longleftrightarrow> (case v of Ref p \<Rightarrow> p < length h | _ \<Rightarrow> False)"

definition typeofObject :: "heap \<Rightarrow> val \<Rightarrow> bool" where
  "typeofObject h v \<longleftrightarrow> v = Null \<or> isObject h v \<and> classOf h v \<noteq> CFunction"

definition isNaN :: "heap \<Rightarrow> val \<Rightarrow> bool" where
  "isNaN h v \<longleftrightarrow> isNumber h v \<and>
     (case v of Num n \<Rightarrow> n = NaN | Ref p \<Rightarrow> hget h p = Some (HNum NaN) | _ \<Rightarrow> False)"

section \<open>Properties of objects\<close>

definition keys :: "heap \<Rightarrow> val \<Rightarrow> jstring list" where
  "keys h v =
     (case v of
        Ref p \<Rightarrow>
          (case hget h p of
             Some (HObj c es) \<Rightarrow> map fst es
           | Some (HArr xs) \<Rightarrow> map dec [0..<length xs]
           | Some (HArgs xs) \<Rightarrow> map dec [0..<length xs]
           | Some (HStr s) \<Rightarrow> map dec [0..<length s]
           | _ \<Rightarrow> [])
      | _ \<Rightarrow> [])"

text \<open>The elements of an array-like value, and its own property of a name.\<close>

definition elems :: "heap \<Rightarrow> val \<Rightarrow> val list option" where
  "elems h v =
     (case v of
        Str s \<Rightarrow> Some (map (\<lambda>c. Str [c]) s)
      | Ref p \<Rightarrow>
          (case hget h p of
             Some (HArr xs) \<Rightarrow> Some xs
           | Some (HArgs xs) \<Rightarrow> Some xs
           | Some (HStr s) \<Rightarrow> Some (map (\<lambda>c. Str [c]) s)
           | _ \<Rightarrow> None)
      | _ \<Rightarrow> None)"

definition own :: "heap \<Rightarrow> val \<Rightarrow> jstring \<Rightarrow> val option" where
  "own h v k =
     (case elems h v of
        Some xs \<Rightarrow>
          if k = js ''length'' then Some (Num (Fin (int (length xs))))
          else map_of (zip (map dec [0..<length xs]) xs) k
      | None \<Rightarrow>
          (case v of
             Ref p \<Rightarrow> (case hget h p of Some (HObj c es) \<Rightarrow> map_of es k | _ \<Rightarrow> None)
           | _ \<Rightarrow> None))"

text \<open>\<open>has(obj, key)\<close> and \<open>obj[key]\<close>, which is \<open>undefined\<close> where there is nothing.\<close>

definition hasOwn :: "heap \<Rightarrow> val \<Rightarrow> jstring \<Rightarrow> bool" where
  "hasOwn h v k \<longleftrightarrow> \<not> nullish v \<and> own h v k \<noteq> None"

definition getProp :: "heap \<Rightarrow> val \<Rightarrow> jstring \<Rightarrow> val" where
  "getProp h v k = (case own h v k of Some x \<Rightarrow> x | None \<Rightarrow> Undef)"

definition shallowProperty :: "jstring \<Rightarrow> heap \<Rightarrow> val \<Rightarrow> val" where
  "shallowProperty k h v = (if nullish v then Undef else getProp h v k)"

definition getLength :: "heap \<Rightarrow> val \<Rightarrow> val" where
  "getLength = shallowProperty (js ''length'')"

definition MAX_ARRAY_INDEX :: int where
  "MAX_ARRAY_INDEX = 2 ^ 53 - 1"

definition createSizePropertyCheck :: "(heap \<Rightarrow> val \<Rightarrow> val) \<Rightarrow> heap \<Rightarrow> val \<Rightarrow> bool" where
  "createSizePropertyCheck getSizeProperty h v \<longleftrightarrow>
     (case getSizeProperty h v of
        Num (Fin n) \<Rightarrow> n \<ge> 0 \<and> n \<le> MAX_ARRAY_INDEX
      | Num NegZero \<Rightarrow> True
      | _ \<Rightarrow> False)"

definition isArrayLike :: "heap \<Rightarrow> val \<Rightarrow> bool" where
  "isArrayLike = createSizePropertyCheck getLength"

definition isEmpty :: "heap \<Rightarrow> val \<Rightarrow> bool" where
  "isEmpty h v =
     (if nullish v then True
      else if (case getLength h v of Num n \<Rightarrow> True | _ \<Rightarrow> False) \<and> (isArray h v \<or> isString h v \<or> isArguments h v)
      then strictEq (getLength h v) (Num (Fin 0))
      else keys h v = [])"

text \<open>\<open>isMatch\<close>: every key of \<open>attrs\<close> is in the object with the same value.\<close>

definition isMatch :: "heap \<Rightarrow> val \<Rightarrow> val \<Rightarrow> bool" where
  "isMatch h object attrs =
     (if nullish object then keys h attrs = []
      else list_all (\<lambda>k. strictEq (getProp h attrs k) (getProp h object k) \<and> own h object k \<noteq> None)
             (keys h attrs))"

text \<open>\<open>deepGet\<close>, \<open>get\<close> and the public \<open>has\<close> along a path.\<close>

fun deepStep :: "heap \<Rightarrow> val \<Rightarrow> jstring list \<Rightarrow> val" where
  "deepStep h v [] = v"
| "deepStep h v (k # ks) = (if nullish v then Undef else deepStep h (getProp h v k) ks)"

definition deepGet :: "heap \<Rightarrow> val \<Rightarrow> jstring list \<Rightarrow> val" where
  "deepGet h v path = (if path = [] then Undef else deepStep h v path)"

definition getPath :: "heap \<Rightarrow> val \<Rightarrow> jstring list \<Rightarrow> val \<Rightarrow> val" where
  "getPath h v path defaultValue =
     (let value = deepGet h v path in if isUndefined value then defaultValue else value)"

fun hasStep :: "heap \<Rightarrow> val \<Rightarrow> jstring list \<Rightarrow> bool" where
  "hasStep h v [] = True"
| "hasStep h v (k # ks) = (hasOwn h v k \<and> hasStep h (getProp h v k) ks)"

definition hasPath :: "heap \<Rightarrow> val \<Rightarrow> jstring list \<Rightarrow> bool" where
  "hasPath h v path \<longleftrightarrow> path \<noteq> [] \<and> hasStep h v path"

section \<open>Deep comparison\<close>

text \<open>The text, the number and the truth value of a primitive value or of its object.\<close>

definition strOf :: "heap \<Rightarrow> val \<Rightarrow> jstring" where
  "strOf h v =
     (case v of Str s \<Rightarrow> s
      | Ref p \<Rightarrow> (case hget h p of Some (HStr s) \<Rightarrow> s | Some (HRegExp s) \<Rightarrow> s | _ \<Rightarrow> [])
      | _ \<Rightarrow> [])"

definition numOf :: "heap \<Rightarrow> val \<Rightarrow> jsnum" where
  "numOf h v =
     (case v of Num n \<Rightarrow> n
      | Bool b \<Rightarrow> Fin (if b then 1 else 0)
      | Ref p \<Rightarrow>
          (case hget h p of
             Some (HNum n) \<Rightarrow> n | Some (HDate n) \<Rightarrow> n
           | Some (HBool b) \<Rightarrow> Fin (if b then 1 else 0)
           | _ \<Rightarrow> NaN)
      | _ \<Rightarrow> NaN)"

definition ctorOf :: "heap \<Rightarrow> val \<Rightarrow> ctor" where
  "ctorOf h v =
     (case v of Ref p \<Rightarrow> (case hget h p of Some (HObj c es) \<Rightarrow> c | _ \<Rightarrow> ObjectOf 0) | _ \<Rightarrow> ObjectOf 0)"

definition isObjectCtor :: "ctor \<Rightarrow> bool" where
  "isObjectCtor c \<longleftrightarrow> (case c of ObjectOf m \<Rightarrow> True | ClassOf n \<Rightarrow> False)"

definition ctorsDiffer :: "ctor \<Rightarrow> ctor \<Rightarrow> bool" where
  "ctorsDiffer c d \<longleftrightarrow> c \<noteq> d \<and> \<not> (isObjectCtor c \<and> isObjectCtor d)"

definition arrayElems :: "heap \<Rightarrow> val \<Rightarrow> val list" where
  "arrayElems h v = (case elems h v of Some xs \<Rightarrow> xs | None \<Rightarrow> [])"

text \<open>The comparisons of \<open>eq\<close> that need no stack; \<open>None\<close> where the contents have to be compared.\<close>

definition eqFlat :: "heap \<Rightarrow> val \<Rightarrow> val \<Rightarrow> bool option" where
  "eqFlat h a b =
     (if strictEq a b then Some (\<not> (a \<noteq> b \<and> strictEq a (Num (Fin 0))))
      else if nullish a \<or> nullish b then Some False
      else if a = Num NaN then Some (b = Num NaN)
      else if \<not> isObject h a \<and> \<not> typeofObject h b then Some False
      else if classOf h a \<noteq> classOf h b then Some False
      else case classOf h a of
             CRegExp \<Rightarrow> Some (strOf h a = strOf h b)
           | CString \<Rightarrow> Some (strOf h a = strOf h b)
           | CNumber \<Rightarrow> Some (numOf h a = numOf h b)
           | CDate \<Rightarrow> Some (numEq (numOf h a) (numOf h b))
           | CBoolean \<Rightarrow> Some (numEq (numOf h a) (numOf h b))
           | CArray \<Rightarrow> None
           | _ \<Rightarrow>
               if \<not> (typeofObject h a \<and> typeofObject h b) then Some False
               else if ctorsDiffer (ctorOf h a) (ctorOf h b) then Some False
               else None)"

text \<open>
  The two stacks are one list of pairs, the top first. A comparison that fails leaves
  the stacks as they are, but then the whole comparison fails. A comparison of two
  objects that is already under way is decided by the stack.
\<close>

definition addrOf :: "val \<Rightarrow> nat" where
  "addrOf v = (case v of Ref p \<Rightarrow> p | _ \<Rightarrow> 0)"

lemma eqFlat_None_Ref:
  assumes "eqFlat h a b = None"
  obtains p q where "a = Ref p" "b = Ref q" "p < length h" "q < length h" "p \<noteq> q"
    "classOf h a = classOf h b" "classOf h a \<in> {CArray, CArguments, CObject}"
proof -
  have r: "\<exists>p. v = Ref p \<and> p < length h"
    if "classOf h v \<in> {CArray, CArguments, CObject}" for v
    using that by (auto simp: classOf_def hget_def split: val.splits hobj.splits option.splits if_splits)
  have c: "classOf h a = classOf h b" using assms by (auto simp: eqFlat_def split: if_splits)
  have k: "classOf h a \<in> {CArray, CArguments, CObject}"
    using assms
    by (cases "classOf h a") (auto simp: eqFlat_def typeofObject_def isObject_def nullish_def classOf_def hget_def
        split: if_splits val.splits option.splits hobj.splits)
  have "\<not> strictEq a b" using assms by (auto simp: eqFlat_def split: if_splits)
  with r [of a] r [of b] c k that show ?thesis by auto
qed

function eq :: "heap \<Rightarrow> (nat \<times> nat) list \<Rightarrow> val \<Rightarrow> val \<Rightarrow> bool" where
  "eq h st a b =
     (case eqFlat h a b of
        Some r \<Rightarrow> r
      | None \<Rightarrow>
          (case map_of st (addrOf a) of
             Some q \<Rightarrow> q = addrOf b
           | None \<Rightarrow>
               if classOf h a = CArray
               then length (arrayElems h a) = length (arrayElems h b) \<and>
                    list_all (\<lambda>(x, y). eq h ((addrOf a, addrOf b) # st) x y)
                      (zip (arrayElems h a) (arrayElems h b))
               else length (keys h a) = length (keys h b) \<and>
                    list_all (\<lambda>k. hasOwn h b k \<and>
                        eq h ((addrOf a, addrOf b) # st) (getProp h a k) (getProp h b k)) (keys h a)))"
  by pat_completeness auto
termination
proof (relation "measure (\<lambda>(h, st, a, b). card ({..<length h} - fst ` set st))")
  have dec: "card ({..<length h} - fst ` set ((addrOf a, addrOf b) # st)) < card ({..<length h} - fst ` set st)"
    if none: "eqFlat h a b = None" "map_of st (addrOf a) = None" for h st a b
  proof -
    obtain p where p: "a = Ref p" "p < length h" using eqFlat_None_Ref [OF none(1)] by metis
    have "p \<notin> fst ` set st" using none(2) p(1) by (simp add: addrOf_def map_of_eq_None_iff)
    with p show ?thesis by (intro psubset_card_mono) (auto simp: addrOf_def)
  qed
  show "((h, (addrOf a, addrOf b) # st, x, y), h, st, a, b) \<in> measure (\<lambda>(h, st, a, b). card ({..<length h} - fst ` set st))"
    if "eqFlat h a b = None" "map_of st (addrOf a) = None" for h st a b x y
    using dec [OF that] by simp
  then show "((h, (addrOf a, addrOf b) # st, getProp h a k, getProp h b k), h, st, a, b)
      \<in> measure (\<lambda>(h, st, a, b). card ({..<length h} - fst ` set st))"
    if "eqFlat h a b = None" "map_of st (addrOf a) = None" for h st a b k
    using that by blast
qed simp

declare eq.simps [simp del]

definition isEqual :: "heap \<Rightarrow> val \<Rightarrow> val \<Rightarrow> bool" where
  "isEqual h a b = eq h [] a b"

section \<open>Lemmas: comparison without contents\<close>

text \<open>
  What two values have to share to be equal, their contents apart. An invalid date and a
  function are equal to themselves only.
\<close>

datatype canon = KUndef | KNull | KBool bool | KNum jsnum | KStr jstring | KRegExp jstring | KDate jsnum
  | KSelf nat | KStruct cls "nat option"

definition ctorKey :: "ctor \<Rightarrow> nat option" where
  "ctorKey c = (case c of ObjectOf m \<Rightarrow> None | ClassOf n \<Rightarrow> Some n)"

definition canonObj :: "nat \<Rightarrow> hobj \<Rightarrow> canon" where
  "canonObj p o' =
     (case o' of
        HArr xs \<Rightarrow> KStruct CArray None | HArgs xs \<Rightarrow> KStruct CArguments None
      | HObj c es \<Rightarrow> KStruct CObject (ctorKey c) | HFun f \<Rightarrow> KSelf p | HBool b \<Rightarrow> KBool b
      | HNum n \<Rightarrow> KNum n | HStr s \<Rightarrow> KStr s
      | HDate n \<Rightarrow> if n = NaN then KSelf p else KDate (if n = NegZero then Fin 0 else n)
      | HRegExp s \<Rightarrow> KRegExp s)"

definition canonOf :: "heap \<Rightarrow> val \<Rightarrow> canon" where
  "canonOf h v =
     (case v of
        Undef \<Rightarrow> KUndef | Null \<Rightarrow> KNull | Bool b \<Rightarrow> KBool b | Num n \<Rightarrow> KNum n | Str s \<Rightarrow> KStr s
      | Ref p \<Rightarrow> (case hget h p of None \<Rightarrow> KSelf p | Some o' \<Rightarrow> canonObj p o'))"

definition isStruct :: "canon \<Rightarrow> bool" where
  "isStruct k \<longleftrightarrow> (\<exists>c n. k = KStruct c n)"

lemma ctorsDiffer_key: "ctorsDiffer c d \<longleftrightarrow> ctorKey c \<noteq> ctorKey d"
  by (cases c; cases d) (auto simp: ctorsDiffer_def ctorKey_def isObjectCtor_def)

text \<open>A number object that holds \<open>NaN\<close>.\<close>

definition noBoxedNaN :: "heap \<Rightarrow> bool" where
  "noBoxedNaN h \<longleftrightarrow> HNum NaN \<notin> set h"

lemmas flat_defs = eqFlat_def canonOf_def canonObj_def classOf_def isStruct_def nullish_def isObject_def
  typeofObject_def strOf_def numOf_def numEq_def ctorOf_def ctorsDiffer_key

lemma eqFlat_canon_prim:
  assumes "noBoxedNaN h" "\<forall>p. a \<noteq> Ref p"
  shows "eqFlat h a b = Some (canonOf h a = canonOf h b)"
proof (cases b)
  case (Ref q)
  have "h ! q \<noteq> HNum NaN" if "q < length h" using assms(1) that by (metis noBoxedNaN_def nth_mem)
  then show ?thesis using assms(2) Ref
    by (cases a; cases "q < length h"; cases "h ! q") (auto simp: flat_defs hget_def ctorKey_def)
qed (use assms(2) in \<open>cases a; auto simp: flat_defs\<close>)+

lemma eqFlat_canon:
  assumes "noBoxedNaN h"
  shows "eqFlat h a b =
    (if canonOf h a \<noteq> canonOf h b then Some False
     else if \<not> isStruct (canonOf h a) \<or> a = b then Some True else None)"
proof (cases a)
  case (Ref p)
  have p: "h ! i \<noteq> HNum NaN" if "i < length h" for i using assms that by (metis noBoxedNaN_def nth_mem)
  show ?thesis
  proof (cases b)
    case (Ref q)
    show ?thesis
    proof (cases "p = q")
      case True
      then show ?thesis using \<open>a = Ref p\<close> Ref by (simp add: eqFlat_def)
    next
      case False
      then show ?thesis using \<open>a = Ref p\<close> Ref p [of p] p [of q]
        by (cases "p < length h"; cases "q < length h"; cases "h ! p"; cases "h ! q")
          (auto simp: flat_defs hget_def ctorKey_def)
    qed
  qed (use Ref p [of p] in \<open>cases "p < length h"; cases "h ! p"; auto simp: flat_defs hget_def\<close>)+
qed (use eqFlat_canon_prim [OF assms] in \<open>auto simp: canonOf_def isStruct_def\<close>)

section \<open>Lemmas: acyclic heaps\<close>

text \<open>
  A heap whose objects refer to objects at lower addresses only, which every heap without
  cycles can be arranged to be, with objects that have every key once.
\<close>

definition contents :: "hobj \<Rightarrow> val list" where
  "contents o' = (case o' of HArr xs \<Rightarrow> xs | HArgs xs \<Rightarrow> xs | HObj c es \<Rightarrow> map snd es | _ \<Rightarrow> [])"

definition acyclicHeap :: "heap \<Rightarrow> bool" where
  "acyclicHeap h \<longleftrightarrow> (\<forall>p < length h. (\<forall>q. Ref q \<in> set (contents (h ! p)) \<longrightarrow> q < p) \<and>
     (\<forall>c es. h ! p = HObj c es \<longrightarrow> distinct (map fst es)))"

lemma isStruct_cases:
  assumes "isStruct (canonOf h a)"
  obtains p xs where "a = Ref p" "p < length h" "h ! p = HArr xs" "canonOf h a = KStruct CArray None"
  | p xs where "a = Ref p" "p < length h" "h ! p = HArgs xs" "canonOf h a = KStruct CArguments None"
  | p c es where "a = Ref p" "p < length h" "h ! p = HObj c es" "canonOf h a = KStruct CObject (ctorKey c)"
proof (cases a)
  case (Ref p)
  then have "p < length h" using assms by (auto simp: canonOf_def isStruct_def hget_def split: if_splits)
  with Ref assms that show ?thesis
    by (cases "h ! p") (auto simp: canonOf_def canonObj_def isStruct_def hget_def split: if_splits)
qed (use assms in \<open>auto simp: canonOf_def isStruct_def\<close>)

lemma Ref_simps:
  "p < length h \<Longrightarrow> h ! p = HArr xs \<Longrightarrow> arrayElems h (Ref p) = xs"
  "p < length h \<Longrightarrow> h ! p = HArr xs \<Longrightarrow> classOf h (Ref p) = CArray"
  "p < length h \<Longrightarrow> h ! p = HArgs xs \<Longrightarrow> classOf h (Ref p) = CArguments"
  "p < length h \<Longrightarrow> h ! p = HObj c es \<Longrightarrow> classOf h (Ref p) = CObject"
  "p < length h \<Longrightarrow> h ! p = HArgs xs \<Longrightarrow> keys h (Ref p) = map dec [0..<length xs]"
  "p < length h \<Longrightarrow> h ! p = HObj c es \<Longrightarrow> keys h (Ref p) = map fst es"
  by (simp_all add: arrayElems_def elems_def hget_def classOf_def keys_def)

lemma getProp_contents:
  assumes "p < length h" "k \<in> set (keys h (Ref p))" "classOf h (Ref p) \<in> {CArguments, CObject}"
  shows "getProp h (Ref p) k \<in> set (contents (h ! p))"
proof (cases "h ! p")
  case (HArgs xs)
  with assms obtain i where i: "i < length xs" "k = dec i" by (auto simp: Ref_simps)
  have "k \<noteq> js ''length''" using dec_digit [of 108 i] i(2) by auto
  then obtain x where "own h (Ref p) k = Some x" "x \<in> set xs"
    using i HArgs assms(1) map_of_zip_is_Some [of "map dec [0..<length xs]" xs k]
    by (force simp: own_def elems_def hget_def dest: map_of_SomeD set_zip_rightD)
  then show ?thesis using HArgs by (simp add: getProp_def contents_def)
next
  case (HObj c es)
  then obtain x where "own h (Ref p) k = Some x" "(k, x) \<in> set es"
    using assms by (auto simp: own_def elems_def hget_def Ref_simps)
      (metis map_of_SomeD map_of_eq_None_iff not_None_eq image_iff fst_conv)
  then show ?thesis using HObj by (force simp: getProp_def contents_def)
qed (use assms in \<open>auto simp: classOf_def hget_def\<close>)

lemma child_lower:
  assumes "acyclicHeap h" "p < length h" "Ref q \<in> set (contents (h ! p))"
  shows "q < p"
  using assms by (auto simp: acyclicHeap_def)

text \<open>Below every object on the stack the stack does not matter.\<close>

definition below :: "val \<Rightarrow> (nat \<times> nat) list \<Rightarrow> bool" where
  "below a st \<longleftrightarrow> (\<forall>p. a = Ref p \<longrightarrow> (\<forall>x \<in> fst ` set st. p < x))"

lemma eq_prim:
  "noBoxedNaN h \<Longrightarrow> \<forall>p. x \<noteq> Ref p \<Longrightarrow> eq h st x y \<longleftrightarrow> canonOf h x = canonOf h y"
  by (simp add: eq.simps [of h st x] eqFlat_canon_prim)

lemma eq_stack:
  assumes "acyclicHeap h" "noBoxedNaN h" "below a st" "below a st'"
  shows "eq h st a b = eq h st' a b"
  using assms(3,4)
proof (induction "addrOf a" arbitrary: a b st st' rule: less_induct)
  case less
  show ?case
  proof (cases "eqFlat h a b")
    case None
    then obtain p q where pq: "a = Ref p" "b = Ref q" "p < length h"
      "classOf h a \<in> {CArray, CArguments, CObject}" by (rule eqFlat_None_Ref)
    have no: "map_of st p = None" "map_of st' p = None"
      using less.prems pq(1) by (auto simp: below_def map_of_eq_None_iff)
    have IH: "eq h ((p, q) # st) x y = eq h ((p, q) # st') x y" if "x \<in> set (contents (h ! p))" for x y
    proof (cases x)
      case (Ref r)
      have "r < p" using child_lower [OF assms(1) pq(3)] that Ref by blast
      with less.prems show ?thesis
        by (intro less.hyps) (auto simp: Ref pq(1) addrOf_def below_def)
    qed (simp_all add: eq_prim [OF assms(2)])
    show ?thesis
    proof (cases "classOf h a = CArray")
      case True
      then have "set (arrayElems h a) \<subseteq> set (contents (h ! p))"
        using pq by (auto simp: classOf_def hget_def arrayElems_def elems_def contents_def split: hobj.splits)
      then have "list_all (\<lambda>(x, y). eq h ((p, q) # st) x y) (zip (arrayElems h a) ys) =
          list_all (\<lambda>(x, y). eq h ((p, q) # st') x y) (zip (arrayElems h a) ys)" for ys
        using IH by (intro list.pred_cong) (auto dest: set_zip_leftD)
      then show ?thesis
        using None True no pq(1,2) by (simp add: eq.simps [of h st "Ref p" "Ref q"] eq.simps [of h st' "Ref p" "Ref q"] addrOf_def)
    next
      case False
      then have "list_all (\<lambda>k. hasOwn h b k \<and> eq h ((p, q) # st) (getProp h a k) (getProp h b k)) (keys h a) =
          list_all (\<lambda>k. hasOwn h b k \<and> eq h ((p, q) # st') (getProp h a k) (getProp h b k)) (keys h a)"
        using IH getProp_contents [OF pq(3)] pq(1,4) by (intro list.pred_cong) auto
      then show ?thesis
        using None False no pq(1,2) by (simp add: eq.simps [of h st "Ref p" "Ref q"] eq.simps [of h st' "Ref p" "Ref q"] addrOf_def)
    qed
  qed (simp add: eq.simps [of h _ a])
qed

text \<open>The comparison of the contents, without stacks.\<close>

definition sameContents :: "(val \<Rightarrow> val \<Rightarrow> bool) \<Rightarrow> heap \<Rightarrow> val \<Rightarrow> val \<Rightarrow> bool" where
  "sameContents E h a b \<longleftrightarrow>
     (if classOf h a = CArray then list_all2 E (arrayElems h a) (arrayElems h b)
      else set (keys h a) = set (keys h b) \<and> (\<forall>k \<in> set (keys h a). E (getProp h a k) (getProp h b k)))"

lemma keys_distinct:
  "acyclicHeap h \<Longrightarrow> isStruct (canonOf h a) \<Longrightarrow> classOf h a \<noteq> CArray \<Longrightarrow> distinct (keys h a)"
  by (erule isStruct_cases) (auto simp: Ref_simps distinct_map inj_on_def acyclicHeap_def)

lemma hasOwn_keys:
  assumes "isStruct (canonOf h a)" "canonOf h a = canonOf h b" "classOf h a \<noteq> CArray" "k \<in> set (keys h a)"
  shows "hasOwn h b k \<longleftrightarrow> k \<in> set (keys h b)"
proof -
  have sb: "isStruct (canonOf h b)" using assms(1,2) by simp
  show ?thesis using assms(1)
  proof (cases rule: isStruct_cases)
  case (1 p xs)
  then show ?thesis using assms(3) by (simp add: Ref_simps)
next
  case (2 p xs)
  then obtain i where "k = dec i" using assms(4) by (auto simp: Ref_simps)
  then have "k \<noteq> js ''length''" using dec_digit [of 108 i] by auto
  moreover obtain q ys where "b = Ref q" "q < length h" "h ! q = HArgs ys"
    by (rule isStruct_cases [OF sb]) (use assms(2) 2(4) in auto)
  ultimately show ?thesis
    by (auto simp: hasOwn_def nullish_def own_def elems_def hget_def Ref_simps map_of_zip_is_None
        simp flip: not_None_eq simp del: js.simps)
next
  case (3 p c es)
  obtain q d fs where "b = Ref q" "q < length h" "h ! q = HObj d fs"
    by (rule isStruct_cases [OF sb]) (use assms(2) 3(4) in auto)
  then show ?thesis
    by (auto simp: hasOwn_def nullish_def own_def elems_def hget_def Ref_simps map_of_eq_None_iff
        simp flip: not_None_eq)
qed
qed

lemma keys_match:
  assumes "distinct ks" "distinct ls"
  shows "length ks = length ls \<and> (\<forall>k \<in> set ks. k \<in> set ls \<and> P k) \<longleftrightarrow> set ks = set ls \<and> (\<forall>k \<in> set ks. P k)"
proof
  assume l: "length ks = length ls \<and> (\<forall>k \<in> set ks. k \<in> set ls \<and> P k)"
  then have "set ks \<subseteq> set ls" "card (set ks) = card (set ls)"
    using assms by (auto simp: distinct_card)
  then have "set ks = set ls" by (intro card_subset_eq) auto
  with l show "set ks = set ls \<and> (\<forall>k \<in> set ks. P k)" by blast
qed (use assms in \<open>metis distinct_card\<close>)

lemma isEqual_unfold:
  assumes "acyclicHeap h" "noBoxedNaN h"
  shows "isEqual h a b \<longleftrightarrow> canonOf h a = canonOf h b \<and>
    (isStruct (canonOf h a) \<longrightarrow> a = b \<or> sameContents (isEqual h) h a b)"
proof (cases "eqFlat h a b")
  case (Some r)
  then show ?thesis
    using eqFlat_canon [OF assms(2), of a b]
    by (simp add: isEqual_def eq.simps [of h "[]" a b] split: if_splits)
next
  case None
  then have st: "canonOf h a = canonOf h b" "isStruct (canonOf h a)" "a \<noteq> b"
    using eqFlat_canon [OF assms(2), of a b] by (auto split: if_splits)
  obtain p q where pq: "a = Ref p" "b = Ref q" "p < length h"
    "classOf h a = classOf h b" "classOf h a \<in> {CArray, CArguments, CObject}"
    using None by (rule eqFlat_None_Ref)
  have low: "eq h [(p, q)] x y = isEqual h x y" if "x \<in> set (contents (h ! p))" for x y
    unfolding isEqual_def
    using child_lower [OF assms(1) pq(3)] that by (intro eq_stack [OF assms]) (auto simp: below_def)
  show ?thesis
  proof (cases "classOf h a = CArray")
    case True
    then have "set (arrayElems h a) \<subseteq> set (contents (h ! p))"
      using pq by (auto simp: classOf_def hget_def arrayElems_def elems_def contents_def split: hobj.splits)
    then have "list_all (\<lambda>(x, y). eq h [(p, q)] x y) (zip (arrayElems h a) ys) =
        list_all (\<lambda>(x, y). isEqual h x y) (zip (arrayElems h a) ys)" for ys
      using low by (intro list.pred_cong) (auto dest: set_zip_leftD)
    then show ?thesis
      using None True st pq(1,2)
      by (simp add: isEqual_def [of h "Ref p"] eq.simps [of h "[]" "Ref p" "Ref q"] addrOf_def sameContents_def
          list_all2_iff list_all_iff)
  next
    case False
    have "list_all (\<lambda>k. hasOwn h b k \<and> eq h [(p, q)] (getProp h a k) (getProp h b k)) (keys h a) \<longleftrightarrow>
        (\<forall>k \<in> set (keys h a). k \<in> set (keys h b) \<and> isEqual h (getProp h a k) (getProp h b k))"
      using low getProp_contents [OF pq(3)] pq(1,5) False hasOwn_keys [OF st(2,1) False]
      by (auto simp: list_all_iff)
    moreover have "distinct (keys h a)" "distinct (keys h b)"
      using keys_distinct [OF assms(1)] st False pq(4) by auto
    ultimately show ?thesis
      using None False st pq(1,2) keys_match [of "keys h a" "keys h b"]
      by (simp add: isEqual_def [of h "Ref p"] eq.simps [of h "[]" "Ref p" "Ref q"] addrOf_def sameContents_def)
  qed
qed

definition rank :: "val \<Rightarrow> nat" where
  "rank v = (case v of Ref p \<Rightarrow> Suc p | _ \<Rightarrow> 0)"

lemma struct_class:
  "isStruct (canonOf h a) \<Longrightarrow> canonOf h a = canonOf h b \<Longrightarrow> classOf h a = classOf h b"
  by (erule isStruct_cases; rule isStruct_cases [of h b]) (auto simp: Ref_simps isStruct_def)

lemma struct_children:
  assumes "acyclicHeap h" "isStruct (canonOf h a)"
  shows "classOf h a = CArray \<Longrightarrow> x \<in> set (arrayElems h a) \<Longrightarrow> rank x < rank a"
    and "classOf h a \<noteq> CArray \<Longrightarrow> k \<in> set (keys h a) \<Longrightarrow> rank (getProp h a k) < rank a"
proof -
  obtain p where p: "a = Ref p" "p < length h" using assms(2) by (rule isStruct_cases) auto
  have low: "rank y < rank a" if "y \<in> set (contents (h ! p))" for y
    using child_lower [OF assms(1) p(2)] that by (cases y) (auto simp: rank_def p(1))
  show "rank x < rank a" if "classOf h a = CArray" "x \<in> set (arrayElems h a)"
    using that low assms(2) p by (auto elim!: isStruct_cases simp: Ref_simps contents_def)
  show "rank (getProp h a k) < rank a" if "classOf h a \<noteq> CArray" "k \<in> set (keys h a)"
    using that low getProp_contents [OF p(2), of k] assms(2) p by (auto elim!: isStruct_cases simp: Ref_simps)
qed

lemma sameContents_rel:
  assumes "acyclicHeap h" "isStruct (canonOf h a)" "canonOf h a = canonOf h b" "sameContents E h a b"
    and "\<And>x y. rank x < rank a \<Longrightarrow> E x y \<Longrightarrow> F y x"
  shows "sameContents F h b a"
proof (cases "classOf h a = CArray")
  case True
  then have "list_all2 E (arrayElems h a) (arrayElems h b)" using assms(4) by (simp add: sameContents_def)
  then have "list_all2 F (arrayElems h b) (arrayElems h a)"
    using assms(5) struct_children(1) [OF assms(1,2) True]
    by (auto simp: list_all2_conv_all_nth)
  then show ?thesis using True struct_class [OF assms(2,3)] by (simp add: sameContents_def)
next
  case False
  then show ?thesis
    using assms(4,5) struct_children(2) [OF assms(1,2) False] struct_class [OF assms(2,3)]
    by (auto simp: sameContents_def)
qed

lemma sameContents_comp:
  assumes "acyclicHeap h" "isStruct (canonOf h a)" "canonOf h a = canonOf h b"
    and "sameContents E h a b" "sameContents F h b c"
    and "\<And>x y z. rank x < rank a \<Longrightarrow> E x y \<Longrightarrow> F y z \<Longrightarrow> G x z"
  shows "sameContents G h a c"
proof (cases "classOf h a = CArray")
  case True
  then have "list_all2 E (arrayElems h a) (arrayElems h b)" "list_all2 F (arrayElems h b) (arrayElems h c)"
    using assms(4,5) struct_class [OF assms(2,3)] by (auto simp: sameContents_def)
  then have "list_all2 G (arrayElems h a) (arrayElems h c)"
    using assms(6) struct_children(1) [OF assms(1,2) True]
    by (auto simp: list_all2_conv_all_nth)
  then show ?thesis using True by (simp add: sameContents_def)
next
  case False
  then have "set (keys h a) = set (keys h c)"
    using assms(4,5) struct_class [OF assms(2,3)] by (auto simp: sameContents_def)
  moreover have "G (getProp h a k) (getProp h c k)" if "k \<in> set (keys h a)" for k
    using assms(4,5) struct_class [OF assms(2,3)] False that struct_children(2) [OF assms(1,2) False that]
    by (intro assms(6)) (auto simp: sameContents_def)
  ultimately show ?thesis using False by (simp add: sameContents_def)
qed

lemma isEqual_refl: "isEqual h a a"
proof -
  have "eqFlat h a a = Some True" by (cases a) (auto simp: eqFlat_def numEq_def nullish_def)
  then show ?thesis by (simp add: isEqual_def eq.simps)
qed

lemma isEqual_sym:
  assumes "acyclicHeap h" "noBoxedNaN h"
  shows "isEqual h a b \<Longrightarrow> isEqual h b a"
proof (induction "rank a" arbitrary: a b rule: less_induct)
  case less
  then have c: "canonOf h a = canonOf h b" "isStruct (canonOf h a) \<longrightarrow> a = b \<or> sameContents (isEqual h) h a b"
    using isEqual_unfold [OF assms] by blast+
  show ?case
  proof (cases "isStruct (canonOf h a) \<and> a \<noteq> b")
    case True
    then have "sameContents (isEqual h) h b a"
      using sameContents_rel [OF assms(1), of a b "isEqual h" "isEqual h"] c less.hyps by blast
    with True c show ?thesis using isEqual_unfold [OF assms, of b a] by simp
  next
    case False
    with c show ?thesis using isEqual_unfold [OF assms, of b a] by auto
  qed
qed

lemma isEqual_trans:
  assumes "acyclicHeap h" "noBoxedNaN h"
  shows "isEqual h a b \<Longrightarrow> isEqual h b c \<Longrightarrow> isEqual h a c"
proof (induction "rank a" arbitrary: a b c rule: less_induct)
  case less
  then have c: "canonOf h a = canonOf h b" "isStruct (canonOf h a) \<longrightarrow> a = b \<or> sameContents (isEqual h) h a b"
    "canonOf h b = canonOf h c" "isStruct (canonOf h b) \<longrightarrow> b = c \<or> sameContents (isEqual h) h b c"
    using isEqual_unfold [OF assms] by blast+
  show ?case
  proof (cases "isStruct (canonOf h a) \<and> a \<noteq> b \<and> b \<noteq> c")
    case True
    then have sc: "isStruct (canonOf h a)" "sameContents (isEqual h) h a b" "sameContents (isEqual h) h b c"
      using c by auto
    have "sameContents (isEqual h) h a c"
      by (rule sameContents_comp [OF assms(1) sc(1) c(1) sc(2,3)]) (rule less.hyps)
    with True c show ?thesis using isEqual_unfold [OF assms, of a c] by simp
  next
    case False
    with c less.prems show ?thesis using isEqual_unfold [OF assms, of a c] by auto
  qed
qed

section \<open>Properties\<close>

text \<open>
  On values without cycles (and without number objects that hold \<open>NaN\<close>) the deep
  comparison is an equivalence relation, and it is what one expects of it: two values are
  equal when they are the same primitive value, the objects of their kind counting as primitive
  values, or when they are arrays with equal elements in order, or objects of the same kind
  with the same keys and equal values, whatever the order of the keys.
\<close>

theorem isEqual_equivalence:
  assumes "acyclicHeap h" "noBoxedNaN h"
  shows "equivp (isEqual h) \<and> (isEqual h a b \<longleftrightarrow> canonOf h a = canonOf h b \<and>
    (isStruct (canonOf h a) \<longrightarrow> a = b \<or> sameContents (isEqual h) h a b))"
proof
  show "equivp (isEqual h)"
    by (intro equivpI reflpI sympI transpI)
      (auto intro: isEqual_refl isEqual_sym [OF assms] isEqual_trans [OF assms])
qed (rule isEqual_unfold [OF assms])

theorem isEqual_equivalence_witness:
  "equivp (isEqual [HArr [Num (Fin 1), Str (js ''a'')], HObj (ObjectOf 0) [(js ''x'', Ref 0), (js ''y'', Null)],
     HArr [Num (Fin 1), Ref 1]])"
  by (rule conjunct1 [OF isEqual_equivalence [of _ Undef Undef]])
    (auto simp: acyclicHeap_def noBoxedNaN_def contents_def less_Suc_eq nth_Cons split: nat.splits)

text \<open>
  With cycles, and with \<open>NaN\<close> in a number object, the comparison is not symmetric:
  an array that holds itself equals an array of period two only when it is the second
  argument, and \<open>NaN\<close> equals its object only when it is the second argument.
\<close>

theorem isEqual_asymmetric:
  "isEqual [HArr [Ref 0], HArr [Ref 2], HArr [Ref 1]] (Ref 1) (Ref 0) \<and>
   \<not> isEqual [HArr [Ref 0], HArr [Ref 2], HArr [Ref 1]] (Ref 0) (Ref 1) \<and>
   isEqual [HNum NaN] (Ref 0) (Num NaN) \<and> \<not> isEqual [HNum NaN] (Num NaN) (Ref 0)"
  by code_simp

end
