(* ===== verification/Underscore_Functions.thy ===== *)
theory Underscore_Functions
  imports Underscore_Values
begin

text \<open>
  The function wrappers of \<^verbatim>\<open>underscore.js\<close>: rest arguments, \<open>partial\<close>, \<open>bind\<close> and \<open>bindAll\<close>,
  \<open>memoize\<close>, \<open>wrap\<close>, \<open>negate\<close>, \<open>compose\<close>, \<open>after\<close>, \<open>before\<close> and \<open>once\<close>, the lookup \<open>result\<close>
  and \<open>uniqueId\<close>. A wrapped function takes \<open>this\<close> where it matters, its arguments and the
  state of the world, which it may change; the variables of a wrapper's closure are a
  record or a pair next to that state. A wrapped function does not call its own wrapper.
\<close>

section \<open>Arguments\<close>

text \<open>\<open>arguments[i]\<close>.\<close>

definition argAt :: "val list \<Rightarrow> nat \<Rightarrow> val" where
  "argAt xs i = (if i < length xs then xs ! i else Undef)"

datatype arg = One val | Rest "val list"

text \<open>
  The arguments the inner function gets. A start index of -1, which a function
  without parameters has, passes nothing at all, and a lower one is an invalid length.
\<close>

definition restArguments :: "int \<Rightarrow> val list \<Rightarrow> arg list option" where
  "restArguments startIndex xs =
     (if startIndex < -1 then None
      else if startIndex < 0 then Some []
      else
        let n = nat (max (int (length xs) - startIndex) 0);
            rest = map (\<lambda>index. argAt xs (index + nat startIndex)) [0..<n]
        in Some (map (\<lambda>index. One (argAt xs index)) [0..<nat startIndex] @ [Rest rest]))"

text \<open>
  A call through a bound function: \<open>inst\<close> says whether it is called with \<open>new\<close>, and
  \<open>self\<close> is the object created in that case.
\<close>

definition executeBound ::
  "heap \<Rightarrow> (val \<Rightarrow> val list \<Rightarrow> 'w \<Rightarrow> val \<times> 'w) \<Rightarrow> bool \<Rightarrow> val \<Rightarrow> val \<Rightarrow> val list \<Rightarrow> 'w \<Rightarrow> val \<times> 'w" where
  "executeBound h sourceFunc inst self context xs w =
     (if \<not> inst then sourceFunc context xs w
      else case sourceFunc self xs w of (result, w') \<Rightarrow> (if isObject h result then result else self, w'))"

text \<open>The arguments of a partial application: placeholders are filled first.\<close>

fun fillArgs :: "val \<Rightarrow> val list \<Rightarrow> val list \<Rightarrow> val list" where
  "fillArgs placeholder [] xs = xs"
| "fillArgs placeholder (b # bs) xs =
     (if strictEq b placeholder then argAt xs 0 # fillArgs placeholder bs (tl xs)
      else b # fillArgs placeholder bs xs)"

definition partialU ::
  "heap \<Rightarrow> val \<Rightarrow> (val \<Rightarrow> val list \<Rightarrow> 'w \<Rightarrow> val \<times> 'w) \<Rightarrow> val list \<Rightarrow> bool \<Rightarrow> val \<Rightarrow> val \<Rightarrow> val list \<Rightarrow> 'w \<Rightarrow> val \<times> 'w" where
  "partialU h placeholder func boundArgs inst self this xs w =
     executeBound h func inst self this (fillArgs placeholder boundArgs xs) w"

definition bindU ::
  "heap \<Rightarrow> (val \<Rightarrow> val list \<Rightarrow> 'w \<Rightarrow> val \<times> 'w) \<Rightarrow> val \<Rightarrow> val list \<Rightarrow> bool \<Rightarrow> val \<Rightarrow> val list \<Rightarrow> 'w \<Rightarrow> val \<times> 'w" where
  "bindU h func context xs inst self callArgs w = executeBound h func inst self context (xs @ callArgs) w"

definition wrapU ::
  "heap \<Rightarrow> val \<Rightarrow> val \<Rightarrow> (val \<Rightarrow> val list \<Rightarrow> 'w \<Rightarrow> val \<times> 'w) \<Rightarrow> val \<Rightarrow> val list \<Rightarrow> 'w \<Rightarrow> val \<times> 'w" where
  "wrapU h placeholder func wrapper this xs w = partialU h placeholder wrapper [func] False Undef this xs w"

text \<open>
  \<open>bindAll\<close> on an object of methods. It goes through the names from the last to the
  first; a member that is not a function raises an error, and the names bound before it
  stay bound.
\<close>

datatype member = Method nat | Bound member | NoFunction

datatype bind_error = NoNames | NotAFunction

definition memberAt :: "(jstring \<times> member) list \<Rightarrow> jstring \<Rightarrow> member" where
  "memberAt obj k = (case map_of obj k of Some m \<Rightarrow> m | None \<Rightarrow> NoFunction)"

definition setMember :: "jstring \<Rightarrow> member \<Rightarrow> (jstring \<times> member) list \<Rightarrow> (jstring \<times> member) list" where
  "setMember k m obj = map (\<lambda>(k', m'). (k', if k' = k then m else m')) obj"

fun bindLoop :: "jstring list \<Rightarrow> (jstring \<times> member) list \<Rightarrow> bind_error option \<times> (jstring \<times> member) list" where
  "bindLoop [] obj = (None, obj)"
| "bindLoop (k # ks) obj =
     (if memberAt obj k = NoFunction then (Some NotAFunction, obj)
      else bindLoop ks (setMember k (Bound (memberAt obj k)) obj))"

definition bindAll :: "(jstring \<times> member) list \<Rightarrow> jstring list \<Rightarrow> bind_error option \<times> (jstring \<times> member) list" where
  "bindAll obj ks = (if length ks < 1 then (Some NoNames, obj) else bindLoop (rev ks) obj)"

section \<open>Wrappers with memory\<close>

text \<open>
  \<open>memoize\<close>: the cache as its properties, and \<open>address\<close> for the hasher. No address is
  \<open>__proto__\<close>.
\<close>

type_synonym 'r cache = "(jstring \<times> 'r) list"

definition memoize ::
  "('a \<Rightarrow> 'w \<Rightarrow> 'r \<times> 'w) \<Rightarrow> ('a \<Rightarrow> jstring) \<Rightarrow> 'a \<Rightarrow> 'r cache \<times> 'w \<Rightarrow> 'r \<times> 'r cache \<times> 'w" where
  "memoize func address xs s =
     (case s of (cache, w) \<Rightarrow>
       case map_of cache (address xs) of
         Some r \<Rightarrow> (r, cache, w)
       | None \<Rightarrow> (case func xs w of (r, w') \<Rightarrow> (r, (address xs, r) # cache, w')))"

text \<open>\<open>after\<close> keeps the count; \<open>undefined\<close> is \<open>None\<close>.\<close>

definition after :: "('a \<Rightarrow> 'w \<Rightarrow> 'r \<times> 'w) \<Rightarrow> 'a \<Rightarrow> int \<times> 'w \<Rightarrow> 'r option \<times> int \<times> 'w" where
  "after func xs s =
     (case s of (left, w) \<Rightarrow>
       if left - 1 < 1 then (case func xs w of (r, w') \<Rightarrow> (Some r, left - 1, w'))
       else (None, left - 1, w))"

text \<open>\<open>before\<close> also drops the function; a call of the dropped function is an error.\<close>

record ('r, 'w) before_state =
  left :: int
  memo :: "'r option"
  live :: bool
  world :: 'w

definition initBefore :: "int \<Rightarrow> 'w \<Rightarrow> ('r, 'w) before_state" where
  "initBefore n w = \<lparr>left = n, memo = None, live = True, world = w\<rparr>"

definition before ::
  "('a \<Rightarrow> 'w \<Rightarrow> 'r \<times> 'w) \<Rightarrow> 'a \<Rightarrow> ('r, 'w) before_state \<Rightarrow> ('r option \<times> ('r, 'w) before_state) option" where
  "before func xs s =
     (let n = left s - 1
      in if n > 0 \<and> \<not> live s then None
         else
           let s1 = s\<lparr>left := n\<rparr>;
               s2 = (if n > 0 then (case func xs (world s1) of (r, w') \<Rightarrow> s1\<lparr>memo := Some r, world := w'\<rparr>) else s1);
               s3 = (if n \<le> 1 then s2\<lparr>live := False\<rparr> else s2)
           in Some (memo s3, s3))"

definition initOnce :: "'w \<Rightarrow> ('r, 'w) before_state" where
  "initOnce w = initBefore 2 w"

section \<open>Combinations\<close>

definition negate :: "('a \<Rightarrow> 'w \<Rightarrow> bool \<times> 'w) \<Rightarrow> 'a \<Rightarrow> 'w \<Rightarrow> bool \<times> 'w" where
  "negate predicate xs w = (case predicate xs w of (r, w') \<Rightarrow> (\<not> r, w'))"

text \<open>\<open>compose\<close> without functions fails; otherwise the last one gets the arguments.\<close>

fun composeLoop :: "(val list \<Rightarrow> 'w \<Rightarrow> val \<times> 'w) list \<Rightarrow> nat \<Rightarrow> val \<times> 'w \<Rightarrow> val \<times> 'w" where
  "composeLoop fs 0 r = r"
| "composeLoop fs (Suc i) r = composeLoop fs i ((fs ! i) [fst r] (snd r))"

definition compose :: "(val list \<Rightarrow> 'w \<Rightarrow> val \<times> 'w) list \<Rightarrow> val list \<Rightarrow> 'w \<Rightarrow> (val \<times> 'w) option" where
  "compose fs xs w =
     (if fs = [] then None
      else Some (composeLoop fs (length fs - 1) ((fs ! (length fs - 1)) xs w)))"

text \<open>\<open>result\<close>: \<open>call f this\<close> is what the function at a reference returns.\<close>

definition callIfFunction :: "heap \<Rightarrow> (val \<Rightarrow> val \<Rightarrow> val) \<Rightarrow> val \<Rightarrow> val \<Rightarrow> val" where
  "callIfFunction h call prop this = (if isFunction h prop then call prop this else prop)"

fun resultLoop :: "heap \<Rightarrow> (val \<Rightarrow> val \<Rightarrow> val) \<Rightarrow> val \<Rightarrow> val \<Rightarrow> jstring list \<Rightarrow> val" where
  "resultLoop h call fallback obj [] = obj"
| "resultLoop h call fallback obj (k # ks) =
     (let prop = (if nullish obj then Undef else getProp h obj k)
      in if prop = Undef then callIfFunction h call fallback obj
         else resultLoop h call fallback (callIfFunction h call prop obj) ks)"

definition resultU :: "heap \<Rightarrow> (val \<Rightarrow> val \<Rightarrow> val) \<Rightarrow> val \<Rightarrow> jstring list \<Rightarrow> val \<Rightarrow> val" where
  "resultU h call obj path fallback =
     (if path = [] then callIfFunction h call fallback obj else resultLoop h call fallback obj path)"

text \<open>\<open>uniqueId\<close>: the counter, and the identifier.\<close>

definition uniqueId :: "jstring \<Rightarrow> nat \<Rightarrow> jstring \<times> nat" where
  "uniqueId prefix idCounter = (prefix @ dec (idCounter + 1), idCounter + 1)"

fun uniqueIds :: "jstring list \<Rightarrow> nat \<Rightarrow> jstring list" where
  "uniqueIds [] n = []"
| "uniqueIds (p # ps) n = (case uniqueId p n of (k, n') \<Rightarrow> k # uniqueIds ps n')"

section \<open>Lemmas: arguments\<close>

lemma restArguments_drop:
  "0 \<le> n \<Longrightarrow> restArguments n xs = Some (map (\<lambda>i. One (argAt xs i)) [0..<nat n] @ [Rest (drop (nat n) xs)])"
  by (auto simp: restArguments_def argAt_def nat_le_iff Let_def add.commute intro!: nth_equalityI)

lemma fillArgs_plain: "list_all (\<lambda>b. \<not> strictEq b placeholder) bs \<Longrightarrow> fillArgs placeholder bs xs = bs @ xs"
  by (induction bs) auto

definition holes :: "val \<Rightarrow> val list \<Rightarrow> nat" where
  "holes placeholder bs = length (filter (\<lambda>b. strictEq b placeholder) bs)"

lemma fillArgs_length: "length (fillArgs placeholder bs xs) = length bs + (length xs - holes placeholder bs)"
  by (induction placeholder bs xs rule: fillArgs.induct) (auto simp: holes_def)

text \<open>Two partial applications are one, when the second fills the holes of the first.\<close>

lemma fillArgs_twice:
  "holes placeholder bs \<le> length xs \<Longrightarrow>
    fillArgs placeholder bs (fillArgs placeholder xs ys) = fillArgs placeholder (fillArgs placeholder bs xs) ys"
proof (induction placeholder bs xs arbitrary: ys rule: fillArgs.induct)
  case (2 placeholder b bs xs)
  show ?case
  proof (cases "strictEq b placeholder")
    case True
    then obtain x xs' where xs: "xs = x # xs'" using 2(3) by (cases xs) (auto simp: holes_def)
    have "holes placeholder bs \<le> length xs'" using 2(3) True xs by (simp add: holes_def)
    then have "fillArgs placeholder bs (fillArgs placeholder xs' zs) = fillArgs placeholder (fillArgs placeholder bs xs') zs" for zs
      using 2(1) [OF True] xs by simp
    with True xs show ?thesis by (simp add: argAt_def)
  next
    case False
    then have "holes placeholder bs \<le> length xs" using 2(3) by (simp add: holes_def)
    from 2(2) [OF False this] False show ?thesis by simp
  qed
qed simp

lemma bindLoop_members:
  assumes "distinct ks" "\<forall>k \<in> set ks. memberAt obj k \<noteq> NoFunction"
  shows "fst (bindLoop ks obj) = None \<and>
    (\<forall>k. memberAt (snd (bindLoop ks obj)) k = (if k \<in> set ks then Bound (memberAt obj k) else memberAt obj k))"
  using assms
proof (induction ks arbitrary: obj)
  case (Cons a ks)
  have m: "map_of (setMember a m obj) k = (if k = a then map_option (\<lambda>_. m) (map_of obj a) else map_of obj k)" for k m
    by (induction obj) (auto simp: setMember_def)
  have e: "memberAt (setMember a (Bound (memberAt obj a)) obj) k =
      (if k = a then Bound (memberAt obj a) else memberAt obj k)" for k
    using Cons.prems(2) by (auto simp: memberAt_def m split: option.splits)
  have "\<forall>k \<in> set ks. memberAt (setMember a (Bound (memberAt obj a)) obj) k \<noteq> NoFunction"
    using Cons.prems by (auto simp: e)
  from Cons.IH [OF _ this] show ?case using Cons.prems by (auto simp: e)
qed simp

section \<open>Lemmas: counted calls\<close>

text \<open>The results of a sequence of calls, and the state after them.\<close>

fun callAll :: "('a \<Rightarrow> 's \<Rightarrow> 'r \<times> 's) \<Rightarrow> 'a list \<Rightarrow> 's \<Rightarrow> 'r list \<times> 's" where
  "callAll f [] s = ([], s)"
| "callAll f (x # xs) s =
     (case f x s of (r, s') \<Rightarrow> case callAll f xs s' of (rs, s'') \<Rightarrow> (r # rs, s''))"

lemma callAll_length [simp]: "length (fst (callAll f xs s)) = length xs"
  by (induction xs arbitrary: s) (simp_all add: split_beta)

fun beforeAll ::
  "('a \<Rightarrow> 'w \<Rightarrow> 'r \<times> 'w) \<Rightarrow> 'a list \<Rightarrow> ('r, 'w) before_state \<Rightarrow> ('r option list \<times> 'w) option" where
  "beforeAll f [] s = Some ([], world s)"
| "beforeAll f (x # xs) s =
     (case before f x s of
        None \<Rightarrow> None
      | Some (r, s') \<Rightarrow> (case beforeAll f xs s' of None \<Rightarrow> None | Some (rs, w) \<Rightarrow> Some (r # rs, w)))"

lemma beforeAll_spent:
  "left s \<le> 1 \<Longrightarrow> beforeAll f xs s = Some (replicate (length xs) (memo s), world s)"
  by (induction xs arbitrary: s) (auto simp: before_def Let_def)

lemma beforeAll_run:
  assumes "live s \<or> left s \<le> 1"
  shows "beforeAll f xs s =
    (let n = nat (left s - 1); rs = map Some (fst (callAll f (take n xs) (world s)))
     in Some (rs @ replicate (length xs - n) (last (memo s # rs)), snd (callAll f (take n xs) (world s))))"
  using assms
proof (induction xs arbitrary: s)
  case (Cons x xs)
  show ?case
  proof (cases "left s \<le> 1")
    case False
    obtain r w' where f: "f x (world s) = (r, w')" by (cases "f x (world s)")
    define s' where "s' = s\<lparr>left := left s - 1, memo := Some r, world := w', live := (live s \<and> left s - 1 > 1)\<rparr>"
    have b: "before f x s = Some (Some r, s')"
      using False Cons.prems f by (auto simp: before_def Let_def s'_def)
    have n: "nat (left s - 1) = Suc (nat (left s' - 1))" using False by (simp add: s'_def)
    have "live s' \<or> left s' \<le> 1" using False Cons.prems by (auto simp: s'_def)
    from Cons.IH [OF this] show ?thesis
      using False f b by (simp add: n Let_def) (simp add: s'_def split: prod.splits)
  qed (simp add: beforeAll_spent del: beforeAll.simps)
qed (simp add: Let_def)

lemma after_run:
  "callAll (after f) xs (n, w) =
    (let k = nat (n - 1); ys = drop k xs
     in (replicate (min k (length xs)) None @ map Some (fst (callAll f ys w)), n - int (length xs), snd (callAll f ys w)))"
proof (induction xs arbitrary: n w)
  case (Cons x xs)
  show ?case
  proof (cases "n \<le> 1")
    case True
    then show ?thesis using Cons.IH by (auto simp: after_def Let_def split: prod.splits)
  next
    case False
    then have "nat (n - 1) = Suc (nat (n - 1 - 1))" by simp
    with False show ?thesis using Cons.IH [of "n - 1" w] by (simp add: after_def Let_def)
  qed
qed simp

text \<open>The calls that a memoized function makes: the first one for each address.\<close>

fun firstsBy :: "('a \<Rightarrow> 'k) \<Rightarrow> 'k list \<Rightarrow> 'a list \<Rightarrow> 'a list" where
  "firstsBy a seen [] = []"
| "firstsBy a seen (x # xs) =
     (if a x \<in> set seen then firstsBy a seen xs else x # firstsBy a (a x # seen) xs)"

lemma firstsBy_distinct: "distinct (map a (firstsBy a seen xs)) \<and> set (map a (firstsBy a seen xs)) = a ` set xs - set seen"
  by (induction a seen xs rule: firstsBy.induct) auto

lemma memoize_new:
  "map_of c (a x) = None \<Longrightarrow> memoize f a x (c, w) = (fst (f x w), (a x, fst (f x w)) # c, snd (f x w))"
  by (simp add: memoize_def split_beta)

lemma memoize_hit: "map_of c (a x) = Some r \<Longrightarrow> memoize f a x (c, w) = (r, c, w)"
  by (simp add: memoize_def)

lemma memoize_keeps: "map_of c k = Some v \<Longrightarrow> map_of (fst (snd (callAll (memoize f a) xs (c, w)))) k = Some v"
proof (induction xs arbitrary: c w)
  case (Cons x xs)
  show ?case
  proof (cases "map_of c (a x)")
    case None
    with Cons.prems have "map_of ((a x, fst (f x w)) # c) k = Some v" by auto
    with None Cons.IH show ?thesis by (simp add: memoize_new split_beta)
  qed (use Cons in \<open>simp add: memoize_hit split_beta\<close>)
qed simp

lemma memoize_run:
  "snd (snd (callAll (memoize f a) xs (c, w))) = snd (callAll f (firstsBy a (map fst c) xs) w) \<and>
   fst (callAll (memoize f a) xs (c, w)) =
     map (\<lambda>x. the (map_of (fst (snd (callAll (memoize f a) xs (c, w)))) (a x))) xs \<and>
   fst (callAll f (firstsBy a (map fst c) xs) w) =
     map (\<lambda>x. the (map_of (fst (snd (callAll (memoize f a) xs (c, w)))) (a x))) (firstsBy a (map fst c) xs)"
proof (induction xs arbitrary: c w)
  case (Cons x xs)
  show ?case
  proof (cases "map_of c (a x)")
    case None
    then have "a x \<notin> set (map fst c)" by (simp add: map_of_eq_None_iff)
    moreover have "map_of (fst (snd (callAll (memoize f a) xs ((a x, fst (f x w)) # c, snd (f x w))))) (a x) =
        Some (fst (f x w))" by (rule memoize_keeps) simp
    ultimately show ?thesis
      using Cons.IH [of "(a x, fst (f x w)) # c" "snd (f x w)"] None
      by (simp add: memoize_new split_beta)
  next
    case (Some r)
    then have "a x \<in> set (map fst c)" by (metis map_of_eq_None_iff option.distinct(1) set_map)
    moreover have "map_of (fst (snd (callAll (memoize f a) xs (c, w)))) (a x) = Some r"
      using Some by (rule memoize_keeps)
    ultimately show ?thesis using Cons.IH [of c w] Some by (simp add: memoize_hit split_beta)
  qed
qed simp

section \<open>Lemmas: identifiers\<close>

definition noDigitEnd :: "jstring \<Rightarrow> bool" where
  "noDigitEnd p \<longleftrightarrow> p = [] \<or> \<not> (48 \<le> last p \<and> last p \<le> 57)"

lemma number_suffix_aux:
  assumes "(q @ us) @ dec k = q @ dec m" "noDigitEnd (q @ us)"
  shows "us = []"
proof (rule ccontr)
  assume "us \<noteq> []"
  moreover have "dec m = us @ dec k" using assms(1) by simp
  ultimately have "last us \<in> set (dec m)" by simp
  then show False using dec_digit assms(2) \<open>us \<noteq> []\<close> by (auto simp: noDigitEnd_def)
qed

lemma number_suffix:
  assumes "p @ dec k = q @ dec m" "noDigitEnd p" "noDigitEnd q"
  shows "k = m \<and> p = q"
proof -
  obtain us where "p = q @ us \<or> q = p @ us" using assms(1) by (auto simp: append_eq_append_conv2)
  then have "p = q"
  proof
    assume "p = q @ us"
    then show ?thesis using number_suffix_aux [of q us k m] assms(1,2) by (metis append_Nil2)
  next
    assume "q = p @ us"
    then show ?thesis using number_suffix_aux [of p us m k] assms(1,3) by (metis append_Nil2)
  qed
  with assms(1) show ?thesis by simp
qed

lemma uniqueIds_members: "k \<in> set (uniqueIds ps n) \<Longrightarrow> \<exists>p m. p \<in> set ps \<and> n < m \<and> k = p @ dec m"
proof (induction ps arbitrary: n)
  case (Cons p ps)
  show ?case
  proof (cases "k = p @ dec (Suc n)")
    case False
    then have "k \<in> set (uniqueIds ps (Suc n))" using Cons.prems by (simp add: uniqueId_def del: dec.simps)
    from Cons.IH [OF this] show ?thesis by (metis Suc_lessD list.set_intros(2))
  qed (metis lessI list.set_intros(1))
qed simp

section \<open>Properties\<close>

text \<open>
  How often the wrapped functions run. A function wrapped by \<open>before(n)\<close> runs for the
  first \<open>n - 1\<close> calls and the result of the last of them is returned from then on, without
  the dropped function ever being called; one wrapped by \<open>once\<close> runs for the first call
  only; one wrapped by \<open>after(n)\<close> runs from the \<open>n\<close>-th call on and returns \<open>undefined\<close>
  before. A memoized function runs once for each address, at the first call that has
  it, and every call returns what that first call returned.
\<close>
theorem wrapped_calls:
  "beforeAll f xs (initBefore n w) =
     (let k = nat (n - 1); rs = map Some (fst (callAll f (take k xs) w))
      in Some (rs @ replicate (length xs - k) (last (None # rs)), snd (callAll f (take k xs) w))) \<and>
   beforeAll f (x # xs) (initOnce w) = Some (replicate (Suc (length xs)) (Some (fst (f x w))), snd (f x w)) \<and>
   callAll (after f) xs (n, w) =
     (let k = nat (n - 1); ys = drop k xs
      in (replicate (min k (length xs)) None @ map Some (fst (callAll f ys w)), n - int (length xs), snd (callAll f ys w))) \<and>
   (let ys = firstsBy a [] xs; firstOf = map_of (zip (map a ys) (fst (callAll f ys w)))
    in snd (snd (callAll (memoize f a) xs ([], w))) = snd (callAll f ys w) \<and>
       fst (callAll (memoize f a) xs ([], w)) = map (\<lambda>x. the (firstOf (a x))) xs \<and>
       distinct (map a ys) \<and> a ` set ys = a ` set xs)"
proof (intro conjI)
  show "beforeAll f xs (initBefore n w) =
     (let k = nat (n - 1); rs = map Some (fst (callAll f (take k xs) w))
      in Some (rs @ replicate (length xs - k) (last (None # rs)), snd (callAll f (take k xs) w)))"
    using beforeAll_run [of "initBefore n w" f xs] by (simp add: initBefore_def)
  show "beforeAll f (x # xs) (initOnce w) = Some (replicate (Suc (length xs)) (Some (fst (f x w))), snd (f x w))"
    using beforeAll_run [of "initOnce w" f "x # xs"]
    by (simp add: initOnce_def initBefore_def split_beta del: beforeAll.simps)
  show "callAll (after f) xs (n, w) =
     (let k = nat (n - 1); ys = drop k xs
      in (replicate (min k (length xs)) None @ map Some (fst (callAll f ys w)), n - int (length xs), snd (callAll f ys w)))"
    by (rule after_run)
  let ?c = "fst (snd (callAll (memoize f a) xs ([], w)))" and ?ys = "firstsBy a [] xs"
  have d: "distinct (map a ?ys)" "a ` set ?ys = a ` set xs" using firstsBy_distinct [of a "[]" xs] by auto
  have "the (map_of (zip (map a ?ys) (fst (callAll f ?ys w))) (a x)) = the (map_of ?c (a x))" if x: "x \<in> set xs" for x
  proof -
    have e: "zip (map a ?ys) (fst (callAll f ?ys w)) = map (\<lambda>k. (k, the (map_of ?c k))) (map a ?ys)"
      using memoize_run [of f a xs "[]" w] by (simp add: zip_map_map zip_same_conv_map comp_def)
    have "a x \<in> set (map a ?ys)" using d(2) x by auto
    then show ?thesis unfolding e map_of_map_restrict restrict_map_def by (simp del: set_map)
  qed
  then show "let ys = firstsBy a [] xs; firstOf = map_of (zip (map a ys) (fst (callAll f ys w)))
    in snd (snd (callAll (memoize f a) xs ([], w))) = snd (callAll f ys w) \<and>
       fst (callAll (memoize f a) xs ([], w)) = map (\<lambda>x. the (firstOf (a x))) xs \<and>
       distinct (map a ys) \<and> a ` set ys = a ` set xs"
    using memoize_run [of f a xs "[]" w] d by (simp add: Let_def)
qed

text \<open>
  Identifiers never repeat: as long as no prefix ends in a digit, all identifiers
  handed out are different, and each starts with its prefix.
\<close>
theorem uniqueIds_distinct:
  assumes "list_all noDigitEnd ps"
  shows "distinct (uniqueIds ps n) \<and> list_all2 startsWith ps (uniqueIds ps n)"
  using assms
proof (induction ps arbitrary: n)
  case (Cons p ps)
  have "p @ dec (Suc n) \<notin> set (uniqueIds ps (Suc n))"
  proof
    assume "p @ dec (Suc n) \<in> set (uniqueIds ps (Suc n))"
    then obtain q m where "q \<in> set ps" "Suc n < m" "p @ dec (Suc n) = q @ dec m"
      using uniqueIds_members by blast
    with number_suffix [of p "Suc n" q m] Cons.prems show False by (auto simp: list_all_iff)
  qed
  with Cons show ?case by (simp add: uniqueId_def del: dec.simps)
qed simp

theorem uniqueIds_distinct_witness:
  "list_all noDigitEnd [js ''menu'', js ''menu'', []] \<and>
   distinct (uniqueIds [js ''menu'', js ''menu'', []] 9)"
  using uniqueIds_distinct [of "[js ''menu'', js ''menu'', []]" 9] by (simp add: noDigitEnd_def)

end
