(* ===== verification/JS_Sort.thy ===== *)
theory JS_Sort
  imports Main "HOL-Library.Multiset"
begin

text \<open>
  The method \<open>sort\<close> of the language with a comparison function, and its contract as a locale:
  for a consistent comparison the result is sorted, a permutation, and stable.
\<close>

text \<open>\<open>xs.sort(cmp)\<close>, which is stable.\<close>

fun insertBy :: "('a \<Rightarrow> 'a \<Rightarrow> int) \<Rightarrow> 'a \<Rightarrow> 'a list \<Rightarrow> 'a list" where
  "insertBy cmp x [] = [x]"
| "insertBy cmp x (y # ys) = (if cmp x y \<le> 0 then x # y # ys else y # insertBy cmp x ys)"

definition sortBy :: "('a \<Rightarrow> 'a \<Rightarrow> int) \<Rightarrow> 'a list \<Rightarrow> 'a list" where
  "sortBy cmp xs = foldr (insertBy cmp) xs []"

text \<open>The same method for a comparison function that also changes a state.\<close>

fun insertNoting :: "('a \<Rightarrow> 'a \<Rightarrow> 's \<Rightarrow> int \<times> 's) \<Rightarrow> 'a \<Rightarrow> 'a list \<Rightarrow> 's \<Rightarrow> 'a list \<times> 's" where
  "insertNoting c x [] s = ([x], s)"
| "insertNoting c x (y # ys) s =
     (let (r, s') = c x y s
      in if r \<le> 0 then (x # y # ys, s') else (let (zs, s'') = insertNoting c x ys s' in (y # zs, s'')))"

primrec sortNoting :: "('a \<Rightarrow> 'a \<Rightarrow> 's \<Rightarrow> int \<times> 's) \<Rightarrow> 'a list \<Rightarrow> 's \<Rightarrow> 'a list \<times> 's" where
  "sortNoting c [] s = ([], s)"
| "sortNoting c (x # xs) s = (let (ys, s') = sortNoting c xs s in insertNoting c x ys s')"

text \<open>
  The interface of \<open>sort\<close>: the comparison function is consistent. The result is then
  sorted, a permutation, and stable.
\<close>

locale comparator =
  fixes cmp :: "'a \<Rightarrow> 'a \<Rightarrow> int"
  assumes cmp_total: "cmp x y > 0 \<Longrightarrow> cmp y x \<le> 0"
    and cmp_trans: "cmp x y \<le> 0 \<Longrightarrow> cmp y z \<le> 0 \<Longrightarrow> cmp x z \<le> 0"
begin

lemma mset_insertBy: "mset (insertBy cmp x ys) = add_mset x (mset ys)"
  by (induction ys) auto

lemma mset_sortBy: "mset (sortBy cmp xs) = mset xs"
  unfolding sortBy_def by (induction xs) (auto simp: mset_insertBy)

lemma set_insertBy: "set (insertBy cmp x ys) = insert x (set ys)"
  by (metis mset_insertBy set_mset_add_mset_insert set_mset_mset)

lemma sorted_insertBy:
  "sorted_wrt (\<lambda>a b. cmp a b \<le> 0) ys \<Longrightarrow> sorted_wrt (\<lambda>a b. cmp a b \<le> 0) (insertBy cmp x ys)"
proof (induction ys)
  case (Cons y ys)
  then show ?case using cmp_total [of x y] cmp_trans [of x y] by (auto simp: set_insertBy)
qed simp

lemma sorted_sortBy: "sorted_wrt (\<lambda>a b. cmp a b \<le> 0) (sortBy cmp xs)"
  unfolding sortBy_def by (induction xs) (auto simp: sorted_insertBy)

lemma filter_insertBy:
  assumes "\<And>a b. P a \<Longrightarrow> P b \<Longrightarrow> cmp a b \<le> 0"
  shows "filter P (insertBy cmp x ys) = (if P x then x # filter P ys else filter P ys)"
  by (induction ys) (auto dest: assms)

lemma stable_sortBy:
  assumes "\<And>a b. P a \<Longrightarrow> P b \<Longrightarrow> cmp a b \<le> 0"
  shows "filter P (sortBy cmp xs) = filter P xs"
  unfolding sortBy_def by (induction xs) (auto simp: filter_insertBy [OF assms])

end

end
