(* ===== verification/Underscore_Collections.thy ===== *)
theory Underscore_Collections
  imports Underscore_Values JS_Sort
begin

text \<open>
  The collection functions of \<^verbatim>\<open>underscore.js\<close>: the loops over arrays and objects
  (\<open>each\<close>, \<open>map\<close>, \<open>reduce\<close>, \<open>filter\<close>, \<open>every\<close>, \<open>some\<close>), the searches (\<open>findIndex\<close>,
  \<open>findKey\<close>, \<open>find\<close>, \<open>sortedIndex\<close>, \<open>indexOf\<close>, \<open>contains\<close>), the extrema, sorting and grouping,
  and random samples. A collection is array-like or a plain object with its own keys in
  order; the callbacks are functions of a value and its key. The loops are written over
  indices as the code has them, and the lemmas show that they compute the usual list
  functions. Names that the logic already has carry the suffix \<open>U\<close>.
\<close>

section \<open>Collections\<close>

datatype key = Idx nat | Name jstring

datatype 'a coll = ArrayLike "'a list" | PlainObject "(jstring \<times> 'a) list"

definition collSize :: "'a coll \<Rightarrow> nat" where
  "collSize c = (case c of ArrayLike xs \<Rightarrow> length xs | PlainObject es \<Rightarrow> length es)"

text \<open>\<open>_keys ? _keys[index] : index\<close> and \<open>obj[currentKey]\<close>.\<close>

definition keyAt :: "'a coll \<Rightarrow> nat \<Rightarrow> key" where
  "keyAt c i = (case c of ArrayLike xs \<Rightarrow> Idx i | PlainObject es \<Rightarrow> Name (fst (es ! i)))"

definition valueAt :: "'a coll \<Rightarrow> nat \<Rightarrow> 'a" where
  "valueAt c i = (case c of ArrayLike xs \<Rightarrow> xs ! i | PlainObject es \<Rightarrow> snd (es ! i))"

definition valuesU :: "'a coll \<Rightarrow> 'a list" where
  "valuesU c = (case c of ArrayLike xs \<Rightarrow> xs | PlainObject es \<Rightarrow> map snd es)"

definition sizeU :: "'a coll option \<Rightarrow> nat" where
  "sizeU c = (case c of None \<Rightarrow> 0 | Some c \<Rightarrow> collSize c)"

section \<open>Loops\<close>

function eachFrom :: "('a \<Rightarrow> key \<Rightarrow> 's \<Rightarrow> 's) \<Rightarrow> 'a coll \<Rightarrow> nat \<Rightarrow> 's \<Rightarrow> 's" where
  "eachFrom f c i s = (if i < collSize c then eachFrom f c (Suc i) (f (valueAt c i) (keyAt c i) s) else s)"
  by pat_completeness auto
termination by (relation "measure (\<lambda>(f, c, i, s). collSize c - i)") auto

definition each :: "('a \<Rightarrow> key \<Rightarrow> 's \<Rightarrow> 's) \<Rightarrow> 'a coll \<Rightarrow> 's \<Rightarrow> 's" where
  "each f c s = eachFrom f c 0 s"

function mapFrom :: "('a \<Rightarrow> key \<Rightarrow> 'b) \<Rightarrow> 'a coll \<Rightarrow> nat \<Rightarrow> 'b list" where
  "mapFrom f c i = (if i < collSize c then f (valueAt c i) (keyAt c i) # mapFrom f c (Suc i) else [])"
  by pat_completeness auto
termination by (relation "measure (\<lambda>(f, c, i). collSize c - i)") auto

definition mapU :: "('a \<Rightarrow> key \<Rightarrow> 'b) \<Rightarrow> 'a coll \<Rightarrow> 'b list" where
  "mapU f c = mapFrom f c 0"

definition pluck :: "('a \<Rightarrow> 'b) \<Rightarrow> 'a coll \<Rightarrow> 'b list" where
  "pluck prop c = mapU (\<lambda>v k. prop v) c"

text \<open>The reducer, to the right (\<open>dir = 1\<close>) or to the left (\<open>dir = -1\<close>).\<close>

definition stepOf :: "bool \<Rightarrow> int" where
  "stepOf forward = (if forward then 1 else -1)"

function reduceLoop :: "bool \<Rightarrow> ('m \<Rightarrow> 'a \<Rightarrow> key \<Rightarrow> 'm) \<Rightarrow> 'a coll \<Rightarrow> int \<Rightarrow> 'm \<Rightarrow> 'm" where
  "reduceLoop forward f c index memo =
     (if index \<ge> 0 \<and> index < int (collSize c)
      then reduceLoop forward f c (index + stepOf forward)
             (f memo (valueAt c (nat index)) (keyAt c (nat index)))
      else memo)"
  by pat_completeness auto
termination
  by (relation "measure (\<lambda>(forward, f, c, index, memo).
      if forward then nat (int (collSize c) - index) else nat (index + 1))") (auto simp: stepOf_def)

definition startIndex :: "bool \<Rightarrow> 'a coll \<Rightarrow> int" where
  "startIndex forward c = (if forward then 0 else int (collSize c) - 1)"

definition createReduce :: "bool \<Rightarrow> ('m \<Rightarrow> 'a \<Rightarrow> key \<Rightarrow> 'm) \<Rightarrow> 'a coll \<Rightarrow> 'm \<Rightarrow> 'm" where
  "createReduce forward f c memo = reduceLoop forward f c (startIndex forward c) memo"

text \<open>Without an initial value the first element is the memo, and \<open>undefined\<close> when there is none.\<close>

definition createReduce1 :: "bool \<Rightarrow> ('a \<Rightarrow> 'a \<Rightarrow> key \<Rightarrow> 'a) \<Rightarrow> 'a coll \<Rightarrow> 'a option" where
  "createReduce1 forward f c =
     (if collSize c = 0 then None
      else Some (reduceLoop forward f c (startIndex forward c + stepOf forward)
                   (valueAt c (nat (startIndex forward c)))))"

definition filterU :: "('a \<Rightarrow> key \<Rightarrow> bool) \<Rightarrow> 'a coll \<Rightarrow> 'a list" where
  "filterU p c = each (\<lambda>v k results. if p v k then results @ [v] else results) c []"

definition rejectU :: "('a \<Rightarrow> key \<Rightarrow> bool) \<Rightarrow> 'a coll \<Rightarrow> 'a list" where
  "rejectU p c = filterU (\<lambda>v k. \<not> p v k) c"

function everyFrom :: "('a \<Rightarrow> key \<Rightarrow> bool) \<Rightarrow> 'a coll \<Rightarrow> nat \<Rightarrow> bool" where
  "everyFrom p c i =
     (if i < collSize c then (if \<not> p (valueAt c i) (keyAt c i) then False else everyFrom p c (Suc i)) else True)"
  by pat_completeness auto
termination by (relation "measure (\<lambda>(p, c, i). collSize c - i)") auto

definition everyU :: "('a \<Rightarrow> key \<Rightarrow> bool) \<Rightarrow> 'a coll \<Rightarrow> bool" where
  "everyU p c = everyFrom p c 0"

function someFrom :: "('a \<Rightarrow> key \<Rightarrow> bool) \<Rightarrow> 'a coll \<Rightarrow> nat \<Rightarrow> bool" where
  "someFrom p c i =
     (if i < collSize c then (if p (valueAt c i) (keyAt c i) then True else someFrom p c (Suc i)) else False)"
  by pat_completeness auto
termination by (relation "measure (\<lambda>(p, c, i). collSize c - i)") auto

definition someU :: "('a \<Rightarrow> key \<Rightarrow> bool) \<Rightarrow> 'a coll \<Rightarrow> bool" where
  "someU p c = someFrom p c 0"

section \<open>Searches\<close>

text \<open>The finder of an index, from the front (\<open>dir > 0\<close>) or from the back.\<close>

function findLoop :: "bool \<Rightarrow> ('a \<Rightarrow> nat \<Rightarrow> bool) \<Rightarrow> 'a list \<Rightarrow> int \<Rightarrow> int" where
  "findLoop forward p xs index =
     (if index \<ge> 0 \<and> index < int (length xs)
      then (if p (xs ! nat index) (nat index) then index else findLoop forward p xs (index + stepOf forward))
      else -1)"
  by pat_completeness auto
termination
  by (relation "measure (\<lambda>(forward, p, xs, index).
      if forward then nat (int (length xs) - index) else nat (index + 1))") (auto simp: stepOf_def)

definition createPredicateIndexFinder :: "bool \<Rightarrow> 'a list \<Rightarrow> ('a \<Rightarrow> nat \<Rightarrow> bool) \<Rightarrow> int" where
  "createPredicateIndexFinder forward xs p =
     findLoop forward p xs (if forward then 0 else int (length xs) - 1)"

definition findIndex :: "'a list \<Rightarrow> ('a \<Rightarrow> nat \<Rightarrow> bool) \<Rightarrow> int" where
  "findIndex = createPredicateIndexFinder True"

definition findLastIndex :: "'a list \<Rightarrow> ('a \<Rightarrow> nat \<Rightarrow> bool) \<Rightarrow> int" where
  "findLastIndex = createPredicateIndexFinder False"

fun findKey :: "(jstring \<times> 'a) list \<Rightarrow> ('a \<Rightarrow> jstring \<Rightarrow> bool) \<Rightarrow> jstring option" where
  "findKey [] p = None"
| "findKey ((k, v) # es) p = (if p v k then Some k else findKey es p)"

definition findU :: "'a coll \<Rightarrow> ('a \<Rightarrow> key \<Rightarrow> bool) \<Rightarrow> 'a option" where
  "findU c p =
     (case c of
        ArrayLike xs \<Rightarrow>
          (let i = findIndex xs (\<lambda>v i. p v (Idx i)) in if i \<noteq> -1 then Some (xs ! nat i) else None)
      | PlainObject es \<Rightarrow>
          (case findKey es (\<lambda>v k. p v (Name k)) of Some k \<Rightarrow> map_of es k | None \<Rightarrow> None))"

text \<open>The binary search; the iteratee maps to an ordered type.\<close>

function sortedLoop :: "('a \<Rightarrow> 'k::linorder) \<Rightarrow> 'a list \<Rightarrow> 'k \<Rightarrow> nat \<Rightarrow> nat \<Rightarrow> nat" where
  "sortedLoop f xs value low high =
     (if low < high then
        let mid = (low + high) div 2 in
        if f (xs ! mid) < value then sortedLoop f xs value (mid + 1) high
        else sortedLoop f xs value low mid
      else low)"
  by pat_completeness auto
termination by (relation "measure (\<lambda>(f, xs, value, low, high). high - low)") auto

definition sortedIndex :: "'a list \<Rightarrow> 'a \<Rightarrow> ('a \<Rightarrow> 'k::linorder) \<Rightarrow> nat" where
  "sortedIndex xs obj f = sortedLoop f xs (f obj) 0 (length xs)"

text \<open>The third argument of \<open>indexOf\<close>: nothing, a number, or a flag for a sorted array.\<close>

datatype idx_arg = NoIdx | FromIdx int | IsSorted

function indexLoop :: "bool \<Rightarrow> val list \<Rightarrow> val \<Rightarrow> int \<Rightarrow> int \<Rightarrow> int" where
  "indexLoop forward xs item idx len =
     (if idx \<ge> 0 \<and> idx < len
      then (if idx < int (length xs) \<and> strictEq (xs ! nat idx) item then idx
            else indexLoop forward xs item (idx + stepOf forward) len)
      else -1)"
  by pat_completeness auto
termination
  by (relation "measure (\<lambda>(forward, xs, item, idx, len).
      if forward then nat (len - idx) else nat (idx + 1))") (auto simp: stepOf_def)

definition isNaNVal :: "val \<Rightarrow> bool" where
  "isNaNVal v \<longleftrightarrow> v = Num NaN"

text \<open>
  The finder, given the lookup in a sorted array where there is one. The bounds \<open>i\<close> and
  \<open>length\<close> are those of the code; number objects do not occur in the arrays.
\<close>

definition createIndexFinder ::
  "bool \<Rightarrow> (val list \<Rightarrow> val \<Rightarrow> nat) option \<Rightarrow> val list \<Rightarrow> val \<Rightarrow> idx_arg \<Rightarrow> int" where
  "createIndexFinder forward sorted' xs item idx =
     (let n = int (length xs);
          i = (case idx of FromIdx k \<Rightarrow> if forward then (if k \<ge> 0 then k else max (k + n) 0) else 0 | _ \<Rightarrow> 0);
          len = (case idx of
                   FromIdx k \<Rightarrow> if forward then n else (if k \<ge> 0 then min (k + 1) n else k + n + 1)
                 | _ \<Rightarrow> n)
      in if idx = IsSorted \<and> sorted' \<noteq> None \<and> xs \<noteq> [] then
           (let k = the sorted' xs item
            in if k < length xs \<and> strictEq (xs ! k) item then int k else -1)
         else if isNaNVal item then
           (let k = createPredicateIndexFinder forward (jsSlice i len xs) (\<lambda>v _. isNaNVal v)
            in if k \<ge> 0 then k + i else -1)
         else indexLoop forward xs item (if forward then i else len - 1) len)"

definition indexOfU :: "(val list \<Rightarrow> val \<Rightarrow> nat) \<Rightarrow> val list \<Rightarrow> val \<Rightarrow> idx_arg \<Rightarrow> int" where
  "indexOfU srt = createIndexFinder True (Some srt)"

definition lastIndexOfU :: "val list \<Rightarrow> val \<Rightarrow> idx_arg \<Rightarrow> int" where
  "lastIndexOfU = createIndexFinder False None"

text \<open>\<open>contains(obj, item)\<close>; the index is always a number there.\<close>

definition containsFrom :: "val coll \<Rightarrow> val \<Rightarrow> int \<Rightarrow> bool" where
  "containsFrom c item fromIndex = (createIndexFinder True None (valuesU c) item (FromIdx fromIndex) \<ge> 0)"

definition contains :: "val list \<Rightarrow> val \<Rightarrow> bool" where
  "contains xs item = containsFrom (ArrayLike xs) item 0"

section \<open>Extrema\<close>

fun numLess :: "jsnum \<Rightarrow> jsnum \<Rightarrow> bool" where
  "numLess NaN n = False"
| "numLess m NaN = False"
| "numLess NegInf n = (n \<noteq> NegInf)"
| "numLess m NegInf = False"
| "numLess PosInf n = False"
| "numLess m PosInf = True"
| "numLess (Fin a) (Fin b) = (a < b)"
| "numLess (Fin a) NegZero = (a < 0)"
| "numLess NegZero (Fin b) = (0 < b)"
| "numLess NegZero NegZero = False"

text \<open>
  Without an iteratee the elements are numbers, or \<open>null\<close> and \<open>undefined\<close>, which are passed
  over. The flag says whether the maximum or the minimum is wanted.
\<close>

definition better :: "bool \<Rightarrow> jsnum \<Rightarrow> jsnum \<Rightarrow> bool" where
  "better isMax m n = (if isMax then numLess n m else numLess m n)"

definition worst :: "bool \<Rightarrow> jsnum" where
  "worst isMax = (if isMax then NegInf else PosInf)"

definition extremum :: "bool \<Rightarrow> val list \<Rightarrow> jsnum" where
  "extremum isMax xs =
     fold (\<lambda>v r. case v of Num n \<Rightarrow> if better isMax n r then n else r | _ \<Rightarrow> r) xs (worst isMax)"

text \<open>
  With an iteratee: the result is an element, or the infinity when there is none (\<open>None\<close>).
  No element is itself that infinity.
\<close>

definition extremumBy :: "bool \<Rightarrow> ('a \<Rightarrow> key \<Rightarrow> jsnum) \<Rightarrow> 'a coll \<Rightarrow> 'a option" where
  "extremumBy isMax f c =
     fst (each (\<lambda>v k (result, lastComputed).
       if better isMax (f v k) lastComputed \<or> f v k = worst isMax \<and> result = None
       then (Some v, f v k) else (result, lastComputed)) c (None, worst isMax))"

definition maxU :: "val list \<Rightarrow> jsnum" where "maxU = extremum True"
definition minU :: "val list \<Rightarrow> jsnum" where "minU = extremum False"
definition maxByU :: "('a \<Rightarrow> key \<Rightarrow> jsnum) \<Rightarrow> 'a coll \<Rightarrow> 'a option" where "maxByU = extremumBy True"
definition minByU :: "('a \<Rightarrow> key \<Rightarrow> jsnum) \<Rightarrow> 'a coll \<Rightarrow> 'a option" where "minByU = extremumBy False"

section \<open>Strings as arrays, samples\<close>

text \<open>\<open>obj.match(reStrSymbol)\<close>: surrogate pairs stay together.\<close>

fun strSymbols :: "jstring \<Rightarrow> jstring list" where
  "strSymbols [] = []"
| "strSymbols [c] = [[c]]"
| "strSymbols (c # d # s) =
     (if 55296 \<le> c \<and> c \<le> 56319 \<and> 56320 \<le> d \<and> d \<le> 57343 then [c, d] # strSymbols s
      else [c] # strSymbols (d # s))"

text \<open>\<open>random(min, max)\<close> for a random number \<open>r / d\<close> from 0 up to but not including 1.\<close>

definition randomU :: "nat \<times> nat \<Rightarrow> nat \<Rightarrow> nat \<Rightarrow> nat" where
  "randomU r mn mx = mn + fst r * (mx - mn + 1) div snd r"

definition swap :: "nat \<Rightarrow> nat \<Rightarrow> 'a list \<Rightarrow> 'a list" where
  "swap i j xs = xs[i := xs ! j, j := xs ! i]"

text \<open>The loop of the shuffle, which takes one random number in each round.\<close>

fun sampleLoop :: "(nat \<times> nat) list \<Rightarrow> nat \<Rightarrow> 'a list \<Rightarrow> 'a list" where
  "sampleLoop [] index xs = xs"
| "sampleLoop (r # rs) index xs =
     sampleLoop rs (Suc index) (swap index (randomU r index (length xs - 1)) xs)"

definition sampleU :: "(nat \<Rightarrow> nat \<times> nat) \<Rightarrow> 'a list \<Rightarrow> int \<Rightarrow> 'a list" where
  "sampleU rnd xs n =
     (let m = nat (max (min n (int (length xs))) 0)
      in take m (sampleLoop (map rnd [0..<m]) 0 xs))"

definition shuffleU :: "(nat \<Rightarrow> nat \<times> nat) \<Rightarrow> 'a list \<Rightarrow> 'a list" where
  "shuffleU rnd xs = sampleU rnd xs (int (length xs))"

section \<open>Groups\<close>

text \<open>
  The result object of the grouping functions as its properties in the order of their
  creation.
\<close>

fun putGroup :: "('b option \<Rightarrow> 'b) \<Rightarrow> jstring \<Rightarrow> (jstring \<times> 'b) list \<Rightarrow> (jstring \<times> 'b) list" where
  "putGroup f k [] = [(k, f None)]"
| "putGroup f k ((k', b) # r) = (if k' = k then (k', f (Some b)) # r else (k', b) # putGroup f k r)"

definition group :: "('a \<Rightarrow> 'b option \<Rightarrow> 'b) \<Rightarrow> 'a coll \<Rightarrow> ('a \<Rightarrow> key \<Rightarrow> jstring) \<Rightarrow> (jstring \<times> 'b) list" where
  "group behavior c f = each (\<lambda>v k result. putGroup (behavior v) (f v k) result) c []"

definition groupBy :: "'a coll \<Rightarrow> ('a \<Rightarrow> key \<Rightarrow> jstring) \<Rightarrow> (jstring \<times> 'a list) list" where
  "groupBy = group (\<lambda>v old. case old of Some vs \<Rightarrow> vs @ [v] | None \<Rightarrow> [v])"

definition indexBy :: "'a coll \<Rightarrow> ('a \<Rightarrow> key \<Rightarrow> jstring) \<Rightarrow> (jstring \<times> 'a) list" where
  "indexBy = group (\<lambda>v old. v)"

definition countBy :: "'a coll \<Rightarrow> ('a \<Rightarrow> key \<Rightarrow> jstring) \<Rightarrow> (jstring \<times> nat) list" where
  "countBy = group (\<lambda>v old. case old of Some n \<Rightarrow> n + 1 | None \<Rightarrow> 1)"

definition partitionU :: "'a coll \<Rightarrow> ('a \<Rightarrow> key \<Rightarrow> bool) \<Rightarrow> 'a list \<times> 'a list" where
  "partitionU c p =
     each (\<lambda>v k (yes, no). if p v k then (yes @ [v], no) else (yes, no @ [v])) c ([], [])"

text \<open>
  \<open>sortBy\<close>: the comparison of the criteria, where \<open>undefined\<close> (\<open>None\<close>) comes last, and of
  the positions when the criteria are equal.
\<close>

definition compareCriteria :: "'a \<times> nat \<times> 'k::linorder option \<Rightarrow> 'a \<times> nat \<times> 'k option \<Rightarrow> int" where
  "compareCriteria l r =
     (let a = snd (snd l); b = snd (snd r);
          gt = (case (a, b) of (Some x, Some y) \<Rightarrow> x > y | _ \<Rightarrow> False);
          lt = (case (a, b) of (Some x, Some y) \<Rightarrow> x < y | _ \<Rightarrow> False)
      in if a \<noteq> b \<and> (gt \<or> a = None) then 1
         else if a \<noteq> b \<and> (lt \<or> b = None) then -1
         else int (fst (snd l)) - int (fst (snd r)))"

definition sortByU :: "'a coll \<Rightarrow> ('a \<Rightarrow> key \<Rightarrow> 'k::linorder option) \<Rightarrow> 'a list" where
  "sortByU c f =
     (let decorated = snd (each (\<lambda>v k (index, ds). (Suc index, ds @ [(v, index, f v k)])) c (0, []))
      in map fst (sortBy compareCriteria decorated))"

section \<open>Lemmas: loops\<close>

text \<open>The pairs of value and key, in the order in which the loops visit them.\<close>

definition entries :: "'a coll \<Rightarrow> ('a \<times> key) list" where
  "entries c = map (\<lambda>i. (valueAt c i, keyAt c i)) [0..<collSize c]"

lemma length_entries [simp]: "length (entries c) = collSize c"
  by (simp add: entries_def)

lemma entries_nth: "i < collSize c \<Longrightarrow> entries c ! i = (valueAt c i, keyAt c i)"
  by (simp add: entries_def)

lemma map_fst_entries: "map fst (entries c) = valuesU c"
  by (cases c) (auto simp: entries_def valueAt_def collSize_def valuesU_def intro!: nth_equalityI)

lemma drop_entries:
  "i < collSize c \<Longrightarrow> drop i (entries c) = (valueAt c i, keyAt c i) # drop (Suc i) (entries c)"
  by (metis Cons_nth_drop_Suc entries_nth length_entries)

declare eachFrom.simps [simp del] mapFrom.simps [simp del] everyFrom.simps [simp del]
  someFrom.simps [simp del] reduceLoop.simps [simp del] findLoop.simps [simp del]
  sortedLoop.simps [simp del] indexLoop.simps [simp del]

lemma eachFrom_fold: "eachFrom f c i s = fold (\<lambda>(v, k). f v k) (drop i (entries c)) s"
proof (induction f c i s rule: eachFrom.induct)
  case (1 f c i s)
  then show ?case by (subst eachFrom.simps) (auto simp: drop_entries)
qed

lemma each_fold: "each f c s = fold (\<lambda>(v, k). f v k) (entries c) s"
  by (simp add: each_def eachFrom_fold)

lemma mapFrom_map: "mapFrom f c i = map (\<lambda>(v, k). f v k) (drop i (entries c))"
proof (induction f c i rule: mapFrom.induct)
  case (1 f c i)
  then show ?case by (subst mapFrom.simps) (auto simp: drop_entries)
qed

lemma mapU_map: "mapU f c = map (\<lambda>(v, k). f v k) (entries c)"
  by (simp add: mapU_def mapFrom_map)

lemma pluck_map: "pluck prop c = map prop (valuesU c)"
  by (simp add: pluck_def mapU_map case_prod_beta map_fst_entries [symmetric])

lemma filterU_filter: "filterU p c = map fst (filter (\<lambda>(v, k). p v k) (entries c))"
proof -
  have "fold (\<lambda>(v, k) r. if p v k then r @ [v] else r) es r =
      r @ map fst (filter (\<lambda>(v, k). p v k) es)" for es r
    by (induction es arbitrary: r) auto
  then show ?thesis by (simp add: filterU_def each_fold)
qed

lemma filterU_list: "filterU (\<lambda>v k. p v) (ArrayLike xs) = filter p xs"
proof -
  have "map fst (filter (\<lambda>(v, k). p v) es) = filter p (map fst es)" for es :: "('a \<times> key) list"
    by (induction es) auto
  then show ?thesis by (simp add: filterU_filter map_fst_entries valuesU_def)
qed

lemma everyU_all: "everyU p c \<longleftrightarrow> (\<forall>(v, k) \<in> set (entries c). p v k)"
proof -
  have "everyFrom p c i \<longleftrightarrow> (\<forall>(v, k) \<in> set (drop i (entries c)). p v k)" for i
  proof (induction p c i rule: everyFrom.induct)
    case (1 p c i)
    then show ?case by (subst everyFrom.simps) (auto simp: drop_entries)
  qed
  then show ?thesis by (simp add: everyU_def)
qed

lemma someU_ex: "someU p c \<longleftrightarrow> (\<exists>(v, k) \<in> set (entries c). p v k)"
proof -
  have "someFrom p c i \<longleftrightarrow> (\<exists>(v, k) \<in> set (drop i (entries c)). p v k)" for i
  proof (induction p c i rule: someFrom.induct)
    case (1 p c i)
    then show ?case by (subst someFrom.simps) (auto simp: drop_entries)
  qed
  then show ?thesis by (simp add: someU_def)
qed

lemma reduceLoop_forward:
  "reduceLoop True f c (int i) m = foldl (\<lambda>m (v, k). f m v k) m (drop i (entries c))"
proof (induction "collSize c - i" arbitrary: i m)
  case 0
  then show ?case by (subst reduceLoop.simps) auto
next
  case (Suc n)
  then have i: "i < collSize c" by simp
  have "reduceLoop True f c (int i) m =
      reduceLoop True f c (int (Suc i)) (f m (valueAt c i) (keyAt c i))"
    using i by (subst reduceLoop.simps) (simp add: stepOf_def add.commute)
  also have "\<dots> = foldl (\<lambda>m (v, k). f m v k) (f m (valueAt c i) (keyAt c i)) (drop (Suc i) (entries c))"
    using Suc by (intro Suc.hyps(1)) simp
  finally show ?case using i by (simp add: drop_entries)
qed

lemma reduceLoop_backward:
  "i \<le> collSize c \<Longrightarrow>
   reduceLoop False f c (int i - 1) m = foldr (\<lambda>(v, k) m. f m v k) (take i (entries c)) m"
proof (induction i arbitrary: m)
  case 0
  then show ?case by (subst reduceLoop.simps) simp
next
  case (Suc i)
  then have "reduceLoop False f c (int (Suc i) - 1) m =
      reduceLoop False f c (int i - 1) (f m (valueAt c i) (keyAt c i))"
    by (subst reduceLoop.simps) (simp add: stepOf_def)
  also have "\<dots> = foldr (\<lambda>(v, k) m. f m v k) (take i (entries c)) (f m (valueAt c i) (keyAt c i))"
    using Suc by simp
  finally show ?case using Suc.prems by (simp add: take_Suc_conv_app_nth entries_nth)
qed

lemma createReduce_fold:
  "createReduce True f c m = foldl (\<lambda>m (v, k). f m v k) m (entries c)"
  "createReduce False f c m = foldr (\<lambda>(v, k) m. f m v k) (entries c) m"
  using reduceLoop_forward [of f c 0 m] reduceLoop_backward [of "collSize c" c f m]
  by (simp_all add: createReduce_def startIndex_def)

section \<open>Lemmas: searches\<close>

lemma findLoop_forward:
  "findLoop True p xs (int i) =
     (if \<exists>j. i \<le> j \<and> j < length xs \<and> p (xs ! j) j
      then int (LEAST j. i \<le> j \<and> j < length xs \<and> p (xs ! j) j) else -1)"
proof (induction "length xs - i" arbitrary: i)
  case 0
  then show ?case by (subst findLoop.simps) auto
next
  case (Suc n)
  then have i: "i < length xs" by simp
  show ?case
  proof (cases "p (xs ! i) i")
    case True
    then have "(LEAST j. i \<le> j \<and> j < length xs \<and> p (xs ! j) j) = i"
      using i by (intro Least_equality) auto
    then show ?thesis using True i by (subst findLoop.simps) auto
  next
    case False
    then have eq: "(i \<le> j \<and> j < length xs \<and> p (xs ! j) j) \<longleftrightarrow> (Suc i \<le> j \<and> j < length xs \<and> p (xs ! j) j)" for j
      by (metis Suc_leD le_antisym not_less_eq_eq)
    have "findLoop True p xs (int i) = findLoop True p xs (int (Suc i))"
      using False i by (subst findLoop.simps) (simp add: stepOf_def add.commute)
    then show ?thesis using Suc.hyps(1) [of "Suc i"] Suc.hyps(2) unfolding eq by simp
  qed
qed

lemma findIndex_eq:
  "findIndex xs p =
     (if \<exists>j < length xs. p (xs ! j) j then int (LEAST j. j < length xs \<and> p (xs ! j) j) else -1)"
  using findLoop_forward [of p xs 0] by (simp add: findIndex_def createPredicateIndexFinder_def)

lemma findIndex_cases:
  obtains (none) "findIndex xs p = -1" "\<forall>j < length xs. \<not> p (xs ! j) j"
  | (found) i where "findIndex xs p = int i" "i < length xs" "p (xs ! i) i" "\<forall>j < i. \<not> p (xs ! j) j"
proof (cases "\<exists>j < length xs. p (xs ! j) j")
  case True
  let ?P = "\<lambda>j. j < length xs \<and> p (xs ! j) j"
  define l where "l = (LEAST j. ?P j)"
  have l: "l < length xs" "p (xs ! l) l" using LeastI_ex [OF True] by (auto simp: l_def)
  have min: "\<not> ?P j" if "j < l" for j using not_less_Least [of j ?P] that by (auto simp: l_def)
  have "findIndex xs p = int l" using True by (simp add: findIndex_eq l_def)
  moreover have "\<forall>j < l. \<not> p (xs ! j) j" using min l(1) by (auto dest: less_trans)
  ultimately have "findIndex xs p = int l" "l < length xs" "p (xs ! l) l" "\<forall>j < l. \<not> p (xs ! j) j"
    using l by blast+
  then show ?thesis by (rule found)
next
  case False
  then show ?thesis using none by (simp add: findIndex_eq)
qed

lemma sortedLoop_spec:
  assumes "sorted (map f xs)" "low \<le> high" "high \<le> length xs"
    and "\<forall>i < low. f (xs ! i) < v" "\<forall>i. high \<le> i \<and> i < length xs \<longrightarrow> v \<le> f (xs ! i)"
  shows "sortedLoop f xs v low high \<le> length xs \<and>
    (\<forall>i < sortedLoop f xs v low high. f (xs ! i) < v) \<and>
    (\<forall>i. sortedLoop f xs v low high \<le> i \<and> i < length xs \<longrightarrow> v \<le> f (xs ! i))"
  using assms(2-5)
proof (induction "high - low" arbitrary: low high rule: less_induct)
  case less
  show ?case
  proof (cases "low < high")
    case True
    define mid where "mid = (low + high) div 2"
    have mid: "low \<le> mid" "mid < high" "mid < length xs" using True less.prems by (auto simp: mid_def)
    have mono: "i \<le> j \<Longrightarrow> j < length xs \<Longrightarrow> f (xs ! i) \<le> f (xs ! j)" for i j
      using sorted_nth_mono [OF assms(1), of i j] by simp
    show ?thesis
    proof (cases "f (xs ! mid) < v")
      case lt: True
      have "sortedLoop f xs v low high = sortedLoop f xs v (mid + 1) high"
        using True lt by (subst sortedLoop.simps) (simp add: mid_def Let_def)
      moreover have "\<forall>i < mid + 1. f (xs ! i) < v"
      proof (intro allI impI)
        fix i assume "i < mid + 1"
        then have "f (xs ! i) \<le> f (xs ! mid)" by (intro mono [OF _ mid(3)]) simp
        then show "f (xs ! i) < v" using lt by (rule le_less_trans)
      qed
      ultimately show ?thesis using less.hyps [of high "mid + 1"] less.prems mid by simp
    next
      case ge: False
      have eq: "sortedLoop f xs v low high = sortedLoop f xs v low mid"
        using True ge by (subst sortedLoop.simps) (simp add: mid_def Let_def)
      have above: "\<forall>i. mid \<le> i \<and> i < length xs \<longrightarrow> v \<le> f (xs ! i)"
      proof (intro allI impI)
        fix i assume "mid \<le> i \<and> i < length xs"
        then have "f (xs ! mid) \<le> f (xs ! i)" by (intro mono) auto
        with ge show "v \<le> f (xs ! i)" by simp
      qed
      show ?thesis unfolding eq
      proof (rule less.hyps)
        show "mid - low < high - low" "low \<le> mid" "mid \<le> length xs" using mid by auto
      qed (use less.prems above in blast)+
    qed
  next
    case False
    then have "sortedLoop f xs v low high = low" by (subst sortedLoop.simps) simp
    then show ?thesis using less.prems False by auto
  qed
qed

lemma sortedIndex_spec:
  assumes "sorted (map f xs)"
  shows "sortedIndex xs x f \<le> length xs" "i < sortedIndex xs x f \<Longrightarrow> f (xs ! i) < f x"
    "sortedIndex xs x f \<le> i \<Longrightarrow> i < length xs \<Longrightarrow> f x \<le> f (xs ! i)"
proof -
  have "\<forall>i. length xs \<le> i \<and> i < length xs \<longrightarrow> f x \<le> f (xs ! i)" by auto
  from sortedLoop_spec [OF assms _ _ _ this, of 0]
  show "sortedIndex xs x f \<le> length xs" "i < sortedIndex xs x f \<Longrightarrow> f (xs ! i) < f x"
    "sortedIndex xs x f \<le> i \<Longrightarrow> i < length xs \<Longrightarrow> f x \<le> f (xs ! i)"
    by (simp_all add: sortedIndex_def)
qed

text \<open>
  Equality as the searches see it: strict equality, with \<open>NaN\<close> equal to itself. The
  values the finder accepts for an item.
\<close>

definition sameValue :: "val \<Rightarrow> val \<Rightarrow> bool" where
  "sameValue a b \<longleftrightarrow> strictEq a b \<or> isNaNVal a \<and> isNaNVal b"

lemma sameValue_refl [simp]: "sameValue a a"
  by (cases a) (auto simp: sameValue_def isNaNVal_def numEq_def)

lemma sameValue_sym: "sameValue a b \<Longrightarrow> sameValue b a"
  by (cases a; cases b) (auto simp: sameValue_def isNaNVal_def numEq_def)

lemma sameValue_trans: "sameValue a b \<Longrightarrow> sameValue b c \<Longrightarrow> sameValue a c"
  by (cases a; cases b; cases c) (auto simp: sameValue_def isNaNVal_def numEq_def)

lemma indexLoop_forward:
  "indexLoop True xs item (int i) (int (length xs)) = findLoop True (\<lambda>v _. strictEq v item) xs (int i)"
proof (induction "length xs - i" arbitrary: i)
  case 0
  then show ?case by (subst indexLoop.simps, subst findLoop.simps) auto
next
  case (Suc n)
  then have "i < length xs" by simp
  moreover have "indexLoop True xs item (int (Suc i)) (int (length xs)) =
      findLoop True (\<lambda>v _. strictEq v item) xs (int (Suc i))"
    using Suc by (intro Suc.hyps(1)) simp
  ultimately show ?case
    by (subst indexLoop.simps, subst findLoop.simps) (simp add: stepOf_def add.commute)
qed

lemma strictEq_NaN [simp]: "\<not> strictEq v (Num NaN)"
  by (cases v) (auto simp: numEq_def)

lemma indexOf_findIndex:
  "createIndexFinder True s xs item NoIdx = findIndex xs (\<lambda>v _. sameValue v item)"
  "createIndexFinder True s xs item (FromIdx 0) = findIndex xs (\<lambda>v _. sameValue v item)"
proof -
  have sl: "jsSlice 0 (int (length xs)) xs = xs" by (simp add: jsSlice_def relIndex_def slice_def)
  have sv: "(\<lambda>v _. sameValue v item) = (if isNaNVal item then (\<lambda>v _. isNaNVal v) else (\<lambda>v _. strictEq v item))"
    by (auto simp: fun_eq_iff sameValue_def isNaNVal_def)
  have nn: "-1 = findIndex ys q" if "\<not> findIndex ys q \<ge> 0"
    for ys :: "val list" and q using that by (cases rule: findIndex_cases [of ys q]) auto
  have pf: "createPredicateIndexFinder True = findIndex" by (simp add: findIndex_def)
  have il: "indexLoop True xs item 0 (int (length xs)) = findIndex xs (\<lambda>v _. strictEq v item)"
    using indexLoop_forward [of xs item 0] by (simp add: findIndex_def createPredicateIndexFinder_def)
  show "createIndexFinder True s xs item NoIdx = findIndex xs (\<lambda>v _. sameValue v item)"
    "createIndexFinder True s xs item (FromIdx 0) = findIndex xs (\<lambda>v _. sameValue v item)"
    by (simp_all add: createIndexFinder_def Let_def sl sv nn pf il)
qed

lemma contains_iff: "contains xs item \<longleftrightarrow> (\<exists>x \<in> set xs. sameValue x item)"
proof -
  have "contains xs item \<longleftrightarrow> findIndex xs (\<lambda>v _. sameValue v item) \<ge> 0"
    by (simp add: contains_def containsFrom_def valuesU_def indexOf_findIndex)
  then show ?thesis
    by (cases rule: findIndex_cases [of xs "\<lambda>v _. sameValue v item"]) (force simp: in_set_conv_nth)+
qed

text \<open>Inserting an element at its sorted index keeps the order.\<close>

lemma sortedIndex_insert:
  assumes "sorted (map f xs)"
  shows "sorted (map f (take (sortedIndex xs x f) xs @ x # drop (sortedIndex xs x f) xs))"
proof -
  let ?r = "sortedIndex xs x f"
  have "y \<in> set (take ?r xs) \<Longrightarrow> f y < f x" for y
    using sortedIndex_spec(2) [OF assms] by (auto simp: in_set_conv_nth)
  moreover have "y \<in> set (drop ?r xs) \<Longrightarrow> f x \<le> f y" for y
    using sortedIndex_spec(3) [OF assms] by (auto simp: in_set_conv_nth)
  moreover have "sorted (map f (take ?r xs))" "sorted (map f (drop ?r xs))"
    using assms by (simp_all add: sorted_wrt_take sorted_wrt_drop flip: take_map drop_map)
  moreover have "f y \<le> f z" if "y \<in> set (take ?r xs)" "z \<in> set (drop ?r xs)" for y z
    using calculation(1) [OF that(1)] calculation(2) [OF that(2)] by simp
  ultimately show ?thesis by (auto simp: sorted_append less_imp_le)
qed

definition intOf :: "val \<Rightarrow> int" where
  "intOf v = (case v of Num (Fin n) \<Rightarrow> n | _ \<Rightarrow> 0)"

lemma sorted_indexOf:
  assumes "sorted ns"
  shows "indexOfU (\<lambda>ys y. sortedIndex ys y intOf) (map (\<lambda>n. Num (Fin n)) ns) (Num (Fin m)) IsSorted =
    indexOfU (\<lambda>ys y. sortedIndex ys y intOf) (map (\<lambda>n. Num (Fin n)) ns) (Num (Fin m)) NoIdx"
proof -
  let ?xs = "map (\<lambda>n. Num (Fin n)) ns"
  let ?r = "sortedIndex ?xs (Num (Fin m)) intOf"
  have srt: "sorted (map intOf ?xs)" using assms by (simp add: comp_def intOf_def)
  note r = sortedIndex_spec [OF srt, where x = "Num (Fin m)"]
  have eq: "sameValue (?xs ! i) (Num (Fin m)) \<longleftrightarrow> ns ! i = m" if "i < length ns" for i
    using that by (auto simp: sameValue_def numEq_def isNaNVal_def)
  have no: "indexOfU srt' ?xs (Num (Fin m)) NoIdx = findIndex ?xs (\<lambda>v _. sameValue v (Num (Fin m)))" for srt'
    by (simp add: indexOfU_def indexOf_findIndex)
  show ?thesis
  proof (cases "?r < length ns \<and> ns ! ?r = m")
    case True
    have "findIndex ?xs (\<lambda>v _. sameValue v (Num (Fin m))) = int ?r"
    proof (cases rule: findIndex_cases [of ?xs "\<lambda>v _. sameValue v (Num (Fin m))"])
      case none
      then show ?thesis using True eq by auto
    next
      case (found i)
      moreover have "\<not> i < ?r" using r(2) [of i] found(2,3) eq by (auto simp: intOf_def)
      moreover have "\<not> ?r < i" using found(4) True eq by auto
      ultimately show ?thesis by simp
    qed
    then show ?thesis unfolding no using True
      by (auto simp: indexOfU_def createIndexFinder_def Let_def numEq_def)
  next
    case False
    have "ns ! i \<noteq> m" if i: "i < length ns" for i
    proof
      assume m: "ns ! i = m"
      then have "\<not> i < ?r" using r(2) [of i] i by (auto simp: intOf_def)
      then have "?r \<le> i" by simp
      then have "m \<le> ns ! ?r" "ns ! ?r \<le> ns ! i"
        using r(3) [of ?r] i sorted_nth_mono [OF assms, of ?r i] by (auto simp: intOf_def)
      then show False using False m i \<open>?r \<le> i\<close> by auto
    qed
    then have "findIndex ?xs (\<lambda>v _. sameValue v (Num (Fin m))) = -1"
      using eq by (cases rule: findIndex_cases [of ?xs "\<lambda>v _. sameValue v (Num (Fin m))"]) auto
    then show ?thesis unfolding no using False
      by (auto simp: indexOfU_def createIndexFinder_def Let_def numEq_def isNaNVal_def indexLoop.simps)
  qed
qed

section \<open>Lemmas: samples, groups and sorting\<close>

lemma randomU_le: "fst r < snd r \<Longrightarrow> mn \<le> mx \<Longrightarrow> randomU r mn mx \<le> mx"
proof -
  assume r: "fst r < snd r" "mn \<le> mx"
  have "fst r * (mx - mn + 1) div snd r < mx - mn + 1"
    using r mult_strict_right_mono [of "fst r" "snd r" "mx - mn + 1"]
    by (intro less_mult_imp_div_less) (simp add: mult.commute)
  with r(2) show ?thesis by (simp add: randomU_def)
qed

lemma sampleLoop_mset:
  "\<forall>r \<in> set rs. fst r < snd r \<Longrightarrow> index + length rs \<le> length xs \<Longrightarrow>
   mset (sampleLoop rs index xs) = mset xs"
proof (induction rs index xs rule: sampleLoop.induct)
  case (2 r rs index xs)
  let ?j = "randomU r index (length xs - 1)"
  have "?j < length xs" using randomU_le [of r index "length xs - 1"] "2.prems" by force
  then have "mset (swap index ?j xs) = mset xs"
    using "2.prems" unfolding swap_def by (intro mset_swap) auto
  moreover have "length (swap index ?j xs) = length xs" by (simp add: swap_def)
  ultimately show ?case using "2.IH" "2.prems" by simp
qed simp

lemma shuffle_perm:
  "\<forall>i. fst (rnd i) < snd (rnd i) \<Longrightarrow> mset (shuffleU rnd xs) = mset xs"
proof -
  assume r: "\<forall>i. fst (rnd i) < snd (rnd i)"
  have m: "mset (sampleLoop (map rnd [0..<length xs]) 0 xs) = mset xs"
    using r by (intro sampleLoop_mset) auto
  then have "length (sampleLoop (map rnd [0..<length xs]) 0 xs) = length xs" by (rule mset_eq_length)
  with m show ?thesis by (simp add: shuffleU_def sampleU_def Let_def)
qed

lemma putGroup_map_of: "map_of (putGroup f k r) = (map_of r)(k \<mapsto> f (map_of r k))"
  by (induction f k r rule: putGroup.induct) (auto simp: fun_eq_iff)

lemma groupBy_map_of:
  "map_of (groupBy c f) k =
     (let vs = map fst (filter (\<lambda>(v, key). f v key = k) (entries c)) in if vs = [] then None else Some vs)"
proof -
  let ?b = "\<lambda>v old. case old of Some vs \<Rightarrow> vs @ [v] | None \<Rightarrow> [v]"
  have "map_of (fold (\<lambda>(v, key) r. putGroup (?b v) (f v key) r) es r) k =
      (let vs = map fst (filter (\<lambda>(v, key). f v key = k) es)
       in if vs = [] then map_of r k else Some ((case map_of r k of Some us \<Rightarrow> us | None \<Rightarrow> []) @ vs))" for es r
    by (induction es arbitrary: r) (auto simp: putGroup_map_of Let_def split: option.splits)
  from this [of "entries c" "[]"] show ?thesis
    by (simp add: groupBy_def group_def each_fold Let_def)
qed

interpretation cc: comparator compareCriteria
  by unfold_locales (auto simp: compareCriteria_def Let_def split: option.splits if_splits)

lemma sortByU_mset: "mset (sortByU c f) = mset (valuesU c)"
proof -
  have "map fst (snd (fold (\<lambda>(v, k) (index, ds). (Suc index, ds @ [(v, index, f v k)])) es (i, ds))) =
      map fst ds @ map fst es" for es i ds
    by (induction es arbitrary: i ds) auto
  then have "map fst (snd (each (\<lambda>v k (index, ds). (Suc index, ds @ [(v, index, f v k)])) c (0, []))) = valuesU c"
    by (simp add: each_fold map_fst_entries)
  then show ?thesis by (simp add: sortByU_def Let_def cc.mset_sortBy) (metis mset_map)
qed

section \<open>Properties\<close>

text \<open>
  The binary search is right: in a sorted array it returns the first position whose
  element is not smaller, so that inserting the object there keeps the order, and on sorted
  numbers \<open>indexOf\<close> with the sorted flag returns what the linear search returns, the first
  position of the number or \<open>-1\<close>.
\<close>

theorem sorted_search:
  assumes "sorted (map f xs)" "sorted ns"
  shows "(\<forall>i < sortedIndex xs x f. f (xs ! i) < f x) \<and>
    (\<forall>i. sortedIndex xs x f \<le> i \<and> i < length xs \<longrightarrow> f x \<le> f (xs ! i)) \<and>
    sorted (map f (take (sortedIndex xs x f) xs @ x # drop (sortedIndex xs x f) xs)) \<and>
    indexOfU (\<lambda>ys y. sortedIndex ys y intOf) (map (\<lambda>n. Num (Fin n)) ns) (Num (Fin m)) IsSorted =
      findIndex (map (\<lambda>n. Num (Fin n)) ns) (\<lambda>v _. sameValue v (Num (Fin m)))"
  using sortedIndex_spec [OF assms(1)] sortedIndex_insert [OF assms(1)] sorted_indexOf [OF assms(2)]
  by (simp add: indexOfU_def indexOf_findIndex)

theorem sorted_search_witness:
  "sorted (map id (take (sortedIndex [1, 3, 3, 7::int] 3 id) [1, 3, 3, 7::int] @ 3 #
     drop (sortedIndex [1, 3, 3, 7::int] 3 id) [1, 3, 3, 7]))"
  using sorted_search [of id "[1, 3, 3, 7::int]" "[]" 3 0] by simp

end
