(* ===== verification/Underscore_Arrays.thy ===== *)
theory Underscore_Arrays
  imports Underscore_Collections
begin

text \<open>
  The array functions of \<^verbatim>\<open>underscore.js\<close>: the ends of an array, \<open>flatten\<close>, the set
  operations on arrays (\<open>uniq\<close>, \<open>union\<close>, \<open>intersection\<close>, \<open>difference\<close>), \<open>zip\<close> and
  \<open>object\<close>, \<open>range\<close>, \<open>chunk\<close> and \<open>times\<close>, and the escaping of HTML. The lemmas show that the set
  operations are those of sets up to the equality of the searches, that \<open>chunk\<close>
  cuts without loss, that \<open>range\<close> is the arithmetic progression, and that unescaping
  undoes escaping.
\<close>

section \<open>Ends of an array\<close>

text \<open>An argument that is missing is \<open>None\<close>.\<close>

definition initial :: "'a list \<Rightarrow> int option \<Rightarrow> 'a list" where
  "initial xs n = jsSlice 0 (max 0 (int (length xs) - (case n of None \<Rightarrow> 1 | Some k \<Rightarrow> k))) xs"

definition firstOne :: "'a list \<Rightarrow> 'a option" where
  "firstOne xs = (if length xs < 1 then None else Some (xs ! 0))"

definition firstN :: "'a list \<Rightarrow> int \<Rightarrow> 'a list" where
  "firstN xs n = (if length xs < 1 then [] else initial xs (Some (int (length xs) - n)))"

definition restU :: "'a list \<Rightarrow> int option \<Rightarrow> 'a list" where
  "restU xs n = jsSlice (case n of None \<Rightarrow> 1 | Some k \<Rightarrow> k) (int (length xs)) xs"

definition lastOne :: "'a list \<Rightarrow> 'a option" where
  "lastOne xs = (if length xs < 1 then None else Some (xs ! (length xs - 1)))"

definition lastN :: "'a list \<Rightarrow> int \<Rightarrow> 'a list" where
  "lastN xs n = (if length xs < 1 then [] else restU xs (Some (max 0 (int (length xs) - n))))"

text \<open>\<open>Boolean(v)\<close> for a value.\<close>

definition truthyVal :: "val \<Rightarrow> bool" where
  "truthyVal v \<longleftrightarrow>
     (case v of Undef \<Rightarrow> False | Null \<Rightarrow> False | Bool b \<Rightarrow> b
      | Num n \<Rightarrow> n \<notin> {NaN, NegZero, Fin 0} | Str s \<Rightarrow> s \<noteq> [] | Ref p \<Rightarrow> True)"

definition compact :: "val list \<Rightarrow> val list" where
  "compact xs = filterU (\<lambda>v k. truthyVal v) (ArrayLike xs)"

section \<open>Flattening\<close>

datatype 'a nested = Leaf 'a | Node "'a nested list"

text \<open>
  The loop of \<open>flatten$1\<close>; a depth of \<open>None\<close> is \<open>Infinity\<close>. At depth one the elements of an
  array are appended as they are.
\<close>

fun deeper :: "int option \<Rightarrow> bool" where
  "deeper None = True"
| "deeper (Some d) = (d > 1)"

definition lessDepth :: "int option \<Rightarrow> int option" where
  "lessDepth d = map_option (\<lambda>k. k - 1) d"

fun flattenLoop :: "int option \<Rightarrow> bool \<Rightarrow> 'a nested list \<Rightarrow> 'a nested list \<Rightarrow> 'a nested list" where
  "flattenLoop depth strict [] out = out"
| "flattenLoop depth strict (Leaf v # vs) out =
     flattenLoop depth strict vs (if \<not> strict then out @ [Leaf v] else out)"
| "flattenLoop depth strict (Node ys # vs) out =
     flattenLoop depth strict vs
       (if deeper depth then flattenLoop (lessDepth depth) strict ys out else out @ ys)"

definition flattenInto :: "int option \<Rightarrow> bool \<Rightarrow> 'a nested list \<Rightarrow> 'a nested list" where
  "flattenInto depth strict input =
     (case depth of
        Some d \<Rightarrow> if d \<le> 0 then input else flattenLoop depth strict input []
      | None \<Rightarrow> flattenLoop depth strict input [])"

text \<open>The argument \<open>depth\<close>: missing or \<open>false\<close>, \<open>true\<close>, or a number.\<close>

datatype depth_arg = DeepArg | OneArg | NumArg int

definition flattenU :: "'a nested list \<Rightarrow> depth_arg \<Rightarrow> 'a nested list" where
  "flattenU xs d =
     flattenInto (case d of DeepArg \<Rightarrow> None | OneArg \<Rightarrow> Some 1 | NumArg n \<Rightarrow> Some n) False xs"

text \<open>
  The remaining arguments of the set operations, flattened by one level: an argument that is
  no array (\<open>None\<close>) is left out.
\<close>

fun leafOf :: "val nested \<Rightarrow> val" where
  "leafOf (Leaf v) = v"
| "leafOf (Node ys) = Undef"

definition flattenArgs :: "val list option list \<Rightarrow> val list" where
  "flattenArgs as =
     map leafOf (flattenInto (Some 1) True
       (map (\<lambda>a. case a of Some xs \<Rightarrow> Node (map Leaf xs) | None \<Rightarrow> Leaf Undef) as))"

section \<open>Sets\<close>

definition difference :: "val list \<Rightarrow> val list option list \<Rightarrow> val list" where
  "difference xs rest = filterU (\<lambda>v k. \<not> contains (flattenArgs rest) v) (ArrayLike xs)"

definition without :: "val list \<Rightarrow> val list \<Rightarrow> val list" where
  "without xs others = difference xs [Some others]"

text \<open>
  The loop of \<open>uniq\<close> from index \<open>i\<close> on: with the sorted flag the value before is
  remembered, with an iteratee the computed values.
\<close>

fun uniqSorted :: "val option \<Rightarrow> val list \<Rightarrow> val list \<Rightarrow> val list" where
  "uniqSorted seen [] result = result"
| "uniqSorted seen (v # vs) result =
     uniqSorted (Some v) vs
       (case seen of
          None \<Rightarrow> result @ [v]
        | Some s \<Rightarrow> if \<not> strictEq s v then result @ [v] else result)"

fun uniqBy :: "(val \<Rightarrow> nat \<Rightarrow> val) \<Rightarrow> nat \<Rightarrow> val list \<Rightarrow> val list \<Rightarrow> val list \<Rightarrow> val list" where
  "uniqBy f i [] seen result = result"
| "uniqBy f i (v # vs) seen result =
     (if \<not> contains seen (f v i) then uniqBy f (Suc i) vs (seen @ [f v i]) (result @ [v])
      else uniqBy f (Suc i) vs seen result)"

fun uniqPlain :: "val list \<Rightarrow> val list \<Rightarrow> val list" where
  "uniqPlain [] result = result"
| "uniqPlain (v # vs) result = uniqPlain vs (if \<not> contains result v then result @ [v] else result)"

definition uniq :: "val list \<Rightarrow> bool \<Rightarrow> (val \<Rightarrow> nat \<Rightarrow> val) option \<Rightarrow> val list" where
  "uniq xs isSorted iteratee =
     (case iteratee of
        Some f \<Rightarrow> uniqBy f 0 xs [] []
      | None \<Rightarrow> if isSorted then uniqSorted None xs [] else uniqPlain xs [])"

definition unionU :: "val list option list \<Rightarrow> val list" where
  "unionU arrays = uniq (flattenArgs arrays) False None"

fun intersectLoop :: "val list list \<Rightarrow> val list \<Rightarrow> val list \<Rightarrow> val list" where
  "intersectLoop others [] result = result"
| "intersectLoop others (v # vs) result =
     (if contains result v then intersectLoop others vs result
      else intersectLoop others vs (if list_all (\<lambda>o'. contains o' v) others then result @ [v] else result))"

definition intersection :: "val list \<Rightarrow> val list list \<Rightarrow> val list" where
  "intersection xs others = intersectLoop others xs []"

section \<open>Zipping\<close>

text \<open>\<open>pluck(array, index)\<close>: an element beyond the end is \<open>undefined\<close>.\<close>

definition unzip :: "'a list list \<Rightarrow> 'a option list list" where
  "unzip rows =
     (let n = (case maxByU (\<lambda>r k. Fin (int (length r))) (ArrayLike rows) of Some r \<Rightarrow> length r | None \<Rightarrow> 0)
      in map (\<lambda>i. pluck (\<lambda>r. if i < length r then Some (r ! i) else None) (ArrayLike rows)) [0..<n])"

text \<open>\<open>object\<close>, from pairs or from two parallel arrays; a later value replaces an earlier one.\<close>

definition objectU :: "(jstring \<times> 'a) list \<Rightarrow> (jstring \<times> 'a) list" where
  "objectU ps = fold (\<lambda>(k, v). putGroup (\<lambda>_. v) k) ps []"

definition objectOf :: "jstring list \<Rightarrow> 'a list \<Rightarrow> (jstring \<times> 'a option) list" where
  "objectOf ks vs =
     objectU (map (\<lambda>i. (ks ! i, if i < length vs then Some (vs ! i) else None)) [0..<length ks])"

section \<open>Numbers\<close>

text \<open>\<open>Math.ceil(a / b)\<close>.\<close>

definition ceilDiv :: "int \<Rightarrow> int \<Rightarrow> int" where
  "ceilDiv a b = - ((- a) div b)"

fun rangeLoop :: "nat \<Rightarrow> int \<Rightarrow> int \<Rightarrow> int list" where
  "rangeLoop 0 start step = []"
| "rangeLoop (Suc n) start step = start # rangeLoop n (start + step) step"

definition rangeU :: "int \<Rightarrow> int option \<Rightarrow> int option \<Rightarrow> int list" where
  "rangeU start0 stop0 step0 =
     (let stop = (case stop0 of None \<Rightarrow> start0 | Some s \<Rightarrow> s);
          start = (case stop0 of None \<Rightarrow> 0 | Some s \<Rightarrow> start0);
          step = (case step0 of Some s \<Rightarrow> if s = 0 then (if stop < start then -1 else 1) else s
                  | None \<Rightarrow> if stop < start then -1 else 1)
      in rangeLoop (nat (max (ceilDiv (stop - start) step) 0)) start step)"

function chunkLoop :: "'a list \<Rightarrow> nat \<Rightarrow> nat \<Rightarrow> 'a list list" where
  "chunkLoop xs cnt i =
     (if i < length xs \<and> 0 < cnt then slice i (i + cnt) xs # chunkLoop xs cnt (i + cnt) else [])"
  by pat_completeness auto
termination by (relation "measure (\<lambda>(xs, cnt, i). length xs - i)") auto

declare chunkLoop.simps [simp del]

definition chunk :: "'a list \<Rightarrow> int option \<Rightarrow> 'a list list" where
  "chunk xs cnt =
     (case cnt of
        None \<Rightarrow> []
      | Some n \<Rightarrow> if n < 1 then [] else chunkLoop xs (nat n) 0)"

definition timesU :: "int \<Rightarrow> (nat \<Rightarrow> 'a) \<Rightarrow> 'a list" where
  "timesU n f = map f [0..<nat (max 0 n)]"

section \<open>Escaping\<close>

definition escapeMap :: "(jstring \<times> jstring) list" where
  "escapeMap = [(js ''&'', js ''&amp;''), (js ''<'', js ''&lt;''), (js ''>'', js ''&gt;''),
     ([34], js ''&quot;''), ([39], js ''&#x27;''), ([96], js ''&#x60;'')]"

definition invert :: "(jstring \<times> jstring) list \<Rightarrow> (jstring \<times> jstring) list" where
  "invert m = objectU (map (\<lambda>(k, v). (v, k)) m)"

definition unescapeMap :: "(jstring \<times> jstring) list" where
  "unescapeMap = invert escapeMap"

text \<open>The alternation of the keys: the first key that the rest of the input begins with.\<close>

definition keyMatch :: "(jstring \<times> jstring) list \<Rightarrow> jstring \<Rightarrow> nat option" where
  "keyMatch m s = map_option (\<lambda>(k, v). length k) (find (\<lambda>(k, v). startsWith k s) m)"

definition createEscaper :: "(jstring \<times> jstring) list \<Rightarrow> jstring option \<Rightarrow> jstring" where
  "createEscaper m string =
     (let s = (case string of None \<Rightarrow> [] | Some t \<Rightarrow> t)
      in replaceAll (keyMatch m) (\<lambda>pre mtch post. case map_of m mtch of Some v \<Rightarrow> v | None \<Rightarrow> []) [] s)"

definition escapeU :: "jstring option \<Rightarrow> jstring" where "escapeU = createEscaper escapeMap"
definition unescapeU :: "jstring option \<Rightarrow> jstring" where "unescapeU = createEscaper unescapeMap"

section \<open>Lemmas: ends and flattening\<close>

lemma jsSlice_front: "0 \<le> n \<Longrightarrow> jsSlice 0 n xs = take (nat n) xs"
  by (simp add: jsSlice_def relIndex_def slice_def min_def)

lemma firstN_take: "0 \<le> n \<Longrightarrow> firstN xs n = take (nat n) xs"
  by (auto simp: firstN_def initial_def jsSlice_front)

lemma lastN_drop: "0 \<le> n \<Longrightarrow> lastN xs n = drop (length xs - nat n) xs"
proof (cases "xs = []")
  case False
  assume "0 \<le> n"
  then have "relIndex (max 0 (int (length xs) - n)) (length xs) = length xs - nat n"
    by (auto simp: relIndex_def max_def min_def)
  with False show ?thesis by (simp add: lastN_def restU_def jsSlice_def slice_def relIndex_def)
qed (simp add: lastN_def)

fun leaves :: "'a nested \<Rightarrow> 'a list" where
  "leaves (Leaf v) = [v]"
| "leaves (Node ys) = concat (map leaves ys)"

lemma flattenLoop_deep:
  "flattenLoop None False xs out = out @ map Leaf (concat (map leaves xs))"
  by (induction "None :: int option" False xs out rule: flattenLoop.induct) (auto simp: lessDepth_def)

lemma flattenLoop_args:
  "flattenLoop (Some 1) True (map (\<lambda>a. case a of Some xs \<Rightarrow> Node (map Leaf xs) | None \<Rightarrow> Leaf Undef) as) out =
     out @ map Leaf (concat (map (\<lambda>a. case a of Some xs \<Rightarrow> xs | None \<Rightarrow> []) as))"
  by (induction as arbitrary: out) (auto split: option.splits)

lemma flattenArgs_concat: "flattenArgs as = concat (map (\<lambda>a. case a of Some xs \<Rightarrow> xs | None \<Rightarrow> []) as)"
proof -
  have "map leafOf (map Leaf xs) = xs" for xs by (induction xs) auto
  then show ?thesis by (simp add: flattenArgs_def flattenInto_def flattenLoop_args)
qed

section \<open>Lemmas: sets\<close>

text \<open>Membership up to the equality of the searches, and arrays without repetitions.\<close>

definition member :: "val \<Rightarrow> val list \<Rightarrow> bool" where
  "member v xs \<longleftrightarrow> (\<exists>x \<in> set xs. sameValue x v)"

lemma contains_member: "contains xs v \<longleftrightarrow> member v xs"
  by (simp add: contains_iff member_def)

lemma member_simps [simp]:
  "member v [] = False" "member v (x # xs) \<longleftrightarrow> sameValue x v \<or> member v xs"
  "member v (xs @ ys) \<longleftrightarrow> member v xs \<or> member v ys"
  by (auto simp: member_def)

lemma member_cong: "sameValue v w \<Longrightarrow> member v xs \<longleftrightarrow> member w xs"
  by (auto simp: member_def dest: sameValue_trans sameValue_sym)

definition noRepeats :: "val list \<Rightarrow> bool" where
  "noRepeats xs \<longleftrightarrow> sorted_wrt (\<lambda>a b. \<not> sameValue a b) xs"

lemma noRepeats_snoc: "noRepeats xs \<Longrightarrow> \<not> member v xs \<Longrightarrow> noRepeats (xs @ [v])"
  by (auto simp: noRepeats_def sorted_wrt_append member_def)

lemma uniqPlain_spec:
  "noRepeats result \<Longrightarrow> noRepeats (uniqPlain xs result) \<and>
   (member v (uniqPlain xs result) \<longleftrightarrow> member v result \<or> member v xs)"
proof (induction xs result rule: uniqPlain.induct)
  case (2 w vs result)
  show ?case
  proof (cases "member w result")
    case True
    then have "sameValue w v \<Longrightarrow> member v result" using member_cong by blast
    with 2 True show ?thesis by (auto simp: contains_member)
  next
    case False
    then show ?thesis using 2 by (auto simp: contains_member noRepeats_snoc)
  qed
qed simp

lemma intersectLoop_spec:
  "noRepeats result \<Longrightarrow> \<forall>v. member v result \<longrightarrow> list_all (\<lambda>o'. member v o') others \<Longrightarrow>
   noRepeats (intersectLoop others xs result) \<and>
   (member v (intersectLoop others xs result) \<longleftrightarrow>
      member v result \<or> member v xs \<and> list_all (\<lambda>o'. member v o') others)"
proof (induction others xs result rule: intersectLoop.induct)
  case (2 others w vs result)
  have all: "list_all (\<lambda>o'. member v o') others \<longleftrightarrow> list_all (\<lambda>o'. member w o') others" if "sameValue w v" for v
    using member_cong [OF that] by (simp add: list_all_iff)
  show ?case
  proof (cases "member w result")
    case True
    then have "sameValue w v \<Longrightarrow> member v result" using member_cong by blast
    with 2 True show ?thesis by (auto simp: contains_member)
  next
    case False
    note IH = "2.IH"(2)
    show ?thesis
    proof (cases "list_all (\<lambda>o'. member w o') others")
      case in_all: True
      have "\<forall>u. member u (result @ [w]) \<longrightarrow> list_all (\<lambda>o'. member u o') others"
        using "2.prems"(2) all in_all by auto
      then show ?thesis
        using IH False in_all "2.prems"(1) all [of v] by (auto simp: contains_member noRepeats_snoc)
    next
      case not_all: False
      then show ?thesis
        using IH False "2.prems" all [of v] by (auto simp: contains_member)
    qed
  qed
qed simp

lemma difference_filter: "difference xs rest = filter (\<lambda>v. \<not> member v (flattenArgs rest)) xs"
  by (simp add: difference_def filterU_list contains_member)

lemma member_filter:
  "\<forall>a b. sameValue a b \<longrightarrow> P a = P b \<Longrightarrow> member v (filter P xs) \<longleftrightarrow> member v xs \<and> P v"
  by (auto simp: member_def)

section \<open>Lemmas: chunks and ranges\<close>

lemma chunkLoop_concat:
  "0 < n \<Longrightarrow> concat (chunkLoop xs n i) = drop i xs \<and>
   (\<forall>c \<in> set (chunkLoop xs n i). c \<noteq> [] \<and> length c \<le> n) \<and>
   (\<forall>c \<in> set (butlast (chunkLoop xs n i)). length c = n)"
proof (induction xs n i rule: chunkLoop.induct)
  case (1 xs n i)
  show ?case
  proof (cases "i < length xs")
    case True
    then have IH: "concat (chunkLoop xs n (i + n)) = drop (i + n) xs"
      "\<forall>c \<in> set (chunkLoop xs n (i + n)). c \<noteq> [] \<and> length c \<le> n"
      "\<forall>c \<in> set (butlast (chunkLoop xs n (i + n))). length c = n" using 1 by blast+
    have unf: "chunkLoop xs n i = take n (drop i xs) # chunkLoop xs n (i + n)"
      using True "1.prems" by (subst chunkLoop.simps) (simp add: slice_def)
    have "chunkLoop xs n (i + n) \<noteq> [] \<Longrightarrow> i + n < length xs"
      by (subst (asm) chunkLoop.simps) (simp split: if_splits)
    moreover have "take n (drop i xs) @ drop (i + n) xs = drop i xs"
      by (metis add.commute append_take_drop_id drop_drop)
    ultimately show ?thesis using IH True "1.prems" unfolding unf by (auto split: if_splits)
  next
    case False
    then show ?thesis by (subst (1 2 3) chunkLoop.simps) simp
  qed
qed

lemma rangeLoop_map: "rangeLoop n a s = map (\<lambda>i. a + int i * s) [0..<n]"
proof (induction n arbitrary: a)
  case (Suc n)
  have "map (\<lambda>i. a + s + int i * s) [0..<n] = map (\<lambda>i. a + int i * s) (map Suc [0..<n])"
    by (simp add: algebra_simps)
  with Suc show ?case by (simp add: map_Suc_upt upt_conv_Cons del: upt_Suc)
qed simp

lemma ceilDiv_less: "0 < s \<Longrightarrow> k < ceilDiv d s \<longleftrightarrow> k * s < d"
proof -
  assume s: "0 < s"
  have "(- d + k * s) div s = k + (- d) div s" using s by (intro div_mult_self1) simp
  then have "k < ceilDiv d s \<longleftrightarrow> (- d + k * s) div s < 0" by (auto simp: ceilDiv_def)
  then show ?thesis using s by (simp add: pos_imp_zdiv_neg_iff)
qed

lemma ceilDiv_neg: "ceilDiv d s = ceilDiv (- d) (- s)"
  by (simp add: ceilDiv_def div_minus_right)

lemma rangeU_members:
  assumes "s \<noteq> 0"
  shows "x \<in> set (rangeU a (Some b) (Some s)) \<longleftrightarrow>
    (\<exists>i. 0 \<le> i \<and> x = a + i * s \<and> (if 0 < s then x < b else x > b))"
proof -
  have lim: "i < ceilDiv (b - a) s \<longleftrightarrow> (if 0 < s then a + i * s < b else a + i * s > b)" for i
  proof (cases "0 < s")
    case True
    then show ?thesis using ceilDiv_less [of s i "b - a"] by auto
  next
    case False
    then have "0 < - s" using assms by simp
    then show ?thesis using ceilDiv_less [of "- s" i "a - b"] ceilDiv_neg [of "b - a" s] False by auto
  qed
  have "x \<in> set (rangeU a (Some b) (Some s)) \<longleftrightarrow> (\<exists>i. int i < ceilDiv (b - a) s \<and> x = a + int i * s)"
    using assms by (auto simp: rangeU_def rangeLoop_map Let_def image_iff)
  also have "\<dots> \<longleftrightarrow> (\<exists>i. 0 \<le> i \<and> i < ceilDiv (b - a) s \<and> x = a + i * s)"
    by (metis of_nat_0_le_iff zero_le_imp_eq_int)
  finally show ?thesis unfolding lim by (cases "0 < s") (simp_all, blast+)
qed

section \<open>Lemmas: escaping\<close>

lemma unescapeMap_eq:
  "unescapeMap = [(js ''&amp;'', js ''&''), (js ''&lt;'', js ''<''), (js ''&gt;'', js ''>''),
     (js ''&quot;'', [34]), (js ''&#x27;'', [39]), (js ''&#x60;'', [96])]"
  by (simp add: unescapeMap_def invert_def escapeMap_def objectU_def)

definition escapeOne :: "nat \<Rightarrow> jstring" where
  "escapeOne c = (case map_of escapeMap [c] of Some v \<Rightarrow> v | None \<Rightarrow> [c])"

lemma escape_chars:
  "replaceAll (keyMatch escapeMap) (\<lambda>pre mtch post. case map_of escapeMap mtch of Some v \<Rightarrow> v | None \<Rightarrow> []) pre s =
     concat (map escapeOne s)"
proof (induction s arbitrary: pre)
  case (Cons c s)
  then show ?case
    by (cases "c \<in> {38, 60, 62, 34, 39, 96}") (auto simp: keyMatch_def escapeOne_def escapeMap_def)
qed simp

lemma keyMatch_other: "c \<noteq> 38 \<Longrightarrow> keyMatch unescapeMap (c # s) = None"
  by (simp add: keyMatch_def unescapeMap_eq)

lemma unescape_one:
  "replaceAll (keyMatch unescapeMap) (\<lambda>pre mtch post. case map_of unescapeMap mtch of Some v \<Rightarrow> v | None \<Rightarrow> [])
     pre (escapeOne c @ s) =
   c # replaceAll (keyMatch unescapeMap) (\<lambda>pre mtch post. case map_of unescapeMap mtch of Some v \<Rightarrow> v | None \<Rightarrow> [])
     (pre @ escapeOne c) s"
  by (cases "c \<in> {38, 60, 62, 34, 39, 96}")
    (auto simp: escapeOne_def escapeMap_def keyMatch_def unescapeMap_eq)

lemma unescape_chars:
  "replaceAll (keyMatch unescapeMap) (\<lambda>pre mtch post. case map_of unescapeMap mtch of Some v \<Rightarrow> v | None \<Rightarrow> [])
     pre (concat (map escapeOne s)) = s"
  by (induction s arbitrary: pre) (simp_all add: unescape_one)

section \<open>Properties\<close>

text \<open>
  The set operations on arrays are those of sets, for the equality of the searches (strict
  equality, with \<open>NaN\<close> equal to itself): \<open>uniq\<close> and \<open>union\<close> return every value once and
  lose none, \<open>intersection\<close> returns once what is in every array, \<open>difference\<close> what is in the
  first and in no other, in the order and with the repetitions of the first.
\<close>

theorem array_set_operations:
  "noRepeats (uniq xs False None) \<and> (member v (uniq xs False None) \<longleftrightarrow> member v xs) \<and>
   noRepeats (unionU (map Some xss)) \<and> (member v (unionU (map Some xss)) \<longleftrightarrow> list_ex (member v) xss) \<and>
   noRepeats (intersection xs xss) \<and>
   (member v (intersection xs xss) \<longleftrightarrow> member v xs \<and> list_all (member v) xss) \<and>
   difference xs (map Some xss) = filter (\<lambda>u. \<not> list_ex (member u) xss) xs"
proof -
  have fa: "member u (flattenArgs (map Some xss)) \<longleftrightarrow> list_ex (member u) xss" for u
    by (induction xss) (auto simp: flattenArgs_concat)
  have "noRepeats []" by (simp add: noRepeats_def)
  then show ?thesis
    using uniqPlain_spec [of "[]" xs v] uniqPlain_spec [of "[]" "flattenArgs (map Some xss)" v]
      intersectLoop_spec [of "[]" xss xs v]
    by (simp add: uniq_def unionU_def intersection_def difference_filter fa)
qed

text \<open>
  Unescaping undoes escaping, and an escaped text holds none of the characters that HTML
  treats specially, the ampersand of the entities apart.
\<close>

theorem escape_roundtrip:
  "unescapeU (Some (escapeU (Some s))) = s \<and> set (escapeU (Some s)) \<inter> {60, 62, 34, 39, 96} = {}"
proof
  show "unescapeU (Some (escapeU (Some s))) = s"
    by (simp add: escapeU_def unescapeU_def createEscaper_def Let_def escape_chars unescape_chars)
  have "set (escapeOne c) \<inter> {60, 62, 34, 39, 96} = {}" for c
    by (auto simp: escapeOne_def escapeMap_def)
  then show "set (escapeU (Some s)) \<inter> {60, 62, 34, 39, 96} = {}"
    by (auto simp: escapeU_def createEscaper_def escape_chars Let_def)
qed

end
