(* ===== verification/Underscore_Objects.thy ===== *)
theory Underscore_Objects
  imports Underscore_Arrays "HOL-Library.List_Lexorder"
begin

text \<open>
  The functions of \<^verbatim>\<open>underscore.js\<close> on objects: \<open>allKeys\<close>, \<open>pairs\<close>, \<open>functions\<close>, the assigners
  \<open>extend\<close>, \<open>extendOwn\<close> and \<open>defaults\<close>, \<open>create\<close>, \<open>clone\<close>, \<open>mapObject\<close>, \<open>pick\<close> and \<open>omit\<close>, the
  generator of callbacks, and the chained wrapper objects. An object here is its own
  properties and the enumerable properties it inherits, each in the order of their
  creation. No property holds \<open>undefined\<close>; \<open>null\<close> and \<open>undefined\<close> are \<open>None\<close> where a function
  takes them.
\<close>

section \<open>Objects\<close>

record 'a obj =
  props :: "(jstring \<times> 'a) list"
  inherited :: "(jstring \<times> 'a) list"

definition emptyObj :: "'a obj" where
  "emptyObj = \<lparr>props = [], inherited = []\<rparr>"

text \<open>\<open>obj[key]\<close>, where \<open>None\<close> is \<open>undefined\<close>, \<open>key in obj\<close>, and \<open>obj[key] = value\<close>.\<close>

definition getP :: "'a obj \<Rightarrow> jstring \<Rightarrow> 'a option" where
  "getP ob k = (case map_of (props ob) k of Some v \<Rightarrow> Some v | None \<Rightarrow> map_of (inherited ob) k)"

definition keyInObj :: "'a obj \<Rightarrow> jstring \<Rightarrow> bool" where
  "keyInObj ob k \<longleftrightarrow> getP ob k \<noteq> None"

definition putProp :: "jstring \<Rightarrow> 'a \<Rightarrow> (jstring \<times> 'a) list \<Rightarrow> (jstring \<times> 'a) list" where
  "putProp k v es = putGroup (\<lambda>_. v) k es"

definition setP :: "jstring \<Rightarrow> 'a \<Rightarrow> 'a obj \<Rightarrow> 'a obj" where
  "setP k v ob = ob\<lparr>props := putProp k v (props ob)\<rparr>"

definition ownKeys :: "'a obj \<Rightarrow> jstring list" where
  "ownKeys ob = map fst (props ob)"

definition allKeys :: "'a obj \<Rightarrow> jstring list" where
  "allKeys ob = map fst (props ob) @ filter (\<lambda>k. k \<notin> set (map fst (props ob))) (map fst (inherited ob))"

definition pairs :: "'a obj \<Rightarrow> (jstring \<times> 'a option) list" where
  "pairs ob = map (\<lambda>k. (k, getP ob k)) (ownKeys ob)"

definition functionsU :: "('a \<Rightarrow> bool) \<Rightarrow> 'a obj \<Rightarrow> jstring list" where
  "functionsU isFn ob =
     sort (filter (\<lambda>k. case getP ob k of Some v \<Rightarrow> isFn v | None \<Rightarrow> False) (allKeys ob))"

text \<open>The lookup structure of the workaround for an old browser, and the workaround itself.\<close>

record emulated_set =
  hash :: "jstring list"
  es_keys :: "jstring list"

definition emulatedSet :: "jstring list \<Rightarrow> emulated_set" where
  "emulatedSet ks = \<lparr>hash = ks, es_keys = ks\<rparr>"

definition es_contains :: "emulated_set \<Rightarrow> jstring \<Rightarrow> bool" where
  "es_contains e k \<longleftrightarrow> k \<in> set (hash e)"

definition es_push :: "jstring \<Rightarrow> emulated_set \<Rightarrow> emulated_set" where
  "es_push k e = e\<lparr>hash := k # hash e, es_keys := es_keys e @ [k]\<rparr>"

definition nonEnumerableProps :: "jstring list" where
  "nonEnumerableProps =
     [js ''valueOf'', js ''isPrototypeOf'', js ''toString'',
      js ''propertyIsEnumerable'', js ''hasOwnProperty'', js ''toLocaleString'']"

text \<open>\<open>full\<close> is the object with the properties that a loop over it does not show.\<close>

definition pushNonEnum :: "'a obj \<Rightarrow> 'a obj \<Rightarrow> jstring \<Rightarrow> emulated_set \<Rightarrow> emulated_set" where
  "pushNonEnum full proto prop e =
     (if keyInObj full prop \<and> getP full prop \<noteq> getP proto prop \<and> \<not> es_contains e prop then es_push prop e else e)"

definition collectNonEnumProps :: "'a obj \<Rightarrow> 'a obj \<Rightarrow> jstring list \<Rightarrow> jstring list" where
  "collectNonEnumProps full proto ks =
     (let e = emulatedSet ks;
          prop = js ''constructor'';
          e1 = (if prop \<in> set (ownKeys full) \<and> \<not> es_contains e prop then es_push prop e else e)
      in es_keys (fold (pushNonEnum full proto) (rev nonEnumerableProps) e1))"

section \<open>Assigners\<close>

text \<open>
  One source, then all of them. With \<open>defaults\<close> a value is only written where there is
  none, and \<open>Object(obj)\<close> makes an object of a missing one. The keys of a source that is
  not an object are empty.
\<close>

definition assignKey :: "bool \<Rightarrow> 'a obj \<Rightarrow> jstring \<Rightarrow> 'a obj \<Rightarrow> 'a obj" where
  "assignKey dflt source k ob =
     (if \<not> dflt \<or> getP ob k = None
      then (case getP source k of Some v \<Rightarrow> setP k v ob | None \<Rightarrow> ob) else ob)"

definition assignSource :: "('a obj \<Rightarrow> jstring list) \<Rightarrow> bool \<Rightarrow> 'a obj option \<Rightarrow> 'a obj \<Rightarrow> 'a obj" where
  "assignSource keysFunc dflt source ob =
     (case source of None \<Rightarrow> ob | Some s \<Rightarrow> fold (assignKey dflt s) (keysFunc s) ob)"

definition createAssigner ::
  "('a obj \<Rightarrow> jstring list) \<Rightarrow> bool \<Rightarrow> 'a obj option \<Rightarrow> 'a obj option list \<Rightarrow> 'a obj option" where
  "createAssigner keysFunc dflt ob sources =
     (let ob1 = (if dflt then Some (case ob of Some x \<Rightarrow> x | None \<Rightarrow> emptyObj) else ob)
      in case ob1 of
           None \<Rightarrow> None
         | Some x \<Rightarrow> Some (fold (assignSource keysFunc dflt) sources x))"

definition extendU :: "'a obj option \<Rightarrow> 'a obj option list \<Rightarrow> 'a obj option" where
  "extendU = createAssigner allKeys False"

definition extendOwn :: "'a obj option \<Rightarrow> 'a obj option list \<Rightarrow> 'a obj option" where
  "extendOwn = createAssigner ownKeys False"

definition defaultsU :: "'a obj option \<Rightarrow> 'a obj option list \<Rightarrow> 'a obj option" where
  "defaultsU = createAssigner allKeys True"

text \<open>An object that inherits from another one, and its own properties on top.\<close>

definition baseCreate :: "'a obj option \<Rightarrow> 'a obj" where
  "baseCreate prototype =
     (case prototype of
        None \<Rightarrow> emptyObj
      | Some p \<Rightarrow> \<lparr>props = [], inherited = map (\<lambda>k. (k, the (getP p k))) (allKeys p)\<rparr>)"

definition create :: "'a obj option \<Rightarrow> 'a obj option \<Rightarrow> 'a obj" where
  "create prototype ps =
     (case ps of
        None \<Rightarrow> baseCreate prototype
      | Some p \<Rightarrow> the (extendOwn (Some (baseCreate prototype)) [Some p]))"

text \<open>What \<open>clone\<close> takes: a value that is no object, an array, or another object.\<close>

datatype 'a cloneable = Primitive 'a | AnArray "'a list" | AnObject "'a obj"

definition clone :: "'a cloneable \<Rightarrow> 'a cloneable" where
  "clone x =
     (case x of
        Primitive v \<Rightarrow> Primitive v
      | AnArray xs \<Rightarrow> AnArray (jsSlice 0 (int (length xs)) xs)
      | AnObject ob \<Rightarrow> AnObject (the (extendU (Some emptyObj) [Some ob])))"

definition tap :: "'a \<Rightarrow> ('a \<Rightarrow> 'w \<Rightarrow> 'w) \<Rightarrow> 'w \<Rightarrow> 'a \<times> 'w" where
  "tap ob interceptor w = (ob, interceptor ob w)"

definition mapObject :: "('a \<Rightarrow> jstring \<Rightarrow> 'b) \<Rightarrow> 'a obj \<Rightarrow> 'b obj" where
  "mapObject f ob =
     fold (\<lambda>k results. setP k (f (the (getP ob k)) k) results) (ownKeys ob) emptyObj"

text \<open>\<open>pick\<close> by a predicate goes through all keys, by names through the names given.\<close>

definition pickLoop :: "('a option \<Rightarrow> jstring \<Rightarrow> bool) \<Rightarrow> 'a obj \<Rightarrow> jstring list \<Rightarrow> 'a obj" where
  "pickLoop iteratee ob ks =
     fold (\<lambda>k result. if iteratee (getP ob k) k
       then (case getP ob k of Some v \<Rightarrow> setP k v result | None \<Rightarrow> result) else result) ks emptyObj"

definition pickBy :: "('a option \<Rightarrow> jstring \<Rightarrow> bool) \<Rightarrow> 'a obj option \<Rightarrow> 'a obj" where
  "pickBy iteratee ob = (case ob of None \<Rightarrow> emptyObj | Some x \<Rightarrow> pickLoop iteratee x (allKeys x))"

definition pick :: "jstring list \<Rightarrow> 'a obj option \<Rightarrow> 'a obj" where
  "pick ks ob = (case ob of None \<Rightarrow> emptyObj | Some x \<Rightarrow> pickLoop (\<lambda>v k. keyInObj x k) x ks)"

definition omitBy :: "('a option \<Rightarrow> jstring \<Rightarrow> bool) \<Rightarrow> 'a obj option \<Rightarrow> 'a obj" where
  "omitBy iteratee ob = pickBy (\<lambda>v k. \<not> iteratee v k) ob"

definition omit :: "jstring list \<Rightarrow> 'a obj option \<Rightarrow> 'a obj" where
  "omit ks ob = pickBy (\<lambda>v k. \<not> contains (map Str ks) (Str k)) ob"

section \<open>Callbacks\<close>

text \<open>\<open>toPath\<close>, for an array of names or one name, and the callback that a value stands for.\<close>

definition toPath :: "(jstring list, jstring) sum \<Rightarrow> jstring list" where
  "toPath p = (case p of Inl ks \<Rightarrow> ks | Inr k \<Rightarrow> [k])"

definition propertyU :: "(jstring list, jstring) sum \<Rightarrow> heap \<Rightarrow> val \<Rightarrow> val" where
  "propertyU p h v = deepGet h v (toPath p)"

text \<open>\<open>matcher\<close> copies the attributes when it is made.\<close>

definition attrsOf :: "heap \<Rightarrow> val \<Rightarrow> (jstring \<times> val) list" where
  "attrsOf h attrs = map (\<lambda>k. (k, getProp h attrs k)) (keys h attrs)"

definition matcher :: "(jstring \<times> val) list \<Rightarrow> heap \<Rightarrow> val \<Rightarrow> bool" where
  "matcher attrs h v =
     (if nullish v then attrs = []
      else list_all (\<lambda>(k, x). strictEq x (getProp h v k) \<and> own h v k \<noteq> None) attrs)"

datatype iteratee = Identity | Callback val "val option" nat | Matches "(jstring \<times> val) list" | Path "val list"

text \<open>\<open>optimizeCb\<close>: how many of its arguments a callback with a context gets.\<close>

definition optimizeCb :: "val \<Rightarrow> val option \<Rightarrow> nat option \<Rightarrow> iteratee" where
  "optimizeCb func context argCount = Callback func context (case argCount of None \<Rightarrow> 3 | Some n \<Rightarrow> n)"

definition passedArgs :: "iteratee \<Rightarrow> 'b list \<Rightarrow> 'b list" where
  "passedArgs i xs =
     (case i of
        Callback func (Some c) n \<Rightarrow> if n \<in> {1, 3, 4} then take n xs else xs
      | _ \<Rightarrow> xs)"

definition baseIteratee :: "heap \<Rightarrow> val \<Rightarrow> val option \<Rightarrow> nat option \<Rightarrow> iteratee" where
  "baseIteratee h v context argCount =
     (if nullish v then Identity
      else if isFunction h v then optimizeCb v context argCount
      else if isObject h v \<and> \<not> isArray h v then Matches (attrsOf h v)
      else Path (if isArray h v then arrayElems h v else [v]))"

text \<open>\<open>where\<close> and \<open>findWhere\<close>.\<close>

definition whereU :: "heap \<Rightarrow> val coll \<Rightarrow> val \<Rightarrow> val list" where
  "whereU h c attrs = filterU (\<lambda>v k. matcher (attrsOf h attrs) h v) c"

definition findWhere :: "heap \<Rightarrow> val coll \<Rightarrow> val \<Rightarrow> val option" where
  "findWhere h c attrs = findU c (\<lambda>v k. matcher (attrsOf h attrs) h v)"

text \<open>
  \<open>invoke\<close> with a path: \<open>apply m this\<close> calls the method \<open>m\<close>. The context is found along all
  names but the last.
\<close>

definition invokeOne :: "heap \<Rightarrow> (val \<Rightarrow> val \<Rightarrow> val) \<Rightarrow> jstring list \<Rightarrow> val \<Rightarrow> val" where
  "invokeOne h app path context =
     (let contextPath = butlast path;
          ctx = (if contextPath \<noteq> [] then deepGet h context contextPath else context)
      in if nullish ctx then Undef
         else
           let m = getProp h ctx (last path) in if nullish m then m else app m ctx)"

definition invoke :: "heap \<Rightarrow> (val \<Rightarrow> val \<Rightarrow> val) \<Rightarrow> val coll \<Rightarrow> jstring list \<Rightarrow> val list" where
  "invoke h app c path = mapU (\<lambda>v k. invokeOne h app path v) c"

section \<open>Chained objects\<close>

record 'a wrapper =
  wrapped :: 'a
  chained :: bool

definition wrapValue :: "'a \<Rightarrow> 'a wrapper" where
  "wrapValue x = \<lparr>wrapped = x, chained = False\<rparr>"

definition chain :: "'a \<Rightarrow> 'a wrapper" where
  "chain x = (wrapValue x)\<lparr>chained := True\<rparr>"

datatype 'a chain_result = Plain 'a | Chained "'a wrapper"

definition chainResult :: "'b wrapper \<Rightarrow> 'a \<Rightarrow> 'a chain_result" where
  "chainResult inst x = (if chained inst then Chained (chain x) else Plain x)"

text \<open>The method that \<open>mixin\<close> gives the wrapper for a function.\<close>

definition mixinMethod :: "('a \<Rightarrow> 'b list \<Rightarrow> 'c) \<Rightarrow> 'a wrapper \<Rightarrow> 'b list \<Rightarrow> 'c chain_result" where
  "mixinMethod func this xs = chainResult this (func (wrapped this) xs)"

text \<open>The methods of arrays that the wrapper passes on.\<close>

datatype 'a mutator = Pop | Push "'a list" | Reverse | Shift | Sort "'a \<Rightarrow> 'a \<Rightarrow> int" | Splice int int "'a list" | Unshift "'a list"

fun mutate :: "'a mutator \<Rightarrow> 'a list \<Rightarrow> 'a list" where
  "mutate Pop xs = butlast xs"
| "mutate (Push ys) xs = xs @ ys"
| "mutate Reverse xs = rev xs"
| "mutate Shift xs = tl xs"
| "mutate (Sort cmp) xs = sortBy cmp xs"
| "mutate (Splice start n ys) xs =
     (let i = relIndex start (length xs); m = min (nat n) (length xs - i)
      in take i xs @ ys @ drop (i + m) xs)"
| "mutate (Unshift ys) xs = ys @ xs"

text \<open>Deleting the first element of an array that is empty changes nothing.\<close>

definition mutatorMethod :: "'a mutator \<Rightarrow> 'a list option wrapper \<Rightarrow> 'a list option chain_result \<times> 'a list option" where
  "mutatorMethod mth this =
     (case wrapped this of
        None \<Rightarrow> (chainResult this None, None)
      | Some xs \<Rightarrow> (chainResult this (Some (mutate mth xs)), Some (mutate mth xs)))"

section \<open>Lemmas: reading and writing\<close>

lemma emptyObj_simps [simp]: "getP emptyObj k = None" "ownKeys emptyObj = []" "allKeys emptyObj = []"
    "inherited emptyObj = []"
  by (simp_all add: emptyObj_def getP_def ownKeys_def allKeys_def)

lemma setP_fields [simp]: "props (setP k v ob) = putGroup (\<lambda>_. v) k (props ob)" "inherited (setP k v ob) = inherited ob"
  by (cases ob, simp add: setP_def putProp_def)+

lemma getP_setP [simp]: "getP (setP k v ob) j = (if j = k then Some v else getP ob j)"
  by (simp add: getP_def putGroup_map_of split: option.split)

lemma getP_dom: "getP ob k = None \<longleftrightarrow> k \<notin> set (allKeys ob)"
  by (auto simp: getP_def allKeys_def map_of_eq_None_iff simp flip: not_None_eq split: option.split)

lemma getP_own: "k \<in> set (ownKeys ob) \<Longrightarrow> getP ob k = map_of (props ob) k \<and> map_of (props ob) k \<noteq> None"
  by (auto simp: getP_def ownKeys_def map_of_eq_None_iff split: option.splits)

text \<open>The loops that write a key at a time.\<close>

lemma fold_assignKey:
  "getP (fold (assignKey False s) ks ob) j = (if j \<in> set ks \<and> getP s j \<noteq> None then getP s j else getP ob j)"
  "getP (fold (assignKey True s) ks ob) j =
     (if j \<in> set ks \<and> getP ob j = None then getP s j else getP ob j)"
  by (induction ks arbitrary: ob) (auto simp: assignKey_def split: option.splits)

lemma getP_pickLoop:
  "getP (pickLoop f ob ks) j = (if j \<in> set ks \<and> f (getP ob j) j then getP ob j else None)"
proof -
  have "getP (fold (\<lambda>k result. if f (getP ob k) k
      then (case getP ob k of Some v \<Rightarrow> setP k v result | None \<Rightarrow> result) else result) ks r) j =
    (if j \<in> set ks \<and> f (getP ob j) j \<and> getP ob j \<noteq> None then getP ob j else getP r j)" for r
    by (induction ks arbitrary: r) (auto split: option.splits)
  then show ?thesis by (simp add: pickLoop_def)
qed

lemma getP_mapObject:
  "getP (mapObject f ob) j = (if j \<in> set (ownKeys ob) then map_option (\<lambda>v. f v j) (getP ob j) else None)"
proof -
  have "getP (fold (\<lambda>k results. setP k (f (the (getP ob k)) k) results) ks r) j =
    (if j \<in> set ks then Some (f (the (getP ob j)) j) else getP r j)" for ks r
    by (induction ks arbitrary: r) auto
  then show ?thesis using getP_own [of j ob] by (auto simp: mapObject_def)
qed

lemma contains_Str: "contains (map Str ks) (Str k) \<longleftrightarrow> k \<in> set ks"
  by (auto simp: contains_iff sameValue_def isNaNVal_def)

text \<open>The objects among the sources, and the first of them that has a key.\<close>

definition firstWith :: "('a obj \<Rightarrow> bool) \<Rightarrow> 'a obj list \<Rightarrow> jstring \<Rightarrow> 'a option" where
  "firstWith has ss k = (case find has ss of Some s \<Rightarrow> getP s k | None \<Rightarrow> None)"

definition orElse :: "'a option \<Rightarrow> 'a option \<Rightarrow> 'a option" where
  "orElse a b = (case a of Some v \<Rightarrow> Some v | None \<Rightarrow> b)"

lemma orElse_simps [simp]: "orElse (Some v) b = Some v" "orElse None b = b" "orElse a None = a"
    "orElse (orElse a b) c = orElse a (orElse b c)"
  by (simp_all add: orElse_def split: option.split)

lemma firstWith_append: "(\<And>s. has s \<Longrightarrow> getP s k \<noteq> None) \<Longrightarrow>
    firstWith has (ss @ ts) k = orElse (firstWith has ss k) (firstWith has ts k)"
proof (induction ss)
  case (Cons s ss)
  then show ?case using Cons.prems [of s] by (cases "getP s k") (auto simp: firstWith_def)
qed (simp add: firstWith_def)

lemma getP_assignSource:
  "getP (assignSource allKeys False (Some s) ob) k = orElse (getP s k) (getP ob k)"
  "getP (assignSource ownKeys False (Some s) ob) k =
     orElse (if k \<in> set (ownKeys s) then getP s k else None) (getP ob k)"
  "getP (assignSource allKeys True (Some s) ob) k = orElse (getP ob k) (getP s k)"
  "assignSource keysFunc d None ob = ob"
  using getP_own [of k s]
  by (auto simp: assignSource_def fold_assignKey orElse_def getP_dom split: option.splits)
    (simp_all flip: getP_dom)

lemma getP_assigners:
  "getP (fold (assignSource allKeys False) srcs ob) k =
     orElse (firstWith (\<lambda>s. getP s k \<noteq> None) (rev (List.map_filter id srcs)) k) (getP ob k)"
  "getP (fold (assignSource ownKeys False) srcs ob) k =
     orElse (firstWith (\<lambda>s. k \<in> set (ownKeys s)) (rev (List.map_filter id srcs)) k) (getP ob k)"
  "getP (fold (assignSource allKeys True) srcs ob) k =
     orElse (getP ob k) (firstWith (\<lambda>s. getP s k \<noteq> None) (List.map_filter id srcs) k)"
proof -
  have own: "k \<in> set (ownKeys s) \<Longrightarrow> getP s k \<noteq> None" for s :: "'a obj" using getP_own by metis
  show "getP (fold (assignSource allKeys False) srcs ob) k =
     orElse (firstWith (\<lambda>s. getP s k \<noteq> None) (rev (List.map_filter id srcs)) k) (getP ob k)"
  proof (induction srcs arbitrary: ob)
    case (Cons a srcs)
    then show ?case
      by (cases a) (simp_all add: getP_assignSource map_filter_simps firstWith_append, simp add: firstWith_def)
  qed (simp add: firstWith_def map_filter_simps)
  show "getP (fold (assignSource ownKeys False) srcs ob) k =
     orElse (firstWith (\<lambda>s. k \<in> set (ownKeys s)) (rev (List.map_filter id srcs)) k) (getP ob k)"
  proof (induction srcs arbitrary: ob)
    case (Cons a srcs)
    then show ?case
      by (cases a) (simp_all add: getP_assignSource map_filter_simps firstWith_append own, simp add: firstWith_def)
  qed (simp add: firstWith_def map_filter_simps)
  show "getP (fold (assignSource allKeys True) srcs ob) k =
     orElse (getP ob k) (firstWith (\<lambda>s. getP s k \<noteq> None) (List.map_filter id srcs) k)"
  proof (induction srcs arbitrary: ob)
    case (Cons a srcs)
    then show ?case
      by (cases a) (auto simp: getP_assignSource map_filter_simps firstWith_def)
  qed (simp add: firstWith_def map_filter_simps)
qed

section \<open>Properties\<close>


end
