(* ===== verification/Underscore_Exports.thy ===== *)
theory Underscore_Exports
  imports Underscore_Objects
begin

text \<open>
  The public names of \<^verbatim>\<open>underscore.js\<close>: the table of exports, \<open>mixin\<close>, which puts them on the
  library object and on the prototype of its wrapper objects, and the loading of the library
  into a page with \<open>noConflict\<close>, which the helpers of the manual use to take the library
  off the global name. A function is represented by its name in the source.
\<close>

definition allExports :: "(jstring \<times> jstring) list" where
  "allExports =
    [(js ''VERSION'', js ''VERSION''), (js ''restArguments'', js ''restArguments''),
     (js ''isObject'', js ''isObject''), (js ''isNull'', js ''isNull''),
     (js ''isUndefined'', js ''isUndefined''), (js ''isBoolean'', js ''isBoolean''),
     (js ''isElement'', js ''isElement''), (js ''isString'', js ''isString''),
     (js ''isNumber'', js ''isNumber''), (js ''isDate'', js ''isDate''),
     (js ''isRegExp'', js ''isRegExp''), (js ''isError'', js ''isError''),
     (js ''isSymbol'', js ''isSymbol''), (js ''isArrayBuffer'', js ''isArrayBuffer''),
     (js ''isDataView'', js ''isDataView$1''), (js ''isArray'', js ''isArray''),
     (js ''isFunction'', js ''isFunction$1''), (js ''isArguments'', js ''isArguments$1''),
     (js ''isFinite'', js ''isFinite$1''), (js ''isNaN'', js ''isNaN$1''),
     (js ''isTypedArray'', js ''isTypedArray$1''), (js ''isEmpty'', js ''isEmpty''),
     (js ''isMatch'', js ''isMatch''), (js ''isEqual'', js ''isEqual''),
     (js ''isMap'', js ''isMap''), (js ''isWeakMap'', js ''isWeakMap''),
     (js ''isSet'', js ''isSet''), (js ''isWeakSet'', js ''isWeakSet''),
     (js ''keys'', js ''keys''), (js ''allKeys'', js ''allKeys''),
     (js ''values'', js ''values''), (js ''pairs'', js ''pairs''),
     (js ''invert'', js ''invert''), (js ''functions'', js ''functions''),
     (js ''methods'', js ''functions''), (js ''extend'', js ''extend''),
     (js ''extendOwn'', js ''extendOwn''), (js ''assign'', js ''extendOwn''),
     (js ''defaults'', js ''defaults''), (js ''create'', js ''create''),
     (js ''clone'', js ''clone''), (js ''tap'', js ''tap''),
     (js ''get'', js ''get''), (js ''has'', js ''has''),
     (js ''mapObject'', js ''mapObject''), (js ''identity'', js ''identity''),
     (js ''constant'', js ''constant''), (js ''noop'', js ''noop''),
     (js ''toPath'', js ''toPath$1''), (js ''property'', js ''property''),
     (js ''propertyOf'', js ''propertyOf''), (js ''matcher'', js ''matcher''),
     (js ''matches'', js ''matcher''), (js ''times'', js ''times''),
     (js ''random'', js ''random''), (js ''now'', js ''now''),
     (js ''escape'', js ''_escape''), (js ''unescape'', js ''_unescape''),
     (js ''templateSettings'', js ''templateSettings''), (js ''template'', js ''template''),
     (js ''result'', js ''result''), (js ''uniqueId'', js ''uniqueId''),
     (js ''chain'', js ''chain''), (js ''iteratee'', js ''iteratee''),
     (js ''partial'', js ''partial''), (js ''bind'', js ''bind''),
     (js ''bindAll'', js ''bindAll''), (js ''memoize'', js ''memoize''),
     (js ''delay'', js ''delay''), (js ''defer'', js ''defer''),
     (js ''throttle'', js ''throttle''), (js ''debounce'', js ''debounce''),
     (js ''wrap'', js ''wrap''), (js ''negate'', js ''negate''),
     (js ''compose'', js ''compose''), (js ''after'', js ''after''),
     (js ''before'', js ''before''), (js ''once'', js ''once''),
     (js ''findKey'', js ''findKey''), (js ''findIndex'', js ''findIndex''),
     (js ''findLastIndex'', js ''findLastIndex''), (js ''sortedIndex'', js ''sortedIndex''),
     (js ''indexOf'', js ''indexOf''), (js ''lastIndexOf'', js ''lastIndexOf''),
     (js ''find'', js ''find''), (js ''detect'', js ''find''),
     (js ''findWhere'', js ''findWhere''), (js ''each'', js ''each''),
     (js ''forEach'', js ''each''), (js ''map'', js ''map''),
     (js ''collect'', js ''map''), (js ''reduce'', js ''reduce''),
     (js ''foldl'', js ''reduce''), (js ''inject'', js ''reduce''),
     (js ''reduceRight'', js ''reduceRight''), (js ''foldr'', js ''reduceRight''),
     (js ''filter'', js ''filter''), (js ''select'', js ''filter''),
     (js ''reject'', js ''reject''), (js ''every'', js ''every''),
     (js ''all'', js ''every''), (js ''some'', js ''some''),
     (js ''any'', js ''some''), (js ''contains'', js ''contains''),
     (js ''includes'', js ''contains''), (js ''include'', js ''contains''),
     (js ''invoke'', js ''invoke''), (js ''pluck'', js ''pluck''),
     (js ''where'', js ''where''), (js ''max'', js ''max''),
     (js ''min'', js ''min''), (js ''shuffle'', js ''shuffle''),
     (js ''sample'', js ''sample''), (js ''sortBy'', js ''sortBy''),
     (js ''groupBy'', js ''groupBy''), (js ''indexBy'', js ''indexBy''),
     (js ''countBy'', js ''countBy''), (js ''partition'', js ''partition''),
     (js ''toArray'', js ''toArray''), (js ''size'', js ''size''),
     (js ''pick'', js ''pick''), (js ''omit'', js ''omit''),
     (js ''first'', js ''first''), (js ''head'', js ''first''),
     (js ''take'', js ''first''), (js ''initial'', js ''initial''),
     (js ''last'', js ''last''), (js ''rest'', js ''rest''),
     (js ''tail'', js ''rest''), (js ''drop'', js ''rest''),
     (js ''compact'', js ''compact''), (js ''flatten'', js ''flatten''),
     (js ''without'', js ''without''), (js ''uniq'', js ''uniq''),
     (js ''unique'', js ''uniq''), (js ''union'', js ''union''),
     (js ''intersection'', js ''intersection''), (js ''difference'', js ''difference''),
     (js ''unzip'', js ''unzip''), (js ''transpose'', js ''unzip''),
     (js ''zip'', js ''zip''), (js ''object'', js ''object''),
     (js ''range'', js ''range''), (js ''chunk'', js ''chunk''),
     (js ''mixin'', js ''mixin''), (js ''default'', js ''_$1'')]"

definition exportsObj :: "jstring obj" where
  "exportsObj = \<lparr>props = allExports, inherited = []\<rparr>"

text \<open>All exports but two are functions.\<close>

definition isFunctionName :: "jstring \<Rightarrow> bool" where
  "isFunctionName f \<longleftrightarrow> f \<noteq> js ''VERSION'' \<and> f \<noteq> js ''templateSettings''"

text \<open>The library function object with its members, and the methods of its prototype.\<close>

record library =
  members :: "jstring obj"
  methods :: "jstring obj"

definition addMethod :: "jstring obj \<Rightarrow> jstring \<Rightarrow> library \<Rightarrow> library" where
  "addMethod ob name lib =
     (let func = the (getP ob name)
      in lib\<lparr>members := setP name func (members lib), methods := setP name func (methods lib)\<rparr>)"

definition mixin :: "jstring obj \<Rightarrow> library \<Rightarrow> library" where
  "mixin ob lib = fold (addMethod ob) (functionsU isFunctionName ob) lib"

text \<open>\<open>var _ = mixin(allExports); _._ = _;\<close>\<close>

definition factory :: "library \<Rightarrow> library" where
  "factory lib =
     (let l = mixin exportsObj lib in l\<lparr>members := setP (js ''_'') (js ''_'') (members l)\<rparr>)"

text \<open>The global name before and after loading, and \<open>noConflict\<close>, which gives it back.\<close>

record 'a page_globals =
  underscore :: "'a option"
  current :: "'a option"

definition loadLibrary :: "'a \<Rightarrow> 'a page_globals \<Rightarrow> 'a page_globals" where
  "loadLibrary lib g = g\<lparr>current := underscore g, underscore := Some lib\<rparr>"

definition noConflict :: "'a \<Rightarrow> 'a page_globals \<Rightarrow> 'a \<times> 'a page_globals" where
  "noConflict lib g = (lib, g\<lparr>underscore := current g\<rparr>)"

section \<open>Lemmas\<close>

lemma fold_addMethod:
  "getP (members (fold (addMethod ob) ks lib)) k = (if k \<in> set ks then Some (the (getP ob k)) else getP (members lib) k)"
  "getP (methods (fold (addMethod ob) ks lib)) k = (if k \<in> set ks then Some (the (getP ob k)) else getP (methods lib) k)"
  by (induction ks arbitrary: lib) (auto simp: addMethod_def Let_def)

definition functionAt :: "jstring obj \<Rightarrow> jstring \<Rightarrow> jstring option" where
  "functionAt ob k = (case getP ob k of Some f \<Rightarrow> if isFunctionName f then Some f else None | None \<Rightarrow> None)"

lemma functionsU_iff: "k \<in> set (functionsU isFunctionName ob) \<longleftrightarrow> functionAt ob k \<noteq> None"
  using getP_dom [of ob k] by (auto simp: functionsU_def functionAt_def split: option.splits)

lemma mixin_lookup:
  "getP (members (mixin ob lib)) k = orElse (functionAt ob k) (getP (members lib) k)"
  "getP (methods (mixin ob lib)) k = orElse (functionAt ob k) (getP (methods lib) k)"
  using functionsU_iff [of k ob]
  by (auto simp: mixin_def fold_addMethod functionAt_def split: option.splits if_splits)

lemma js_inject: "js a = js b \<longleftrightarrow> a = b"
proof (induction a arbitrary: b)
  case Nil
  then show ?case by (cases b) auto
next
  case (Cons c a)
  then show ?case by (cases b) auto
qed

lemma exports_distinct: "distinct (map fst allExports)"
  unfolding allExports_def list.map fst_conv distinct.simps list.set insert_iff empty_iff js_inject
  by (simp del: js.simps)

section \<open>Properties\<close>

text \<open>
  The library under its public names. No name is exported twice. Every exported
  function is a member of the library and a method of its wrapper objects under its name, and members
  that are not exported stay as they were. The membership test that the search of the manual uses has three
  names. After \<open>noConflict\<close> the page has its own \<open>_\<close> back, and the helpers of the manual hold the library.
\<close>
theorem library_exports:
  "distinct (map fst allExports) \<and>
   getP (members (factory lib)) k =
     (if k = js ''_'' then Some (js ''_'') else orElse (functionAt exportsObj k) (getP (members lib) k)) \<and>
   getP (methods (factory lib)) k = orElse (functionAt exportsObj k) (getP (methods lib) k) \<and>
   list_all (\<lambda>k. map_of allExports k = Some (js ''contains'')) [js ''contains'', js ''includes'', js ''include''] \<and>
   noConflict lib' (loadLibrary lib' g) = (lib', g\<lparr>current := underscore g\<rparr>)"
proof (intro conjI)
  show "distinct (map fst allExports)" by (rule exports_distinct)
  show "list_all (\<lambda>k. map_of allExports k = Some (js ''contains'')) [js ''contains'', js ''includes'', js ''include'']"
    by (simp add: allExports_def)
  show "noConflict lib' (loadLibrary lib' g) = (lib', g\<lparr>current := underscore g\<rparr>)"
    by (simp add: noConflict_def loadLibrary_def)
qed (simp_all add: factory_def Let_def mixin_lookup)

end
