(* ===== verification/URI_Component.thy ===== *)
theory URI_Component
  imports JS_Prelude
begin

text \<open>
  The functions \<open>encodeURIComponent\<close> and \<open>decodeURIComponent\<close> of the language, which the
  manual's scripts use for the parameters of a URL
  (\<^verbatim>\<open>prebuilts/qemu/share/doc/qemu/_static/doctools.js\<close>, lines 30-45). Both may
  raise \<open>URIError\<close>, so both return an option. The lemmas show that decoding undoes
  encoding, and which characters an encoded text consists of.
\<close>

section \<open>Errors of the language\<close>

datatype jserror = TypeError | URIError

type_synonym 'a result = "jserror + 'a"

section \<open>Encoding\<close>

text \<open>The characters that are not encoded: letters, digits and \<^verbatim>\<open>- _ . ! ~ * ' ( )\<close>.\<close>

definition uriUnescaped :: "nat \<Rightarrow> bool" where
  "uriUnescaped c \<longleftrightarrow> (48 \<le> c \<and> c \<le> 57) \<or> (65 \<le> c \<and> c \<le> 90) \<or> (97 \<le> c \<and> c \<le> 122) \<or>
     c \<in> {45, 95, 46, 33, 126, 42, 39, 40, 41}"

definition hexDigit :: "nat \<Rightarrow> nat" where
  "hexDigit n = (if n < 10 then 48 + n else 55 + n)"

definition percent :: "nat \<Rightarrow> jstring" where
  "percent b = [37, hexDigit (b div 16), hexDigit (b mod 16)]"

definition leadSurrogate :: "nat \<Rightarrow> bool" where
  "leadSurrogate c \<longleftrightarrow> 55296 \<le> c \<and> c \<le> 56319"

definition trailSurrogate :: "nat \<Rightarrow> bool" where
  "trailSurrogate c \<longleftrightarrow> 56320 \<le> c \<and> c \<le> 57343"

definition codePoint :: "nat \<Rightarrow> nat \<Rightarrow> nat" where
  "codePoint c d = (c - 55296) * 1024 + (d - 56320) + 65536"

definition utf16 :: "nat \<Rightarrow> jstring" where
  "utf16 cp = (if cp < 65536 then [cp]
     else [55296 + (cp - 65536) div 1024, 56320 + (cp - 65536) mod 1024])"

definition utf8 :: "nat \<Rightarrow> nat list" where
  "utf8 cp =
     (if cp < 128 then [cp]
      else if cp < 2048 then [192 + cp div 64, 128 + cp mod 64]
      else if cp < 65536 then [224 + cp div 4096, 128 + cp div 64 mod 64, 128 + cp mod 64]
      else [240 + cp div 262144, 128 + cp div 4096 mod 64, 128 + cp div 64 mod 64, 128 + cp mod 64])"

fun encodeURIComponent :: "jstring \<Rightarrow> jstring option" where
  "encodeURIComponent [] = Some []"
| "encodeURIComponent (c # s) =
     (if uriUnescaped c then map_option ((#) c) (encodeURIComponent s)
      else if trailSurrogate c then None
      else if leadSurrogate c then
        (case s of
           d # t \<Rightarrow>
             if trailSurrogate d
             then map_option ((@) (concat (map percent (utf8 (codePoint c d))))) (encodeURIComponent t)
             else None
         | [] \<Rightarrow> None)
      else map_option ((@) (concat (map percent (utf8 c)))) (encodeURIComponent s))"

section \<open>Decoding\<close>

definition hexVal :: "nat \<Rightarrow> nat option" where
  "hexVal c =
     (if 48 \<le> c \<and> c \<le> 57 then Some (c - 48)
      else if 65 \<le> c \<and> c \<le> 70 then Some (c - 55)
      else if 97 \<le> c \<and> c \<le> 102 then Some (c - 87)
      else None)"

text \<open>The byte written as a percent sign and two hexadecimal digits, and the rest.\<close>

fun takeByte :: "jstring \<Rightarrow> (nat \<times> jstring) option" where
  "takeByte (p # h # l # s) =
     (if p = 37 then
        (case (hexVal h, hexVal l) of
           (Some a, Some b) \<Rightarrow> Some (16 * a + b, s)
         | _ \<Rightarrow> None)
      else None)"
| "takeByte _ = None"

text \<open>\<open>n\<close> continuation bytes, which add six bits each to the value read so far.\<close>

fun takeRest :: "nat \<Rightarrow> nat \<Rightarrow> jstring \<Rightarrow> (nat \<times> jstring) option" where
  "takeRest 0 v s = Some (v, s)"
| "takeRest (Suc n) v s =
     (case takeByte s of
        Some (b, t) \<Rightarrow> if 128 \<le> b \<and> b < 192 then takeRest n (v * 64 + (b - 128)) t else None
      | None \<Rightarrow> None)"

text \<open>
  One character: the lead byte says how many bytes follow; overlong forms, surrogates
  and values beyond \<open>10FFFF\<close> are no characters.
\<close>

definition takeChar :: "jstring \<Rightarrow> (nat \<times> jstring) option" where
  "takeChar s =
     (case takeByte s of
        None \<Rightarrow> None
      | Some (b, t) \<Rightarrow>
          if b < 128 then Some (b, t)
          else if 192 \<le> b \<and> b < 224 then
            (case takeRest 1 (b - 192) t of
               Some (v, u) \<Rightarrow> if 128 \<le> v then Some (v, u) else None
             | None \<Rightarrow> None)
          else if 224 \<le> b \<and> b < 240 then
            (case takeRest 2 (b - 224) t of
               Some (v, u) \<Rightarrow>
                 if 2048 \<le> v \<and> \<not> leadSurrogate v \<and> \<not> trailSurrogate v then Some (v, u) else None
             | None \<Rightarrow> None)
          else if 240 \<le> b \<and> b < 248 then
            (case takeRest 3 (b - 240) t of
               Some (v, u) \<Rightarrow> if 65536 \<le> v \<and> v < 1114112 then Some (v, u) else None
             | None \<Rightarrow> None)
          else None)"

lemma takeByte_length: "takeByte s = Some (b, t) \<Longrightarrow> length t < length s"
  by (induction s rule: takeByte.induct) (auto split: if_splits option.splits)

lemma takeRest_length: "takeRest n v s = Some (w, t) \<Longrightarrow> length t \<le> length s"
proof (induction n arbitrary: v s)
  case (Suc n)
  then obtain b u v' where "takeByte s = Some (b, u)" "takeRest n v' u = Some (w, t)"
    by (auto split: option.splits if_splits)
  with Suc.IH [of v' u] takeByte_length [of s b u] show ?case by simp
qed simp

lemma takeChar_length: "takeChar s = Some (v, t) \<Longrightarrow> length t < length s"
  unfolding takeChar_def
  by (auto split: option.splits if_splits dest!: takeByte_length takeRest_length)

function decodeURIComponent :: "jstring \<Rightarrow> jstring option" where
  "decodeURIComponent [] = Some []"
| "decodeURIComponent (c # s) =
     (if c \<noteq> 37 then map_option ((#) c) (decodeURIComponent s)
      else case takeChar (c # s) of
             Some (v, t) \<Rightarrow> map_option ((@) (utf16 v)) (decodeURIComponent t)
           | None \<Rightarrow> None)"
  by pat_completeness auto
termination
  by (relation "measure length") (auto dest: takeChar_length)

section \<open>Lemmas\<close>

lemma hexVal_hexDigit [simp]: "n < 16 \<Longrightarrow> hexVal (hexDigit n) = Some n"
  by (auto simp: hexVal_def hexDigit_def)

lemma takeByte_percent [simp]: "b < 256 \<Longrightarrow> takeByte (percent b @ s) = Some (b, s)"
  by (simp add: percent_def)

lemma takeByte_percent_more [simp]:
  "b < 256 \<Longrightarrow> takeByte (37 # hexDigit (b div 16) # hexDigit (b mod 16) # s) = Some (b, s)"
  using takeByte_percent [of b s] by (simp add: percent_def)

lemma takeRest_byte [simp]:
  "b < 64 \<Longrightarrow> takeRest (Suc n) v (percent (128 + b) @ s) = takeRest n (v * 64 + b) s"
  by simp

lemma div_split: "(x::nat) div 64 div 64 = x div 4096" "x div 4096 div 64 = x div 262144"
  by (simp_all add: div_mult2_eq [symmetric])

lemma takeChar_utf8:
  assumes "cp < 1114112" "\<not> leadSurrogate cp" "\<not> trailSurrogate cp"
  shows "takeChar (concat (map percent (utf8 cp)) @ s) = Some (cp, s)"
proof -
  have a: "cp div 64 * 64 + cp mod 64 = cp" "cp div 4096 * 64 + cp div 64 mod 64 = cp div 64"
    "cp div 262144 * 64 + cp div 4096 mod 64 = cp div 4096"
    using div_mult_mod_eq [of "cp div 64" 64] div_mult_mod_eq [of "cp div 4096" 64]
    by (simp_all add: div_split)
  consider "cp < 128" | "128 \<le> cp" "cp < 2048" | "2048 \<le> cp" "cp < 65536" | "65536 \<le> cp" by linarith
  then show ?thesis
  proof cases
    case 1
    then show ?thesis by (simp add: utf8_def takeChar_def)
  next
    case 2
    then have "cp div 64 < 32" by linarith
    with 2 a show ?thesis by (simp add: utf8_def takeChar_def)
  next
    case 3
    then have "cp div 4096 < 16" by linarith
    with 3 a assms show ?thesis by (simp add: utf8_def takeChar_def numeral_2_eq_2 del: takeRest.simps(2))
  next
    case 4
    then have "cp div 262144 < 5" using assms by linarith
    with 4 a assms show ?thesis by (simp add: utf8_def takeChar_def numeral_3_eq_3 del: takeRest.simps(2))
  qed
qed

lemma utf8_start:
  "\<exists>h l u. concat (map percent (utf8 cp)) = 37 # h # l # u"
  by (auto simp: utf8_def percent_def)

lemma decode_char:
  assumes "cp < 1114112" "\<not> leadSurrogate cp" "\<not> trailSurrogate cp"
  shows "decodeURIComponent (concat (map percent (utf8 cp)) @ s) =
    map_option ((@) (utf16 cp)) (decodeURIComponent s)"
proof -
  obtain h l u where "concat (map percent (utf8 cp)) @ s = 37 # h # l # u @ s"
    using utf8_start [of cp] by fastforce
  with takeChar_utf8 [OF assms, of s] show ?thesis by simp
qed

lemma utf16_codePoint:
  assumes "leadSurrogate c" "trailSurrogate d"
  shows "utf16 (codePoint c d) = [c, d]" "codePoint c d < 1114112"
    "\<not> leadSurrogate (codePoint c d)" "\<not> trailSurrogate (codePoint c d)"
proof -
  obtain a where a: "c = 55296 + a" "a < 1024"
    using assms by (auto simp: leadSurrogate_def intro: that [of "c - 55296"])
  obtain b where b: "d = 56320 + b" "b < 1024"
    using assms by (auto simp: trailSurrogate_def intro: that [of "d - 56320"])
  show "utf16 (codePoint c d) = [c, d]" "codePoint c d < 1114112"
    "\<not> leadSurrogate (codePoint c d)" "\<not> trailSurrogate (codePoint c d)"
    using a b by (auto simp: codePoint_def utf16_def leadSurrogate_def trailSurrogate_def)
qed

text \<open>Decoding undoes encoding, on every string of code units.\<close>

lemma decode_encode:
  "encodeURIComponent s = Some e \<Longrightarrow> \<forall>c \<in> set s. c < 65536 \<Longrightarrow> decodeURIComponent e = Some s"
proof (induction s arbitrary: e rule: encodeURIComponent.induct)
  case (2 c s)
  consider (plain) "uriUnescaped c" | (pair) "\<not> uriUnescaped c" "leadSurrogate c"
    | (unit) "\<not> uriUnescaped c" "\<not> leadSurrogate c" "\<not> trailSurrogate c"
    using "2.prems"(1) by (auto split: if_splits)
  then show ?case
  proof cases
    case plain
    then obtain e' where e: "encodeURIComponent s = Some e'" "e = c # e'"
      using "2.prems"(1) by auto
    have "c \<noteq> 37" using plain by (auto simp: uriUnescaped_def)
    then show ?thesis using "2.IH"(1) [OF plain e(1)] "2.prems"(2) e(2) by simp
  next
    case pair
    have nt: "\<not> trailSurrogate c" using pair by (auto simp: leadSurrogate_def trailSurrogate_def)
    obtain d t e' where dt: "s = d # t" "trailSurrogate d" "encodeURIComponent t = Some e'"
      "e = concat (map percent (utf8 (codePoint c d))) @ e'"
      using "2.prems"(1) pair nt by (auto split: list.splits if_splits)
    show ?thesis
      using "2.IH"(2) [OF pair(1) nt pair(2) dt(1,2,3)] "2.prems"(2) dt
        decode_char [OF utf16_codePoint(2-4) [OF pair(2) dt(2)]] utf16_codePoint(1) [OF pair(2) dt(2)]
      by simp
  next
    case unit
    then obtain e' where e: "encodeURIComponent s = Some e'" "e = concat (map percent (utf8 c)) @ e'"
      using "2.prems"(1) by auto
    have "c < 65536" using "2.prems"(2) by simp
    then show ?thesis
      using "2.IH"(3) [OF unit(1,3,2) e(1)] "2.prems"(2) e(2) decode_char [of c e'] unit
      by (simp add: utf16_def)
  qed
qed simp

text \<open>Every character of an encoded text is unescaped or part of a percent form.\<close>

definition uriSafe :: "nat \<Rightarrow> bool" where
  "uriSafe c \<longleftrightarrow> uriUnescaped c \<or> c = 37"

lemma percent_safe:
  assumes "b < 256" shows "list_all uriSafe (percent b)"
proof -
  have "uriSafe (hexDigit n)" if "n < 16" for n
    using that by (auto simp: uriSafe_def uriUnescaped_def hexDigit_def)
  then show ?thesis using assms by (simp add: percent_def) (simp add: uriSafe_def)
qed

lemma utf8_bytes: "cp < 1114112 \<Longrightarrow> list_all (\<lambda>b. b < 256) (utf8 cp)"
  by (auto simp: utf8_def less_mult_imp_div_less)

lemma utf8_safe:
  "cp < 1114112 \<Longrightarrow> list_all uriSafe (concat (map percent (utf8 cp)))"
  using utf8_bytes [of cp] percent_safe by (auto simp: list_all_iff)

lemma encode_safe:
  "encodeURIComponent s = Some e \<Longrightarrow> \<forall>c \<in> set s. c < 65536 \<Longrightarrow> list_all uriSafe e"
proof (induction s arbitrary: e rule: encodeURIComponent.induct)
  case (2 c s)
  have c: "c < 1114112" using "2.prems"(2) by simp
  show ?case
  proof (cases "leadSurrogate c \<and> \<not> uriUnescaped c")
    case True
    then have nt: "\<not> trailSurrogate c" by (auto simp: leadSurrogate_def trailSurrogate_def)
    obtain d t e' where dt: "s = d # t" "trailSurrogate d" "encodeURIComponent t = Some e'"
      "e = concat (map percent (utf8 (codePoint c d))) @ e'"
      using "2.prems"(1) True nt by (auto split: list.splits if_splits)
    then show ?thesis
      using "2.IH"(2) [of d t e'] True nt "2.prems"(2) utf16_codePoint(2) utf8_safe by auto
  next
    case False
    moreover have "uriUnescaped c \<Longrightarrow> uriSafe c" by (simp add: uriSafe_def)
    ultimately show ?thesis
      using "2.prems" "2.IH"(1,3) c utf8_safe [of c] by (auto split: if_splits)
  qed
qed simp

text \<open>Encoding succeeds on every text without surrogates.\<close>

lemma encode_total:
  "\<forall>c \<in> set s. \<not> leadSurrogate c \<and> \<not> trailSurrogate c \<Longrightarrow> \<exists>e. encodeURIComponent s = Some e"
  by (induction s) auto

end
