(* ===== verification/Underscore_Template.thy ===== *)
theory Underscore_Template
  imports URI_Component
begin

text \<open>
  The template compiler of \<^verbatim>\<open>underscore.js\<close> with its standard delimiters: the scanner that finds
  the tags, the literals it writes, and the program text it produces. The program text is
  handed to the \<open>Function\<close> constructor of the language. The lemmas show that the scanner loses nothing of the
  template and that text between the tags reaches the program unchanged, whatever
  characters it has.
\<close>

section \<open>Tags\<close>

datatype piece = TextPiece jstring | Escape jstring | Interpolate jstring | Evaluate jstring

text \<open>\<open>([\s\S]+?)%>\<close>: one character at least, up to the first closing mark after it.\<close>

definition lazyGroup :: "jstring \<Rightarrow> jstring option" where
  "lazyGroup s =
     (case s of
        [] \<Rightarrow> None
      | c # s' \<Rightarrow>
          (let i = indexOf (js ''%>'') s' in if i < 0 then None else Some (c # take (nat i) s')))"

definition openGroup :: "jstring \<Rightarrow> jstring \<Rightarrow> jstring option" where
  "openGroup p s = (if startsWith p s then lazyGroup (drop (length p) s) else None)"

text \<open>The alternatives of \<open>matcher\<close> in their order, with the length of the match.\<close>

definition matchTag :: "jstring \<Rightarrow> (piece \<times> nat) option" where
  "matchTag s =
     (case openGroup (js ''<%-'') s of
        Some g \<Rightarrow> Some (Escape g, length g + 5)
      | None \<Rightarrow>
          (case openGroup (js ''<%='') s of
             Some g \<Rightarrow> Some (Interpolate g, length g + 5)
           | None \<Rightarrow>
               (case openGroup (js ''<%'') s of
                  Some g \<Rightarrow> Some (Evaluate g, length g + 4)
                | None \<Rightarrow> None)))"

text \<open>
  \<open>text.replace(matcher, ...)\<close>: the text since the last match, then the match; the empty
  match at the end closes the last piece of text.
\<close>

lemma matchTag_positive: "matchTag s = Some (d, n) \<Longrightarrow> 0 < n"
  by (auto simp: matchTag_def split: option.splits)

function templateParts :: "jstring \<Rightarrow> jstring \<Rightarrow> piece list" where
  "templateParts pending [] = [TextPiece pending]"
| "templateParts pending (c # s) =
     (case matchTag (c # s) of
        Some (d, n) \<Rightarrow> TextPiece pending # d # templateParts [] (drop n (c # s))
      | None \<Rightarrow> templateParts (pending @ [c]) s)"
  by pat_completeness auto
termination
  by (relation "measure (\<lambda>(pending, s). length s)") (auto dest: matchTag_positive)

section \<open>Program text\<close>

definition escapes :: "(nat \<times> jstring) list" where
  "escapes = [(39, js [CHR 39]), (92, js [CHR 92]), (13, js ''r''), (10, js ''n''),
     (8232, js ''u2028''), (8233, js ''u2029'')]"

definition escapeChar :: "nat \<Rightarrow> jstring" where
  "escapeChar c = (case map_of escapes c of Some e \<Rightarrow> 92 # e | None \<Rightarrow> [c])"

definition escapeText :: "jstring \<Rightarrow> jstring" where
  "escapeText t = concat (map escapeChar t)"

fun partSource :: "piece \<Rightarrow> jstring" where
  "partSource (TextPiece t) = escapeText t"
| "partSource (Escape e) = [39, 43, 10] @ js ''((__t=('' @ e @ js ''))==null?'' @ [39, 39] @ js '':_.escape(__t))+'' @ [10, 39]"
| "partSource (Interpolate e) = [39, 43, 10] @ js ''((__t=('' @ e @ js ''))==null?'' @ [39, 39] @ js '':__t)+'' @ [10, 39]"
| "partSource (Evaluate e) = [39, 59, 10] @ e @ [10] @ js ''__p+='' @ [39]"

definition templateBody :: "jstring \<Rightarrow> jstring" where
  "templateBody t = js ''__p+='' @ [39] @ concat (map partSource (templateParts [] t)) @ [39, 59, 10]"

text \<open>\<open>bareIdentifier\<close>.\<close>

definition isWordChar :: "nat \<Rightarrow> bool" where
  "isWordChar c \<longleftrightarrow> 48 \<le> c \<and> c \<le> 57 \<or> 65 \<le> c \<and> c \<le> 90 \<or> 97 \<le> c \<and> c \<le> 122 \<or> c = 95"

definition bareIdentifier :: "jstring \<Rightarrow> bool" where
  "bareIdentifier s =
     (let s1 = rev (dropWhile is_js_space (rev (dropWhile is_js_space s)))
      in s1 \<noteq> [] \<and> list_all (\<lambda>c. isWordChar c \<or> c = 36) s1)"

text \<open>
  The argument and the program of a template; a variable that is not an identifier is
  refused. An empty variable is no variable.
\<close>

datatype template_error = NotAnIdentifier jstring

definition templateSource :: "jstring \<Rightarrow> jstring option \<Rightarrow> (template_error, jstring \<times> jstring) sum" where
  "templateSource t var =
     (let body = templateBody t;
          whole = (\<lambda>b. js ''var __t,__p='' @ [39, 39] @ js '',__j=Array.prototype.join,'' @
            js ''print=function(){__p+=__j.call(arguments,'' @ [39, 39] @ js '');};'' @ [10] @
            b @ js ''return __p;'' @ [10])
      in if var = None \<or> var = Some []
         then Inr (js ''obj'', whole (js ''with(obj||{}){'' @ [10] @ body @ js ''}'' @ [10]))
         else if bareIdentifier (the var) then Inr (the var, whole body)
         else Inl (NotAnIdentifier (the var)))"

text \<open>\<open>template.source\<close>.\<close>

definition precompiled :: "jstring \<times> jstring \<Rightarrow> jstring" where
  "precompiled a = js ''function('' @ fst a @ js ''){'' @ [10] @ snd a @ js ''}''"

section \<open>Lemmas: the scanner\<close>

fun unparse :: "piece \<Rightarrow> jstring" where
  "unparse (TextPiece t) = t"
| "unparse (Escape e) = js ''<%-'' @ e @ js ''%>''"
| "unparse (Interpolate e) = js ''<%='' @ e @ js ''%>''"
| "unparse (Evaluate e) = js ''<%'' @ e @ js ''%>''"

lemma lazyGroup_prefix: "lazyGroup s = Some g \<Longrightarrow> \<exists>r. s = g @ js ''%>'' @ r \<and> g \<noteq> []"
proof (cases s)
  case (Cons c s')
  assume g: "lazyGroup s = Some g"
  show ?thesis
  proof (cases rule: indexOf_cases [of "js ''%>''" s'])
    case (found k)
    then obtain r where "drop k s' = js ''%>'' @ r" by (auto simp: startsWith_iff)
    then have "s' = take k s' @ js ''%>'' @ r" by (metis append_take_drop_id)
    with g found Cons show ?thesis by (auto simp: lazyGroup_def Let_def simp del: js.simps)
  qed (use g Cons in \<open>auto simp: lazyGroup_def\<close>)
qed (simp add: lazyGroup_def)

lemma openGroup_prefix: "openGroup p s = Some g \<Longrightarrow> \<exists>r. s = p @ g @ js ''%>'' @ r \<and> g \<noteq> []"
  by (auto simp: openGroup_def startsWith_iff simp del: js.simps dest!: lazyGroup_prefix split: if_splits)

lemma matchTag_unparse:
  assumes "matchTag s = Some (d, n)"
  shows "s = unparse d @ drop n s"
proof -
  consider g where "d = Escape g" "n = length g + 5" "openGroup (js ''<%-'') s = Some g"
    | g where "d = Interpolate g" "n = length g + 5" "openGroup (js ''<%='') s = Some g"
    | g where "d = Evaluate g" "n = length g + 4" "openGroup (js ''<%'') s = Some g"
    using assms by (auto simp: matchTag_def split: option.splits simp del: js.simps)
  then show ?thesis by cases (auto dest!: openGroup_prefix simp: eval_nat_numeral)
qed

lemma templateParts_cover: "concat (map unparse (templateParts pending s)) = pending @ s"
proof (induction pending s rule: templateParts.induct)
  case (2 pending c s)
  show ?case
  proof (cases "matchTag (c # s)")
    case (Some dn)
    then obtain d n where m: "matchTag (c # s) = Some (d, n)" by (cases dn) auto
    from 2(2) [OF m refl] have "concat (map unparse (templateParts [] (drop n (c # s)))) = drop n (c # s)" by simp
    then show ?thesis using m matchTag_unparse [OF m] by simp
  qed (use 2(1) in simp)
qed simp

section \<open>Lemmas: literals\<close>

text \<open>
  The language's reader of a string in single quotes, from after the opening quote: the
  string and what follows the closing quote. A line terminator ends the program.
\<close>

definition hex4 :: "jstring \<Rightarrow> nat option" where
  "hex4 s =
     (case map hexVal s of
        [Some a, Some b, Some c, Some d] \<Rightarrow> Some (((a * 16 + b) * 16 + c) * 16 + d)
      | _ \<Rightarrow> None)"

function readLiteral :: "jstring \<Rightarrow> (jstring \<times> jstring) option" where
  "readLiteral [] = None"
| "readLiteral (c # s) =
     (if c = 39 then Some ([], s)
      else if is_line_end c then None
      else if c = 92 then
        (case s of
           [] \<Rightarrow> None
         | d # s' \<Rightarrow>
             if d = 117 then
               (case hex4 (take 4 s') of
                  Some u \<Rightarrow> map_option (apfst ((#) u)) (readLiteral (drop 4 s'))
                | None \<Rightarrow> None)
             else map_option (apfst ((#) (if d = 110 then 10 else if d = 114 then 13 else d))) (readLiteral s'))
      else map_option (apfst ((#) c)) (readLiteral s))"
  by pat_completeness auto
termination by (relation "measure length") auto

lemma escapeChar_cases:
  "(c = 39 \<and> escapeChar c = [92, 39]) \<or> (c = 92 \<and> escapeChar c = [92, 92]) \<or>
   (c = 13 \<and> escapeChar c = [92, 114]) \<or> (c = 10 \<and> escapeChar c = [92, 110]) \<or>
   (c = 8232 \<and> escapeChar c = [92, 117, 50, 48, 50, 56]) \<or>
   (c = 8233 \<and> escapeChar c = [92, 117, 50, 48, 50, 57]) \<or>
   (c \<notin> {39, 92, 13, 10, 8232, 8233} \<and> escapeChar c = [c])"
  by (auto simp: escapeChar_def escapes_def of_char_def)

lemma readLiteral_escapeChar: "readLiteral (escapeChar c @ s) = map_option (apfst ((#) c)) (readLiteral s)"
  using escapeChar_cases [of c]
  by (elim disjE) (auto simp: is_line_end_def hex4_def hexVal_def simp del: readLiteral.simps(1))

lemma readLiteral_escapeText: "readLiteral (escapeText t @ 39 # rest) = Some (t, rest)"
  unfolding escapeText_def by (induction t) (simp_all add: readLiteral_escapeChar)

section \<open>Properties\<close>

text \<open>
  Compiling a template loses nothing: its pieces put together are the template, every
  tag has at least one character between its marks, and the literal of every piece of text is read by the
  language as exactly that text and ends where its quote is, so that no text can leave its literal.
  A variable that is not an identifier is refused.
\<close>
theorem template_roundtrip:
  "concat (map unparse (templateParts [] t)) = t \<and>
   list_all (\<lambda>p. case p of
       TextPiece u \<Rightarrow> readLiteral (partSource (TextPiece u) @ 39 # rest) = Some (u, rest)
     | Escape e \<Rightarrow> e \<noteq> [] | Interpolate e \<Rightarrow> e \<noteq> [] | Evaluate e \<Rightarrow> e \<noteq> []) (templateParts [] t) \<and>
   (templateSource t (Some v) = Inl (NotAnIdentifier v) \<longleftrightarrow> v \<noteq> [] \<and> \<not> bareIdentifier v)"
proof (intro conjI)
  show "concat (map unparse (templateParts [] t)) = t" by (simp add: templateParts_cover)
  have tag: "case d of TextPiece u \<Rightarrow> False | Escape e \<Rightarrow> e \<noteq> [] | Interpolate e \<Rightarrow> e \<noteq> [] | Evaluate e \<Rightarrow> e \<noteq> []"
    if "matchTag s = Some (d, n)" for s d n
    using that by (auto simp: matchTag_def dest!: openGroup_prefix split: option.splits simp del: js.simps)
  have "list_all (\<lambda>p. case p of
       TextPiece u \<Rightarrow> readLiteral (partSource (TextPiece u) @ 39 # rest) = Some (u, rest)
     | Escape e \<Rightarrow> e \<noteq> [] | Interpolate e \<Rightarrow> e \<noteq> [] | Evaluate e \<Rightarrow> e \<noteq> []) (templateParts pending s)" for pending s
  proof (induction pending s rule: templateParts.induct)
    case (2 pending c s)
    then show ?case
      using tag [of "c # s"]
      by (auto simp: readLiteral_escapeText simp del: readLiteral.simps split: option.split piece.splits)
  qed (simp add: readLiteral_escapeText del: readLiteral.simps)
  then show "list_all (\<lambda>p. case p of
       TextPiece u \<Rightarrow> readLiteral (partSource (TextPiece u) @ 39 # rest) = Some (u, rest)
     | Escape e \<Rightarrow> e \<noteq> [] | Interpolate e \<Rightarrow> e \<noteq> [] | Evaluate e \<Rightarrow> e \<noteq> []) (templateParts [] t)" .
  show "templateSource t (Some v) = Inl (NotAnIdentifier v) \<longleftrightarrow> v \<noteq> [] \<and> \<not> bareIdentifier v"
    by (simp add: templateSource_def Let_def)
qed

end
