(* ===== verification/Theme_Nav.thy ===== *)
theory Theme_Nav
  imports URI_Component
begin

text \<open>
  The navigation of the manual's theme (\<^verbatim>\<open>prebuilts/qemu/share/doc/qemu/_static/js/theme.js\<close>): the menu at the side
  with its current entries (\<open>reset\<close>, \<open>toggleCurrent\<close>), the state of \<open>ThemeNav\<close> with its handlers for scrolling,
  resizing and clicks, and the replacement for \<open>requestAnimationFrame\<close>. The menu is the
  tree of list items that the manual's pages have: an item has one link, and its depth is
  the number in its class. The handlers become a function of the events of the page, which
  carry what the page measures at that moment.
\<close>

section \<open>The menu\<close>

text \<open>Whether an element has the class \<open>current\<close>, and its attribute \<open>aria-expanded\<close>.\<close>

type_synonym mark = "bool \<times> bool option"

text \<open>An item: its mark, the mark and the target of its link, and the items below.\<close>

datatype li = Li (li_mark: mark) (li_link: mark) (li_href: jstring) (li_kids: "li list")

record menu =
  ul :: mark
  items :: "li list"

definition unmark :: "mark \<Rightarrow> mark" where
  "unmark m = (False, Some False)"

definition unmarkCurrent :: "mark \<Rightarrow> mark" where
  "unmarkCurrent m = (if fst m then unmark m else m)"

definition setMark :: "mark \<Rightarrow> mark" where
  "setMark m = (True, Some True)"

text \<open>\<open>toggleClass('current')\<close> and the new value of the attribute, each from its own old value.\<close>

definition toggleMark :: "mark \<Rightarrow> mark" where
  "toggleMark m = (\<not> fst m, Some (if snd m = Some True then False else True))"

subsection \<open>Opening and closing an item\<close>

fun clearBelow :: "(mark \<Rightarrow> mark) \<Rightarrow> li \<Rightarrow> li" where
  "clearBelow f (Li m lm h kids) = Li (f m) lm h (map (clearBelow f) kids)"

text \<open>
  \<open>toggleCurrent\<close> for the item at a position of its list: the siblings lose \<open>current\<close>, and so
  does every current item below them; an item with items below is toggled, and those lose
  \<open>current\<close> too.
\<close>

definition toggleItem :: "li \<Rightarrow> li" where
  "toggleItem x =
     (case x of Li m lm h kids \<Rightarrow>
       if kids \<noteq> [] then Li (toggleMark m) lm h (map (clearBelow unmark) kids) else x)"

definition toggleIn :: "nat \<Rightarrow> li list \<Rightarrow> li list" where
  "toggleIn i xs = map (\<lambda>(j, x). if j = i then toggleItem x else clearBelow unmarkCurrent x) (zip [0..<length xs] xs)"

fun toggleCurrent :: "nat list \<Rightarrow> li list \<Rightarrow> li list" where
  "toggleCurrent [] xs = xs"
| "toggleCurrent [i] xs = toggleIn i xs"
| "toggleCurrent (i # p) xs =
     (if i < length xs
      then xs[i := (case xs ! i of Li m lm h kids \<Rightarrow> Li m lm h (toggleCurrent p kids))] else xs)"

subsection \<open>Following the address\<close>

text \<open>\<open>encodeURI\<close>, which leaves the characters with a meaning in addresses as they are.\<close>

definition uriReserved :: "nat \<Rightarrow> bool" where
  "uriReserved c \<longleftrightarrow> c \<in> {59, 47, 63, 58, 64, 38, 61, 43, 36, 44, 35}"

fun encodeURI :: "jstring \<Rightarrow> jstring option" where
  "encodeURI [] = Some []"
| "encodeURI (c # s) =
     (if uriUnescaped c \<or> uriReserved c then map_option ((#) c) (encodeURI s)
      else if trailSurrogate c then None
      else if leadSurrogate c then
        (case s of
           d # t \<Rightarrow>
             if trailSurrogate d
             then map_option ((@) (concat (map percent (utf8 (codePoint c d))))) (encodeURI t)
             else None
         | [] \<Rightarrow> None)
      else map_option ((@) (concat (map percent (utf8 c)))) (encodeURI s))"

text \<open>\<open>vmenu.find('[href="..."]')\<close>: whether a link of the menu has the target.\<close>

fun hasLink :: "jstring \<Rightarrow> li \<Rightarrow> bool" where
  "hasLink a (Li m lm h kids) = (h = a \<or> list_ex (hasLink a) kids)"

text \<open>
  The target that \<open>reset\<close> chooses: the anchor, the section around the element with that
  name, or the page itself. \<open>sectionOf\<close> gives the name of the closest section of an element
  of the document; where there is none the text \<open>undefined\<close> is used.
\<close>

definition chooseLink :: "(jstring \<Rightarrow> jstring option) \<Rightarrow> jstring \<Rightarrow> li list \<Rightarrow> jstring option" where
  "chooseLink sectionOf anchor xs =
     (let found = (\<lambda>a. list_ex (hasLink a) xs);
          section = 35 # (case sectionOf (drop 1 anchor) of Some i \<Rightarrow> i | None \<Rightarrow> js ''undefined'')
      in if found anchor then Some anchor
         else if found section then Some section
         else if found [35] then Some [35]
         else None)"

text \<open>The old marks go, then the link, and the items around it down to depth ten, get theirs.\<close>

fun clearMarks :: "li \<Rightarrow> li" where
  "clearMarks (Li m lm h kids) = Li (unmarkCurrent m) (unmarkCurrent lm) h (map clearMarks kids)"

fun markLink :: "jstring \<Rightarrow> nat \<Rightarrow> li \<Rightarrow> li" where
  "markLink a d (Li m lm h kids) =
     Li (if d \<le> 10 \<and> hasLink a (Li m lm h kids) then setMark m else m)
       (if h = a then setMark lm else lm) h (map (markLink a (Suc d)) kids)"

definition resetMenu :: "(jstring \<Rightarrow> jstring option) \<Rightarrow> jstring \<Rightarrow> menu \<Rightarrow> menu" where
  "resetMenu sectionOf anchor mn =
     (case chooseLink sectionOf anchor (items mn) of
        None \<Rightarrow> mn
      | Some a \<Rightarrow> \<lparr>ul = setMark (unmarkCurrent (ul mn)), items = map (markLink a 1) (map clearMarks (items mn))\<rparr>)"

definition reset :: "(jstring \<Rightarrow> jstring option) \<Rightarrow> jstring \<Rightarrow> menu \<Rightarrow> menu option" where
  "reset sectionOf hash mn =
     map_option (\<lambda>a. resetMenu sectionOf (if a = [] then [35] else a) mn) (encodeURI hash)"

section \<open>The state of the navigation\<close>

datatype frame = ScrollFrame | ResizeFrame

record nav =
  isRunning :: bool
  sticky :: bool
  winScroll :: bool
  winResize :: bool
  linkScroll :: bool
  winPosition :: int
  winHeight :: int
  docHeight :: int
  frames :: "frame list"
  navTop :: int
  shiftNav :: bool
  shiftVersions :: bool
  shiftUp :: bool
  winLinkScroll :: "bool option"
  oneHash :: nat

text \<open>
  What the page measures: the position of the window, and the heights of the window and of
  the document.
\<close>

record metrics =
  scrollTop :: int
  height :: int
  docH :: int

definition ThemeNav :: nav where
  "ThemeNav = \<lparr>isRunning = False, sticky = False, winScroll = False, winResize = False, linkScroll = False,
     winPosition = 0, winHeight = 0, docHeight = 0, frames = [], navTop = 0,
     shiftNav = False, shiftVersions = False, shiftUp = False, winLinkScroll = None, oneHash = 0\<rparr>"

definition onResize :: "metrics \<Rightarrow> nav \<Rightarrow> nav" where
  "onResize e s = s\<lparr>winResize := False, winHeight := height e, docHeight := docH e\<rparr>"

text \<open>The position of a scrolled element is never negative.\<close>

definition onScroll :: "metrics \<Rightarrow> nav \<Rightarrow> nav" where
  "onScroll e s =
     (let s1 = s\<lparr>winScroll := False\<rparr>;
          newWinPosition = scrollTop e;
          winBottom = newWinPosition + winHeight s1;
          newNavPosition = navTop s1 + (newWinPosition - winPosition s1)
      in if newWinPosition < 0 \<or> winBottom > docHeight s1 then s1
         else s1\<lparr>navTop := max newNavPosition 0, winPosition := newWinPosition\<rparr>)"

text \<open>
  \<open>hashChange\<close>: the handler it leaves runs once, and its \<open>this\<close> is the window, so it sets a
  property of the window.
\<close>

definition hashChange :: "nav \<Rightarrow> nav" where
  "hashChange s = s\<lparr>linkScroll := True, oneHash := oneHash s + 1\<rparr>"

definition hashChanged :: "nav \<Rightarrow> nav" where
  "hashChanged s = (if oneHash s > 0 then s\<lparr>winLinkScroll := Some False, oneHash := 0\<rparr> else s)"

definition clickTop :: "nav \<Rightarrow> nav" where
  "clickTop s = s\<lparr>shiftNav := \<not> shiftNav s, shiftVersions := \<not> shiftVersions s\<rparr>"

definition clickLink :: "nav \<Rightarrow> nav" where
  "clickLink s = hashChange (s\<lparr>shiftNav := False, shiftVersions := \<not> shiftVersions s\<rparr>)"

definition clickVersion :: "nav \<Rightarrow> nav" where
  "clickVersion s = s\<lparr>shiftUp := \<not> shiftUp s\<rparr>"

definition scrolled :: "nav \<Rightarrow> nav" where
  "scrolled s =
     (if \<not> linkScroll s \<and> \<not> winScroll s then s\<lparr>winScroll := True, frames := frames s @ [ScrollFrame]\<rparr> else s)"

definition resized :: "nav \<Rightarrow> nav" where
  "resized s = (if \<not> winResize s then s\<lparr>winResize := True, frames := frames s @ [ResizeFrame]\<rparr> else s)"

text \<open>An animation frame runs the first callback that waits.\<close>

definition runFrame :: "metrics \<Rightarrow> nav \<Rightarrow> nav" where
  "runFrame e s =
     (case frames s of
        [] \<Rightarrow> s
      | ScrollFrame # fs \<Rightarrow> onScroll e (s\<lparr>frames := fs\<rparr>)
      | ResizeFrame # fs \<Rightarrow> onResize e (s\<lparr>frames := fs\<rparr>))"

text \<open>\<open>enable\<close>, when the page is ready; the argument may be missing.\<close>

definition enable :: "bool option \<Rightarrow> metrics \<Rightarrow> nav \<Rightarrow> nav" where
  "enable withStickyNav e s =
     (if isRunning s then s
      else onResize e (s\<lparr>isRunning := True,
        sticky := (case withStickyNav of None \<Rightarrow> True | Some b \<Rightarrow> b)\<rparr>))"

definition enableSticky :: "metrics \<Rightarrow> nav \<Rightarrow> nav" where
  "enableSticky = enable (Some True)"

datatype page_event = Enable "bool option" metrics | Scrolled | Resized | Frame metrics | ClickTop | ClickLink
  | ClickVersion | HashChange | MoveNav int

text \<open>The handlers are registered by \<open>enable\<close>, the one for scrolling only when it is asked for.\<close>

fun handleEvent :: "page_event \<Rightarrow> nav \<Rightarrow> nav" where
  "handleEvent (Enable w e) s = enable w e s"
| "handleEvent Scrolled s = (if isRunning s \<and> sticky s then scrolled s else s)"
| "handleEvent Resized s = (if isRunning s then resized s else s)"
| "handleEvent (Frame e) s = runFrame e s"
| "handleEvent ClickTop s = (if isRunning s then clickTop s else s)"
| "handleEvent ClickLink s = (if isRunning s then clickLink s else s)"
| "handleEvent ClickVersion s = (if isRunning s then clickVersion s else s)"
| "handleEvent HashChange s = (if isRunning s then hashChanged s else s)"
| "handleEvent (MoveNav t) s = s\<lparr>navTop := max t 0\<rparr>"

section \<open>Animation frames\<close>

text \<open>
  The first vendor whose function exists, tried only while there is none, and the
  replacement built on a timer: the delay, and the time of the next callback.
\<close>

definition vendors :: "jstring list" where
  "vendors = [js ''ms'', js ''moz'', js ''webkit'', js ''o'']"

definition windowFn :: "(jstring \<Rightarrow> bool) \<Rightarrow> jstring \<Rightarrow> jstring option" where
  "windowFn has name = (if has name then Some name else None)"

fun vendorLoop :: "(jstring \<Rightarrow> bool) \<Rightarrow> jstring list \<Rightarrow> jstring option \<times> jstring option \<Rightarrow> jstring option \<times> jstring option" where
  "vendorLoop has [] w = w"
| "vendorLoop has (v # vs) w =
     (if fst w \<noteq> None then w
      else vendorLoop has vs
        (windowFn has (v @ js ''RequestAnimationFrame''),
         case windowFn has (v @ js ''CancelAnimationFrame'') of
           Some f \<Rightarrow> Some f
         | None \<Rightarrow> windowFn has (v @ js ''CancelRequestAnimationFrame'')))"

text \<open>The functions the page ends up with; \<open>None\<close> is the replacement.\<close>

definition animationFns :: "(jstring \<Rightarrow> bool) \<Rightarrow> jstring option \<times> jstring option" where
  "animationFns has =
     vendorLoop has vendors (windowFn has (js ''requestAnimationFrame''), windowFn has (js ''cancelAnimationFrame''))"

definition requestAnimationFrame :: "int \<Rightarrow> int \<Rightarrow> int \<times> int" where
  "requestAnimationFrame currTime lastTime =
     (let timeToCall = max 0 (16 - (currTime - lastTime)) in (timeToCall, currTime + timeToCall))"

fun frameTimes :: "int list \<Rightarrow> int \<Rightarrow> int list" where
  "frameTimes [] lastTime = []"
| "frameTimes (t # ts) lastTime =
     (case requestAnimationFrame t lastTime of (delay, last') \<Rightarrow> (t + delay) # frameTimes ts last')"

section \<open>Lemmas: the menu\<close>

text \<open>Exactly the link with the target and the items around it are current.\<close>

fun marked :: "jstring \<Rightarrow> nat \<Rightarrow> li \<Rightarrow> bool" where
  "marked a d (Li m lm h kids) =
     (fst m = (d \<le> 10 \<and> hasLink a (Li m lm h kids)) \<and> fst lm = (h = a) \<and> list_all (marked a (Suc d)) kids)"

text \<open>The attribute says the same as the class.\<close>

fun synced :: "li \<Rightarrow> bool" where
  "synced (Li m lm h kids) = ((fst m = (snd m = Some True)) \<and> list_all synced kids)"

fun noneCurrent :: "li \<Rightarrow> bool" where
  "noneCurrent (Li m lm h kids) = (\<not> fst m \<and> list_all noneCurrent kids)"

fun targets :: "li \<Rightarrow> jstring list" where
  "targets (Li m lm h kids) = h # concat (map targets kids)"

lemmas mark_defs = unmark_def unmarkCurrent_def setMark_def toggleMark_def

lemma hasLink_targets: "hasLink a x \<longleftrightarrow> a \<in> set (targets x)"
  by (induction x) (auto simp: list_ex_iff)

lemma targets_kept [simp]:
  "targets (clearMarks x) = targets x" "targets (markLink a d x) = targets x" "targets (clearBelow f x) = targets x"
proof -
  show "targets (clearMarks x) = targets x" by (induction x) (simp add: comp_def cong: map_cong)
  show "targets (markLink a d x) = targets x"
    by (induction x arbitrary: d) (simp add: comp_def cong: map_cong)
  show "targets (clearBelow f x) = targets x" by (induction x) (simp add: comp_def cong: map_cong)
qed

lemma hasLink_kept [simp]: "hasLink a (markLink b d x) = hasLink a x" "hasLink a (clearMarks x) = hasLink a x"
  by (simp_all add: hasLink_targets)

lemma clearMarks_unmarked: "noneCurrent (clearMarks x)"
  by (induction x) (auto simp: mark_defs list_all_iff)

fun linksClear :: "li \<Rightarrow> bool" where
  "linksClear (Li m lm h kids) = (\<not> fst lm \<and> list_all linksClear kids)"

lemma clearMarks_links: "linksClear (clearMarks x)"
  by (induction x) (auto simp: mark_defs list_all_iff)

lemma markLink_marked: "noneCurrent x \<Longrightarrow> linksClear x \<Longrightarrow> marked a d (markLink a d x)"
proof (induction x arbitrary: d)
  case (Li m lm h kids)
  have "list_ex (hasLink a) (map (markLink a (Suc d)) kids) = list_ex (hasLink a) kids"
    by (auto simp: list_ex_iff)
  with Li show ?case by (auto simp: mark_defs list_all_iff)
qed

lemma synced_ops:
  "synced x \<Longrightarrow> synced (clearMarks x)" "synced x \<Longrightarrow> synced (markLink a d x)"
  "synced x \<Longrightarrow> synced (clearBelow unmarkCurrent x)" "synced (clearBelow unmark x)"
  "synced x \<Longrightarrow> synced (toggleItem x)"
proof -
  show b: "synced (clearBelow unmark x)" for x by (induction x) (auto simp: mark_defs list_all_iff)
  show "synced x \<Longrightarrow> synced (clearMarks x)" by (induction x) (auto simp: mark_defs list_all_iff)
  show "synced x \<Longrightarrow> synced (markLink a d x)" by (induction x arbitrary: d) (auto simp: mark_defs list_all_iff)
  show "synced x \<Longrightarrow> synced (clearBelow unmarkCurrent x)" by (induction x) (auto simp: mark_defs list_all_iff)
  show "synced x \<Longrightarrow> synced (toggleItem x)"
    using b by (cases x) (auto simp: toggleItem_def mark_defs list_all_iff)
qed

lemma synced_toggleIn: "list_all synced xs \<Longrightarrow> list_all synced (toggleIn i xs)"
  by (auto simp: toggleIn_def list_all_iff synced_ops dest!: set_zip_rightD)

lemma synced_toggleCurrent: "list_all synced xs \<Longrightarrow> list_all synced (toggleCurrent p xs)"
proof (induction p xs rule: toggleCurrent.induct)
  case (3 i j p xs)
  show ?case
  proof (cases "i < length xs")
    case True
    obtain m lm h kids where x: "xs ! i = Li m lm h kids" by (cases "xs ! i")
    have "synced (xs ! i)" using 3(2) True by (simp add: list_all_length)
    then have "list_all synced (toggleCurrent (j # p) kids)" using 3(1) [OF True x] x by simp
    then show ?thesis using 3(2) True x \<open>synced (xs ! i)\<close> by (simp add: list_all_length nth_list_update)
  qed (use 3 in simp)
qed (auto simp: synced_toggleIn)

lemma noneCurrent_clear: "noneCurrent (clearBelow unmarkCurrent x)"
  by (induction x) (auto simp: mark_defs list_all_iff)

definition itemAt :: "nat list \<Rightarrow> li list \<Rightarrow> li list" where
  "itemAt p xs = fold (\<lambda>i ys. if i < length ys then li_kids (ys ! i) else []) p xs"

lemma toggleIn_nth: "j < length xs \<Longrightarrow> toggleIn i xs ! j = (if j = i then toggleItem (xs ! j) else clearBelow unmarkCurrent (xs ! j))"
  by (simp add: toggleIn_def)

lemma toggleIn_length [simp]: "length (toggleIn i xs) = length xs"
  by (simp add: toggleIn_def)

text \<open>The list that holds the item at a position is the one the toggle changes.\<close>

lemma toggleCurrent_at: "itemAt p (toggleCurrent (p @ [i]) xs) = toggleIn i (itemAt p xs)"
proof (induction p arbitrary: xs)
  case (Cons j p)
  obtain q r where q: "p @ [i] = q # r" by (cases "p @ [i]") auto
  show ?case
  proof (cases "j < length xs")
    case True
    obtain m lm h kids where x: "xs ! j = Li m lm h kids" by (cases "xs ! j")
    have "toggleCurrent ((j # p) @ [i]) xs = xs[j := Li m lm h (toggleCurrent (p @ [i]) kids)]"
      using True x q by simp
    then show ?thesis using Cons.IH [of kids] True x by (simp add: itemAt_def)
  next
    case False
    have "itemAt p [] = []" by (induction p) (auto simp: itemAt_def)
    with False q show ?thesis by (simp add: itemAt_def toggleIn_def)
  qed
qed (simp add: itemAt_def)

section \<open>Lemmas: frames\<close>

definition nav_inv :: "nav \<Rightarrow> bool" where
  "nav_inv s \<longleftrightarrow> distinct (frames s) \<and> (winScroll s \<longleftrightarrow> ScrollFrame \<in> set (frames s)) \<and>
     (winResize s \<longleftrightarrow> ResizeFrame \<in> set (frames s)) \<and> (\<not> isRunning s \<longrightarrow> frames s = [])"

definition nav_step :: "nav \<Rightarrow> nav \<Rightarrow> bool" where
  "nav_step s t \<longleftrightarrow> (\<exists>e. t = handleEvent e s)"

lemma nav_inv_handle: "nav_inv s \<Longrightarrow> nav_inv (handleEvent e s)"
  by (cases e)
    (auto simp: nav_inv_def enable_def onResize_def scrolled_def resized_def runFrame_def onScroll_def clickTop_def
      clickLink_def hashChange_def clickVersion_def hashChanged_def Let_def split: list.splits frame.splits)

interpretation nv: invariant_machine "\<lambda>s. s = ThemeNav" nav_step nav_inv
proof unfold_locales
  show "nav_inv s" if "s = ThemeNav" for s using that by (simp add: ThemeNav_def nav_inv_def)
  show "nav_inv t" if "nav_inv s" "nav_step s t" for s t
    using that nav_inv_handle unfolding nav_step_def by blast
qed

definition runPage :: "page_event list \<Rightarrow> nav \<Rightarrow> nav" where
  "runPage es s = fold handleEvent es s"

lemma runPage_inv: "nav_inv s \<Longrightarrow> nav_inv (runPage es s)"
  unfolding runPage_def by (induction es arbitrary: s) (auto intro: nav_inv_handle)

definition noMoves :: "page_event list \<Rightarrow> bool" where
  "noMoves es \<longleftrightarrow> list_all (\<lambda>e. case e of MoveNav t \<Rightarrow> False | _ \<Rightarrow> True) es"

lemma link_blocks:
  assumes "linkScroll s" "ScrollFrame \<notin> set (frames s)" "noMoves [e]"
  shows "linkScroll (handleEvent e s) \<and> ScrollFrame \<notin> set (frames (handleEvent e s)) \<and>
    navTop (handleEvent e s) = navTop s"
  using assms
  by (cases e)
    (auto simp: noMoves_def enable_def onResize_def scrolled_def resized_def runFrame_def clickTop_def
      clickLink_def hashChange_def clickVersion_def hashChanged_def Let_def split: list.splits frame.splits)

lemma link_blocks_all:
  "linkScroll s \<Longrightarrow> ScrollFrame \<notin> set (frames s) \<Longrightarrow> noMoves es \<Longrightarrow>
    linkScroll (runPage es s) \<and> navTop (runPage es s) = navTop s"
proof (induction es arbitrary: s)
  case (Cons e es)
  then show ?case using link_blocks [of s e] by (simp add: runPage_def noMoves_def)
qed (simp add: runPage_def)

lemma frameTimes_apart: "list_all (\<lambda>t. lastTime + 16 \<le> t) (frameTimes ts lastTime) \<and>
    sorted_wrt (\<lambda>a b. a + 16 \<le> b) (frameTimes ts lastTime)"
proof (induction ts arbitrary: lastTime)
  case (Cons t ts)
  let ?n = "t + max 0 (16 - (t - lastTime))"
  have "list_all (\<lambda>u. ?n + 16 \<le> u) (frameTimes ts ?n)" "sorted_wrt (\<lambda>a b. a + 16 \<le> b) (frameTimes ts ?n)"
    using Cons.IH by auto
  then show ?case by (auto simp: requestAnimationFrame_def Let_def list_all_iff)
qed simp

section \<open>Properties\<close>

text \<open>
  The menu follows the address. When the page, or the section around the named
  element, is in the menu, then after \<open>reset\<close> exactly the link to it and the items around it, down
  to depth ten, are current, whatever was current before; the menu keeps its links. When it is
  not, the menu stays as it was.
\<close>
theorem menu_follows_address:
  "case chooseLink sectionOf anchor (items mn) of
     None \<Rightarrow> resetMenu sectionOf anchor mn = mn \<and> \<not> list_ex (hasLink anchor) (items mn)
   | Some a \<Rightarrow>
       list_all (marked a 1) (items (resetMenu sectionOf anchor mn)) \<and> fst (ul (resetMenu sectionOf anchor mn)) \<and>
       map targets (items (resetMenu sectionOf anchor mn)) = map targets (items mn) \<and>
       list_ex (hasLink a) (items mn) \<and> (list_ex (hasLink anchor) (items mn) = (a = anchor))"
proof (cases "chooseLink sectionOf anchor (items mn)")
  case (Some a)
  then have "list_ex (hasLink a) (items mn) \<and> (list_ex (hasLink anchor) (items mn) = (a = anchor))"
    by (auto simp: chooseLink_def Let_def split: if_splits)
  then show ?thesis
    using Some by (auto simp: resetMenu_def list_all_iff markLink_marked clearMarks_unmarked clearMarks_links setMark_def)
qed (auto simp: resetMenu_def chooseLink_def Let_def split: if_splits)

text \<open>
  Opening items by clicks. In a menu whose attributes say the same as its classes,
  every click and every change of the address keeps it that way; after a click no other item
  of the same list, and none below it, is current, and a click on an item without items
  below it does not change that item.
\<close>
theorem menu_accordion:
  assumes "list_all synced (items mn)" "i < length (itemAt p (items mn))"
  shows "list_all synced (toggleCurrent (p @ [i]) (items mn)) \<and>
    list_all synced (items (resetMenu sectionOf anchor mn)) \<and>
    list_all (\<lambda>j. j = i \<or> noneCurrent (itemAt p (toggleCurrent (p @ [i]) (items mn)) ! j))
      [0..<length (itemAt p (items mn))] \<and>
    itemAt p (toggleCurrent (p @ [i]) (items mn)) ! i = toggleItem (itemAt p (items mn) ! i) \<and>
    (li_kids (itemAt p (items mn) ! i) = [] \<longrightarrow> toggleItem (itemAt p (items mn) ! i) = itemAt p (items mn) ! i)"
proof -
  have "list_all synced (items (resetMenu sectionOf anchor mn))"
    using assms(1) by (auto simp: resetMenu_def list_all_iff synced_ops split: option.split)
  moreover have "list_all (\<lambda>j. j = i \<or> noneCurrent (itemAt p (toggleCurrent (p @ [i]) (items mn)) ! j))
      [0..<length (itemAt p (items mn))]"
    by (auto simp: toggleCurrent_at toggleIn_nth list_all_iff noneCurrent_clear)
  ultimately show ?thesis
    using assms synced_toggleCurrent
    by (cases "itemAt p (items mn) ! i") (auto simp: toggleCurrent_at toggleIn_nth toggleItem_def)
qed

definition sampleMenu :: menu where
  "sampleMenu = \<lparr>ul = (False, None), items =
     [Li (False, None) (False, None) (js ''a.html'') [Li (False, None) (False, None) (js ''#x'') []],
      Li (True, Some True) (True, Some True) (js ''#'') []]\<rparr>"

theorem menu_accordion_witness:
  "list_all synced (items sampleMenu) \<and> list_all synced (toggleCurrent [0] (items sampleMenu)) \<and>
   noneCurrent (itemAt [] (toggleCurrent [0] (items sampleMenu)) ! 1)"
  using menu_accordion [of sampleMenu 0 "[]" "\<lambda>_. None" "[]"]
  by (simp add: sampleMenu_def itemAt_def toggleIn_def mark_defs)

text \<open>
  At most one callback for scrolling and one for resizing waits for an animation frame.
  A click on a link of the menu ends the following of the page for good: the handler that is
  to end the pause writes to the window and not to the navigation, so once the callback
  that may already wait has run, no scrolling of the page ever moves the menu again.
\<close>
theorem link_click_stops_following:
  assumes "reach (\<lambda>s. s = ThemeNav) nav_step s" "isRunning s" "ScrollFrame \<notin> set (frames s)" "noMoves es"
  shows "length (filter (\<lambda>f. f = ScrollFrame) (frames s)) \<le> 1 \<and>
    length (filter (\<lambda>f. f = ResizeFrame) (frames s)) \<le> 1 \<and>
    linkScroll (runPage (ClickLink # es) s) \<and> navTop (runPage (ClickLink # es) s) = navTop s"
proof -
  have inv: "nav_inv s" using assms(1) by (rule nv.reach_inv)
  have one: "distinct fs \<Longrightarrow> length (filter (\<lambda>f. f = x) fs) \<le> 1" for fs and x :: frame
    by (induction fs) (auto simp: filter_empty_conv)
  have "runPage (ClickLink # es) s = runPage es (clickLink s)"
    using assms(2) by (simp add: runPage_def)
  moreover have "linkScroll (clickLink s)" "frames (clickLink s) = frames s" "navTop (clickLink s) = navTop s"
    by (simp_all add: clickLink_def hashChange_def)
  ultimately show ?thesis
    using link_blocks_all [of "clickLink s" es] inv one assms(3,4) by (auto simp: nav_inv_def)
qed

theorem link_click_stops_following_witness:
  "let m = \<lparr>scrollTop = 0, height = 600, docH = 5000\<rparr>;
       s = handleEvent (Enable None m) ThemeNav;
       es = [HashChange, Scrolled, Frame (m\<lparr>scrollTop := 100\<rparr>)]
   in navTop (runPage (ClickLink # es) s) = navTop s \<and> navTop (runPage es s) = 100"
proof -
  let ?m = "\<lparr>scrollTop = 0, height = 600, docH = 5000\<rparr>"
  let ?s = "handleEvent (Enable None ?m) ThemeNav"
  have "reach (\<lambda>s. s = ThemeNav) nav_step ?s"
    by (rule reach.intros, rule reach.intros, rule refl, unfold nav_step_def, blast)
  moreover have "isRunning ?s" "ScrollFrame \<notin> set (frames ?s)"
    by (simp_all add: enable_def onResize_def ThemeNav_def)
  moreover have "noMoves [HashChange, Scrolled, Frame (?m\<lparr>scrollTop := 100\<rparr>)]" by (simp add: noMoves_def)
  ultimately have "navTop (runPage (ClickLink # [HashChange, Scrolled, Frame (?m\<lparr>scrollTop := 100\<rparr>)]) ?s) = navTop ?s"
    using link_click_stops_following by blast
  then show ?thesis
    by (simp add: Let_def runPage_def clickLink_def hashChange_def hashChanged_def scrolled_def runFrame_def onScroll_def enable_def onResize_def ThemeNav_def)
qed

end
