(* ===== verification/JQuery_Callbacks.thy ===== *)
theory JQuery_Callbacks
  imports JS_Prelude
begin

text \<open>
  The callback lists of \<^verbatim>\<open>prebuilts/qemu/share/doc/qemu/_static/jquery.js\<close> (\<open>createOptions\<close>, \<open>jQuery.Callbacks\<close>), on
  which its deferred objects and its ready handling rest. A list is a record of the variables of
  its closure. A callback may change the list while the list is firing, so running one
  is a function of the list and of the rest of the world, and the loop that fires may run for ever:
  it is a partial function, and \<open>None\<close> is a loop that does not end. The lemmas show
  that a list with the options \<open>once memory\<close> implements a value that is announced once, for
  callbacks that leave the list alone.
\<close>

section \<open>Options\<close>

record cb_options =
  once :: bool
  memory :: bool
  unique :: bool
  stopOnFalse :: bool

definition htmlWhite :: "nat \<Rightarrow> bool" where
  "htmlWhite c \<longleftrightarrow> c \<in> {32, 9, 13, 10, 12}"

text \<open>\<open>options.match(rnothtmlwhite)\<close>: the maximal runs without white space.\<close>

fun flagWords :: "jstring \<Rightarrow> jstring \<Rightarrow> jstring list" where
  "flagWords word [] = (if word = [] then [] else [word])"
| "flagWords word (c # s) =
     (if htmlWhite c then (if word = [] then [] else [word]) @ flagWords [] s else flagWords (word @ [c]) s)"

definition createOptions :: "jstring \<Rightarrow> cb_options" where
  "createOptions s =
     (let flags = set (flagWords [] s)
      in \<lparr>once = js ''once'' \<in> flags, memory = js ''memory'' \<in> flags,
          unique = js ''unique'' \<in> flags, stopOnFalse = js ''stopOnFalse'' \<in> flags\<rparr>)"

section \<open>State\<close>

text \<open>
  \<open>cb_list\<close> is \<open>None\<close> when the list is spent (\<open>list = ""\<close>), and \<open>mem\<close> is \<open>None\<close> when there is
  nothing to remember. A value is the context and the arguments of a call.
\<close>

record ('c, 'a) callbacks =
  firing :: bool
  mem :: "'a option"
  fired :: bool
  locked :: bool
  cb_list :: "'c list option"
  queue :: "'a list"
  firingIndex :: int

definition Callbacks :: "('c, 'a) callbacks" where
  "Callbacks = \<lparr>firing = False, mem = None, fired = False, locked = False, cb_list = Some [], queue = [],
     firingIndex = -1\<rparr>"

definition theList :: "('c, 'a) callbacks \<Rightarrow> 'c list" where
  "theList s = (case cb_list s of Some l \<Rightarrow> l | None \<Rightarrow> [])"

type_synonym ('c, 'a, 'w) runner =
  "'c \<Rightarrow> 'a \<Rightarrow> ('c, 'a) callbacks \<times> 'w \<Rightarrow> bool \<times> ('c, 'a) callbacks \<times> 'w"

section \<open>Firing\<close>

text \<open>One callback of the list; the result is whether it returned \<open>false\<close>.\<close>

definition runCallback ::
  "cb_options \<Rightarrow> ('c, 'a, 'w) runner \<Rightarrow> ('c, 'a) callbacks \<times> 'w \<Rightarrow> ('c, 'a) callbacks \<times> 'w" where
  "runCallback opts run sw =
     (case run (theList (fst sw) ! nat (firingIndex (fst sw))) (the (mem (fst sw))) sw of
        (isFalse, s, w) \<Rightarrow>
          if isFalse \<and> stopOnFalse opts
          then (s\<lparr>firingIndex := int (length (theList s)), mem := None\<rparr>, w) else (s, w))"

partial_function (option) innerLoop ::
  "cb_options \<Rightarrow> ('c, 'a, 'w) runner \<Rightarrow> ('c, 'a) callbacks \<times> 'w \<Rightarrow> (('c, 'a) callbacks \<times> 'w) option" where
  "innerLoop opts run sw =
     (let s = (fst sw)\<lparr>firingIndex := firingIndex (fst sw) + 1\<rparr>
      in if firingIndex s < int (length (theList s))
         then innerLoop opts run (runCallback opts run (s, snd sw))
         else Some (s, snd sw))"

partial_function (option) outerLoop ::
  "cb_options \<Rightarrow> ('c, 'a, 'w) runner \<Rightarrow> ('c, 'a) callbacks \<times> 'w \<Rightarrow> (('c, 'a) callbacks \<times> 'w) option" where
  "outerLoop opts run sw =
     (case queue (fst sw) of
        [] \<Rightarrow> Some sw
      | q # qs \<Rightarrow>
          Option.bind (innerLoop opts run ((fst sw)\<lparr>mem := Some q, queue := qs\<rparr>, snd sw))
            (\<lambda>sw'. outerLoop opts run ((fst sw')\<lparr>firingIndex := -1\<rparr>, snd sw')))"

text \<open>The end of \<open>fire\<close>: what is forgotten, and what becomes of the list.\<close>

definition endFire :: "cb_options \<Rightarrow> ('c, 'a) callbacks \<Rightarrow> ('c, 'a) callbacks" where
  "endFire opts s =
     (let s1 = (if \<not> memory opts then s\<lparr>mem := None\<rparr> else s);
          s2 = s1\<lparr>firing := False\<rparr>
      in if locked s2 then s2\<lparr>cb_list := (if mem s2 \<noteq> None then Some [] else None)\<rparr> else s2)"

definition fire ::
  "cb_options \<Rightarrow> ('c, 'a, 'w) runner \<Rightarrow> ('c, 'a) callbacks \<times> 'w \<Rightarrow> (('c, 'a) callbacks \<times> 'w) option" where
  "fire opts run sw =
     map_option (\<lambda>(s, w). (endFire opts s, w))
       (outerLoop opts run ((fst sw)\<lparr>locked := locked (fst sw) \<or> once opts, fired := True, firing := True\<rparr>, snd sw))"

section \<open>Operations\<close>

text \<open>The arguments of \<open>add\<close>: functions, collections of arguments, and anything else.\<close>

datatype 'c cb_arg = Fn 'c | Args "'c cb_arg list" | NoFn

definition pushCallback :: "cb_options \<Rightarrow> 'c \<Rightarrow> 'c list \<Rightarrow> 'c list" where
  "pushCallback opts f l = (if \<not> unique opts \<or> f \<notin> set l then l @ [f] else l)"

fun addArg :: "cb_options \<Rightarrow> 'c cb_arg \<Rightarrow> 'c list \<Rightarrow> 'c list" where
  "addArg opts (Fn f) l = pushCallback opts f l"
| "addArg opts (Args xs) l = fold (addArg opts) xs l"
| "addArg opts NoFn l = l"

definition add ::
  "cb_options \<Rightarrow> ('c, 'a, 'w) runner \<Rightarrow> 'c cb_arg list \<Rightarrow> ('c, 'a) callbacks \<times> 'w \<Rightarrow> (('c, 'a) callbacks \<times> 'w) option" where
  "add opts run xs sw =
     (let s = fst sw in
      case cb_list s of
        None \<Rightarrow> Some sw
      | Some l \<Rightarrow>
          (let s1 = (if mem s \<noteq> None \<and> \<not> firing s
                     then s\<lparr>firingIndex := int (length l) - 1, queue := queue s @ [the (mem s)]\<rparr> else s);
               s2 = s1\<lparr>cb_list := Some (fold (addArg opts) xs l)\<rparr>
           in if mem s2 \<noteq> None \<and> \<not> firing s2 then fire opts run (s2, snd sw) else Some (s2, snd sw)))"

text \<open>
  \<open>remove\<close>: every occurrence goes, the search goes on where it was found, and the index of
  the callback that is running follows.
\<close>

fun removeFrom :: "'c \<Rightarrow> nat \<Rightarrow> 'c list \<Rightarrow> int \<Rightarrow> 'c list \<times> int" where
  "removeFrom f index [] fi = ([], fi)"
| "removeFrom f index (x # xs) fi =
     (if x = f then removeFrom f index xs (if int index \<le> fi then fi - 1 else fi)
      else case removeFrom f (Suc index) xs fi of (l, fi') \<Rightarrow> (x # l, fi'))"

definition removeOne :: "'c \<Rightarrow> ('c, 'a) callbacks \<Rightarrow> ('c, 'a) callbacks" where
  "removeOne f s =
     (case cb_list s of
        None \<Rightarrow> s
      | Some l \<Rightarrow> (case removeFrom f 0 l (firingIndex s) of (l', fi) \<Rightarrow> s\<lparr>cb_list := Some l', firingIndex := fi\<rparr>))"

definition remove :: "'c list \<Rightarrow> ('c, 'a) callbacks \<Rightarrow> ('c, 'a) callbacks" where
  "remove fs s = fold removeOne fs s"

definition has :: "'c option \<Rightarrow> ('c, 'a) callbacks \<Rightarrow> bool" where
  "has f s = (case f of Some g \<Rightarrow> g \<in> set (theList s) | None \<Rightarrow> length (theList s) > 0)"

definition empty :: "('c, 'a) callbacks \<Rightarrow> ('c, 'a) callbacks" where
  "empty s = (if cb_list s \<noteq> None then s\<lparr>cb_list := Some []\<rparr> else s)"

definition disable :: "('c, 'a) callbacks \<Rightarrow> ('c, 'a) callbacks" where
  "disable s = s\<lparr>locked := True, queue := [], cb_list := None, mem := None\<rparr>"

definition disabled :: "('c, 'a) callbacks \<Rightarrow> bool" where
  "disabled s \<longleftrightarrow> cb_list s = None"

definition lock :: "('c, 'a) callbacks \<Rightarrow> ('c, 'a) callbacks" where
  "lock s =
     (let s1 = s\<lparr>locked := True, queue := []\<rparr>
      in if mem s1 = None \<and> \<not> firing s1 then s1\<lparr>cb_list := None, mem := None\<rparr> else s1)"

definition fireWith ::
  "cb_options \<Rightarrow> ('c, 'a, 'w) runner \<Rightarrow> 'a \<Rightarrow> ('c, 'a) callbacks \<times> 'w \<Rightarrow> (('c, 'a) callbacks \<times> 'w) option" where
  "fireWith opts run v sw =
     (let s = fst sw in
      if \<not> locked s then
        let s1 = s\<lparr>queue := queue s @ [v]\<rparr>
        in if \<not> firing s1 then fire opts run (s1, snd sw) else Some (s1, snd sw)
      else Some sw)"

section \<open>Lemmas: firing a list that is left alone\<close>

text \<open>Callbacks that work on the world only, through \<open>act\<close>, and do not return \<open>false\<close>.\<close>

definition plainRun :: "('c \<Rightarrow> 'a \<Rightarrow> 'w \<Rightarrow> 'w) \<Rightarrow> ('c, 'a, 'w) runner" where
  "plainRun act f v sw = (False, fst sw, act f v (snd sw))"

lemma innerLoop_plain:
  assumes "firingIndex s = int i - 1" "i \<le> length (theList s)" "mem s = Some v"
  shows "innerLoop opts (plainRun act) (s, w) =
    Some (s\<lparr>firingIndex := int (length (theList s))\<rparr>, fold (\<lambda>f. act f v) (drop i (theList s)) w)"
  using assms
proof (induction "length (theList s) - i" arbitrary: s i w)
  case 0
  then show ?case by (simp add: innerLoop.simps theList_def)
next
  case (Suc n)
  let ?s = "s\<lparr>firingIndex := int i\<rparr>"
  have i: "i < length (theList s)" using Suc.hyps(2) by simp
  have l [simp]: "theList (s\<lparr>firingIndex := x\<rparr>) = theList s" for x by (simp add: theList_def)
  have step: "innerLoop opts (plainRun act) (s, w) =
      innerLoop opts (plainRun act) (?s, act (theList s ! i) v w)"
    using i Suc.prems by (subst innerLoop.simps) (simp add: Let_def runCallback_def plainRun_def)
  have "innerLoop opts (plainRun act) (?s, act (theList s ! i) v w) =
      Some (?s\<lparr>firingIndex := int (length (theList s))\<rparr>, fold (\<lambda>f. act f v) (drop (Suc i) (theList s)) (act (theList s ! i) v w))"
    using Suc.hyps(1) [of ?s "Suc i" "act (theList s ! i) v w"] Suc.hyps(2) Suc.prems i by simp
  then show ?case using step i by (simp flip: Cons_nth_drop_Suc)
qed

lemma fire_plain:
  assumes "queue s = [v]" "firingIndex s = int i - 1" "i \<le> length (theList s)"
  shows "fire opts (plainRun act) (s, w) =
    Some (endFire opts (s\<lparr>locked := locked s \<or> once opts, fired := True, firing := True, mem := Some v,
      queue := [], firingIndex := -1\<rparr>), fold (\<lambda>f. act f v) (drop i (theList s)) w)"
proof -
  let ?s = "s\<lparr>locked := locked s \<or> once opts, fired := True, firing := True, mem := Some v, queue := []\<rparr>"
  have l: "theList ?s = theList s" by (simp add: theList_def)
  have i: "innerLoop opts (plainRun act) (?s, w) =
      Some (?s\<lparr>firingIndex := int (length (theList s))\<rparr>, fold (\<lambda>f. act f v) (drop i (theList s)) w)"
    using innerLoop_plain [of ?s i v opts act w] assms l by simp
  have e: "outerLoop opts (plainRun act) (t, w') = Some (t, w')" if "queue t = []" for t w'
    using that by (simp add: outerLoop.simps)
  show ?thesis
    using assms(1) i by (simp add: fire_def outerLoop.simps [of _ _ "(s\<lparr>locked := x, fired := y, firing := z\<rparr>, w)" for x y z] e)
qed

text \<open>What adding and firing do to a list that remembers and is not firing.\<close>

lemma fold_Fn: "\<not> unique opts \<Longrightarrow> fold (addArg opts) (map Fn fs) l = l @ fs"
  by (induction fs arbitrary: l) (simp_all add: pushCallback_def)

lemma add_quiet:
  assumes "mem s = None" "cb_list s = Some l" "\<not> unique opts"
  shows "add opts run (map Fn fs) (s, w) = Some (s\<lparr>cb_list := Some (l @ fs)\<rparr>, w)"
  using assms by (simp add: add_def Let_def fold_Fn)

lemma add_remembered:
  assumes "\<not> firing s" "queue s = []" "cb_list s = Some l" "mem s = Some v" "memory opts" "\<not> unique opts"
  shows "add opts (plainRun act) (map Fn fs) (s, w) =
    Some (s\<lparr>locked := locked s \<or> once opts, fired := True, firingIndex := -1,
      cb_list := Some (if locked s \<or> once opts then [] else l @ fs)\<rparr>, fold (\<lambda>f. act f v) fs w)"
proof -
  let ?s = "s\<lparr>firingIndex := int (length l) - 1, queue := [v], cb_list := Some (l @ fs)\<rparr>"
  have "fire opts (plainRun act) (?s, w) =
    Some (s\<lparr>locked := locked s \<or> once opts, fired := True, firingIndex := -1,
      cb_list := Some (if locked s \<or> once opts then [] else l @ fs)\<rparr>, fold (\<lambda>f. act f v) fs w)"
    using fire_plain [of ?s v "length l" opts act w] assms
    by (cases "locked s \<or> once opts") (simp_all add: theList_def endFire_def Let_def)
  then show ?thesis using assms by (simp add: add_def Let_def fold_Fn)
qed

lemma fire_quiet:
  assumes "\<not> firing s" "queue s = []" "cb_list s = Some l" "\<not> locked s" "firingIndex s = -1" "memory opts"
  shows "fireWith opts (plainRun act) v (s, w) =
    Some (s\<lparr>locked := once opts, fired := True, mem := Some v, cb_list := Some (if once opts then [] else l)\<rparr>,
      fold (\<lambda>f. act f v) l w)"
proof -
  let ?s = "s\<lparr>queue := [v]\<rparr>"
  have "fire opts (plainRun act) (?s, w) =
    Some (s\<lparr>locked := once opts, fired := True, mem := Some v, cb_list := Some (if once opts then [] else l)\<rparr>,
      fold (\<lambda>f. act f v) l w)"
    using fire_plain [of ?s v 0 opts act w] assms
    by (cases "once opts") (simp_all add: theList_def endFire_def Let_def)
  then show ?thesis using assms by (simp add: fireWith_def Let_def)
qed

section \<open>Lemmas: removing callbacks\<close>

lemma removeFrom_filter:
  "removeFrom f i xs fi =
     (filter (\<lambda>x. x \<noteq> f) xs, fi - int (count_list (take (nat (fi - int i + 1)) xs) f))"
proof (induction xs arbitrary: i fi)
  case (Cons x xs)
  show ?case
  proof (cases "int i \<le> fi")
    case True
    then have "nat (fi - int i + 1) = Suc (nat (fi - int i))" "nat (fi - int (Suc i) + 1) = nat (fi - int i)"
      "nat (fi - 1 - int i + 1) = nat (fi - int i)" by auto
    with True Cons.IH show ?thesis by simp
  next
    case False
    then have "nat (fi - int i + 1) = 0" "nat (fi - int (Suc i) + 1) = 0" by auto
    with False Cons.IH show ?thesis by simp
  qed
qed simp

section \<open>A value that is announced once\<close>

text \<open>
  The specification: callbacks wait for a value, which is announced at most once; those that
  come later get it at once. A closed list calls nobody.
\<close>

datatype ('c, 'a) announcement = Waiting "'c list" | Announced 'a | Closed

datatype ('c, 'a) list_op = AddOp "'c list" | FireOp 'a | DisableOp | LockOp

text \<open>The new state, and the calls that are made.\<close>

fun announce :: "('c, 'a) list_op \<Rightarrow> ('c, 'a) announcement \<Rightarrow> ('c, 'a) announcement \<times> ('c \<times> 'a) list" where
  "announce (AddOp fs) (Waiting l) = (Waiting (l @ fs), [])"
| "announce (AddOp fs) (Announced v) = (Announced v, map (\<lambda>f. (f, v)) fs)"
| "announce (FireOp v) (Waiting l) = (Announced v, map (\<lambda>f. (f, v)) l)"
| "announce DisableOp A = (Closed, [])"
| "announce LockOp (Waiting l) = (Closed, [])"
| "announce opn A = (A, [])"

fun announceAll :: "('c, 'a) list_op list \<Rightarrow> ('c, 'a) announcement \<Rightarrow> ('c, 'a) announcement \<times> ('c \<times> 'a) list" where
  "announceAll [] A = (A, [])"
| "announceAll (opn # ops) A =
     (case announce opn A of (A', cs) \<Rightarrow> case announceAll ops A' of (A'', ds) \<Rightarrow> (A'', cs @ ds))"

definition perform :: "('c \<Rightarrow> 'a \<Rightarrow> 'w \<Rightarrow> 'w) \<Rightarrow> ('c \<times> 'a) list \<Rightarrow> 'w \<Rightarrow> 'w" where
  "perform act cs w = fold (\<lambda>(f, v). act f v) cs w"

lemma perform_simps [simp]:
  "perform act [] w = w" "perform act (cs @ ds) w = perform act ds (perform act cs w)"
  "perform act (map (\<lambda>f. (f, v)) fs) w = fold (\<lambda>f. act f v) fs w"
  by (simp_all add: perform_def fold_map comp_def)

text \<open>The operations of a list, one after the other.\<close>

fun runOps :: "('o \<Rightarrow> 's \<Rightarrow> 's option) \<Rightarrow> 'o list \<Rightarrow> 's \<Rightarrow> 's option" where
  "runOps step [] s = Some s"
| "runOps step (opn # ops) s = Option.bind (step opn s) (runOps step ops)"

locale announcement_list =
  fixes step :: "('c, 'a) list_op \<Rightarrow> 's \<times> 'w \<Rightarrow> ('s \<times> 'w) option"
    and act :: "'c \<Rightarrow> 'a \<Rightarrow> 'w \<Rightarrow> 'w"
    and wf :: "'s \<Rightarrow> bool"
    and abs :: "'s \<Rightarrow> ('c, 'a) announcement"
  assumes step_refines: "wf s \<Longrightarrow>
    \<exists>s'. step opn (s, w) = Some (s', perform act (snd (announce opn (abs s))) w) \<and>
      wf s' \<and> abs s' = fst (announce opn (abs s))"
begin

lemma run_refines:
  "wf s \<Longrightarrow> \<exists>s'. runOps step ops (s, w) = Some (s', perform act (snd (announceAll ops (abs s))) w) \<and>
      wf s' \<and> abs s' = fst (announceAll ops (abs s))"
proof (induction ops arbitrary: s w)
  case (Cons opn ops)
  obtain s1 where s1: "step opn (s, w) = Some (s1, perform act (snd (announce opn (abs s))) w)"
    "wf s1" "abs s1 = fst (announce opn (abs s))" using step_refines [OF Cons.prems] by blast
  from Cons.IH [OF s1(2), of "perform act (snd (announce opn (abs s))) w"] s1 show ?case
    by (auto simp: split_beta)
qed auto

end

definition onceMemory :: cb_options where
  "onceMemory = createOptions (js ''once memory'')"

lemma onceMemory_simps [simp]:
  "once onceMemory" "memory onceMemory" "\<not> unique onceMemory" "\<not> stopOnFalse onceMemory"
  by (simp_all add: onceMemory_def createOptions_def htmlWhite_def Let_def)

text \<open>One operation on a list with these options and callbacks that leave it alone.\<close>

fun listStep ::
  "('c \<Rightarrow> 'a \<Rightarrow> 'w \<Rightarrow> 'w) \<Rightarrow> ('c, 'a) list_op \<Rightarrow> ('c, 'a) callbacks \<times> 'w \<Rightarrow> (('c, 'a) callbacks \<times> 'w) option" where
  "listStep act (AddOp fs) sw = add onceMemory (plainRun act) (map Fn fs) sw"
| "listStep act (FireOp v) sw = fireWith onceMemory (plainRun act) v sw"
| "listStep act DisableOp sw = Some (disable (fst sw), snd sw)"
| "listStep act LockOp sw = Some (lock (fst sw), snd sw)"

definition absList :: "('c, 'a) callbacks \<Rightarrow> ('c, 'a) announcement" where
  "absList s =
     (case cb_list s of
        None \<Rightarrow> Closed
      | Some l \<Rightarrow> (case mem s of None \<Rightarrow> Waiting l | Some v \<Rightarrow> Announced v))"

definition wfList :: "('c, 'a) callbacks \<Rightarrow> bool" where
  "wfList s \<longleftrightarrow> \<not> firing s \<and> queue s = [] \<and> (cb_list s = None \<longrightarrow> mem s = None \<and> locked s) \<and>
     (mem s \<noteq> None \<longrightarrow> locked s \<and> cb_list s = Some []) \<and> (mem s = None \<and> cb_list s \<noteq> None \<longrightarrow> \<not> locked s \<and> firingIndex s = -1)"

lemma add_announced:
  assumes "wfList s" "mem s = Some v"
  shows "add onceMemory (plainRun act) (map Fn fs) (s, w) =
    Some (s\<lparr>fired := True, firingIndex := -1\<rparr>, fold (\<lambda>f. act f v) fs w)"
  using assms add_remembered [of s "[]" v onceMemory act fs w] by (simp add: wfList_def)

lemma fire_waiting:
  assumes "wfList s" "mem s = None" "cb_list s = Some l"
  shows "fireWith onceMemory (plainRun act) v (s, w) =
    Some (s\<lparr>locked := True, fired := True, mem := Some v, cb_list := Some []\<rparr>, fold (\<lambda>f. act f v) l w)"
  using assms fire_quiet [of s l onceMemory act v w] by (simp add: wfList_def)

lemma listStep_refines:
  assumes "wfList s"
  shows "\<exists>s'. listStep act opn (s, w) = Some (s', perform act (snd (announce opn (absList s))) w) \<and>
    wfList s' \<and> absList s' = fst (announce opn (absList s))"
proof (cases "cb_list s")
  case None
  then show ?thesis using assms
    by (cases opn) (auto simp: absList_def add_def fireWith_def disable_def lock_def wfList_def Let_def)
next
  case (Some l)
  show ?thesis
  proof (cases "mem s")
    case None
    then show ?thesis using assms Some
      by (cases opn) (auto simp: absList_def add_quiet fire_waiting disable_def lock_def wfList_def Let_def)
  next
    case (Some v)
    then show ?thesis using assms
      by (cases opn) (auto simp: absList_def add_announced fireWith_def disable_def lock_def wfList_def Let_def)
  qed
qed

interpretation al: announcement_list "listStep act" act wfList absList
  for act
  by unfold_locales (rule listStep_refines)

section \<open>Properties\<close>

text \<open>
  C25. A callback list with the options \<open>once memory\<close> implements a value that is announced
  once. Whatever sequence of additions, announcements, \<open>disable\<close> and \<open>lock\<close> is applied to a new
  list, with callbacks that leave the list alone, every operation returns, the list
  stands for the state of the specification, and the callbacks are called as the
  specification says: each one once, with the first value announced, in the order in
  which they were added.
\<close>
theorem callbacks_refine:
  fixes act :: "'c \<Rightarrow> 'a \<Rightarrow> 'w \<Rightarrow> 'w"
  shows "\<exists>s. runOps (listStep act) ops (Callbacks, w) =
      Some (s, perform act (snd (announceAll ops (Waiting []))) w) \<and>
    absList s = fst (announceAll ops (Waiting []))"
proof -
  have i: "wfList (Callbacks :: ('c, 'a) callbacks)" "absList (Callbacks :: ('c, 'a) callbacks) = Waiting []"
    by (simp_all add: Callbacks_def wfList_def absList_def)
  from al.run_refines [OF i(1), of act ops w] i(2) show ?thesis by auto
qed

end
