(* ===== verification/JQuery_Deferred.thy ===== *)
theory JQuery_Deferred
  imports JQuery_Callbacks
begin

text \<open>
  The deferred objects of \<^verbatim>\<open>jquery.js\<close> (\<open>jQuery.Deferred\<close>, \<open>jQuery.when\<close>). A deferred object has six callback lists:
  for progress, success and failure the one that users add to, and the one of the
  handlers that \<open>then\<close> adds, which only start timers. The callbacks that the object itself puts into its lists
  set its state, disable the lists of the opposite outcome, lock those for progress
  and fire the handlers. The callbacks of users are recorded with their values and
  do not touch the object. The lemmas show that the object implements a promise.
\<close>

section \<open>The object\<close>

datatype dstate = Pending | Resolved | Rejected

datatype chan = Prog | Done | Fail

datatype dcb = SetState dstate | DisableList chan | DisableHandlers chan | LockList | LockHandlers
  | FireHandlers chan | User nat | Handler nat

record 'a deferred =
  d_state :: dstate
  d_lists :: "chan \<Rightarrow> (dcb, 'a) callbacks"
  d_handlers :: "chan \<Rightarrow> (dcb, 'a) callbacks"
  d_log :: "(nat \<times> 'a) list"
  d_jobs :: "(nat \<times> chan \<times> 'a) list"

text \<open>The options of the lists in \<open>tuples\<close>.\<close>

definition chanOptions :: "chan \<Rightarrow> cb_options" where
  "chanOptions c = (if c = Prog then createOptions (js ''memory'') else createOptions (js ''once memory''))"

definition opposite :: "chan \<Rightarrow> chan" where
  "opposite c = (case c of Prog \<Rightarrow> Prog | Done \<Rightarrow> Fail | Fail \<Rightarrow> Done)"

definition stateString :: "chan \<Rightarrow> dstate option" where
  "stateString c = (case c of Prog \<Rightarrow> None | Done \<Rightarrow> Some Resolved | Fail \<Rightarrow> Some Rejected)"

text \<open>What the object puts into its lists.\<close>

definition builtins :: "chan \<Rightarrow> dcb list" where
  "builtins c =
     (case stateString c of
        None \<Rightarrow> []
      | Some st \<Rightarrow> [SetState st, DisableList (opposite c), DisableHandlers (opposite c), LockList, LockHandlers])
     @ [FireHandlers c]"

definition Deferred :: "'a deferred" where
  "Deferred = \<lparr>d_state = Pending, d_lists = (\<lambda>c. Callbacks\<lparr>cb_list := Some (builtins c)\<rparr>),
     d_handlers = (\<lambda>c. Callbacks), d_log = [], d_jobs = []\<rparr>"

section \<open>Operations\<close>

text \<open>A handler that is fired starts a timer for its work.\<close>

fun hact :: "chan \<Rightarrow> dcb \<Rightarrow> 'a \<Rightarrow> 'a deferred \<Rightarrow> 'a deferred" where
  "hact c (Handler n) v d = d\<lparr>d_jobs := d_jobs d @ [(n, c, v)]\<rparr>"
| "hact c cb v d = d"

definition fireHandlers :: "chan \<Rightarrow> 'a \<Rightarrow> 'a deferred \<Rightarrow> 'a deferred option" where
  "fireHandlers c v d =
     map_option (\<lambda>(l, d'). d'\<lparr>d_handlers := (d_handlers d')(c := l)\<rparr>)
       (fireWith (chanOptions c) (plainRun (hact c)) v (d_handlers d c, d))"

fun dact :: "dcb \<Rightarrow> 'a \<Rightarrow> 'a deferred \<Rightarrow> 'a deferred" where
  "dact (SetState st) v d = d\<lparr>d_state := st\<rparr>"
| "dact (DisableList c) v d = d\<lparr>d_lists := (d_lists d)(c := disable (d_lists d c))\<rparr>"
| "dact (DisableHandlers c) v d = d\<lparr>d_handlers := (d_handlers d)(c := disable (d_handlers d c))\<rparr>"
| "dact LockList v d = d\<lparr>d_lists := (d_lists d)(Prog := lock (d_lists d Prog))\<rparr>"
| "dact LockHandlers v d = d\<lparr>d_handlers := (d_handlers d)(Prog := lock (d_handlers d Prog))\<rparr>"
| "dact (FireHandlers c) v d = (case fireHandlers c v d of Some d' \<Rightarrow> d' | None \<Rightarrow> d)"
| "dact (User n) v d = d\<lparr>d_log := d_log d @ [(n, v)]\<rparr>"
| "dact (Handler n) v d = d"

text \<open>\<open>notifyWith\<close>, \<open>resolveWith\<close> and \<open>rejectWith\<close>.\<close>

definition settleWith :: "chan \<Rightarrow> 'a \<Rightarrow> 'a deferred \<Rightarrow> 'a deferred option" where
  "settleWith c v d =
     map_option (\<lambda>(l, d'). d'\<lparr>d_lists := (d_lists d')(c := l)\<rparr>)
       (fireWith (chanOptions c) (plainRun dact) v (d_lists d c, d))"

text \<open>\<open>progress\<close>, \<open>done\<close> and \<open>fail\<close>, and \<open>always\<close>.\<close>

definition addUsers :: "chan \<Rightarrow> nat list \<Rightarrow> 'a deferred \<Rightarrow> 'a deferred option" where
  "addUsers c ns d =
     map_option (\<lambda>(l, d'). d'\<lparr>d_lists := (d_lists d')(c := l)\<rparr>)
       (add (chanOptions c) (plainRun dact) (map Fn (map User ns)) (d_lists d c, d))"

definition always :: "nat list \<Rightarrow> 'a deferred \<Rightarrow> 'a deferred option" where
  "always ns d = Option.bind (addUsers Done ns d) (addUsers Fail ns)"

text \<open>\<open>then\<close> adds to the three lists of handlers.\<close>

definition addHandler :: "nat \<Rightarrow> chan \<Rightarrow> 'a deferred \<Rightarrow> 'a deferred option" where
  "addHandler n c d =
     map_option (\<lambda>(l, d'). d'\<lparr>d_handlers := (d_handlers d')(c := l)\<rparr>)
       (add (chanOptions c) (plainRun (hact c)) (map Fn [Handler n]) (d_handlers d c, d))"

definition thenD :: "nat \<Rightarrow> 'a deferred \<Rightarrow> 'a deferred option" where
  "thenD n d = Option.bind (addHandler n Prog d) (\<lambda>d1. Option.bind (addHandler n Done d1) (addHandler n Fail))"

datatype 'a d_op = Settle chan 'a | Add chan "nat list" | Then nat

fun d_step :: "'a d_op \<Rightarrow> 'a deferred \<Rightarrow> 'a deferred option" where
  "d_step (Settle c v) d = settleWith c v d"
| "d_step (Add c ns) d = addUsers c ns d"
| "d_step (Then n) d = thenD n d"

section \<open>Waiting for several\<close>

text \<open>
  \<open>jQuery.when\<close>. An argument is a plain value or a subordinate promise, with the outcome it has at the time of the
  call (one whose \<open>promise\<close> or \<open>then\<close> method raises counts as failed). A value stands for what the callbacks are
  given, several arguments being one value as in the code; \<open>None\<close> in \<open>resolveValues\<close> is a place that no
  settlement has filled. The primary object settles once.
\<close>

datatype 'a outcome = NoOutcome | Success 'a | Failure 'a

record 'a when_state =
  remaining :: int
  resolveValues :: "'a option list"
  primary :: "'a option list outcome"
  viaThen :: bool

datatype 'a when_arg = PlainValue 'a | Subordinate "'a outcome"

fun outcomeNow :: "'a when_arg \<Rightarrow> 'a outcome" where
  "outcomeNow (PlainValue v) = Success v"
| "outcomeNow (Subordinate r) = r"

definition settlePrimary :: "'a option list outcome \<Rightarrow> 'a when_state \<Rightarrow> 'a when_state" where
  "settlePrimary r w = (if primary w = NoOutcome then w\<lparr>primary := r\<rparr> else w)"

text \<open>An assignment beyond the end of a JavaScript array extends it.\<close>

definition assignAt :: "nat \<Rightarrow> 'a option \<Rightarrow> 'a option list \<Rightarrow> 'a option list" where
  "assignAt i v xs = (if i < length xs then xs[i := v] else xs @ replicate (i - length xs) None @ [v])"

definition updateFunc :: "nat \<Rightarrow> 'a option \<Rightarrow> 'a when_state \<Rightarrow> 'a when_state" where
  "updateFunc i v w =
     (let w1 = w\<lparr>resolveValues := assignAt i v (resolveValues w), remaining := remaining w - 1\<rparr>
      in if remaining w1 = 0 then settlePrimary (Success (resolveValues w1)) w1 else w1)"

fun subSettled :: "nat \<times> 'a outcome \<Rightarrow> 'a when_state \<Rightarrow> 'a when_state" where
  "subSettled (i, Success v) w = updateFunc i (Some v) w"
| "subSettled (i, Failure v) w = settlePrimary (Failure [Some v]) w"
| "subSettled (i, NoOutcome) w = w"

text \<open>
  The single argument settles the primary object itself: \<open>primary.done(updateFunc(i)).resolve\<close> and
  \<open>primary.reject\<close>. The callback \<open>updateFunc(i)\<close> runs when the primary object succeeds; \<open>i\<close> is the number of arguments, the place after the last.
\<close>

definition resolvePrimary :: "nat \<Rightarrow> 'a option list \<Rightarrow> 'a when_state \<Rightarrow> 'a when_state" where
  "resolvePrimary i args w =
     (if primary w = NoOutcome
      then updateFunc i (case args of [] \<Rightarrow> None | v # _ \<Rightarrow> v) (w\<lparr>primary := Success args\<rparr>) else w)"

fun singleSettled :: "'a outcome \<Rightarrow> 'a when_state \<Rightarrow> 'a when_state" where
  "singleSettled (Success v) w = resolvePrimary 1 [Some v] w"
| "singleSettled (Failure v) w = settlePrimary (Failure [Some v]) w"
| "singleSettled NoOutcome w = w"

definition adoptSingle :: "'a when_arg list \<Rightarrow> 'a when_state \<Rightarrow> 'a when_state" where
  "adoptSingle xs w = (case xs of [] \<Rightarrow> resolvePrimary 0 [] w | x # _ \<Rightarrow> singleSettled (outcomeNow x) w)"

text \<open>\<open>while (i--) adoptValue(...)\<close>: the arguments that are settled already, from the last to the first.\<close>

definition startEvents :: "'a when_arg list \<Rightarrow> (nat \<times> 'a outcome) list" where
  "startEvents xs = filter (\<lambda>(i, r). r \<noteq> NoOutcome) (map (\<lambda>i. (i, outcomeNow (xs ! i))) (rev [0..<length xs]))"

definition initWhen :: "nat \<Rightarrow> 'a when_state" where
  "initWhen n = \<lparr>remaining = int n, resolveValues = replicate n None, primary = NoOutcome, viaThen = False\<rparr>"

text \<open>
  The body of \<open>when\<close>. \<open>viaThen\<close> says that the call returns \<open>primary.then()\<close>, which unwraps a value that is
  itself a promise; otherwise it returns \<open>primary.promise()\<close>. \<open>thenable\<close> tells the values with a \<open>then\<close> method
  (a plain value has none).
\<close>

definition whenStart :: "('a \<Rightarrow> bool) \<Rightarrow> 'a when_arg list \<Rightarrow> 'a when_state" where
  "whenStart thenable xs =
     (let n = length xs; w0 = initWhen n; w1 = (if n \<le> 1 then adoptSingle xs w0 else w0) in
      if n \<le> 1 \<and>
         (primary w1 = NoOutcome \<or>
          (n < length (resolveValues w1) \<and> (case resolveValues w1 ! n of None \<Rightarrow> False | Some v \<Rightarrow> thenable v)))
      then w1\<lparr>viaThen := True\<rparr>
      else fold subSettled (startEvents xs) w1)"

section \<open>Promises\<close>

text \<open>
  The specification: a promise is pending or has an outcome; callbacks wait for their
  outcome or get it at once, and notifications reach whoever listens, late ones with the
  latest value.
\<close>

record 'a promise =
  p_outcome :: "'a outcome"
  p_waiting :: "chan \<Rightarrow> nat list"
  p_last :: "'a option"
  p_handlers :: "nat list"
  p_log :: "(nat \<times> 'a) list"
  p_jobs :: "(nat \<times> chan \<times> 'a) list"

definition newPromise :: "'a promise" where
  "newPromise = \<lparr>p_outcome = NoOutcome, p_waiting = (\<lambda>c. []), p_last = None, p_handlers = [], p_log = [], p_jobs = []\<rparr>"

text \<open>The value a channel has to offer, and whether the channel will offer one later.\<close>

definition offered :: "chan \<Rightarrow> 'a promise \<Rightarrow> 'a option" where
  "offered c p =
     (case c of
        Prog \<Rightarrow> p_last p
      | Done \<Rightarrow> (case p_outcome p of Success v \<Rightarrow> Some v | _ \<Rightarrow> None)
      | Fail \<Rightarrow> (case p_outcome p of Failure v \<Rightarrow> Some v | _ \<Rightarrow> None))"

definition p_settle :: "chan \<Rightarrow> 'a \<Rightarrow> 'a promise \<Rightarrow> 'a promise" where
  "p_settle c v p =
     (if p_outcome p \<noteq> NoOutcome then p
      else p\<lparr>p_outcome := (case c of Prog \<Rightarrow> NoOutcome | Done \<Rightarrow> Success v | Fail \<Rightarrow> Failure v),
             p_last := (if c = Prog then Some v else p_last p),
             p_log := p_log p @ map (\<lambda>n. (n, v)) (p_waiting p c),
             p_jobs := p_jobs p @ map (\<lambda>n. (n, c, v)) (p_handlers p)\<rparr>)"

definition p_add :: "chan \<Rightarrow> nat list \<Rightarrow> 'a promise \<Rightarrow> 'a promise" where
  "p_add c ns p =
     p\<lparr>p_waiting := (if p_outcome p = NoOutcome then (p_waiting p)(c := p_waiting p c @ ns) else p_waiting p),
       p_log := p_log p @ (case offered c p of None \<Rightarrow> [] | Some v \<Rightarrow> map (\<lambda>n. (n, v)) ns)\<rparr>"

definition p_then :: "nat \<Rightarrow> 'a promise \<Rightarrow> 'a promise" where
  "p_then n p =
     p\<lparr>p_handlers := (if p_outcome p = NoOutcome then p_handlers p @ [n] else p_handlers p),
       p_jobs := p_jobs p @ concat (map (\<lambda>c. case offered c p of None \<Rightarrow> [] | Some v \<Rightarrow> [(n, c, v)]) [Prog, Done, Fail])\<rparr>"

fun p_step :: "'a d_op \<Rightarrow> 'a promise \<Rightarrow> 'a promise" where
  "p_step (Settle c v) p = p_settle c v p"
| "p_step (Add c ns) p = p_add c ns p"
| "p_step (Then n) p = p_then n p"

section \<open>Lemmas: lists and channels\<close>

lemma chanOptions_simps [simp]:
  "once (chanOptions c) \<longleftrightarrow> c \<noteq> Prog" "memory (chanOptions c)" "\<not> unique (chanOptions c)"
  by (simp_all add: chanOptions_def createOptions_def htmlWhite_def Let_def)

text \<open>
  A list that is not firing, and what it holds: it waits with its callbacks and may
  remember a value, it is settled with a value, or it is closed.
\<close>

definition idle :: "('c, 'a) callbacks \<Rightarrow> bool" where
  "idle s \<longleftrightarrow> \<not> firing s \<and> queue s = [] \<and> firingIndex s = -1"

definition isOpen :: "'c list \<Rightarrow> 'a option \<Rightarrow> ('c, 'a) callbacks \<Rightarrow> bool" where
  "isOpen l u s \<longleftrightarrow> idle s \<and> \<not> locked s \<and> cb_list s = Some l \<and> mem s = u"

definition isSettled :: "'a \<Rightarrow> ('c, 'a) callbacks \<Rightarrow> bool" where
  "isSettled v s \<longleftrightarrow> idle s \<and> locked s \<and> cb_list s \<noteq> None \<and> mem s = Some v"

definition isClosed :: "('c, 'a) callbacks \<Rightarrow> bool" where
  "isClosed s \<longleftrightarrow> locked s \<and> cb_list s = None"

lemmas list_defs = idle_def isOpen_def isSettled_def isClosed_def

lemma open_add_none:
  "isOpen l None s \<Longrightarrow> \<not> unique opts \<Longrightarrow>
    \<exists>s'. add opts (plainRun act) (map Fn fs) (s, w) = Some (s', w) \<and> isOpen (l @ fs) None s'"
  by (auto simp: list_defs add_quiet)

lemma open_add_some:
  "isOpen l (Some u) s \<Longrightarrow> \<not> unique opts \<Longrightarrow> memory opts \<Longrightarrow> \<not> once opts \<Longrightarrow>
    \<exists>s'. add opts (plainRun act) (map Fn fs) (s, w) = Some (s', fold (\<lambda>f. act f u) fs w) \<and> isOpen (l @ fs) (Some u) s'"
  by (auto simp: list_defs add_remembered)

lemma settled_add:
  "isSettled v s \<Longrightarrow> \<not> unique opts \<Longrightarrow> memory opts \<Longrightarrow>
    \<exists>s'. add opts (plainRun act) (map Fn fs) (s, w) = Some (s', fold (\<lambda>f. act f v) fs w) \<and> isSettled v s'"
  by (auto simp: list_defs add_remembered)

lemma closed_add: "isClosed s \<Longrightarrow> add opts run fs (s, w) = Some (s, w)"
  by (simp add: isClosed_def add_def)

lemma open_fire:
  "isOpen l u s \<Longrightarrow> memory opts \<Longrightarrow>
    \<exists>s'. fireWith opts (plainRun act) v (s, w) = Some (s', fold (\<lambda>f. act f v) l w) \<and>
      (if once opts then isSettled v s' else isOpen l (Some v) s')"
  by (auto simp: list_defs fire_quiet)

lemma locked_fire: "isSettled u s \<or> isClosed s \<Longrightarrow> fireWith opts run v (s, w) = Some (s, w)"
  by (auto simp: list_defs fireWith_def Let_def)

lemma lock_open: "isOpen l u s \<Longrightarrow> (case u of None \<Rightarrow> isClosed (lock s) | Some v \<Rightarrow> isSettled v (lock s))"
  by (auto simp: list_defs lock_def Let_def split: option.split)

lemma disable_closed: "isClosed (disable s)"
  by (simp add: isClosed_def disable_def)

lemma fold_hact:
  "fold (\<lambda>f. hact c f v) (map Handler ns) d = d\<lparr>d_jobs := d_jobs d @ map (\<lambda>n. (n, c, v)) ns\<rparr>"
  by (induction ns arbitrary: d) simp_all

lemma fold_users:
  "fold (\<lambda>f. dact f v) (map User ns) d = d\<lparr>d_log := d_log d @ map (\<lambda>n. (n, v)) ns\<rparr>"
  by (induction ns arbitrary: d) simp_all

section \<open>Lemmas: the refinement\<close>

definition settledOr :: "'a option \<Rightarrow> ('c, 'a) callbacks \<Rightarrow> bool" where
  "settledOr u s = (case u of None \<Rightarrow> isClosed s | Some v \<Rightarrow> isSettled v s)"

text \<open>The object stands for the promise.\<close>

definition stands :: "'a deferred \<Rightarrow> 'a promise \<Rightarrow> bool" where
  "stands d p \<longleftrightarrow>
     d_log d = p_log p \<and> d_jobs d = p_jobs p \<and>
     d_state d = (case p_outcome p of NoOutcome \<Rightarrow> Pending | Success v \<Rightarrow> Resolved | Failure v \<Rightarrow> Rejected) \<and>
     (if p_outcome p = NoOutcome
      then \<forall>c. isOpen (builtins c @ map User (p_waiting p c)) (offered c p) (d_lists d c) \<and>
               isOpen (map Handler (p_handlers p)) (offered c p) (d_handlers d c)
      else \<forall>c. settledOr (offered c p) (d_lists d c) \<and> settledOr (offered c p) (d_handlers d c))"

lemma stands_new: "stands Deferred newPromise"
  by (auto simp: stands_def Deferred_def newPromise_def list_defs Callbacks_def offered_def split: chan.split)

text \<open>Adding to an open or settled list calls the new callbacks with what is on offer.\<close>

definition jobsFor :: "nat list \<Rightarrow> chan \<Rightarrow> 'a option \<Rightarrow> (nat \<times> chan \<times> 'a) list" where
  "jobsFor ns c u = (case u of None \<Rightarrow> [] | Some v \<Rightarrow> map (\<lambda>n. (n, c, v)) ns)"

definition callsFor :: "nat list \<Rightarrow> 'a option \<Rightarrow> (nat \<times> 'a) list" where
  "callsFor ns u = (case u of None \<Rightarrow> [] | Some v \<Rightarrow> map (\<lambda>n. (n, v)) ns)"

lemma addHandler_open:
  assumes "isOpen l u (d_handlers d c)" "u = None \<or> c = Prog"
  obtains s where "addHandler n c d = Some (d\<lparr>d_jobs := d_jobs d @ jobsFor [n] c u, d_handlers := (d_handlers d)(c := s)\<rparr>)"
    "isOpen (l @ [Handler n]) u s"
proof (cases u)
  case None
  from open_add_none [of l "d_handlers d c" "chanOptions c" "hact c" "[Handler n]" d] assms(1) None that
  show ?thesis by (auto simp: addHandler_def jobsFor_def)
next
  case (Some v)
  from open_add_some [of l v "d_handlers d c" "chanOptions c" "hact c" "[Handler n]" d] assms Some that
  show ?thesis by (auto simp: addHandler_def jobsFor_def)
qed

lemma addHandler_settled:
  assumes "settledOr u (d_handlers d c)"
  obtains s where "addHandler n c d = Some (d\<lparr>d_jobs := d_jobs d @ jobsFor [n] c u, d_handlers := (d_handlers d)(c := s)\<rparr>)"
    "settledOr u s"
proof (cases u)
  case None
  with assms have "isClosed (d_handlers d c)" by (simp add: settledOr_def)
  with assms None that [of "d_handlers d c"] show ?thesis by (simp add: addHandler_def jobsFor_def closed_add)
next
  case (Some v)
  from settled_add [of v "d_handlers d c" "chanOptions c" "hact c" "[Handler n]" d] assms Some that
  show ?thesis by (auto simp: addHandler_def jobsFor_def settledOr_def)
qed

lemma addUsers_open:
  assumes "isOpen l u (d_lists d c)" "u = None \<or> c = Prog"
  obtains s where "addUsers c ns d = Some (d\<lparr>d_log := d_log d @ callsFor ns u, d_lists := (d_lists d)(c := s)\<rparr>)"
    "isOpen (l @ map User ns) u s"
proof (cases u)
  case None
  from open_add_none [of l "d_lists d c" "chanOptions c" dact "map User ns" d] assms(1) None that
  show ?thesis by (auto simp: addUsers_def callsFor_def simp del: map_map)
next
  case (Some v)
  from open_add_some [of l v "d_lists d c" "chanOptions c" dact "map User ns" d] assms Some that
  show ?thesis by (auto simp: addUsers_def callsFor_def fold_users simp del: map_map)
qed

lemma addUsers_settled:
  assumes "settledOr u (d_lists d c)"
  obtains s where "addUsers c ns d = Some (d\<lparr>d_log := d_log d @ callsFor ns u, d_lists := (d_lists d)(c := s)\<rparr>)"
    "settledOr u s"
proof (cases u)
  case None
  with assms have "isClosed (d_lists d c)" by (simp add: settledOr_def)
  with assms None that [of "d_lists d c"] show ?thesis by (simp add: addUsers_def callsFor_def closed_add)
next
  case (Some v)
  from settled_add [of v "d_lists d c" "chanOptions c" dact "map User ns" d] assms Some that
  show ?thesis by (auto simp: addUsers_def callsFor_def settledOr_def fold_users simp del: map_map)
qed

lemma offered_add: "offered c (p_add c' ns p) = offered c p"
  by (auto simp: offered_def p_add_def split: chan.split)

lemma offered_then: "offered c (p_then n p) = offered c p"
  by (auto simp: offered_def p_then_def split: chan.split)

lemma offered_pending: "p_outcome p = NoOutcome \<Longrightarrow> offered c p = None \<or> c = Prog"
  by (auto simp: offered_def split: chan.split)

lemma add_refines:
  assumes "stands d p"
  shows "\<exists>d'. addUsers c ns d = Some d' \<and> stands d' (p_add c ns p)"
proof (cases "p_outcome p = NoOutcome")
  case True
  then have "isOpen (builtins c @ map User (p_waiting p c)) (offered c p) (d_lists d c)"
    using assms by (simp add: stands_def)
  from addUsers_open [OF this offered_pending [OF True]] obtain s where s:
    "addUsers c ns d = Some (d\<lparr>d_log := d_log d @ callsFor ns (offered c p), d_lists := (d_lists d)(c := s)\<rparr>)"
    "isOpen ((builtins c @ map User (p_waiting p c)) @ map User ns) (offered c p) s" by blast
  with assms True show ?thesis
    by (auto simp: stands_def offered_add) (auto simp: p_add_def callsFor_def)
next
  case False
  then have "settledOr (offered c p) (d_lists d c)" using assms by (simp add: stands_def)
  from addUsers_settled [OF this] obtain s where s:
    "addUsers c ns d = Some (d\<lparr>d_log := d_log d @ callsFor ns (offered c p), d_lists := (d_lists d)(c := s)\<rparr>)"
    "settledOr (offered c p) s" by blast
  with assms False show ?thesis
    by (auto simp: stands_def offered_add) (auto simp: p_add_def callsFor_def)
qed

lemma thenD_run:
  assumes step: "\<And>c e. d_handlers e c = d_handlers d c \<Longrightarrow> \<exists>s. addHandler n c e =
      Some (e\<lparr>d_jobs := d_jobs e @ jobsFor [n] c (u c), d_handlers := (d_handlers e)(c := s)\<rparr>) \<and> Q c s"
  shows "\<exists>h. thenD n d = Some (d\<lparr>d_jobs := d_jobs d @ concat (map (\<lambda>c. jobsFor [n] c (u c)) [Prog, Done, Fail]),
      d_handlers := h\<rparr>) \<and> (\<forall>c. Q c (h c))"
proof -
  obtain s1 where s1: "addHandler n Prog d =
      Some (d\<lparr>d_jobs := d_jobs d @ jobsFor [n] Prog (u Prog), d_handlers := (d_handlers d)(Prog := s1)\<rparr>)" "Q Prog s1"
    using step [OF refl] by blast
  define d1 where "d1 = d\<lparr>d_jobs := d_jobs d @ jobsFor [n] Prog (u Prog), d_handlers := (d_handlers d)(Prog := s1)\<rparr>"
  obtain s2 where s2: "addHandler n Done d1 =
      Some (d1\<lparr>d_jobs := d_jobs d1 @ jobsFor [n] Done (u Done), d_handlers := (d_handlers d1)(Done := s2)\<rparr>)" "Q Done s2"
    using step [of d1 Done] by (auto simp: d1_def)
  define d2 where "d2 = d1\<lparr>d_jobs := d_jobs d1 @ jobsFor [n] Done (u Done), d_handlers := (d_handlers d1)(Done := s2)\<rparr>"
  obtain s3 where s3: "addHandler n Fail d2 =
      Some (d2\<lparr>d_jobs := d_jobs d2 @ jobsFor [n] Fail (u Fail), d_handlers := (d_handlers d2)(Fail := s3)\<rparr>)" "Q Fail s3"
    using step [of d2 Fail] by (auto simp: d2_def d1_def)
  have "Q c (((d_handlers d)(Prog := s1, Done := s2, Fail := s3)) c)" for c
    using s1(2) s2(2) s3(2) by (cases c) auto
  moreover have "thenD n d = Some (d2\<lparr>d_jobs := d_jobs d2 @ jobsFor [n] Fail (u Fail), d_handlers := (d_handlers d2)(Fail := s3)\<rparr>)"
    using s1(1) s2(1) s3(1) by (simp add: thenD_def flip: d1_def d2_def)
  ultimately show ?thesis
    by (intro exI [of _ "(d_handlers d)(Prog := s1, Done := s2, Fail := s3)"]) (simp add: d2_def d1_def)
qed

lemma then_refines:
  assumes "stands d p"
  shows "\<exists>d'. thenD n d = Some d' \<and> stands d' (p_then n p)"
proof -
  have jobs: "p_jobs (p_then n p) = p_jobs p @ concat (map (\<lambda>c. jobsFor [n] c (offered c p)) [Prog, Done, Fail])"
    by (auto simp: p_then_def jobsFor_def split: option.split)
  show ?thesis
  proof (cases "p_outcome p = NoOutcome")
    case True
    have "\<exists>s. addHandler n c e = Some (e\<lparr>d_jobs := d_jobs e @ jobsFor [n] c (offered c p), d_handlers := (d_handlers e)(c := s)\<rparr>) \<and>
        isOpen (map Handler (p_handlers p) @ [Handler n]) (offered c p) s" if e: "d_handlers e c = d_handlers d c" for c e
    proof -
      have "isOpen (map Handler (p_handlers p)) (offered c p) (d_handlers e c)"
        using assms True e by (simp add: stands_def)
      from addHandler_open [OF this offered_pending [OF True]] show ?thesis by blast
    qed
    from thenD_run [of d n "\<lambda>c. offered c p" "\<lambda>c. isOpen (map Handler (p_handlers p) @ [Handler n]) (offered c p)", OF this]
    obtain h where "thenD n d = Some (d\<lparr>d_jobs := d_jobs d @ concat (map (\<lambda>c. jobsFor [n] c (offered c p)) [Prog, Done, Fail]), d_handlers := h\<rparr>)"
      "\<And>c. isOpen (map Handler (p_handlers p) @ [Handler n]) (offered c p) (h c)" by blast
    with assms True jobs show ?thesis by (auto simp: stands_def offered_then) (auto simp: p_then_def)
  next
    case False
    have "\<exists>s. addHandler n c e = Some (e\<lparr>d_jobs := d_jobs e @ jobsFor [n] c (offered c p), d_handlers := (d_handlers e)(c := s)\<rparr>) \<and>
        settledOr (offered c p) s" if e: "d_handlers e c = d_handlers d c" for c e
    proof -
      have "settledOr (offered c p) (d_handlers e c)" using assms False e by (simp add: stands_def)
      from addHandler_settled [OF this] show ?thesis by blast
    qed
    from thenD_run [of d n "\<lambda>c. offered c p" "\<lambda>c. settledOr (offered c p)", OF this]
    obtain h where "thenD n d = Some (d\<lparr>d_jobs := d_jobs d @ concat (map (\<lambda>c. jobsFor [n] c (offered c p)) [Prog, Done, Fail]), d_handlers := h\<rparr>)"
      "\<And>c. settledOr (offered c p) (h c)" by blast
    with assms False jobs show ?thesis by (auto simp: stands_def offered_then) (auto simp: p_then_def)
  qed
qed

lemma fireHandlers_open:
  assumes "isOpen (map Handler ns) u (d_handlers d c)"
  obtains s where "fireHandlers c v d = Some (d\<lparr>d_jobs := d_jobs d @ map (\<lambda>n. (n, c, v)) ns, d_handlers := (d_handlers d)(c := s)\<rparr>)"
    "if c = Prog then isOpen (map Handler ns) (Some v) s else isSettled v s"
  using open_fire [of "map Handler ns" u "d_handlers d c" "chanOptions c" "hact c" v d] assms that
  by (auto simp: fireHandlers_def fold_hact split: if_splits)

lemma settle_late:
  assumes "stands d p" "p_outcome p \<noteq> NoOutcome"
  shows "settleWith c v d = Some d"
proof -
  have "settledOr (offered c p) (d_lists d c)" using assms by (simp add: stands_def)
  then have "isSettled (the (offered c p)) (d_lists d c) \<or> isClosed (d_lists d c)"
    by (auto simp: settledOr_def split: option.splits)
  then show ?thesis by (simp add: settleWith_def locked_fire)
qed

text \<open>What the callbacks of the object do when an outcome is announced.\<close>

lemma fold_builtins:
  assumes o: "\<And>c. isOpen (map Handler ns) (u c) (d_handlers d c)" and c: "c \<noteq> Prog"
  shows "\<exists>s. fold (\<lambda>f. dact f v) (builtins c) d =
    d\<lparr>d_state := the (stateString c),
      d_lists := (d_lists d)(opposite c := disable (d_lists d (opposite c)), Prog := lock (d_lists d Prog)),
      d_handlers := (d_handlers d)(opposite c := disable (d_handlers d (opposite c)),
        Prog := lock (d_handlers d Prog), c := s),
      d_jobs := d_jobs d @ map (\<lambda>n. (n, c, v)) ns\<rparr> \<and> isSettled v s"
proof -
  define e where "e = d\<lparr>d_state := the (stateString c),
      d_lists := (d_lists d)(opposite c := disable (d_lists d (opposite c)), Prog := lock (d_lists d Prog)),
      d_handlers := (d_handlers d)(opposite c := disable (d_handlers d (opposite c)), Prog := lock (d_handlers d Prog))\<rparr>"
  have ne: "opposite c \<noteq> Prog" "opposite c \<noteq> c" using c by (cases c; simp add: opposite_def)+
  have "isOpen (map Handler ns) (u c) (d_handlers e c)" using o [of c] c ne by (simp add: e_def)
  then obtain s where s: "fireHandlers c v e = Some (e\<lparr>d_jobs := d_jobs e @ map (\<lambda>n. (n, c, v)) ns, d_handlers := (d_handlers e)(c := s)\<rparr>)"
    "isSettled v s" using c by (metis fireHandlers_open)
  have "fold (\<lambda>f. dact f v) (builtins c) d = (case fireHandlers c v e of Some d' \<Rightarrow> d' | None \<Rightarrow> e)"
    unfolding e_def using c ne by (cases c) (simp_all add: builtins_def stateString_def opposite_def split: option.split)
  with s show ?thesis by (intro exI [of _ s]) (simp add: e_def)
qed

lemma settle_refines:
  assumes st: "stands d p"
  shows "\<exists>d'. settleWith c v d = Some d' \<and> stands d' (p_settle c v p)"
proof (cases "p_outcome p = NoOutcome")
  case True
  have o: "isOpen (builtins c @ map User (p_waiting p c)) (offered c p) (d_lists d c)"
    "isOpen (map Handler (p_handlers p)) (offered c p) (d_handlers d c)" for c
    using st True by (simp_all add: stands_def)
  obtain l where l: "fireWith (chanOptions c) (plainRun dact) v (d_lists d c, d) =
      Some (l, fold (\<lambda>f. dact f v) (builtins c @ map User (p_waiting p c)) d)"
    "if c \<noteq> Prog then isSettled v l else isOpen (builtins c @ map User (p_waiting p c)) (Some v) l"
    using open_fire [OF o(1) [of c], of "chanOptions c" dact v d] by auto
  show ?thesis
  proof (cases "c = Prog")
    case True
    obtain s where s: "fireHandlers Prog v d = Some (d\<lparr>d_jobs := d_jobs d @ map (\<lambda>n. (n, Prog, v)) (p_handlers p),
        d_handlers := (d_handlers d)(Prog := s)\<rparr>)" "isOpen (map Handler (p_handlers p)) (Some v) s"
      using fireHandlers_open [OF o(2)] by (metis (full_types))
    have "fold (\<lambda>f. dact f v) (builtins c @ map User (p_waiting p c)) d =
        d\<lparr>d_jobs := d_jobs d @ map (\<lambda>n. (n, Prog, v)) (p_handlers p), d_handlers := (d_handlers d)(Prog := s),
          d_log := d_log d @ map (\<lambda>n. (n, v)) (p_waiting p Prog)\<rparr>"
      using s(1) True by (simp add: builtins_def stateString_def fold_users)
    with l True have "settleWith c v d = Some (d\<lparr>d_jobs := d_jobs d @ map (\<lambda>n. (n, Prog, v)) (p_handlers p),
        d_handlers := (d_handlers d)(Prog := s), d_log := d_log d @ map (\<lambda>n. (n, v)) (p_waiting p Prog),
        d_lists := (d_lists d)(Prog := l)\<rparr>)"
      by (simp add: settleWith_def)
    moreover have "offered c' (p_settle Prog v p) = (if c' = Prog then Some v else offered c' p)" for c'
      using \<open>p_outcome p = NoOutcome\<close> by (auto simp: offered_def p_settle_def split: chan.split)
    ultimately show ?thesis
      using st l(2) s(2) True o \<open>p_outcome p = NoOutcome\<close> by (auto simp: stands_def) (auto simp: p_settle_def)
  next
    case False
    have ne: "opposite c \<noteq> Prog" "opposite c \<noteq> c" using False by (cases c; simp add: opposite_def)+
    have all: "c' = c \<or> c' = opposite c \<or> c' = Prog" for c' using False by (cases c; cases c'; simp add: opposite_def)
    obtain s where s: "fold (\<lambda>f. dact f v) (builtins c) d =
        d\<lparr>d_state := the (stateString c),
          d_lists := (d_lists d)(opposite c := disable (d_lists d (opposite c)), Prog := lock (d_lists d Prog)),
          d_handlers := (d_handlers d)(opposite c := disable (d_handlers d (opposite c)), Prog := lock (d_handlers d Prog), c := s),
          d_jobs := d_jobs d @ map (\<lambda>n. (n, c, v)) (p_handlers p)\<rparr>" "isSettled v s"
      using fold_builtins [OF o(2) False] by blast
    let ?e = "d\<lparr>d_state := the (stateString c),
          d_lists := (d_lists d)(opposite c := disable (d_lists d (opposite c)), Prog := lock (d_lists d Prog), c := l),
          d_handlers := (d_handlers d)(opposite c := disable (d_handlers d (opposite c)), Prog := lock (d_handlers d Prog), c := s),
          d_jobs := d_jobs d @ map (\<lambda>n. (n, c, v)) (p_handlers p), d_log := d_log d @ map (\<lambda>n. (n, v)) (p_waiting p c)\<rparr>"
    have e: "settleWith c v d = Some ?e" using l(1) s(1) by (simp add: settleWith_def fold_users)
    let ?p = "p_settle c v p"
    have of: "offered c ?p = Some v" "offered (opposite c) ?p = None" "offered Prog ?p = offered Prog p"
      "p_outcome ?p \<noteq> NoOutcome"
      using False True by (cases c; simp add: offered_def p_settle_def opposite_def)+
    have "settledOr (offered c' ?p) (d_lists ?e c') \<and> settledOr (offered c' ?p) (d_handlers ?e c')" for c'
      using all [of c'] of l(2) s(2) False ne lock_open [OF o(1) [of Prog]] lock_open [OF o(2) [of Prog]]
      by (auto simp: settledOr_def disable_closed split: option.splits)
    moreover have "d_state ?e = (case p_outcome ?p of NoOutcome \<Rightarrow> Pending | Success v \<Rightarrow> Resolved | Failure v \<Rightarrow> Rejected)"
      "d_log ?e = p_log ?p" "d_jobs ?e = p_jobs ?p"
      using False True st by (cases c; simp add: p_settle_def stateString_def stands_def)+
    ultimately have "stands ?e ?p" using of(4) by (simp add: stands_def del: fun_upd_apply)
    with e show ?thesis by blast
  qed
next
  case False
  then show ?thesis using settle_late [OF st False] st by (simp add: p_settle_def)
qed

lemma d_step_refines: "stands d p \<Longrightarrow> \<exists>d'. d_step opn d = Some d' \<and> stands d' (p_step opn p)"
  by (cases opn) (simp_all add: settle_refines add_refines then_refines)

section \<open>Lemmas: waiting for several\<close>

definition valuesOf :: "nat \<Rightarrow> (nat \<times> 'a outcome) list \<Rightarrow> 'a option list" where
  "valuesOf n es = map (\<lambda>i. case map_of es i of Some (Success v) \<Rightarrow> Some v | _ \<Rightarrow> None) [0..<n]"

definition firstFailure :: "(nat \<times> 'a outcome) list \<Rightarrow> 'a option" where
  "firstFailure es =
     (case List.map_filter (\<lambda>(i, r). case r of Failure v \<Rightarrow> Some v | _ \<Rightarrow> None) es of [] \<Rightarrow> None | v # vs \<Rightarrow> Some v)"

definition settlements :: "nat \<Rightarrow> (nat \<times> 'a outcome) list \<Rightarrow> bool" where
  "settlements n es \<longleftrightarrow> distinct (map fst es) \<and> list_all (\<lambda>(i, r). i < n \<and> r \<noteq> NoOutcome) es"

lemma settlements_length:
  assumes "settlements n es"
  shows "length es \<le> n"
proof -
  have "set (map fst es) \<subseteq> {..<n}" using assms by (auto simp: settlements_def list_all_iff)
  then have "card (set (map fst es)) \<le> n" using card_mono [of "{..<n}"] by fastforce
  moreover have "card (set (map fst es)) = length es"
    using assms distinct_card [of "map fst es"] by (simp add: settlements_def)
  ultimately show ?thesis by simp
qed

lemma firstFailure_snoc:
  "firstFailure (es @ [(i, r)]) =
    (case firstFailure es of Some v \<Rightarrow> Some v | None \<Rightarrow> (case r of Failure v \<Rightarrow> Some v | _ \<Rightarrow> None))"
  by (auto simp: firstFailure_def List.map_filter_def split: list.splits outcome.splits option.splits)

lemma valuesOf_snoc:
  "i \<notin> set (map fst es) \<Longrightarrow> i < n \<Longrightarrow> valuesOf n (es @ [(i, Success v)]) = (valuesOf n es)[i := Some v]"
proof (rule nth_equalityI)
  fix j assume i: "i \<notin> set (map fst es)" "i < n" and "j < length (valuesOf n (es @ [(i, Success v)]))"
  moreover have "map_of (es @ [(i, Success v)]) j = (if j = i then Some (Success v) else map_of es j)"
    using i(1) map_of_eq_None_iff [of es i] by (auto simp: map_add_def split: option.split)
  ultimately show "valuesOf n (es @ [(i, Success v)]) ! j = (valuesOf n es)[i := Some v] ! j"
    by (auto simp: valuesOf_def nth_list_update)
qed (simp add: valuesOf_def)

definition successes :: "(nat \<times> 'a outcome) list \<Rightarrow> nat" where
  "successes es = length (filter (\<lambda>(i, r). case r of Success v \<Rightarrow> True | _ \<Rightarrow> False) es)"

lemma when_remaining: "remaining (fold subSettled es w) = remaining w - int (successes es)"
proof (induction es arbitrary: w)
  case (Cons e es)
  obtain i r where "e = (i, r)" by (cases e)
  with Cons.IH show ?case
    by (cases r) (auto simp: successes_def updateFunc_def settlePrimary_def Let_def)
qed (simp add: successes_def)

lemma successes_failure: "firstFailure es \<noteq> None \<Longrightarrow> successes es < length es"
proof (induction es)
  case (Cons e es)
  obtain i r where "e = (i, r)" by (cases e)
  moreover have "successes es \<le> length es" by (simp add: successes_def)
  ultimately show ?case using Cons
    by (cases r) (auto simp: successes_def firstFailure_def map_filter_simps le_imp_less_Suc)
qed (simp add: firstFailure_def map_filter_simps)

lemma successes_all: "firstFailure es = None \<Longrightarrow> settlements n es \<Longrightarrow> successes es = length es"
proof (induction es)
  case (Cons e es)
  obtain i r where "e = (i, r)" by (cases e)
  with Cons show ?case
    by (cases r) (auto simp: successes_def firstFailure_def map_filter_simps settlements_def)
qed (simp add: successes_def)

lemma assignAt_update: "i < length xs \<Longrightarrow> assignAt i v xs = xs[i := v]"
  by (simp add: assignAt_def)

lemma length_valuesOf [simp]: "length (valuesOf n es) = n"
  by (simp add: valuesOf_def)

lemma when_run:
  assumes "settlements n es" "0 < n"
  shows "(case firstFailure es of
       Some v \<Rightarrow> primary (fold subSettled es (initWhen n)) = Failure [Some v]
     | None \<Rightarrow> resolveValues (fold subSettled es (initWhen n)) = valuesOf n es \<and>
         primary (fold subSettled es (initWhen n)) = (if length es = n then Success (valuesOf n es) else NoOutcome))"
  using assms(1)
proof (induction es rule: rev_induct)
  case Nil
  then show ?case using assms(2)
    by (auto simp: initWhen_def firstFailure_def valuesOf_def map_replicate_const map_filter_simps)
next
  case (snoc e es)
  obtain i r where e: "e = (i, r)" by (cases e)
  let ?w = "fold subSettled es (initWhen n)"
  have st: "settlements n es" "i \<notin> set (map fst es)" "i < n" "r \<noteq> NoOutcome"
    using snoc.prems e by (auto simp: settlements_def)
  have len: "length es < n" using settlements_length [OF snoc.prems] by simp
  have rem: "remaining ?w = int n - int (successes es)" by (simp add: when_remaining initWhen_def)
  show ?case
  proof (cases "firstFailure es")
    case None
    then have "remaining ?w = int n - int (length es)" using rem successes_all [OF None st(1)] by simp
    moreover have "resolveValues ?w = valuesOf n es" "primary ?w = NoOutcome"
      using snoc.IH [OF st(1)] None len by auto
    ultimately show ?thesis
      using None e st(3,4) valuesOf_snoc [OF st(2,3)]
      by (cases r) (auto simp: firstFailure_snoc updateFunc_def settlePrimary_def Let_def assignAt_update)
  next
    case (Some u)
    then have "primary ?w = Failure [Some u]" using snoc.IH [OF st(1)] by simp
    with Some e show ?thesis
      by (cases r) (auto simp: firstFailure_snoc updateFunc_def settlePrimary_def Let_def)
  qed
qed

lemma viaThen_fold: "viaThen (fold subSettled es w) = viaThen w"
proof (induction es arbitrary: w)
  case (Cons e es)
  obtain i r where "e = (i, r)" by (cases e)
  with Cons.IH show ?case by (cases r) (auto simp: updateFunc_def settlePrimary_def Let_def)
qed simp

definition adopted :: "'a outcome \<Rightarrow> 'a option list outcome" where
  "adopted r = (case r of NoOutcome \<Rightarrow> NoOutcome | Success v \<Rightarrow> Success [Some v] | Failure v \<Rightarrow> Failure [Some v])"

section \<open>Properties\<close>

text \<open>
  C26. A deferred object implements a promise. Whatever sequence of \<open>resolve\<close>, \<open>reject\<close>, \<open>notify\<close>, additions of
  callbacks and calls of \<open>then\<close> is applied to a new object, with callbacks that do not touch it, every operation
  returns and the object stands for the promise of the specification: the first
  outcome is final, the callbacks of that outcome are called once each with its value,
  whether they were added before or after it, those of the other outcome never, and the
  handlers of \<open>then\<close> are scheduled for the same values.
\<close>
theorem deferred_refines:
  "\<exists>d. runOps d_step ops Deferred = Some d \<and> stands d (fold p_step ops newPromise)"
proof -
  have "stands d p \<Longrightarrow> \<exists>d'. runOps d_step ops d = Some d' \<and> stands d' (fold p_step ops p)" for d p
  proof (induction ops arbitrary: d p)
    case (Cons opn ops)
    obtain d1 where "d_step opn d = Some d1" "stands d1 (p_step opn p)" using d_step_refines [OF Cons.prems] by blast
    with Cons.IH show ?case by simp
  qed simp
  from this [OF stands_new] show ?thesis .
qed

text \<open>
  C27. \<open>when\<close> with two arguments or more waits for all of them. When each argument settles at most once, plain values and
  promises that are settled already at the call and the others later, the
  primary object succeeds as soon as the last of them has succeeded, with the values in the order of the arguments whatever the order of the settlements,
  it fails with the first failure, and it is pending otherwise; the primary object itself is what the call returns.
\<close>
theorem when_waits_for_all:
  assumes "settlements (length xs) (startEvents xs @ es)" "2 \<le> length xs"
  shows "primary (fold subSettled es (whenStart thenable xs)) =
    (case firstFailure (startEvents xs @ es) of
       Some v \<Rightarrow> Failure [Some v]
     | None \<Rightarrow> if length (startEvents xs @ es) = length xs
               then Success (valuesOf (length xs) (startEvents xs @ es)) else NoOutcome) \<and>
    \<not> viaThen (fold subSettled es (whenStart thenable xs))"
proof -
  have "fold subSettled es (whenStart thenable xs) = fold subSettled (startEvents xs @ es) (initWhen (length xs))"
    using assms(2) by (simp add: whenStart_def)
  moreover have "\<not> viaThen (fold subSettled (startEvents xs @ es) (initWhen (length xs)))"
    unfolding viaThen_fold by (simp add: initWhen_def)
  moreover have "0 < length xs" using assms(2) by linarith
  ultimately show ?thesis using when_run [OF assms(1)] by (auto split: option.splits)
qed

theorem when_waits_for_all_witness:
  "primary (fold subSettled [(2, Success (30 :: nat)), (0, Success 10)]
     (whenStart (\<lambda>_. False) [Subordinate NoOutcome, PlainValue 20, Subordinate NoOutcome])) =
     Success [Some 10, Some 20, Some 30]"
proof -
  let ?xs = "[Subordinate NoOutcome, PlainValue (20 :: nat), Subordinate NoOutcome]"
  have p: "startEvents ?xs = [(1, Success 20)]"
    by (simp add: startEvents_def upt_rec)
  have st: "settlements (length ?xs) (startEvents ?xs @ [(2, Success 30), (0, Success 10)])"
    unfolding p by (simp add: settlements_def)
  have "2 \<le> length ?xs" by simp
  from when_waits_for_all [OF st this, of "\<lambda>_. False"] show ?thesis
    unfolding p by (simp add: firstFailure_def map_filter_simps valuesOf_def upt_rec)
qed

text \<open>
  \<open>when\<close> with one argument adopts it. The primary object takes the outcome of the argument, be it a plain value,
  a promise that is settled already or one that settles later with \<open>r\<close>; it is returned through \<open>then\<close>
  exactly for an argument that is pending at the call or a success whose value is itself a promise. Without arguments it succeeds at once, with no
  value.
\<close>
theorem when_adopts_single:
  "primary (whenStart thenable [x]) = adopted (outcomeNow x)
   \<and> (viaThen (whenStart thenable [x]) \<longleftrightarrow>
        outcomeNow x = NoOutcome \<or> (\<exists>v. outcomeNow x = Success v \<and> thenable v))
   \<and> primary (singleSettled r (whenStart thenable [Subordinate NoOutcome])) = adopted r
   \<and> primary (whenStart thenable []) = Success [] \<and> \<not> viaThen (whenStart thenable [])"
proof -
  note defs = whenStart_def adoptSingle_def initWhen_def resolvePrimary_def updateFunc_def assignAt_def
    settlePrimary_def startEvents_def adopted_def Let_def
  have "primary (whenStart thenable [x]) = adopted (outcomeNow x)
      \<and> (viaThen (whenStart thenable [x]) \<longleftrightarrow>
          outcomeNow x = NoOutcome \<or> (\<exists>v. outcomeNow x = Success v \<and> thenable v))"
    by (cases "outcomeNow x") (simp_all add: defs upt_rec)
  moreover have "primary (singleSettled r (whenStart thenable [Subordinate NoOutcome])) = adopted r"
    by (cases r) (simp_all add: defs)
  moreover have "primary (whenStart thenable []) = Success [] \<and> \<not> viaThen (whenStart thenable [])"
    by (simp add: defs)
  ultimately show ?thesis by blast
qed

end
