(* ===== verification/JQuery_Classes.thy ===== *)
theory JQuery_Classes
  imports JQuery_Callbacks
begin

text \<open>
  The functions of \<^verbatim>\<open>jquery.js\<close> on the class names of elements (\<open>addClass\<close>, \<open>removeClass\<close>, \<open>toggleClass\<close>,
  \<open>hasClass\<close>), which the theme uses for its menu. They work on the text of the \<open>class\<close> attribute,
  searching and replacing in it; the lemmas show that this computes what it should on the list of names.
\<close>

section \<open>Elements\<close>

text \<open>The kind of node, the attribute, and the names saved by \<open>toggleClass\<close>.\<close>

record element =
  nodeType :: nat
  classAttr :: "jstring option"
  savedClass :: "jstring option"

definition classTokens :: "jstring \<Rightarrow> jstring list" where
  "classTokens s = flagWords [] s"

definition stripAndCollapse :: "jstring \<Rightarrow> jstring" where
  "stripAndCollapse s = join [32] (classTokens s)"

definition getClass :: "element \<Rightarrow> jstring" where
  "getClass e = (case classAttr e of Some s \<Rightarrow> s | None \<Rightarrow> [])"

text \<open>The argument: a text, an array, a boolean, \<open>undefined\<close> or anything else but a function.\<close>

datatype class_arg = ClassText jstring | ClassArray "jstring list" | BoolArg bool | UndefinedArg | OtherArg

definition classesToArray :: "class_arg \<Rightarrow> jstring list" where
  "classesToArray v = (case v of ClassArray cs \<Rightarrow> cs | ClassText s \<Rightarrow> classTokens s | _ \<Rightarrow> [])"

section \<open>Adding and removing\<close>

text \<open>\<open>" " + s + " "\<close>.\<close>

definition pad :: "jstring \<Rightarrow> jstring" where
  "pad s = [32] @ s @ [32]"

text \<open>The loops end at an empty name.\<close>

fun addLoop :: "jstring list \<Rightarrow> jstring \<Rightarrow> jstring" where
  "addLoop [] cur = cur"
| "addLoop (c # cs) cur =
     (if c = [] then cur else addLoop cs (if indexOf (pad c) cur < 0 then cur @ c @ [32] else cur))"

lemma replaceFirst_shorter:
  assumes "indexOf p s > -1" "length r < length p"
  shows "length (replaceFirst p r s) < length s"
proof (cases rule: indexOf_cases [of p s])
  case (found k)
  then obtain v where "drop k s = p @ v" by (auto simp: startsWith_iff)
  then have "length s = k + length p + length v" using found(1) by (metis append_take_drop_id length_append length_take min.absorb2 add.assoc)
  then show ?thesis using found assms(2) by (simp add: replaceFirst_def Let_def)
qed (use assms in simp)

function removeAllOf :: "jstring \<Rightarrow> jstring \<Rightarrow> jstring" where
  "removeAllOf c cur =
     (if indexOf (pad c) cur > -1 then removeAllOf c (replaceFirst (pad c) [32] cur) else cur)"
  by pat_completeness auto
termination by (relation "measure (\<lambda>(c, cur). length cur)") (auto intro: replaceFirst_shorter simp: pad_def)

declare removeAllOf.simps [simp del]

fun removeLoop :: "jstring list \<Rightarrow> jstring \<Rightarrow> jstring" where
  "removeLoop [] cur = cur"
| "removeLoop (c # cs) cur = (if c = [] then cur else removeLoop cs (removeAllOf c cur))"

text \<open>The attribute is only written when it changes.\<close>

definition setClass :: "jstring \<Rightarrow> element \<Rightarrow> element" where
  "setClass finalValue e = (if getClass e \<noteq> finalValue then e\<lparr>classAttr := Some finalValue\<rparr> else e)"

definition editClass :: "(jstring \<Rightarrow> jstring) \<Rightarrow> element \<Rightarrow> element" where
  "editClass f e =
     (if nodeType e = 1 then setClass (stripAndCollapse (f (pad (stripAndCollapse (getClass e))))) e else e)"

definition addClass :: "class_arg \<Rightarrow> element list \<Rightarrow> element list" where
  "addClass v es =
     (let classes = classesToArray v in if classes \<noteq> [] then map (editClass (addLoop classes)) es else es)"

text \<open>Without an argument \<open>removeClass\<close> empties the attribute.\<close>

definition removeClass :: "class_arg option \<Rightarrow> element list \<Rightarrow> element list" where
  "removeClass v es =
     (case v of
        None \<Rightarrow> map (\<lambda>e. if nodeType e = 1 then e\<lparr>classAttr := Some []\<rparr> else e) es
      | Some v \<Rightarrow>
          (let classes = classesToArray v in if classes \<noteq> [] then map (editClass (removeLoop classes)) es else es))"

definition hasClass :: "jstring \<Rightarrow> element list \<Rightarrow> bool" where
  "hasClass c es = list_ex (\<lambda>e. nodeType e = 1 \<and> indexOf (pad c) (pad (stripAndCollapse (getClass e))) > -1) es"

section \<open>Toggling\<close>

definition toggleOne :: "jstring \<Rightarrow> element \<Rightarrow> element" where
  "toggleOne c e =
     hd (if hasClass c [e] then removeClass (Some (ClassText c)) [e] else addClass (ClassText c) [e])"

text \<open>
  Without names the whole attribute is saved and emptied, or brought back; only an element
  has \<open>setAttribute\<close>.
\<close>

definition toggleWhole :: "class_arg \<Rightarrow> element \<Rightarrow> element" where
  "toggleWhole v e =
     (let className = getClass e;
          e1 = (if className \<noteq> [] then e\<lparr>savedClass := Some className\<rparr> else e)
      in if nodeType e = 1 then
           e1\<lparr>classAttr := Some
             (if className \<noteq> [] \<or> v = BoolArg False then []
              else case savedClass e1 of Some s \<Rightarrow> s | None \<Rightarrow> [])\<rparr>
         else e1)"

definition isValidValue :: "class_arg \<Rightarrow> bool" where
  "isValidValue v = (case v of ClassText _ \<Rightarrow> True | ClassArray _ \<Rightarrow> True | _ \<Rightarrow> False)"

text \<open>The second argument is \<open>None\<close> when it is not a boolean.\<close>

definition toggleClass :: "class_arg \<Rightarrow> bool option \<Rightarrow> element list \<Rightarrow> element list" where
  "toggleClass v stateVal es =
     (if stateVal \<noteq> None \<and> isValidValue v
      then (if stateVal = Some True then addClass v es else removeClass (Some v) es)
      else map (\<lambda>e.
        if isValidValue v then fold toggleOne (takeWhile (\<lambda>c. c \<noteq> []) (classesToArray v)) e
        else if v = UndefinedArg \<or> v = BoolArg True \<or> v = BoolArg False then toggleWhole v e
        else e) es)"

text \<open>A function as the argument is asked for the names of each element.\<close>

definition eachElement :: "(nat \<Rightarrow> element \<Rightarrow> element list) \<Rightarrow> element list \<Rightarrow> element list" where
  "eachElement f es = concat (map (\<lambda>(j, e). f j e) (enumerate 0 es))"

definition addClassFn :: "(nat \<Rightarrow> jstring \<Rightarrow> class_arg) \<Rightarrow> element list \<Rightarrow> element list" where
  "addClassFn f es = eachElement (\<lambda>j e. addClass (f j (getClass e)) [e]) es"

definition removeClassFn :: "(nat \<Rightarrow> jstring \<Rightarrow> class_arg) \<Rightarrow> element list \<Rightarrow> element list" where
  "removeClassFn f es = eachElement (\<lambda>j e. removeClass (Some (f j (getClass e))) [e]) es"

definition toggleClassFn ::
  "(nat \<Rightarrow> jstring \<Rightarrow> bool option \<Rightarrow> class_arg) \<Rightarrow> bool option \<Rightarrow> element list \<Rightarrow> element list" where
  "toggleClassFn f stateVal es = eachElement (\<lambda>j e. toggleClass (f j (getClass e) stateVal) stateVal [e]) es"

section \<open>Lemmas: names in a text\<close>

text \<open>A name: not empty and without white space.\<close>

definition isName :: "jstring \<Rightarrow> bool" where
  "isName c \<longleftrightarrow> c \<noteq> [] \<and> list_all (\<lambda>x. \<not> htmlWhite x) c"

lemma isName_blank: "isName c \<Longrightarrow> c \<noteq> [] \<and> 32 \<notin> set c"
  by (auto simp: isName_def htmlWhite_def list_all_iff)

lemma flagWords_names: "list_all (\<lambda>x. \<not> htmlWhite x) w \<Longrightarrow> list_all isName (flagWords w s)"
  by (induction w s rule: flagWords.induct) (auto simp: isName_def)

lemma htmlWhite_32 [simp]: "htmlWhite 32"
  by (simp add: htmlWhite_def)

text \<open>A text whose only white space is the blank, between blanks.\<close>

definition blankOnly :: "nat \<Rightarrow> bool" where
  "blankOnly x \<longleftrightarrow> \<not> htmlWhite x \<or> x = 32"

lemma blankOnly_32 [simp]: "blankOnly 32"
  by (simp add: blankOnly_def)

lemma isName_blankOnly: "isName c \<Longrightarrow> list_all blankOnly c"
  by (auto simp: isName_def blankOnly_def list_all_iff)

definition framed :: "jstring \<Rightarrow> bool" where
  "framed s \<longleftrightarrow> s \<noteq> [] \<and> hd s = 32 \<and> last s = 32 \<and> list_all blankOnly s"

lemma flagWords_split:
  "list_all blankOnly s \<Longrightarrow>
    flagWords w s = filter (\<lambda>t. t \<noteq> []) ((w @ hd (splitOn 32 s)) # tl (splitOn 32 s))"
proof (induction w s rule: flagWords.induct)
  case (2 w c s)
  show ?case
  proof (cases "c = 32")
    case True
    then show ?thesis using 2 by (cases "splitOn 32 s") auto
  next
    case False
    then have "\<not> htmlWhite c" using 2(3) by (simp add: blankOnly_def)
    with False 2 show ?thesis by (cases "splitOn 32 s") auto
  qed
qed simp

lemma tokens_split:
  assumes "list_all blankOnly s"
  shows "classTokens s = filter (\<lambda>t. t \<noteq> []) (splitOn 32 s)"
  using flagWords_split [OF assms, of "[]"] by (cases "splitOn 32 s") (auto simp: classTokens_def)

lemma splitOn_frame:
  assumes "framed s"
  shows "hd (splitOn 32 s) = [] \<and> last (splitOn 32 s) = []"
proof -
  obtain t where t: "s = 32 # t" using assms by (cases s) (auto simp: framed_def)
  have "s \<noteq> []" "last s = 32" using assms by (simp_all add: framed_def)
  then have u: "s = butlast s @ [32]" by (metis append_butlast_last_id)
  have "splitOn 32 s = splitOn 32 (butlast s) @ [[]]"
    using splitOn_sep [of 32 "butlast s" "[]"] u by simp
  then have "last (splitOn 32 s) = []" by simp
  with t show ?thesis by simp
qed

lemma pad_occurs:
  assumes "framed s" "isName c"
  shows "indexOf (pad c) s > -1 \<longleftrightarrow> c \<in> set (classTokens s)"
proof -
  have white: "list_all blankOnly s" using assms(1) by (simp add: framed_def)
  have n: "c \<noteq> []" "32 \<notin> set c" using isName_blank [OF assms(2)] by simp_all
  have "(\<exists>u v. s = u @ pad c @ v) \<longleftrightarrow> c \<in> set (splitOn 32 s)"
  proof
    assume "\<exists>u v. s = u @ pad c @ v"
    then obtain u v where "s = u @ 32 # (c @ 32 # v)" by (auto simp: pad_def)
    then show "c \<in> set (splitOn 32 s)" using splitOn_sep [of 32 u] splitOn_append_sep [OF n(2)] by simp
  next
    assume "c \<in> set (splitOn 32 s)"
    then obtain xs ys where s: "splitOn 32 s = xs @ c # ys" by (meson split_list)
    have "xs \<noteq> []" "ys \<noteq> []" using splitOn_frame [OF assms(1)] s n(1) by auto
    then have "s = join [32] xs @ 32 # c @ 32 # join [32] ys"
      using join_splitOn [of 32 s] s by (simp add: join_append join_Cons)
    then show "\<exists>u v. s = u @ pad c @ v" by (auto simp: pad_def)
  qed
  then show ?thesis using occurs_in_iff [of "pad c" s] tokens_split [OF white] n(1) by (simp add: occurs_in_def)
qed

lemma classTokens_names: "list_all isName (classTokens s)"
  by (simp add: classTokens_def flagWords_names)

lemma pad_framed: "framed (pad (stripAndCollapse s))"
proof -
  have "list_all blankOnly (join [32] ts)" if "list_all isName ts" for ts
    using that by (induction "[32 :: nat]" ts rule: join.induct) (auto simp: isName_blankOnly)
  then show ?thesis by (auto simp: framed_def pad_def stripAndCollapse_def classTokens_names)
qed

lemma splitOn_names: "list_all isName ts \<Longrightarrow> ts \<noteq> [] \<Longrightarrow> splitOn 32 (join [32] ts) = ts"
proof (induction "[32 :: nat]" ts rule: join.induct)
  case (2 x)
  then show ?case using splitOn_no_sep [of 32 x] isName_blank [of x] by simp
next
  case (3 x y xs)
  then show ?case using splitOn_append_sep [of 32 x "join [32] (y # xs)"] isName_blank [of x] by simp
qed simp

lemma tokens_strip: "classTokens (stripAndCollapse s) = classTokens s"
proof (cases "classTokens s = []")
  case False
  have n: "list_all isName (classTokens s)" by (rule classTokens_names)
  have "list_all blankOnly (stripAndCollapse s)"
    using pad_framed [of s] by (simp add: framed_def pad_def)
  from tokens_split [OF this] show ?thesis
    using splitOn_names [OF n False] n by (auto simp: stripAndCollapse_def isName_def list_all_iff intro!: filter_True)
qed (simp add: stripAndCollapse_def, simp add: classTokens_def)

lemma tokens_pad: "classTokens (pad (stripAndCollapse s)) = classTokens s"
proof -
  have w: "list_all blankOnly (stripAndCollapse s)"
    "list_all blankOnly (pad (stripAndCollapse s))"
    using pad_framed [of s] by (auto simp: framed_def pad_def)
  have "splitOn 32 (pad (stripAndCollapse s)) = [[]] @ splitOn 32 (stripAndCollapse s) @ [[]]"
    using splitOn_sep [of 32 "32 # stripAndCollapse s" "[]"] by (simp add: pad_def)
  then show ?thesis using tokens_split [OF w(1)] tokens_split [OF w(2)] tokens_strip [of s] by simp
qed

lemma framed_white: "framed s \<Longrightarrow> classTokens s = filter (\<lambda>t. t \<noteq> []) (splitOn 32 s)"
  by (rule tokens_split) (simp add: framed_def)

lemma framed_snoc:
  assumes "framed s" "isName c"
  shows "framed (s @ c @ [32]) \<and> classTokens (s @ c @ [32]) = classTokens s @ [c]"
proof -
  have n: "c \<noteq> []" "32 \<notin> set c" using isName_blank [OF assms(2)] by simp_all
  have f: "framed (s @ c @ [32])" using assms by (auto simp: framed_def isName_blankOnly)
  have "s \<noteq> []" "last s = 32" using assms(1) by (simp_all add: framed_def)
  then have u: "s = butlast s @ [32]" by (metis append_butlast_last_id)
  have "splitOn 32 (s @ c @ [32]) = splitOn 32 (butlast s) @ splitOn 32 (c @ 32 # [])"
    using splitOn_sep [of 32 "butlast s" "c @ [32]"] u by (metis append_Cons append_Nil append_assoc)
  also have "splitOn 32 (c @ 32 # []) = [c, []]" using splitOn_append_sep [OF n(2), of "[]"] by simp
  finally have "splitOn 32 (s @ c @ [32]) = splitOn 32 (butlast s) @ [c, []]" .
  moreover have "splitOn 32 s = splitOn 32 (butlast s) @ [[]]"
    using splitOn_sep [of 32 "butlast s" "[]"] u by simp
  ultimately show ?thesis using f framed_white [OF f] framed_white [OF assms(1)] n(1) by simp
qed

definition addName :: "jstring \<Rightarrow> jstring list \<Rightarrow> jstring list" where
  "addName c ts = (if c \<in> set ts then ts else ts @ [c])"

lemma addLoop_tokens:
  "framed s \<Longrightarrow> list_all isName cs \<Longrightarrow> framed (addLoop cs s) \<and> classTokens (addLoop cs s) = fold addName cs (classTokens s)"
proof (induction cs arbitrary: s)
  case (Cons c cs)
  have n: "isName c" "c \<noteq> []" using Cons.prems isName_blank by auto
  show ?case
  proof (cases "c \<in> set (classTokens s)")
    case True
    then have "\<not> indexOf (pad c) s < 0" using pad_occurs [OF Cons.prems(1) n(1)] by simp
    with True n Cons show ?thesis by (simp add: addName_def)
  next
    case False
    then have "indexOf (pad c) s < 0" using pad_occurs [OF Cons.prems(1) n(1)] by simp
    with False n Cons framed_snoc [OF Cons.prems(1) n(1)] show ?thesis by (simp add: addName_def)
  qed
qed simp

lemma replaceFirst_framed:
  assumes "framed s" "isName c" "indexOf (pad c) s > -1"
  shows "framed (replaceFirst (pad c) [32] s) \<and>
    filter (\<lambda>t. t \<noteq> c) (classTokens (replaceFirst (pad c) [32] s)) = filter (\<lambda>t. t \<noteq> c) (classTokens s)"
proof (cases rule: indexOf_cases [of "pad c" s])
  case (found k)
  then obtain v where v: "drop k s = pad c @ v" by (auto simp: startsWith_iff)
  define u where "u = take k s"
  have s: "s = u @ 32 # c @ 32 # v" using v append_take_drop_id [of k s] by (simp add: u_def pad_def)
  have "drop (k + length (pad c)) s = v" using v by (metis add.commute append_eq_conv_conj drop_drop)
  then have r: "replaceFirst (pad c) [32] s = u @ 32 # v"
    using found(2) by (simp add: replaceFirst_def u_def Let_def)
  have n: "c \<noteq> []" "32 \<notin> set c" using isName_blank [OF assms(2)] by simp_all
  have f: "framed (u @ 32 # v)" using assms(1) s by (cases u; cases v) (auto simp: framed_def)
  have "splitOn 32 s = splitOn 32 u @ c # splitOn 32 v"
    using splitOn_sep [of 32 u "c @ 32 # v"] splitOn_append_sep [OF n(2), of v] s by simp
  moreover have "splitOn 32 (u @ 32 # v) = splitOn 32 u @ splitOn 32 v" by (rule splitOn_sep)
  ultimately show ?thesis using f framed_white [OF f] framed_white [OF assms(1)] by (simp add: r)
qed (use assms in simp)

lemma removeAll_tokens:
  "framed s \<Longrightarrow> isName c \<Longrightarrow> framed (removeAllOf c s) \<and> classTokens (removeAllOf c s) = filter (\<lambda>t. t \<noteq> c) (classTokens s)"
proof (induction c s rule: removeAllOf.induct)
  case (1 c s)
  show ?case
  proof (cases "indexOf (pad c) s > -1")
    case True
    from replaceFirst_framed [OF 1(2,3) True] 1(1) [OF True] 1(3) show ?thesis
      by (simp add: removeAllOf.simps [of c s] True)
  next
    case False
    then have "c \<notin> set (classTokens s)" using pad_occurs [OF 1(2,3)] by simp
    then have "filter (\<lambda>t. t \<noteq> c) (classTokens s) = classTokens s" by (auto simp: filter_id_conv)
    with False 1(2) show ?thesis by (simp add: removeAllOf.simps [of c s])
  qed
qed

lemma removeLoop_tokens:
  "framed s \<Longrightarrow> list_all isName cs \<Longrightarrow>
    framed (removeLoop cs s) \<and> classTokens (removeLoop cs s) = filter (\<lambda>t. t \<notin> set cs) (classTokens s)"
proof (induction cs arbitrary: s)
  case (Cons c cs)
  then have "isName c" "c \<noteq> []" using isName_blank by auto
  with Cons removeAll_tokens [OF Cons.prems(1), of c] show ?case by (auto intro: filter_cong)
qed simp

lemma editClass_tokens:
  assumes "nodeType e = 1" "framed (f (pad (stripAndCollapse (getClass e))))"
  shows "classTokens (getClass (editClass f e)) = classTokens (f (pad (stripAndCollapse (getClass e))))"
proof -
  let ?v = "stripAndCollapse (f (pad (stripAndCollapse (getClass e))))"
  have "getClass (setClass ?v e) = ?v" by (simp add: setClass_def) (simp add: getClass_def)
  then show ?thesis using assms(1) by (simp add: editClass_def tokens_strip)
qed

text \<open>Toggling the whole attribute twice brings the names back.\<close>

lemma toggleWhole_twice:
  "nodeType e = 1 \<Longrightarrow> getClass e \<noteq> [] \<Longrightarrow>
    map getClass (toggleClass UndefinedArg None (toggleClass UndefinedArg None [e])) = [getClass e]"
  by (auto simp: toggleClass_def isValidValue_def toggleWhole_def Let_def getClass_def)

lemma addClassFn_const: "addClassFn (\<lambda>_ _. v) es = addClass v es"
proof -
  have "concat (map (\<lambda>(j, e). addClass v [e]) (enumerate n es)) = addClass v es" for n
    by (induction es arbitrary: n) (auto simp: addClass_def Let_def)
  then show ?thesis by (simp add: addClassFn_def eachElement_def)
qed

section \<open>Properties\<close>

text \<open>
  C29. The class functions compute on the list of names: on an element, adding names appends
  those that are missing, removing names removes every occurrence, and the test is membership,
  for every text of the attribute and all names; toggling a name removes it where it is and
  appends it where it is not. Nodes that are not elements stay as they are.
\<close>
theorem class_functions:
  assumes "list_all isName cs" "isName c" "nodeType e = 1"
  shows "map (\<lambda>e. classTokens (getClass e)) (addClass (ClassArray cs) [e]) = [fold addName cs (classTokens (getClass e))] \<and>
    map (\<lambda>e. classTokens (getClass e)) (removeClass (Some (ClassArray cs)) [e]) =
      [filter (\<lambda>t. t \<notin> set cs) (classTokens (getClass e))] \<and>
    hasClass c [e] = (c \<in> set (classTokens (getClass e))) \<and>
    classTokens (getClass (toggleOne c e)) =
      (if c \<in> set (classTokens (getClass e)) then filter (\<lambda>t. t \<noteq> c) (classTokens (getClass e))
       else classTokens (getClass e) @ [c])"
proof -
  let ?s = "pad (stripAndCollapse (getClass e))" and ?ts = "classTokens (getClass e)"
  have f: "framed ?s" by (rule pad_framed)
  have add: "classTokens (getClass (editClass (addLoop ds) e)) = fold addName ds ?ts"
    and rem: "classTokens (getClass (editClass (removeLoop ds) e)) = filter (\<lambda>t. t \<notin> set ds) ?ts"
    if "list_all isName ds" for ds
    using editClass_tokens [OF assms(3)] addLoop_tokens [OF f that] removeLoop_tokens [OF f that] tokens_pad
    by auto
  have has: "hasClass c [e] = (c \<in> set ?ts)"
    using pad_occurs [OF f assms(2)] assms(3) by (simp add: hasClass_def tokens_pad)
  have c: "classTokens c = [c]"
    using tokens_split [of c] splitOn_no_sep [of 32 c] isName_blank [OF assms(2)] isName_blankOnly [OF assms(2)]
    by simp
  have "classTokens (getClass (toggleOne c e)) = (if c \<in> set ?ts then filter (\<lambda>t. t \<noteq> c) ?ts else ?ts @ [c])"
    using add [of "[c]"] rem [of "[c]"] has assms(2)
    by (simp add: toggleOne_def addClass_def removeClass_def classesToArray_def c addName_def)
  then show ?thesis
    using add [OF assms(1)] rem [OF assms(1)] has
    by (auto simp: addClass_def removeClass_def classesToArray_def Let_def)
qed

theorem class_functions_witness:
  "map (\<lambda>e. classTokens (getClass e)) (removeClass (Some (ClassArray [js ''shift'']))
     [\<lparr>nodeType = 1, classAttr = Some (js '' shift nav  shift ''), savedClass = None\<rparr>]) = [[js ''nav'']]"
proof -
  let ?e = "\<lparr>nodeType = 1, classAttr = Some (js '' shift nav  shift ''), savedClass = None\<rparr>"
  have n: "list_all isName [js ''shift'']" "isName (js ''nav'')" by (simp_all add: isName_def htmlWhite_def)
  have "classTokens (getClass ?e) = [js ''shift'', js ''nav'', js ''shift'']"
    by (simp add: classTokens_def getClass_def htmlWhite_def)
  with class_functions [OF n, of ?e] show ?thesis by (simp del: js.simps) (simp add: js.simps)
qed

end
