(* ===== verification/JQuery_Extend.thy ===== *)
theory JQuery_Extend
  imports JS_Prelude "HOL-Library.Monad_Syntax"
begin

text \<open>
  \<open>jQuery.extend\<close> of \<^verbatim>\<open>jquery.js\<close>, which copies properties from objects into a target, at any
  depth when the first argument is \<open>true\<close>, and the tests \<open>isPlainObject\<close> and \<open>isEmptyObject\<close>. What it promises
  is about sharing (\<open>Never move original objects, clone them\<close>), so objects live in a heap. The
  copy of a cyclic object does not end: the loop is a partial function. The lemmas show that a deep
  copy of a finite object ends, has the contents of the original and shares no object with it.
\<close>

section \<open>Values and objects\<close>

datatype hval = UndefV | NullV | BoolV bool | NumV int | StrV jstring | RefV nat

text \<open>What \<open>toString.call\<close> tells, and the \<open>constructor\<close> property of the prototype.\<close>

datatype otag = ObjectTag | ArrayTag | FunctionTag | OtherTag

datatype ctorKind = NoCtor | ObjectCtor | OtherCtor

text \<open>An object: its prototype (\<open>None\<close> is \<open>Object.create(null)\<close>) and its enumerable properties.\<close>

record jobject =
  tag :: otag
  proto :: "ctorKind option"
  props :: "(jstring \<times> hval) list"

record heap =
  objs :: "nat \<Rightarrow> jobject"
  nextRef :: nat

definition emptyObject :: jobject where
  "emptyObject = \<lparr>tag = ObjectTag, proto = Some ObjectCtor, props = []\<rparr>"

definition emptyArray :: jobject where
  "emptyArray = \<lparr>tag = ArrayTag, proto = Some OtherCtor, props = []\<rparr>"

definition alloc :: "jobject \<Rightarrow> heap \<Rightarrow> heap \<times> nat" where
  "alloc ob h = (h\<lparr>objs := (objs h)(nextRef h := ob), nextRef := Suc (nextRef h)\<rparr>, nextRef h)"

text \<open>The properties \<open>for (name in v)\<close> visits; a text has its characters.\<close>

definition propsOf :: "heap \<Rightarrow> hval \<Rightarrow> (jstring \<times> hval) list" where
  "propsOf h v =
     (case v of
        RefV r \<Rightarrow> props (objs h r)
      | StrV s \<Rightarrow> map (\<lambda>(i, c). (dec i, StrV [c])) (enumerate 0 s)
      | _ \<Rightarrow> [])"

definition getV :: "heap \<Rightarrow> hval \<Rightarrow> jstring \<Rightarrow> hval" where
  "getV h v n = (case map_of (propsOf h v) n of Some w \<Rightarrow> w | None \<Rightarrow> UndefV)"

fun setProp :: "jstring \<Rightarrow> hval \<Rightarrow> (jstring \<times> hval) list \<Rightarrow> (jstring \<times> hval) list" where
  "setProp n v [] = [(n, v)]"
| "setProp n v ((m, w) # ps) = (if m = n then (n, v) # ps else (m, w) # setProp n v ps)"

definition setV :: "nat \<Rightarrow> jstring \<Rightarrow> hval \<Rightarrow> heap \<Rightarrow> heap" where
  "setV r n v h = h\<lparr>objs := (objs h)(r := (objs h r)\<lparr>props := setProp n v (props (objs h r))\<rparr>)\<rparr>"

definition isArrayJ :: "heap \<Rightarrow> hval \<Rightarrow> bool" where
  "isArrayJ h v = (case v of RefV r \<Rightarrow> tag (objs h r) = ArrayTag | _ \<Rightarrow> False)"

definition isPlainObject :: "heap \<Rightarrow> hval \<Rightarrow> bool" where
  "isPlainObject h v =
     (case v of
        RefV r \<Rightarrow>
          (if tag (objs h r) \<noteq> ObjectTag then False
           else case proto (objs h r) of None \<Rightarrow> True | Some k \<Rightarrow> k = ObjectCtor)
      | _ \<Rightarrow> False)"

definition isEmptyObject :: "heap \<Rightarrow> hval \<Rightarrow> bool" where
  "isEmptyObject h v \<longleftrightarrow> propsOf h v = []"

section \<open>Extending\<close>

text \<open>The object that takes the copy of a property.\<close>

definition cloneFor :: "heap \<Rightarrow> hval \<Rightarrow> bool \<Rightarrow> heap \<times> nat" where
  "cloneFor h src copyIsArray =
     (if copyIsArray \<and> \<not> isArrayJ h src then alloc emptyArray h
      else if \<not> copyIsArray \<and> \<not> isPlainObject h src then alloc emptyObject h
      else case src of RefV r \<Rightarrow> (h, r) | _ \<Rightarrow> alloc emptyObject h)"

text \<open>The loop over the names of one source; \<open>None\<close> is a call that does not return.\<close>

partial_function (option) mergeInto :: "bool \<Rightarrow> nat \<Rightarrow> hval \<Rightarrow> jstring list \<Rightarrow> heap \<Rightarrow> heap option" where
  "mergeInto deep target options names h =
     (case names of
        [] \<Rightarrow> Some h
      | name # rest \<Rightarrow>
          (let copy = getV h options name
           in if name = js ''__proto__'' \<or> copy = RefV target then mergeInto deep target options rest h
              else if deep \<and> (isPlainObject h copy \<or> isArrayJ h copy) then
                (let c = cloneFor h (getV h (RefV target) name) (\<not> isPlainObject h copy)
                 in Option.bind (mergeInto deep (snd c) copy (map fst (propsOf (fst c) copy)) (fst c))
                      (\<lambda>h2. mergeInto deep target options rest (setV target name (RefV (snd c)) h2)))
              else mergeInto deep target options rest (if copy \<noteq> UndefV then setV target name copy h else h)))"

fun extendLoop :: "bool \<Rightarrow> nat \<Rightarrow> hval list \<Rightarrow> heap \<Rightarrow> heap option" where
  "extendLoop deep target [] h = Some h"
| "extendLoop deep target (options # as) h =
     (if options \<noteq> NullV \<and> options \<noteq> UndefV
      then Option.bind (mergeInto deep target options (map fst (propsOf h options)) h) (extendLoop deep target as)
      else extendLoop deep target as h)"

definition truthyH :: "hval \<Rightarrow> bool" where
  "truthyH v \<longleftrightarrow> v \<notin> {UndefV, NullV, BoolV False, NumV 0, StrV []}"

text \<open>\<open>v || {}\<close>.\<close>

definition orNew :: "heap \<Rightarrow> hval \<Rightarrow> heap \<times> hval" where
  "orNew h v = (if truthyH v then (h, v) else (fst (alloc emptyObject h), RefV (snd (alloc emptyObject h))))"

definition extendJ :: "heap \<Rightarrow> nat \<Rightarrow> hval list \<Rightarrow> (heap \<times> hval) option" where
  "extendJ h this args =
     (let arg = (\<lambda>i. if i < length args then args ! i else UndefV);
          (h1, t1) = orNew h (arg 0);
          (deep, i, h2, t2) =
            (case t1 of BoolV b \<Rightarrow> (b, 2, fst (orNew h1 (arg 1)), snd (orNew h1 (arg 1))) | _ \<Rightarrow> (False, 1, h1, t1));
          (h3, t3) = (case t2 of RefV r \<Rightarrow> (h2, r) | _ \<Rightarrow> alloc emptyObject h2);
          (t, j) = (if i = length args then (this, i - 1) else (t3, i))
      in map_option (\<lambda>h'. (h', RefV t)) (extendLoop deep t (drop j args) h3))"

section \<open>Lemmas: what a copy is\<close>

text \<open>
  The contents of a value as a tree; a leaf is a value that is copied as it is. \<open>denotes A h v T\<close>: the
  value has the contents \<open>T\<close>, and its objects are at addresses of \<open>A\<close>.
\<close>

datatype tree = Val hval | Tree bool "(jstring \<times> tree) list"

fun denotes :: "nat set \<Rightarrow> heap \<Rightarrow> hval \<Rightarrow> tree \<Rightarrow> bool"
  and denotesL :: "nat set \<Rightarrow> heap \<Rightarrow> (jstring \<times> hval) list \<Rightarrow> (jstring \<times> tree) list \<Rightarrow> bool" where
  "denotes A h v (Val w) \<longleftrightarrow>
     v = w \<and> \<not> isPlainObject h v \<and> \<not> isArrayJ h v \<and> (case v of RefV r \<Rightarrow> r < nextRef h | _ \<Rightarrow> True)"
| "denotes A h v (Tree arr ts) \<longleftrightarrow>
     (case v of
        RefV r \<Rightarrow>
          r \<in> A \<and> r < nextRef h \<and> isPlainObject h v = (\<not> arr) \<and> isArrayJ h v = arr \<and>
          distinct (map fst (props (objs h r))) \<and> denotesL A h (props (objs h r)) ts
      | _ \<Rightarrow> False)"
| "denotesL A h [] ts \<longleftrightarrow> ts = []"
| "denotesL A h (p # ps) [] \<longleftrightarrow> False"
| "denotesL A h ((n, w) # ps) ((m, t) # ts) \<longleftrightarrow> n = m \<and> denotes A h w t \<and> denotesL A h ps ts"

text \<open>The contents without the properties that are not brought over.\<close>

fun clean :: "tree \<Rightarrow> tree" and cleanL :: "(jstring \<times> tree) list \<Rightarrow> (jstring \<times> tree) list" where
  "clean (Val v) = Val v"
| "clean (Tree arr ts) = Tree arr (cleanL ts)"
| "cleanL [] = []"
| "cleanL ((n, t) # ts) = (if n = js ''__proto__'' \<or> t = Val UndefV then cleanL ts else (n, clean t) # cleanL ts)"

text \<open>Later heaps: nothing is freed and objects keep their kind.\<close>

definition grows :: "heap \<Rightarrow> heap \<Rightarrow> bool" where
  "grows h h' \<longleftrightarrow> nextRef h \<le> nextRef h' \<and>
     (\<forall>a < nextRef h. tag (objs h' a) = tag (objs h a) \<and> proto (objs h' a) = proto (objs h a))"

lemma grows_refl [simp]: "grows h h"
  by (simp add: grows_def)

lemma grows_trans: "grows h h' \<Longrightarrow> grows h' h'' \<Longrightarrow> grows h h''"
  by (auto simp: grows_def)

lemma grows_setV [simp]: "grows h (setV r n v h)"
  by (simp add: grows_def setV_def)

lemma grows_alloc [simp]: "grows h (fst (alloc ob h))"
  by (simp add: grows_def alloc_def)

lemma grows_kinds:
  assumes "grows h h'" "case v of RefV r \<Rightarrow> r < nextRef h | _ \<Rightarrow> True"
  shows "isPlainObject h' v = isPlainObject h v" "isArrayJ h' v = isArrayJ h v"
  using assms by (auto simp: grows_def isPlainObject_def isArrayJ_def split: hval.splits)

lemma denotes_frame:
  "denotes A h v T \<Longrightarrow> grows h h' \<Longrightarrow> \<forall>a \<in> A. a < nextRef h \<longrightarrow> objs h' a = objs h a \<Longrightarrow> A \<subseteq> B \<Longrightarrow> denotes B h' v T"
  "denotesL A h ps ts \<Longrightarrow> grows h h' \<Longrightarrow> \<forall>a \<in> A. a < nextRef h \<longrightarrow> objs h' a = objs h a \<Longrightarrow> A \<subseteq> B \<Longrightarrow> denotesL B h' ps ts"
proof (induction A h v T and A h ps ts rule: denotes_denotesL.induct)
  case (1 A h v w)
  then show ?case using grows_kinds [of h h' v] by (auto simp: grows_def split: hval.splits)
next
  case (2 A h v arr ts)
  then show ?case using grows_kinds [of h h' v] by (auto simp: grows_def split: hval.splits)
qed auto

lemma denotesL_names: "denotesL A h ps ts \<Longrightarrow> map fst ps = map fst ts"
  by (induction ps arbitrary: ts) (auto elim: denotesL.elims)

lemma cleanL_mem: "(n, t) \<in> set (cleanL ts) \<Longrightarrow> n \<in> fst ` set ts"
proof (induction ts)
  case (Cons p ts)
  then show ?case by (cases p) (auto split: if_splits)
qed simp

lemma cleanL_distinct: "distinct (map fst ts) \<Longrightarrow> distinct (map fst (cleanL ts))"
proof (induction ts)
  case (Cons p ts)
  then show ?case using cleanL_mem [of _ _ ts] by (cases p) (auto simp del: js.simps)
qed simp

lemma setProp_new: "n \<notin> fst ` set ps \<Longrightarrow> setProp n v ps = ps @ [(n, v)]"
  by (induction n v ps rule: setProp.induct) auto

lemma setV_new:
  "n \<notin> fst ` set (props (objs h r)) \<Longrightarrow>
    objs (setV r n v h) r = (objs h r)\<lparr>props := props (objs h r) @ [(n, v)]\<rparr>"
  by (simp add: setV_def setProp_new)

lemma setV_other [simp]: "a \<noteq> r \<Longrightarrow> objs (setV r n v h) a = objs h a" "nextRef (setV r n v h) = nextRef h"
  by (simp_all add: setV_def)

text \<open>One round of the loop, by the kind of property.\<close>

lemma mergeInto_skip:
  "name = js ''__proto__'' \<or> getV h options name = UndefV \<Longrightarrow>
    mergeInto deep target options (name # rest) h = mergeInto deep target options rest h"
  by (subst mergeInto.simps) (auto simp: Let_def isPlainObject_def isArrayJ_def)

lemma mergeInto_value:
  assumes "name \<noteq> js ''__proto__''" "getV h options name = v" "v \<noteq> RefV target" "v \<noteq> UndefV"
    "\<not> isPlainObject h v" "\<not> isArrayJ h v"
  shows "mergeInto deep target options (name # rest) h = mergeInto deep target options rest (setV target name v h)"
  using assms by (subst mergeInto.simps) (simp del: js.simps)

lemma mergeInto_object:
  assumes "name \<noteq> js ''__proto__''" "getV h options name = v" "v \<noteq> RefV target"
    "isPlainObject h v = (\<not> arr)" "isArrayJ h v = arr" "getV h (RefV target) name = UndefV"
  shows "mergeInto True target options (name # rest) h =
    Option.bind (mergeInto True (nextRef h) v (map fst (propsOf (fst (alloc (if arr then emptyArray else emptyObject) h)) v))
        (fst (alloc (if arr then emptyArray else emptyObject) h)))
      (\<lambda>h2. mergeInto True target options rest (setV target name (RefV (nextRef h)) h2))"
proof -
  have "cloneFor h UndefV arr = (fst (alloc (if arr then emptyArray else emptyObject) h), nextRef h)"
    by (simp add: cloneFor_def isPlainObject_def isArrayJ_def alloc_def)
  with assms show ?thesis by (subst mergeInto.simps) (simp del: js.simps)
qed

text \<open>The result of the loop for a target at \<open>t\<close>: the properties are appended, their objects are new.\<close>

definition copied :: "nat \<Rightarrow> (jstring \<times> tree) list \<Rightarrow> heap \<Rightarrow> heap \<Rightarrow> (jstring \<times> hval) list \<Rightarrow> bool" where
  "copied t ts h h' new \<longleftrightarrow>
     grows h h' \<and> (\<forall>a < nextRef h. a \<noteq> t \<longrightarrow> objs h' a = objs h a) \<and>
     objs h' t = (objs h t)\<lparr>props := props (objs h t) @ new\<rparr> \<and>
     denotesL {nextRef h..<nextRef h'} h' new (cleanL ts)"

definition container :: "heap \<Rightarrow> nat \<Rightarrow> bool" where
  "container h t \<longleftrightarrow> isPlainObject h (RefV t) \<or> isArrayJ h (RefV t)"

definition copies :: "(jstring \<times> tree) list \<Rightarrow> bool" where
  "copies ts \<longleftrightarrow>
     (\<forall>A h t r ps.
        A \<subseteq> {..<nextRef h} \<longrightarrow> t \<notin> A \<longrightarrow> t < nextRef h \<longrightarrow> container h t \<longrightarrow> r \<in> A \<longrightarrow>
        (\<forall>(n, w) \<in> set ps. getV h (RefV r) n = w) \<longrightarrow> distinct (map fst ps) \<longrightarrow>
        fst ` set ps \<inter> fst ` set (props (objs h t)) = {} \<longrightarrow> denotesL A h ps ts \<longrightarrow>
        (\<exists>h' new. mergeInto True t (RefV r) (map fst ps) h = Some h' \<and> copied t ts h h' new))"

lemma copied_value:
  assumes "copied t ts (setV t n v h) h' new" "n \<notin> fst ` set (props (objs h t))" "denotes A h v (Val v)"
    "n \<noteq> js ''__proto__''" "v \<noteq> UndefV"
  shows "copied t ((n, Val v) # ts) h h' ((n, v) # new)"
proof -
  have g: "grows h h'" using assms(1) grows_trans [OF grows_setV] by (auto simp: copied_def)
  have "denotes {nextRef h..<nextRef h'} h' v (Val v)"
    using assms(3) grows_kinds [OF g, of v] g by (auto simp: grows_def split: hval.splits)
  with g assms setV_new [OF assms(2), of v] show ?thesis by (auto simp: copied_def simp del: js.simps)
qed

lemma copied_object:
  assumes t: "t < nextRef h" and n: "n \<notin> fst ` set (props (objs h t))" "n \<noteq> js ''__proto__''"
    and sub: "copied (nextRef h) us (fst (alloc (if arr then emptyArray else emptyObject) h)) h2 new1"
    and rest: "copied t ts (setV t n (RefV (nextRef h)) h2) h' new"
    and d: "distinct (map fst us)"
  shows "copied t ((n, Tree arr us) # ts) h h' ((n, RefV (nextRef h)) # new)"
proof -
  let ?c = "nextRef h" and ?ob = "if arr then emptyArray else emptyObject"
  let ?h1 = "fst (alloc ?ob h)" and ?h3 = "setV t n (RefV (nextRef h)) h2"
  have h1: "nextRef ?h1 = Suc ?c" "objs ?h1 ?c = ?ob" "\<And>a. a \<noteq> ?c \<Longrightarrow> objs ?h1 a = objs h a"
    by (simp_all add: alloc_def)
  have g1: "grows h ?h1" by simp
  have g2: "grows ?h1 h2" and g3: "grows ?h3 h'" using sub rest by (auto simp: copied_def)
  have g23: "grows h2 h'" by (rule grows_trans [OF grows_setV g3])
  have g: "grows h h'" using grows_trans [OF grows_trans [OF g1 g2] g23] .
  have n2: "Suc ?c \<le> nextRef h2" "nextRef h2 \<le> nextRef h'" using g2 g23 h1(1) by (auto simp: grows_def)
  have t2: "objs h2 t = objs h t" using sub t h1 by (auto simp: copied_def)
  have c2: "objs h2 ?c = ?ob\<lparr>props := new1\<rparr>" using sub h1(2) by (auto simp: copied_def emptyArray_def emptyObject_def)
  have keep: "objs h' a = objs h2 a" if "a < nextRef h2" "a \<noteq> t" for a
    using rest that by (auto simp: copied_def)
  have old: "objs h' a = objs h a" if "a < ?c" "a \<noteq> t" for a
    using keep [of a] that n2 sub h1 by (auto simp: copied_def)
  have tgt: "objs h' t = (objs h t)\<lparr>props := props (objs h t) @ (n, RefV ?c) # new\<rparr>"
    using rest setV_new [of n h2 t "RefV ?c"] n(1) t2 by (auto simp: copied_def)
  have c': "objs h' ?c = ?ob\<lparr>props := new1\<rparr>" using keep [of ?c] n2 t c2 by auto
  have new1: "denotesL {Suc ?c..<nextRef h2} h2 new1 (cleanL us)" using sub h1(1) by (auto simp: copied_def)
  then have "distinct (map fst new1)" using denotesL_names cleanL_distinct [OF d] by metis
  moreover have "denotesL {?c..<nextRef h'} h' new1 (cleanL us)"
    by (rule denotes_frame(2) [OF new1 g23]) (use keep t n2 in auto)
  ultimately have "denotes {?c..<nextRef h'} h' (RefV ?c) (Tree arr (cleanL us))"
    using c' n2 by (auto simp: isPlainObject_def isArrayJ_def emptyArray_def emptyObject_def)
  moreover have "denotesL {?c..<nextRef h'} h' new (cleanL ts)"
    using rest n2 by (auto simp: copied_def intro: denotes_frame(2) [where h = h' and h' = h'])
  ultimately show ?thesis using g old tgt n(2) by (auto simp: copied_def simp del: js.simps)
qed

lemma getV_absent: "n \<notin> fst ` set (props (objs h t)) \<Longrightarrow> getV h (RefV t) n = UndefV"
  by (auto simp: getV_def propsOf_def map_of_eq_None_iff [symmetric] split: option.split)

lemma getV_own: "distinct (map fst (props (objs h r))) \<Longrightarrow> (n, w) \<in> set (props (objs h r)) \<Longrightarrow> getV h (RefV r) n = w"
  by (simp add: getV_def propsOf_def)

lemma getV_cong: "objs h' r = objs h r \<Longrightarrow> getV h' (RefV r) n = getV h (RefV r) n"
  by (simp add: getV_def propsOf_def)

lemma copied_refl: "cleanL ts = [] \<Longrightarrow> copied t ts h h []"
  by (simp add: copied_def)

lemma copied_skip: "copied t ts h h' new \<Longrightarrow> n = js ''__proto__'' \<or> u = Val UndefV \<Longrightarrow> copied t ((n, u) # ts) h h' new"
  by (auto simp: copied_def simp del: js.simps)

text \<open>The loop goes on from a heap in which the target has one property more.\<close>

lemma copies_next:
  assumes c: "copies ts" and A: "A \<subseteq> {..<nextRef h}" "t \<notin> A" "t < nextRef h" "r \<in> A"
    and k: "container h t"
    and ps: "\<forall>(m, w) \<in> set ps. getV h (RefV r) m = w" "distinct (n # map fst ps)" "denotesL A h ps ts"
      "fst ` set ps \<inter> fst ` set (props (objs h t)) = {}" "n \<notin> fst ` set (props (objs h t))"
    and h2: "grows h h2" "\<forall>a < nextRef h. objs h2 a = objs h a"
  shows "\<exists>h' new. mergeInto True t (RefV r) (map fst ps) (setV t n v h2) = Some h' \<and>
    copied t ts (setV t n v h2) h' new"
proof -
  let ?h = "setV t n v h2"
  have le: "nextRef h \<le> nextRef h2" using h2(1) by (simp add: grows_def)
  have same: "objs ?h a = objs h a" if "a \<in> A" for a using that A h2(2) by (cases "a = t") auto
  have t: "props (objs ?h t) = props (objs h t) @ [(n, v)]"
    using setV_new [of n h2 t v] ps(5) h2(2) A(3) by simp
  have d: "denotesL A ?h ps ts"
    by (rule denotes_frame(2) [OF ps(3) grows_trans [OF h2(1) grows_setV]]) (use same in auto)
  have get: "\<forall>(m, w) \<in> set ps. getV ?h (RefV r) m = w" using ps(1) getV_cong [OF same [OF A(4)]] by simp
  have "A \<subseteq> {..<nextRef ?h}" "t < nextRef ?h" using A le by auto
  moreover have "fst ` set ps \<inter> fst ` set (props (objs ?h t)) = {}" using ps(2,4) t by auto
  moreover have "container ?h t"
    using k grows_kinds [OF grows_trans [OF h2(1) grows_setV], of "RefV t"] A(3) by (simp add: container_def)
  ultimately show ?thesis
    using c [unfolded copies_def, rule_format, of A ?h t r ps] A(2,4) get ps(2) d by auto
qed

lemma copies_value:
  assumes "copies ts"
  shows "copies ((n, Val v) # ts)"
  unfolding copies_def
proof (intro allI impI)
  fix A h t r and ps :: "(jstring \<times> hval) list"
  assume A: "A \<subseteq> {..<nextRef h}" "t \<notin> A" "t < nextRef h" and k: "container h t" and r: "r \<in> A"
    and get: "\<forall>(m, w) \<in> set ps. getV h (RefV r) m = w" and dist: "distinct (map fst ps)"
    and dis: "fst ` set ps \<inter> fst ` set (props (objs h t)) = {}" and den: "denotesL A h ps ((n, Val v) # ts)"
  obtain qs where ps: "ps = (n, v) # qs" and d: "denotes A h v (Val v)" "denotesL A h qs ts"
    using den by (cases ps) auto
  show "\<exists>h' new. mergeInto True t (RefV r) (map fst ps) h = Some h' \<and> copied t ((n, Val v) # ts) h h' new"
  proof (cases "n = js ''__proto__'' \<or> v = UndefV")
    case True
    obtain h' new where "mergeInto True t (RefV r) (map fst qs) h = Some h'" "copied t ts h h' new"
      using assms [unfolded copies_def, rule_format, of A h t r qs] A k r get dist dis d(2) ps by auto
    moreover have "mergeInto True t (RefV r) (map fst ps) h = mergeInto True t (RefV r) (map fst qs) h"
      using mergeInto_skip [of n h "RefV r"] True get ps by auto
    ultimately show ?thesis using copied_skip [of t ts h h' new n "Val v"] True by auto
  next
    case False
    have "\<exists>h' new. mergeInto True t (RefV r) (map fst qs) (setV t n v h) = Some h' \<and> copied t ts (setV t n v h) h' new"
      by (rule copies_next [OF assms A r k]) (use get dist dis d(2) ps in auto)
    moreover have "v \<noteq> RefV t" using d(1) k by (auto simp: container_def)
    then have "mergeInto True t (RefV r) (map fst ps) h = mergeInto True t (RefV r) (map fst qs) (setV t n v h)"
      using mergeInto_value [of n h "RefV r" v t] False get ps d(1) k by (auto simp: container_def simp del: js.simps)
    moreover have "n \<notin> fst ` set (props (objs h t))" using dis ps by auto
    ultimately show ?thesis using copied_value [OF _ _ d(1)] False by metis
  qed
qed

lemma copies_object:
  assumes "copies ts" "copies us"
  shows "copies ((n, Tree arr us) # ts)"
  unfolding copies_def
proof (intro allI impI)
  fix A h t r and ps :: "(jstring \<times> hval) list"
  assume A: "A \<subseteq> {..<nextRef h}" "t \<notin> A" "t < nextRef h" and k: "container h t" and r: "r \<in> A"
    and get: "\<forall>(m, w) \<in> set ps. getV h (RefV r) m = w" and dist: "distinct (map fst ps)"
    and dis: "fst ` set ps \<inter> fst ` set (props (objs h t)) = {}" and den: "denotesL A h ps ((n, Tree arr us) # ts)"
  obtain q qs where ps: "ps = (n, RefV q) # qs" and d: "denotes A h (RefV q) (Tree arr us)" "denotesL A h qs ts"
    using den by (cases ps) (auto split: hval.splits)
  have n: "n \<notin> fst ` set (props (objs h t))" using dis ps by auto
  have q: "q \<in> A" "distinct (map fst (props (objs h q)))" "denotesL A h (props (objs h q)) us" using d(1) by auto
  show "\<exists>h' new. mergeInto True t (RefV r) (map fst ps) h = Some h' \<and> copied t ((n, Tree arr us) # ts) h h' new"
  proof (cases "n = js ''__proto__''")
    case True
    obtain h' new where "mergeInto True t (RefV r) (map fst qs) h = Some h'" "copied t ts h h' new"
      using assms(1) [unfolded copies_def, rule_format, of A h t r qs] A k r get dist dis d(2) ps by auto
    moreover have "mergeInto True t (RefV r) (map fst ps) h = mergeInto True t (RefV r) (map fst qs) h"
      using mergeInto_skip [of n h "RefV r"] True ps by auto
    ultimately show ?thesis using copied_skip True by metis
  next
    case False
    let ?c = "nextRef h" and ?h1 = "fst (alloc (if arr then emptyArray else emptyObject) h)"
    have h1: "nextRef ?h1 = Suc ?c" "props (objs ?h1 ?c) = []" "\<And>a. a \<in> A \<Longrightarrow> objs ?h1 a = objs h a" "container ?h1 ?c"
      using A(1) by (auto simp: alloc_def emptyArray_def emptyObject_def container_def isPlainObject_def isArrayJ_def)
    have "denotesL A ?h1 (props (objs h q)) us"
      by (rule denotes_frame(2) [OF q(3) grows_alloc]) (use h1(3) in auto)
    moreover have "\<forall>(m, w) \<in> set (props (objs h q)). getV ?h1 (RefV q) m = w"
      using getV_own [of ?h1 q] h1(3) [OF q(1)] q(2) by auto
    ultimately obtain h2 new1
      where s: "mergeInto True ?c (RefV q) (map fst (props (objs h q))) ?h1 = Some h2" "copied ?c us ?h1 h2 new1"
      using assms(2) [unfolded copies_def, rule_format, of A ?h1 ?c q "props (objs h q)"] A(1) q(1,2) h1 by force
    have g: "grows h h2" using grows_trans [OF grows_alloc] s(2) by (auto simp: copied_def)
    have "\<forall>a < nextRef h. objs h2 a = objs h a" using s(2) h1(1) by (auto simp: copied_def alloc_def)
    from copies_next [OF assms(1) A r k _ _ d(2) _ n g this, of "RefV ?c"] obtain h' new
      where e: "mergeInto True t (RefV r) (map fst qs) (setV t n (RefV ?c) h2) = Some h'"
        "copied t ts (setV t n (RefV ?c) h2) h' new"
      using get dist dis ps by auto
    have "map fst (propsOf ?h1 (RefV q)) = map fst (props (objs h q))" using h1(3) [OF q(1)] by (simp add: propsOf_def)
    then have "mergeInto True t (RefV r) (map fst ps) h = Some h'"
      using mergeInto_object [of n h "RefV r" "RefV q" t arr "map fst qs"] False get ps d(1) A(2) q(1) getV_absent [OF n] s(1) e(1)
      by (auto simp del: js.simps)
    moreover have "distinct (map fst us)" using denotesL_names [OF q(3)] q(2) by simp
    ultimately show ?thesis using copied_object [OF A(3) n False s(2) e(2)] by blast
  qed
qed

lemma copies_Nil: "copies []"
  unfolding copies_def
proof (intro allI impI)
  fix A h t r and ps :: "(jstring \<times> hval) list"
  assume "denotesL A h ps []"
  then have "ps = []" by (cases ps) auto
  then show "\<exists>h' new. mergeInto True t (RefV r) (map fst ps) h = Some h' \<and> copied t [] h h' new"
    using copied_refl [of "[]" t h] by (auto simp: mergeInto.simps)
qed

lemma copies_list: "(\<forall>(n, T) \<in> set ts. case T of Tree arr us \<Rightarrow> copies us | Val v \<Rightarrow> True) \<Longrightarrow> copies ts"
proof (induction ts)
  case (Cons p ts)
  obtain n T where p: "p = (n, T)" by fastforce
  with Cons show ?case by (cases T) (auto intro: copies_value copies_object)
qed (rule copies_Nil)

lemma copies_all: "copies ts"
proof -
  have "case T of Tree arr us \<Rightarrow> copies us | Val v \<Rightarrow> True" for T
  proof (induction T)
    case (Tree arr us)
    then show ?case by (auto intro!: copies_list)
  qed simp
  then show ?thesis by (auto intro: copies_list)
qed

text \<open>Without the flag the values themselves are taken over, and only the target changes.\<close>

lemma map_of_setProp: "map_of (setProp n v ps) = (map_of ps)(n \<mapsto> v)"
  by (induction n v ps rule: setProp.induct) auto

lemma getV_setV: "getV (setV t n v h) (RefV t) m = (if m = n then v else getV h (RefV t) m)"
  by (simp add: getV_def propsOf_def setV_def map_of_setProp)

lemma mergeInto_shallow:
  "r \<noteq> t \<Longrightarrow> \<exists>h'. mergeInto False t (RefV r) names h = Some h' \<and> (\<forall>a. a \<noteq> t \<longrightarrow> objs h' a = objs h a) \<and>
    (\<forall>m. getV h' (RefV t) m =
      (if m \<in> set names \<and> m \<noteq> js ''__proto__'' \<and> getV h (RefV r) m \<notin> {UndefV, RefV t} then getV h (RefV r) m
       else getV h (RefV t) m))"
proof (induction names arbitrary: h)
  case (Cons n ns)
  let ?v = "getV h (RefV r) n"
  show ?case
  proof (cases "n = js ''__proto__'' \<or> ?v \<in> {UndefV, RefV t}")
    case True
    then have "mergeInto False t (RefV r) (n # ns) h = mergeInto False t (RefV r) ns h"
      by (subst mergeInto.simps) (auto simp: Let_def simp del: js.simps)
    with Cons.IH [OF Cons.prems, of h] True show ?thesis by (auto simp del: js.simps)
  next
    case False
    let ?h = "setV t n ?v h"
    have "mergeInto False t (RefV r) (n # ns) h = mergeInto False t (RefV r) ns ?h"
      using False by (subst mergeInto.simps) (simp del: js.simps)
    moreover have "getV ?h (RefV r) m = getV h (RefV r) m" for m
      by (rule getV_cong) (use Cons.prems in simp)
    ultimately show ?thesis
      using Cons.IH [OF Cons.prems, of ?h] False by (auto simp: getV_setV simp del: js.simps)
  qed
qed (simp add: mergeInto.simps)

text \<open>With \<open>false\<close> as the first argument the second one is a source, and a new object is returned.\<close>

lemma extend_false: "extendJ h this (BoolV False # x # xs) = extendJ h this (NullV # x # xs)"
  by (simp add: extendJ_def orNew_def truthyH_def alloc_def)

section \<open>Properties\<close>

text \<open>
  C24. A deep copy is complete and shares nothing: for an object of finite depth, \<open>extend(true, {}, x)\<close>
  returns, its result has the contents of \<open>x\<close> at every depth (except properties that are undefined or named
  \<^verbatim>\<open>__proto__\<close>), all its objects and arrays are the given target or new, and no object that
  existed before is changed except the target.
\<close>
theorem deep_copy_is_fresh:
  assumes "denotes A h (RefV r) (Tree arr ts)" "A \<subseteq> {..<nextRef h}" "t \<notin> A" "t < nextRef h" "objs h t = emptyObject"
  shows "\<exists>h'. extendJ h this [BoolV True, RefV t, RefV r] = Some (h', RefV t) \<and>
    denotes (insert t {nextRef h..<nextRef h'}) h' (RefV t) (clean (Tree False ts)) \<and>
    (\<forall>a < nextRef h. a \<noteq> t \<longrightarrow> objs h' a = objs h a)"
proof -
  let ?ps = "props (objs h r)"
  have r: "r \<in> A" "distinct (map fst ?ps)" "denotesL A h ?ps ts" using assms(1) by auto
  have "\<forall>(n, w) \<in> set ?ps. getV h (RefV r) n = w" using getV_own [OF r(2)] by auto
  moreover have "container h t" "props (objs h t) = []"
    using assms(5) by (simp_all add: container_def isPlainObject_def emptyObject_def)
  ultimately obtain h' new
    where m: "mergeInto True t (RefV r) (map fst ?ps) h = Some h'" and c: "copied t ts h h' new"
    using copies_all [of ts, unfolded copies_def, rule_format, of A h t r ?ps] assms r by auto
  have "extendJ h this [BoolV True, RefV t, RefV r] = Some (h', RefV t)"
    using m by (simp add: extendJ_def orNew_def truthyH_def propsOf_def)
  moreover have "distinct (map fst new)"
    using c cleanL_distinct [of ts] denotesL_names [OF r(3)] r(2) denotesL_names [of _ _ new "cleanL ts"]
    by (metis copied_def)
  moreover have "denotesL (insert t {nextRef h..<nextRef h'}) h' new (cleanL ts)"
    using c by (auto simp: copied_def intro: denotes_frame(2) [where h = h' and h' = h'])
  ultimately show ?thesis
    using c assms(4,5) by (auto simp: copied_def grows_def isPlainObject_def isArrayJ_def emptyObject_def)
qed

theorem deep_copy_is_fresh_witness:
  "\<exists>h'. extendJ \<lparr>objs = (\<lambda>_. emptyObject)(0 := emptyObject\<lparr>props := [(js ''a'', RefV 1), (js ''b'', UndefV)]\<rparr>,
        1 := emptyArray\<lparr>props := [(js ''0'', NumV 5)]\<rparr>), nextRef = 3\<rparr> 0 [BoolV True, RefV 2, RefV 0] = Some (h', RefV 2) \<and>
    denotes (insert 2 {3..<nextRef h'}) h' (RefV 2) (Tree False [(js ''a'', Tree True [(js ''0'', Val (NumV 5))])])"
proof -
  let ?h = "\<lparr>objs = (\<lambda>_. emptyObject)(0 := emptyObject\<lparr>props := [(js ''a'', RefV 1), (js ''b'', UndefV)]\<rparr>,
        1 := emptyArray\<lparr>props := [(js ''0'', NumV 5)]\<rparr>), nextRef = 3\<rparr>"
  let ?ts = "[(js ''a'', Tree True [(js ''0'', Val (NumV 5))]), (js ''b'', Val UndefV)]"
  have "denotes {0, 1} ?h (RefV 0) (Tree False ?ts)"
    by (simp add: isPlainObject_def isArrayJ_def emptyObject_def emptyArray_def)
  moreover have "{0, 1} \<subseteq> {..<nextRef ?h}" "2 \<notin> {0, 1 :: nat}" "2 < nextRef ?h" "objs ?h 2 = emptyObject" by auto
  ultimately have "\<exists>h'. extendJ ?h 0 [BoolV True, RefV 2, RefV 0] = Some (h', RefV 2) \<and>
      denotes (insert 2 {nextRef ?h..<nextRef h'}) h' (RefV 2) (clean (Tree False ?ts))"
    using deep_copy_is_fresh [of "{0, 1}" ?h 0 False ?ts 2 0] by blast
  then show ?thesis by simp
qed

end
