(* ===== verification/JQuery_Core.thy ===== *)
theory JQuery_Core
  imports JQuery_Extend
begin

text \<open>
  The collection functions of \<^verbatim>\<open>jquery.js\<close>: \<open>each\<close>, \<open>map\<close>, \<open>grep\<close>, \<open>merge\<close>, \<open>makeArray\<close>,
  \<open>inArray\<close>, and the methods of a matched set, which remembers the set it was taken from. The lemmas show that the
  index arithmetic and the loops compute what they should, and that \<open>end\<close> undoes every step.
\<close>

section \<open>Functions on lists\<close>

text \<open>
  The test; a text or another simple value that is not empty raises a \<open>TypeError\<close> (\<open>None\<close>), because
  \<open>in\<close> asks for an object.
\<close>

definition isArrayLikeJ :: "heap \<Rightarrow> hval \<Rightarrow> bool option" where
  "isArrayLikeJ h v =
     (if \<not> truthyH v then Some False
      else case v of
        RefV r \<Rightarrow>
          (let len = getV h v (js ''length'')
           in if tag (objs h r) = FunctionTag then Some False
              else Some (tag (objs h r) = ArrayTag \<or> len = NumV 0 \<or>
                (case len of NumV n \<Rightarrow> n > 0 \<and> dec (nat (n - 1)) \<in> fst ` set (props (objs h r)) | _ \<Rightarrow> False)))
      | _ \<Rightarrow> None)"

text \<open>
  The loops of \<open>each\<close>: over the indices up to the length at the start, or over the names. The
  callback returns whether it returned \<open>false\<close>, and each element is read when its turn comes.
\<close>

fun eachLoop :: "('s \<Rightarrow> 'k \<Rightarrow> 'v) \<Rightarrow> ('k \<Rightarrow> 'v \<Rightarrow> 's \<Rightarrow> bool \<times> 's) \<Rightarrow> 'k list \<Rightarrow> 's \<Rightarrow> 's" where
  "eachLoop get callback [] s = s"
| "eachLoop get callback (k # ks) s =
     (let (stop, s') = callback k (get s k) s in if stop then s' else eachLoop get callback ks s')"

definition eachJ :: "('s \<Rightarrow> nat) \<Rightarrow> ('s \<Rightarrow> nat \<Rightarrow> 'v) \<Rightarrow> (nat \<Rightarrow> 'v \<Rightarrow> 's \<Rightarrow> bool \<times> 's) \<Rightarrow> 's \<Rightarrow> 's" where
  "eachJ len get callback s = eachLoop get callback [0..<len s] s"

text \<open>\<open>merge\<close> writes the second list behind the first.\<close>

fun mergeLoop :: "'a list \<Rightarrow> nat \<Rightarrow> 'a list \<Rightarrow> 'a list" where
  "mergeLoop first i [] = first"
| "mergeLoop first i (x # second) =
     mergeLoop (if i < length first then first[i := x] else first @ [x]) (Suc i) second"

definition mergeJ :: "'a list \<Rightarrow> 'a list \<Rightarrow> 'a list" where
  "mergeJ first second = mergeLoop first (length first) second"

datatype 'a make_arg = MissingArg | TextArg 'a | ListArg "'a list" | SingleArg 'a

definition makeArray :: "'a make_arg \<Rightarrow> 'a list \<Rightarrow> 'a list" where
  "makeArray v results =
     (case v of
        MissingArg \<Rightarrow> results
      | TextArg s \<Rightarrow> mergeJ results [s]
      | ListArg xs \<Rightarrow> mergeJ results xs
      | SingleArg x \<Rightarrow> results @ [x])"

fun indexLoopJ :: "'a \<Rightarrow> nat \<Rightarrow> 'a list \<Rightarrow> int" where
  "indexLoopJ x i [] = -1"
| "indexLoopJ x i (y # ys) = (if x = y then int i else indexLoopJ x (Suc i) ys)"

definition inArray :: "'a \<Rightarrow> 'a list option \<Rightarrow> int \<Rightarrow> int" where
  "inArray x arr i =
     (case arr of
        None \<Rightarrow> -1
      | Some xs \<Rightarrow> indexLoopJ x (relIndex i (length xs)) (drop (relIndex i (length xs)) xs))"

fun grepLoop :: "('a \<Rightarrow> nat \<Rightarrow> bool) \<Rightarrow> bool \<Rightarrow> nat \<Rightarrow> 'a list \<Rightarrow> 'a list \<Rightarrow> 'a list" where
  "grepLoop callback callbackExpect i [] matches = matches"
| "grepLoop callback callbackExpect i (x # xs) matches =
     (let callbackInverse = (\<not> callback x i)
      in grepLoop callback callbackExpect (Suc i) xs
           (if callbackInverse \<noteq> callbackExpect then matches @ [x] else matches))"

definition grep :: "'a list \<Rightarrow> ('a \<Rightarrow> nat \<Rightarrow> bool) \<Rightarrow> bool \<Rightarrow> 'a list" where
  "grep elems callback inverted = grepLoop callback (\<not> inverted) 0 elems []"

text \<open>A callback of \<open>map\<close> returns nothing, a value, or an array, which is flattened.\<close>

datatype 'b mapped = NoValue | OneValue 'b | ManyValues "'b list"

fun mapLoop :: "('a \<Rightarrow> 'k \<Rightarrow> 'b mapped) \<Rightarrow> ('k \<times> 'a) list \<Rightarrow> 'b mapped list \<Rightarrow> 'b mapped list" where
  "mapLoop callback [] ret = ret"
| "mapLoop callback ((k, x) # xs) ret =
     (let v = callback x k in mapLoop callback xs (if v \<noteq> NoValue then ret @ [v] else ret))"

definition flat :: "'b mapped list \<Rightarrow> 'b list" where
  "flat ret = concat (map (\<lambda>v. case v of OneValue y \<Rightarrow> [y] | ManyValues ys \<Rightarrow> ys | NoValue \<Rightarrow> []) ret)"

definition mapJ :: "('k \<times> 'a) list \<Rightarrow> ('a \<Rightarrow> 'k \<Rightarrow> 'b mapped) \<Rightarrow> 'b list" where
  "mapJ elems callback = flat (mapLoop callback elems [])"

section \<open>Matched sets\<close>

datatype 'a jq = JQ (elemsOf: "'a list") (prevObject: "'a jq option")

definition toArrayJ :: "'a jq \<Rightarrow> 'a list" where
  "toArrayJ c = jsSlice 0 (int (length (elemsOf c))) (elemsOf c)"

definition at :: "'a list \<Rightarrow> int \<Rightarrow> 'a option" where
  "at xs i = (if 0 \<le> i \<and> i < int (length xs) then Some (xs ! nat i) else None)"

datatype 'a got = WholeSet "'a list" | OneElem "'a option"

definition getJ :: "'a jq \<Rightarrow> int option \<Rightarrow> 'a got" where
  "getJ c i =
     (case i of
        None \<Rightarrow> WholeSet (toArrayJ c)
      | Some n \<Rightarrow> OneElem (if n < 0 then at (elemsOf c) (n + int (length (elemsOf c))) else at (elemsOf c) n))"

definition pushStack :: "'a list \<Rightarrow> 'a jq \<Rightarrow> 'a jq" where
  "pushStack elems c = JQ (mergeJ [] elems) (Some c)"

definition mapC :: "(nat \<Rightarrow> 'a \<Rightarrow> 'a mapped) \<Rightarrow> 'a jq \<Rightarrow> 'a jq" where
  "mapC callback c = pushStack (mapJ (enumerate 0 (elemsOf c)) (\<lambda>x i. callback i x)) c"

definition sliceC :: "int \<Rightarrow> int option \<Rightarrow> 'a jq \<Rightarrow> 'a jq" where
  "sliceC i j c =
     pushStack (jsSlice i (case j of None \<Rightarrow> int (length (elemsOf c)) | Some k \<Rightarrow> k) (elemsOf c)) c"

definition eqC :: "int \<Rightarrow> 'a jq \<Rightarrow> 'a jq" where
  "eqC i c =
     (let len = int (length (elemsOf c)); j = i + (if i < 0 then len else 0)
      in pushStack (if j \<ge> 0 \<and> j < len then [elemsOf c ! nat j] else []) c)"

definition firstC :: "'a jq \<Rightarrow> 'a jq" where
  "firstC c = eqC 0 c"

definition lastC :: "'a jq \<Rightarrow> 'a jq" where
  "lastC c = eqC (-1) c"

definition evenC :: "'a jq \<Rightarrow> 'a jq" where
  "evenC c = pushStack (grep (elemsOf c) (\<lambda>_ i. (i + 1) mod 2 \<noteq> 0) False) c"

definition oddC :: "'a jq \<Rightarrow> 'a jq" where
  "oddC c = pushStack (grep (elemsOf c) (\<lambda>_ i. i mod 2 \<noteq> 0) False) c"

definition endC :: "'a jq \<Rightarrow> 'a jq" where
  "endC c = (case prevObject c of Some p \<Rightarrow> p | None \<Rightarrow> JQ [] None)"

section \<open>Names of properties\<close>

definition lowerLetter :: "nat \<Rightarrow> bool" where
  "lowerLetter c \<longleftrightarrow> 97 \<le> c \<and> c \<le> 122"

text \<open>\<open>replace(rdashAlpha, fcamelCase)\<close>.\<close>

fun camelDashes :: "jstring \<Rightarrow> jstring" where
  "camelDashes [] = []"
| "camelDashes [c] = [c]"
| "camelDashes (c # d # s) =
     (if c = 45 \<and> lowerLetter d then (d - 32) # camelDashes s else c # camelDashes (d # s))"

definition camelCase :: "jstring \<Rightarrow> jstring" where
  "camelCase s = camelDashes (if startsWith (js ''-ms-'') s then js ''ms-'' @ drop 4 s else s)"

section \<open>Lemmas\<close>

lemma mergeLoop_append: "mergeLoop xs (length xs) ys = xs @ ys"
proof (induction ys arbitrary: xs)
  case (Cons y ys)
  have "mergeLoop (xs @ [y]) (length (xs @ [y])) ys = (xs @ [y]) @ ys" by (rule Cons.IH)
  then show ?case by simp
qed simp

lemma mergeJ_append [simp]: "mergeJ xs ys = xs @ ys"
  by (simp add: mergeJ_def mergeLoop_append)

lemma pushStack_elems [simp]: "elemsOf (pushStack xs c) = xs" "endC (pushStack xs c) = c"
  by (simp_all add: pushStack_def endC_def)

lemma grepLoop_append:
  "grepLoop f e i xs ms = ms @ map snd (filter (\<lambda>(j, x). (\<not> f x j) \<noteq> e) (enumerate i xs))"
  by (induction f e i xs ms rule: grepLoop.induct) (auto simp: Let_def)

lemma grep_filter: "grep xs f b = map snd (filter (\<lambda>(j, x). f x j \<noteq> b) (enumerate 0 xs))"
  by (simp add: grep_def grepLoop_append)

lemma nths_enumerate: "map snd (filter (\<lambda>(j, x). P j) (enumerate n xs)) = nths xs {j. P (j + n)}"
proof (induction xs arbitrary: n)
  case (Cons x xs)
  then show ?case by (simp add: nths_Cons)
qed simp

lemma mapLoop_append: "mapLoop f xs ret = ret @ filter (\<lambda>v. v \<noteq> NoValue) (map (\<lambda>(k, x). f x k) xs)"
  by (induction f xs ret rule: mapLoop.induct) (auto simp: Let_def)

definition valuesIn :: "'b mapped \<Rightarrow> 'b list" where
  "valuesIn v = (case v of OneValue y \<Rightarrow> [y] | ManyValues ys \<Rightarrow> ys | NoValue \<Rightarrow> [])"

lemma mapJ_concat: "mapJ xs f = concat (map (\<lambda>(k, x). valuesIn (f x k)) xs)"
  unfolding mapJ_def mapLoop_append flat_def
  by (induction xs) (auto simp: valuesIn_def split: mapped.split)

lemma indexLoopJ_first:
  "indexLoopJ x i xs = (if x \<in> set xs then int (i + length (takeWhile (\<lambda>y. y \<noteq> x) xs)) else -1)"
  by (induction x i xs rule: indexLoopJ.induct) auto

text \<open>In the result no small letter follows a dash.\<close>

fun humped :: "jstring \<Rightarrow> bool" where
  "humped (c # d # s) \<longleftrightarrow> \<not> (c = 45 \<and> lowerLetter d) \<and> humped (d # s)"
| "humped s \<longleftrightarrow> True"

lemma humped_fixed: "humped s \<Longrightarrow> camelDashes s = s"
  by (induction s rule: humped.induct) auto

lemma humped_Cons: "humped s \<Longrightarrow> c \<noteq> 45 \<or> s = [] \<or> \<not> lowerLetter (hd s) \<Longrightarrow> humped (c # s)"
  by (cases s) auto

lemma camelDashes_hd: "camelDashes (d # s) \<noteq> [] \<and> (lowerLetter (hd (camelDashes (d # s))) \<longrightarrow> lowerLetter d)"
  by (cases s) (auto simp: lowerLetter_def)

lemma camelDashes_humped: "humped (camelDashes s)"
proof (induction s rule: camelDashes.induct)
  case (3 c d s)
  have "d - 32 \<noteq> 45" if "lowerLetter d" using that by (auto simp: lowerLetter_def)
  with 3 show ?case using camelDashes_hd [of d s] by (auto intro!: humped_Cons)
qed auto

lemma camelCase_fixed: "camelCase (camelCase s) = camelCase s"
proof -
  obtain t where t: "camelCase s = camelDashes t" by (simp add: camelCase_def)
  then have h: "humped (camelCase s)" using camelDashes_humped by simp
  then have "\<not> startsWith (js ''-ms-'') (camelCase s)" 
    by (cases "camelCase s" rule: humped.cases) (auto simp: lowerLetter_def)
  then show ?thesis using humped_fixed [OF h] by (simp add: camelCase_def)
qed

text \<open>The loop of \<open>each\<close> visits the elements up to the first for which the callback returns \<open>false\<close>.\<close>

lemma eachLoop_visits:
  "eachLoop (\<lambda>_. g) (\<lambda>k v log. (p k v, log @ [(k, v)])) ks log =
    log @ map (\<lambda>k. (k, g k)) (takeWhile (\<lambda>k. \<not> p k (g k)) ks @ take 1 (dropWhile (\<lambda>k. \<not> p k (g k)) ks))"
  by (induction ks arbitrary: log) auto

section \<open>Properties\<close>

text \<open>
  Matched sets: \<open>grep\<close> selects the elements that pass and its inverse the others, in order; \<open>even\<close> and
  \<open>odd\<close> select by index; \<open>eq\<close> picks the element \<open>get\<close> returns, counting from the end
  for a negative number, and nothing out of range; \<open>map\<close> concatenates what the callback returns; \<open>inArray\<close> finds
  the first position from the start position on; and \<open>end\<close> returns the set before any of these steps.
\<close>
theorem matched_sets:
  "grep xs (\<lambda>x _. P x) False = filter P xs \<and> grep xs (\<lambda>x _. P x) True = filter (\<lambda>x. \<not> P x) xs \<and>
   elemsOf (evenC c) = nths (elemsOf c) {i. even i} \<and> elemsOf (oddC c) = nths (elemsOf c) {i. odd i} \<and>
   getJ c (Some i) = OneElem (case elemsOf (eqC i c) of [] \<Rightarrow> None | x # _ \<Rightarrow> Some x) \<and>
   elemsOf (mapC f c) = concat (map (\<lambda>(j, x). valuesIn (f j x)) (enumerate 0 (elemsOf c))) \<and>
   inArray x (Some xs) k =
     (let s = relIndex k (length xs); n = length (takeWhile (\<lambda>y. y \<noteq> x) (drop s xs))
      in if x \<in> set (drop s xs) then int (s + n) else -1) \<and>
   list_all (\<lambda>step. endC (step c) = c) [evenC, oddC, eqC i, firstC, lastC, mapC f, sliceC i j]"
proof -
  have g: "grep xs (\<lambda>x _. P x) b = filter (\<lambda>x. P x \<noteq> b) xs" for b
    unfolding grep_filter by (induction xs rule: rev_induct) (auto simp: enumerate_append_eq)
  have m: "Suc i mod 2 = Suc 0 \<longleftrightarrow> i mod 2 = 0" for i by presburger
  show ?thesis
    using g [of False] g [of True]
    by (simp add: m evenC_def oddC_def grep_filter nths_enumerate [where n = 0, simplified] even_iff_mod_2_eq_zero
        odd_iff_mod_2_eq_one getJ_def at_def eqC_def mapC_def mapJ_concat inArray_def indexLoopJ_first Let_def
        firstC_def lastC_def sliceC_def)
qed

end
