(* ===== verification/JQuery_Data.thy ===== *)
theory JQuery_Data
  imports JQuery_Core JQuery_Callbacks
begin

text \<open>
  The data store of \<^verbatim>\<open>jquery.js\<close> (\<open>Data\<close>, with its two instances \<open>dataPriv\<close> and \<open>dataUser\<close>), which keeps values with
  elements and objects under keys in camel case. The lemmas show that it is a store: what was
  put under a key is found under every spelling of it, until it is removed.
\<close>

section \<open>State\<close>

text \<open>
  The caches of an instance by owner (\<open>None\<close> is \<open>undefined\<close>, before and after the cache exists). A value is
  \<open>None\<close> for \<open>undefined\<close>. The kinds of the owners are an argument: \<open>None\<close> for an object without a
  \<open>nodeType\<close>. Keys that every object inherits are not looked up.
\<close>

type_synonym 'v cache = "(jstring \<times> 'v option) list"

record 'v data =
  caches :: "nat \<Rightarrow> 'v cache option"

definition Data :: "'v data" where
  "Data = \<lparr>caches = (\<lambda>_. None)\<rparr>"

definition acceptData :: "('o \<Rightarrow> int option) \<Rightarrow> 'o \<Rightarrow> bool" where
  "acceptData kind owner = (case kind owner of None \<Rightarrow> True | Some n \<Rightarrow> n = 1 \<or> n = 9 \<or> n = 0)"

section \<open>Operations\<close>

text \<open>\<open>cache\<close> makes a cache where there is none, and returns one that is not kept for other nodes.\<close>

definition cacheOf :: "(nat \<Rightarrow> int option) \<Rightarrow> nat \<Rightarrow> 'v data \<Rightarrow> 'v data \<times> 'v cache" where
  "cacheOf kind owner d =
     (case caches d owner of
        Some c \<Rightarrow> (d, c)
      | None \<Rightarrow> (if acceptData kind owner then d\<lparr>caches := (caches d)(owner := Some [])\<rparr> else d, []))"

fun putKey :: "jstring \<Rightarrow> 'v option \<Rightarrow> 'v cache \<Rightarrow> 'v cache" where
  "putKey k v [] = [(k, v)]"
| "putKey k v ((m, w) # c) = (if m = k then (k, v) # c else (m, w) # putKey k v c)"

datatype 'v data_arg = KeyArg jstring | PropsArg "(jstring \<times> 'v option) list"

definition setData :: "(nat \<Rightarrow> int option) \<Rightarrow> nat \<Rightarrow> 'v data_arg \<Rightarrow> 'v option \<Rightarrow> 'v data \<Rightarrow> 'v data \<times> 'v cache" where
  "setData kind owner a v d =
     (let (d1, c) = cacheOf kind owner d;
          c' = (case a of
                  KeyArg k \<Rightarrow> putKey (camelCase k) v c
                | PropsArg ps \<Rightarrow> fold (\<lambda>(k, w). putKey (camelCase k) w) ps c)
      in (if caches d1 owner = None then d1 else d1\<lparr>caches := (caches d1)(owner := Some c')\<rparr>, c'))"

text \<open>\<open>get\<close> with a key, and without one.\<close>

definition getKey :: "nat \<Rightarrow> jstring \<Rightarrow> 'v data \<Rightarrow> 'v option" where
  "getKey owner k d =
     (case caches d owner of
        None \<Rightarrow> None
      | Some c \<Rightarrow> (case map_of c (camelCase k) of Some v \<Rightarrow> v | None \<Rightarrow> None))"

definition getAll :: "(nat \<Rightarrow> int option) \<Rightarrow> nat \<Rightarrow> 'v data \<Rightarrow> 'v data \<times> 'v cache" where
  "getAll kind owner d = cacheOf kind owner d"

datatype 'v accessed = GotValue "'v option" | GotCache "'v cache" | GotArg "'v data_arg"

definition accessData ::
  "(nat \<Rightarrow> int option) \<Rightarrow> nat \<Rightarrow> 'v data_arg option \<Rightarrow> 'v option \<Rightarrow> 'v data \<Rightarrow> 'v data \<times> 'v accessed" where
  "accessData kind owner key v d =
     (case key of
        None \<Rightarrow> (fst (getAll kind owner d), GotCache (snd (getAll kind owner d)))
      | Some a \<Rightarrow>
          (case a of
             KeyArg k \<Rightarrow>
               (if k \<noteq> [] \<and> v = None then (d, GotValue (getKey owner k d))
                else (fst (setData kind owner a v d), if v \<noteq> None then GotValue v else GotArg a))
           | PropsArg ps \<Rightarrow> (fst (setData kind owner a v d), if v \<noteq> None then GotValue v else GotArg a)))"

text \<open>\<open>remove\<close>: everything, the keys of an array, or the keys in a text.\<close>

datatype remove_arg = AllKeys | KeyList "jstring list" | KeyText jstring

definition keysToRemove :: "remove_arg \<Rightarrow> 'v cache \<Rightarrow> jstring list" where
  "keysToRemove a c =
     (case a of
        AllKeys \<Rightarrow> []
      | KeyList ks \<Rightarrow> map camelCase ks
      | KeyText k \<Rightarrow> (let key = camelCase k in if key \<in> fst ` set c then [key] else flagWords [] key))"

definition removeData :: "nat \<Rightarrow> remove_arg \<Rightarrow> 'v data \<Rightarrow> 'v data" where
  "removeData owner a d =
     (case caches d owner of
        None \<Rightarrow> d
      | Some c \<Rightarrow>
          (let c' = fold (\<lambda>k. filter (\<lambda>(m, v). m \<noteq> k)) (rev (keysToRemove a c)) c
           in if a = AllKeys \<or> c' = [] then d\<lparr>caches := (caches d)(owner := None)\<rparr>
              else d\<lparr>caches := (caches d)(owner := Some c')\<rparr>))"

definition hasDataIn :: "nat \<Rightarrow> 'v data \<Rightarrow> bool" where
  "hasDataIn owner d = (case caches d owner of None \<Rightarrow> False | Some c \<Rightarrow> c \<noteq> [])"

definition hasDataJ :: "nat \<Rightarrow> 'v data \<Rightarrow> 'w data \<Rightarrow> bool" where
  "hasDataJ owner user priv \<longleftrightarrow> hasDataIn owner user \<or> hasDataIn owner priv"

text \<open>The method \<open>removeData\<close> of a matched set.\<close>

definition removeDataC :: "nat list \<Rightarrow> remove_arg \<Rightarrow> 'v data \<Rightarrow> 'v data" where
  "removeDataC owners a d = fold (\<lambda>owner. removeData owner a) owners d"

section \<open>The contract of a store\<close>

text \<open>What the clients of a store rely on, for owners and keys it accepts.\<close>

locale keyed_store =
  fixes get :: "'o \<Rightarrow> 'k \<Rightarrow> 's \<Rightarrow> 'v option"
    and put :: "'o \<Rightarrow> 'k \<Rightarrow> 'v option \<Rightarrow> 's \<Rightarrow> 's"
    and del :: "'o \<Rightarrow> 'k \<Rightarrow> 's \<Rightarrow> 's"
    and norm :: "'k \<Rightarrow> 'n"
    and accepts :: "'o \<Rightarrow> bool"
  assumes get_put: "accepts p \<Longrightarrow> get p k (put q j v s) = (if accepts q \<and> p = q \<and> norm k = norm j then v else get p k s)"
    and get_del: "get p k (del q j s) = (if p = q \<and> norm k = norm j then None else get p k s)"
begin

lemma get_puts:
  "accepts p \<Longrightarrow>
    get p k (fold (\<lambda>(j, v). put p j v) kvs s) =
      (case filter (\<lambda>(j, v). norm k = norm j) (rev kvs) of [] \<Rightarrow> get p k s | (j, v) # _ \<Rightarrow> v)"
proof (induction kvs rule: rev_induct)
  case (snoc x kvs)
  then show ?case by (cases x) (simp add: get_put)
qed simp

lemma put_del: "accepts p \<Longrightarrow> get p k (del p k (put p j v s)) = None"
  by (simp add: get_del)

end

section \<open>Lemmas\<close>

lemma map_of_putKey: "map_of (putKey k v c) = (map_of c)(k \<mapsto> v)"
  by (induction k v c rule: putKey.induct) auto

lemma map_of_removeKey: "map_of (filter (\<lambda>(m, v). m \<noteq> k) c) = (map_of c)(k := None)"
  by (induction c) (auto simp: fun_eq_iff)

lemma getKey_setData:
  assumes "acceptData kind p"
  shows "getKey p k (fst (setData kind q (KeyArg j) v d)) =
    (if acceptData kind q \<and> p = q \<and> camelCase k = camelCase j then v else getKey p k d)"
  using assms
  by (auto simp: getKey_def setData_def cacheOf_def map_of_putKey Let_def split: option.split)

lemma getKey_removeData:
  "getKey p k (removeData q (KeyList [j]) d) = (if p = q \<and> camelCase k = camelCase j then None else getKey p k d)"
proof (cases "caches d q")
  case (Some c)
  have m: "map_of (filter (\<lambda>(m, v). m \<noteq> camelCase j) c) n = (if n = camelCase j then None else map_of c n)" for n
    by (simp add: map_of_removeKey)
  show ?thesis
  proof (cases "filter (\<lambda>(m, v). m \<noteq> camelCase j) c = []")
    case True
    then have "map_of c n = None" if "n \<noteq> camelCase j" for n using m [of n] that by simp
    with True Some show ?thesis by (auto simp: removeData_def keysToRemove_def getKey_def Let_def)
  next
    case False
    with Some m show ?thesis by (auto simp: removeData_def keysToRemove_def getKey_def Let_def split: option.split)
  qed
qed (auto simp: removeData_def getKey_def)

interpretation ds: keyed_store getKey "\<lambda>p k v d. fst (setData kind p (KeyArg k) v d)"
    "\<lambda>p k. removeData p (KeyList [k])" camelCase "acceptData kind" for kind
  by unfold_locales (auto simp: getKey_setData getKey_removeData)

text \<open>The spellings of a key are one key; a removed owner has no data; a key that is written as a text is removed too.\<close>

lemma getKey_spelling: "getKey p (camelCase k) d = getKey p k d"
  by (simp only: getKey_def camelCase_fixed)

lemma hasData_removed: "\<not> hasDataIn p (removeData p AllKeys d)"
  by (auto simp: hasDataIn_def removeData_def keysToRemove_def split: option.split)

lemma removeData_text:
  assumes "getKey p k d \<noteq> None"
  shows "removeData p (KeyText k) d = removeData p (KeyList [k]) d"
  using assms
  by (auto simp: getKey_def removeData_def keysToRemove_def Let_def image_iff split: option.splits dest!: map_of_SomeD)

lemma set_then_get:
  "acceptData kind p \<Longrightarrow> camelCase k = camelCase j \<Longrightarrow> getKey p k (fst (setData kind p (KeyArg j) v d)) = v"
  by (simp add: ds.get_put)

end
