(* ===== verification/JQuery_Queue.thy ===== *)
theory JQuery_Queue
  imports JQuery_Data
begin

text \<open>
  The function queues of \<^verbatim>\<open>jquery.js\<close> (\<open>queue\<close>, \<open>dequeue\<close>, \<open>clearQueue\<close>, \<open>promise\<close>), which run the animations of
  an element one after the other. The state is the private data of the elements with the
  callback lists \<open>empty\<close> of their hooks; calls of queued functions and settled promises are
  logged. The lemmas show that the queue of animations implements a first-in first-out
  runner with one function at a time.
\<close>

section \<open>State\<close>

text \<open>The sentinel \<open>"inprogress"\<close> or a function.\<close>

datatype 'f qentry = InProgress | Fn 'f

text \<open>The hooks of a queue: the stop function, and the promises that wait in \<open>empty\<close>.\<close>

record hooks =
  stop :: "nat option"
  waiters :: "nat list"

text \<open>
  The key under which the private data holds the queue of a type. The key of its hooks differs in
  the ending only, so types with the same key have the same hooks too.
\<close>

definition qkey :: "jstring \<Rightarrow> jstring" where
  "qkey ty = camelCase (ty @ js ''queue'')"

text \<open>
  Queues and hooks by element and key; for a promise the number of calls of \<open>resolve\<close> that
  are still to come; the functions called, with their elements; the promises settled.
\<close>

record 'f qstate =
  queues :: "nat \<times> jstring \<Rightarrow> 'f qentry list option"
  queueHooks :: "nat \<times> jstring \<Rightarrow> hooks option"
  counts :: "nat \<Rightarrow> int"
  nextPromise :: nat
  started :: "(nat \<times> 'f) list"
  settled :: "nat list"

definition initQueues :: "'f qstate" where
  "initQueues = \<lparr>queues = (\<lambda>_. None), queueHooks = (\<lambda>_. None), counts = (\<lambda>_. 0), nextPromise = 0,
     started = [], settled = []\<rparr>"

section \<open>Operations on one element\<close>

datatype 'f queue_arg = NoData | OneFn 'f | FnList "'f list"

definition putQueue :: "nat \<Rightarrow> jstring \<Rightarrow> 'f qentry list \<Rightarrow> 'f qstate \<Rightarrow> 'f qstate" where
  "putQueue e ty q s = s\<lparr>queues := (queues s)((e, qkey ty) := Some q)\<rparr>"

definition queueJ :: "nat \<Rightarrow> jstring \<Rightarrow> 'f queue_arg \<Rightarrow> 'f qstate \<Rightarrow> 'f qstate \<times> 'f qentry list" where
  "queueJ e ty d s =
     (let q = queues s (e, qkey ty);
          s' = (case d of
                  NoData \<Rightarrow> s
                | OneFn f \<Rightarrow> (case q of None \<Rightarrow> putQueue e ty [Fn f] s | Some es \<Rightarrow> putQueue e ty (es @ [Fn f]) s)
                | FnList fs \<Rightarrow> putQueue e ty (map Fn fs) s)
      in (s', case queues s' (e, qkey ty) of Some es \<Rightarrow> es | None \<Rightarrow> []))"

text \<open>The hooks of a queue, made when they are missing.\<close>

definition hooksOf :: "nat \<Rightarrow> jstring \<Rightarrow> 'f qstate \<Rightarrow> 'f qstate" where
  "hooksOf e ty s =
     (if queueHooks s (e, qkey ty) = None
      then s\<lparr>queueHooks := (queueHooks s)((e, qkey ty) := Some \<lparr>stop = None, waiters = []\<rparr>)\<rparr>
      else s)"

text \<open>A call of \<open>resolve\<close> of a promise.\<close>

definition resolveP :: "nat \<Rightarrow> 'f qstate \<Rightarrow> 'f qstate" where
  "resolveP p s =
     (let n = counts s p - 1; s1 = s\<lparr>counts := (counts s)(p := n)\<rparr>
      in if n = 0 then s1\<lparr>settled := settled s1 @ [p]\<rparr> else s1)"

text \<open>\<open>hooks.empty.fire()\<close>: the first callback removes queue and hooks, the others are those of promises.\<close>

definition fireEmpty :: "nat \<Rightarrow> jstring \<Rightarrow> 'f qstate \<Rightarrow> 'f qstate" where
  "fireEmpty e ty s =
     (let ps = (case queueHooks s (e, qkey ty) of Some h \<Rightarrow> waiters h | None \<Rightarrow> [])
      in fold resolveP ps
           (s\<lparr>queues := (queues s)((e, qkey ty) := None), queueHooks := (queueHooks s)((e, qkey ty) := None)\<rparr>))"

text \<open>\<open>queue.shift()\<close> on the array the data holds.\<close>

fun shift :: "'a list \<Rightarrow> 'a option \<times> 'a list" where
  "shift [] = (None, [])"
| "shift (x # xs) = (Some x, xs)"

text \<open>
  The array is changed in place, but an array that is not in the data is lost. The called
  function may call \<open>next\<close>; nothing follows the call, so that is a later call of \<open>dequeue\<close>. The
  sentinel is only put in front of a queue it was taken from, so it never occurs twice.
\<close>

definition writeBack :: "nat \<Rightarrow> jstring \<Rightarrow> 'f qentry list \<Rightarrow> 'f qstate \<Rightarrow> 'f qstate" where
  "writeBack e ty q s = (if queues s (e, qkey ty) = None then s else putQueue e ty q s)"

definition startFn :: "nat \<Rightarrow> jstring \<Rightarrow> 'f \<Rightarrow> 'f qentry list \<Rightarrow> 'f qstate \<Rightarrow> 'f qstate" where
  "startFn e ty f q s =
     (let s1 = writeBack e ty (if ty = js ''fx'' then InProgress # q else q) s;
          s2 = s1\<lparr>queueHooks := (queueHooks s1)((e, qkey ty) := map_option (\<lambda>h. h\<lparr>stop := None\<rparr>) (queueHooks s1 (e, qkey ty)))\<rparr>
      in s2\<lparr>started := started s2 @ [(e, f)]\<rparr>)"

definition dequeue :: "nat \<Rightarrow> jstring \<Rightarrow> 'f qstate \<Rightarrow> 'f qstate" where
  "dequeue e ty s =
     (let q0 = snd (queueJ e ty NoData s);
          (fn0, q1) = shift q0;
          s1 = hooksOf e ty s;
          (fn, q, startLength) =
            (if fn0 = Some InProgress then (fst (shift q1), snd (shift q1), length q0 - 1) else (fn0, q1, length q0))
      in case fn of
           Some (Fn f) \<Rightarrow> startFn e ty f q s1
         | _ \<Rightarrow> (let s2 = writeBack e ty q s1 in if startLength = 0 then fireEmpty e ty s2 else s2))"

section \<open>Operations on sets of elements\<close>

definition queueOne :: "jstring \<Rightarrow> 'f queue_arg \<Rightarrow> nat \<Rightarrow> 'f qstate \<Rightarrow> 'f qstate" where
  "queueOne ty d e s =
     (let (s1, q) = queueJ e ty d s; s2 = hooksOf e ty s1
      in if ty = js ''fx'' \<and> (q = [] \<or> hd q \<noteq> InProgress) then dequeue e ty s2 else s2)"

definition queueC :: "jstring \<Rightarrow> 'f queue_arg \<Rightarrow> nat list \<Rightarrow> 'f qstate \<Rightarrow> 'f qstate" where
  "queueC ty d es s = (if d = NoData then s else fold (queueOne ty d) es s)"

definition dequeueC :: "jstring \<Rightarrow> nat list \<Rightarrow> 'f qstate \<Rightarrow> 'f qstate" where
  "dequeueC ty es s = fold (\<lambda>e. dequeue e ty) es s"

definition clearQueue :: "jstring \<Rightarrow> nat list \<Rightarrow> 'f qstate \<Rightarrow> 'f qstate" where
  "clearQueue ty es s = queueC (if ty = [] then js ''fx'' else ty) (FnList []) es s"

text \<open>The loop of \<open>promise\<close>, from the last element to the first.\<close>

definition addWaiter :: "jstring \<Rightarrow> nat \<Rightarrow> nat \<Rightarrow> 'f qstate \<Rightarrow> 'f qstate" where
  "addWaiter ty p e s =
     (case queueHooks s (e, qkey ty) of
        None \<Rightarrow> s
      | Some h \<Rightarrow>
          s\<lparr>counts := (counts s)(p := counts s p + 1),
            queueHooks := (queueHooks s)((e, qkey ty) := Some (h\<lparr>waiters := waiters h @ [p]\<rparr>))\<rparr>)"

definition promiseJ :: "jstring \<Rightarrow> nat list \<Rightarrow> 'f qstate \<Rightarrow> 'f qstate \<times> nat" where
  "promiseJ ty es s =
     (let p = nextPromise s;
          s1 = s\<lparr>nextPromise := Suc p, counts := (counts s)(p := 1)\<rparr>
      in (resolveP p (fold (addWaiter (if ty = [] then js ''fx'' else ty) p) (rev es) s1), p))"

section \<open>Specification: one function at a time\<close>

record 'f runner =
  busy :: bool
  waiting :: "'f list"
  calls :: "'f list"
  pending :: "nat list"
  kept :: "nat list"
  promises :: nat

definition initRunner :: "'f runner" where
  "initRunner = \<lparr>busy = False, waiting = [], calls = [], pending = [], kept = [], promises = 0\<rparr>"

text \<open>A function is queued; the running function is done; a promise for the end is asked for.\<close>

datatype 'f qevent = Enqueue 'f | Next | AskPromise

fun runnerStep :: "'f qevent \<Rightarrow> 'f runner \<Rightarrow> 'f runner" where
  "runnerStep (Enqueue f) r =
     (if busy r then r\<lparr>waiting := waiting r @ [f]\<rparr> else r\<lparr>busy := True, calls := calls r @ [f]\<rparr>)"
| "runnerStep Next r =
     (case waiting r of
        f # fs \<Rightarrow> r\<lparr>waiting := fs, calls := calls r @ [f]\<rparr>
      | [] \<Rightarrow> r\<lparr>busy := False, kept := kept r @ pending r, pending := []\<rparr>)"
| "runnerStep AskPromise r =
     (if busy r then r\<lparr>pending := pending r @ [promises r], promises := Suc (promises r)\<rparr>
      else r\<lparr>kept := kept r @ [promises r], promises := Suc (promises r)\<rparr>)"

fun fxStep :: "nat \<Rightarrow> 'f qevent \<Rightarrow> 'f qstate \<Rightarrow> 'f qstate" where
  "fxStep e (Enqueue f) s = queueC (js ''fx'') (OneFn f) [e] s"
| "fxStep e Next s = dequeueC (js ''fx'') [e] s"
| "fxStep e AskPromise s = fst (promiseJ (js ''fx'') [e] s)"

text \<open>The queue of animations represents the state of the runner.\<close>

definition represents :: "nat \<Rightarrow> 'f qstate \<Rightarrow> 'f runner \<Rightarrow> bool" where
  "represents e s r \<longleftrightarrow>
     (if busy r
      then queues s (e, qkey (js ''fx'')) = Some (InProgress # map Fn (waiting r)) \<and>
           (\<exists>st. queueHooks s (e, qkey (js ''fx'')) = Some \<lparr>stop = st, waiters = pending r\<rparr>)
      else queues s (e, qkey (js ''fx'')) = None \<and> queueHooks s (e, qkey (js ''fx'')) = None \<and> waiting r = [] \<and> pending r = []) \<and>
     started s = map (Pair e) (calls r) \<and> settled s = kept r \<and> nextPromise s = promises r \<and>
     distinct (pending r) \<and> list_all (\<lambda>p. p < promises r \<and> counts s p = 1) (pending r)"

lemmas queue_ops = queueC_def queueOne_def queueJ_def putQueue_def hooksOf_def dequeueC_def dequeue_def startFn_def
  writeBack_def fireEmpty_def Let_def

lemma resolve_all:
  "distinct ps \<Longrightarrow> list_all (\<lambda>p. counts s p = 1) ps \<Longrightarrow>
    settled (fold resolveP ps s) = settled s @ ps \<and> queues (fold resolveP ps s) = queues s \<and>
    queueHooks (fold resolveP ps s) = queueHooks s \<and> started (fold resolveP ps s) = started s \<and>
    nextPromise (fold resolveP ps s) = nextPromise s"
proof (induction ps arbitrary: s)
  case (Cons p ps)
  have "list_all (\<lambda>q. counts (resolveP p s) q = 1) ps"
    using Cons.prems by (auto simp: resolveP_def Let_def list_all_iff)
  from Cons.IH [OF _ this] Cons.prems show ?case by (simp add: resolveP_def Let_def)
qed simp

lemma represents_enqueue: "represents e s r \<Longrightarrow> represents e (fxStep e (Enqueue f) s) (runnerStep (Enqueue f) r)"
  by (cases "busy r") (auto simp: represents_def queue_ops simp del: js.simps)

lemma represents_next:
  assumes "represents e s r"
  shows "represents e (fxStep e Next s) (runnerStep Next r)"
proof (cases "waiting r")
  case Nil
  let ?s = "s\<lparr>queues := (queues s)((e, qkey (js ''fx'')) := None), queueHooks := (queueHooks s)((e, qkey (js ''fx'')) := None)\<rparr>"
  have p: "distinct (pending r)" "list_all (\<lambda>p. counts ?s p = 1) (pending r)"
    using assms by (auto simp: represents_def list_all_iff)
  have "fxStep e Next s = fold resolveP (pending r) ?s"
    using assms Nil by (cases "busy r") (auto simp: represents_def queue_ops simp del: js.simps)
  with resolve_all [OF p] assms Nil show ?thesis by (auto simp: represents_def simp del: js.simps)
next
  case (Cons f fs)
  with assms show ?thesis by (cases "busy r") (auto simp: represents_def queue_ops simp del: js.simps)
qed

lemma represents_promise: "represents e s r \<Longrightarrow> represents e (fxStep e AskPromise s) (runnerStep AskPromise r)"
  by (cases "busy r")
    (auto simp: represents_def promiseJ_def addWaiter_def resolveP_def Let_def list_all_iff simp del: js.simps)

text \<open>The first-in first-out runner is implemented.\<close>

interpretation fx: event_simulation "fxStep e" runnerStep "represents e" for e
proof unfold_locales
  fix s :: "'f qstate" and r ev
  assume "represents e s r"
  then show "represents e (fxStep e ev s) (runnerStep ev r)"
    by (cases ev) (simp_all only: represents_enqueue represents_next represents_promise)
qed

text \<open>What the runner promises: functions start in the order in which they were queued, and none waits without cause.\<close>

definition enqueued :: "'f qevent list \<Rightarrow> 'f list" where
  "enqueued evs = concat (map (\<lambda>ev. case ev of Enqueue f \<Rightarrow> [f] | _ \<Rightarrow> []) evs)"

lemma runner_fifo:
  "\<not> busy r \<longrightarrow> waiting r = [] \<Longrightarrow>
    calls (fold runnerStep evs r) @ waiting (fold runnerStep evs r) = calls r @ waiting r @ enqueued evs \<and>
    (\<not> busy (fold runnerStep evs r) \<longrightarrow> waiting (fold runnerStep evs r) = [])"
proof (induction evs arbitrary: r)
  case (Cons ev evs)
  have "\<not> busy (runnerStep ev r) \<longrightarrow> waiting (runnerStep ev r) = []"
    using Cons.prems by (cases ev) (auto split: list.splits)
  from Cons.IH [OF this] Cons.prems show ?case by (cases ev) (auto simp: enqueued_def split: list.splits)
qed (simp add: enqueued_def)

text \<open>Two spellings of a type are one queue.\<close>

lemma qkey_spellings: "qkey (js ''my-slides'') = qkey (js ''mySlides'')"
  by (simp add: qkey_def camelCase_def lowerLetter_def)

section \<open>Properties\<close>

text \<open>
  C28. The queue of animations of an element implements a runner of one function at a time: for
  every sequence of functions queued, ends of functions and promises asked for, exactly the functions the runner
  starts are called, in the order in which they were queued, with the others waiting and none
  waiting while nothing runs, and the promises are settled when the runner becomes idle.
\<close>
theorem fx_queue_refines:
  fixes evs :: "'f qevent list"
  shows "let s = fold (fxStep e) evs initQueues; r = fold runnerStep evs initRunner
    in started s = map (Pair e) (calls r) \<and> settled s = kept r \<and> calls r @ waiting r = enqueued evs \<and>
       queues s (e, qkey (js ''fx'')) = (if busy r then Some (InProgress # map Fn (waiting r)) else None) \<and>
       (busy r \<or> waiting r = [])"
proof -
  let ?s = "fold (fxStep e) evs initQueues" and ?r = "fold runnerStep evs initRunner"
  have "represents e (initQueues :: 'f qstate) initRunner" by (simp add: represents_def initQueues_def initRunner_def)
  then have "represents e ?s ?r" by (rule fx.sim_run)
  then have "started ?s = map (Pair e) (calls ?r)" "settled ?s = kept ?r"
    "queues ?s (e, qkey (js ''fx'')) = (if busy ?r then Some (InProgress # map Fn (waiting ?r)) else None)"
    by (simp_all add: represents_def del: js.simps split: if_splits)
  moreover have "calls ?r @ waiting ?r = enqueued evs" "busy ?r \<or> waiting ?r = []"
    using runner_fifo [of "initRunner :: 'f runner" evs] by (auto simp: initRunner_def)
  ultimately show ?thesis by (simp add: Let_def del: js.simps)
qed

end
