(* ===== verification/Doc_Tools.thy ===== *)
theory Doc_Tools
  imports URI_Component
begin

text \<open>
  The helpers of the manual's pages
  (\<^verbatim>\<open>prebuilts/qemu/share/doc/qemu/_static/doctools.js\<close>): the parameters of the URL
  (\<open>urldecode\<close>, \<open>getQueryParameters\<close>), the highlighting of words in the document tree
  (\<open>highlightText\<close>, \<open>highlightSearchWords\<close>, \<open>hideSearchWords\<close>), the translations
  (\<open>gettext\<close>, \<open>ngettext\<close>, \<open>addTranslations\<close>), the index toggles, the keyboard
  navigation and the small URL and browser helpers. The lower-case conversion of the
  language rests on the Unicode tables and is the argument \<open>lc\<close> of the definitions that
  use it.
\<close>

section \<open>URL parameters\<close>

definition urldecode :: "jstring option \<Rightarrow> jstring option result" where
  "urldecode x =
     (case x of
        None \<Rightarrow> Inr None
      | Some s \<Rightarrow>
          if s = [] then Inr (Some s)
          else case decodeURIComponent (map (\<lambda>c. if c = 43 then 32 else c) s) of
                 Some d \<Rightarrow> Inr (Some d)
               | None \<Rightarrow> Inl URIError)"

text \<open>
  The names every object inherits. The test \<open>key in result\<close> is true for them, and what
  is read there is no array.
\<close>

definition inheritedNames :: "jstring list" where
  "inheritedNames = map js
    [''constructor'', ''__defineGetter__'', ''__defineSetter__'', ''hasOwnProperty'',
     ''__lookupGetter__'', ''__lookupSetter__'', ''isPrototypeOf'', ''propertyIsEnumerable'',
     ''toString'', ''valueOf'', ''__proto__'', ''toLocaleString'']"

type_synonym params = "(jstring \<times> jstring option list) list"

text \<open>One round of the loop: file the value under its key.\<close>

fun pushParam :: "jstring \<Rightarrow> jstring option \<Rightarrow> params \<Rightarrow> params result" where
  "pushParam key val [] = (if key \<in> set inheritedNames then Inl TypeError else Inr [(key, [val])])"
| "pushParam key val ((k, vs) # r) =
     (if k = key then Inr ((k, vs @ [val]) # r) else map_sum id ((#) (k, vs)) (pushParam key val r))"

text \<open>\<open>part.split('=', 2)\<close>: the first two pieces.\<close>

definition keyValue :: "jstring \<Rightarrow> jstring \<times> jstring option" where
  "keyValue part =
     (case splitOn 61 part of
        [] \<Rightarrow> ([], None)
      | [k] \<Rightarrow> (k, None)
      | k # v # _ \<Rightarrow> (k, Some v))"

fun paramLoop :: "jstring list \<Rightarrow> params \<Rightarrow> params result" where
  "paramLoop [] acc = Inr acc"
| "paramLoop (p # ps) acc =
     (case urldecode (Some (fst (keyValue p))) of
        Inl e \<Rightarrow> Inl e
      | Inr key \<Rightarrow>
          (case urldecode (snd (keyValue p)) of
             Inl e \<Rightarrow> Inl e
           | Inr val \<Rightarrow>
               (case pushParam (case key of Some k \<Rightarrow> k | None \<Rightarrow> []) val acc of
                  Inl e \<Rightarrow> Inl e
                | Inr acc' \<Rightarrow> paramLoop ps acc')))"

definition getQueryParameters :: "jstring \<Rightarrow> params result" where
  "getQueryParameters s = paramLoop (splitOn 38 (drop (nat (indexOf [63] s + 1)) s)) []"

section \<open>Highlighting\<close>

text \<open>The part of the document tree the code reads: text nodes, and elements with their tag and classes.\<close>

datatype node = TextNode jstring | Element jstring "jstring list" "node list"

definition blocked :: "jstring \<Rightarrow> jstring list \<Rightarrow> bool" where
  "blocked cls pcs \<longleftrightarrow> cls \<in> set pcs \<or> js ''nohighlight'' \<in> set pcs"

definition skippedTags :: "jstring list" where
  "skippedTags = map js [''button'', ''select'', ''textarea'']"

text \<open>Whether the texts of an element are in a drawing: \<open>closest("body, svg, foreignObject").is("svg")\<close>.\<close>

definition inSVG :: "bool \<Rightarrow> jstring \<Rightarrow> bool" where
  "inSVG b tag = (if tag = js ''svg'' then True else if tag \<in> {js ''body'', js ''foreignObject''} then False else b)"

text \<open>The element for the word: in a drawing a \<open>tspan\<close> without a class.\<close>

definition markNode :: "bool \<Rightarrow> jstring \<Rightarrow> jstring \<Rightarrow> node" where
  "markNode b cls w =
     (if b then Element (js ''tspan'') [] [TextNode w] else Element (js ''span'') [cls] [TextNode w])"

text \<open>The frame that is put behind the word in a drawing; its place and size are those of the page.\<close>

definition rectNode :: "jstring \<Rightarrow> node" where
  "rectNode cls = Element (js ''rect'') [cls] []"

text \<open>
  The measure of the recursion, for a list of which \<open>n\<close> nodes are looked at: a text that is not the only one may
  be replaced by a mark with one text.
\<close>

fun dep :: "nat \<Rightarrow> node \<Rightarrow> nat" where
  "dep n (TextNode v) = (if n \<ge> 2 then 3 else 1)"
| "dep n (Element tag cs ks) = Suc (foldr max (map (dep (length ks)) ks) 0)"

lemma dep_le: "foldr max (map (dep n) ks) 0 \<le> (k :: nat) \<longleftrightarrow> (\<forall>nd \<in> set ks. dep n nd \<le> k)"
  by (induction ks) auto

lemma dep_mono: "n \<le> m \<Longrightarrow> dep n nd \<le> dep m nd"
  by (cases nd) auto

lemma dep_mono_list: "n \<le> m \<Longrightarrow> foldr max (map (dep n) ks) 0 \<le> foldr max (map (dep m) ks) (0 :: nat)"
  by (induction ks) (auto simp: dep_mono max.coboundedI1 max.coboundedI2)

text \<open>
  The loop of \<open>jQuery.each\<close> over the live list of the children: the number of rounds
  \<open>n\<close> is the length the list had at the start, while the nodes that a round inserts move the
  later ones back. In the round of a text node that holds the word the node keeps the
  text before it, a new element gets the word and a new text node the rest. The second result is the number of marks
  in texts of a drawing; for each of them a frame is put before the parent of the text when all is done.
\<close>

function highlightKids ::
  "(jstring \<Rightarrow> jstring) \<Rightarrow> jstring \<Rightarrow> jstring \<Rightarrow> bool \<Rightarrow> jstring list \<Rightarrow> nat \<Rightarrow> node list \<Rightarrow> node list \<times> nat"
where
  "highlightKids lc word cls b pcs 0 ks = (ks, 0)"
| "highlightKids lc word cls b pcs (Suc n) [] = ([], 0)"
| "highlightKids lc word cls b pcs (Suc n) (TextNode v # ks) =
     (if indexOf word (lc v) \<ge> 0 \<and> \<not> blocked cls pcs then
        (let rest = highlightKids lc word cls b pcs n
               (markNode b cls (substr (nat (indexOf word (lc v))) (length word) v) #
                TextNode (drop (nat (indexOf word (lc v)) + length word) v) # ks)
         in (TextNode (take (nat (indexOf word (lc v))) v) # fst rest, if b then Suc (snd rest) else snd rest))
      else (let rest = highlightKids lc word cls b pcs n ks in (TextNode v # fst rest, snd rest)))"
| "highlightKids lc word cls b pcs (Suc n) (Element tag cs kids # ks) =
     (let inner = (if tag \<in> set skippedTags then (kids, 0)
                   else highlightKids lc word cls (inSVG b tag) cs (length kids) kids);
          rest = highlightKids lc word cls b pcs n ks
      in (replicate (snd inner) (rectNode cls) @ Element tag cs (fst inner) # fst rest, snd rest))"
  by pat_completeness auto
termination
proof (relation "measures [\<lambda>(lc, word, cls, b, pcs, n, ks). if n = 0 then 0 else foldr max (map (dep n) ks) 0,
      \<lambda>(lc, word, cls, b, pcs, n, ks). n]", goal_cases)
  case (2 lc word cls b pcs n v ks)
  have "foldr max (map (dep n) (markNode b cls w # TextNode u # ks)) 0 \<le> foldr max (map (dep (Suc n)) (TextNode v # ks)) 0"
    if "n \<noteq> 0" for w u
    using that dep_mono_list [of n "Suc n" ks] by (auto simp: markNode_def max_def)
  then have "n \<noteq> 0 \<Longrightarrow> foldr max (map (dep n) (markNode b cls w # TextNode u # ks)) 0 < foldr max (map (dep (Suc n)) (TextNode v # ks)) 0 \<or>
      foldr max (map (dep n) (markNode b cls w # TextNode u # ks)) 0 = foldr max (map (dep (Suc n)) (TextNode v # ks)) 0" for w u
    unfolding le_less .
  then show ?case by (auto simp del: foldr.simps list.map)
next
  case (3 lc word cls b pcs n v ks)
  then show ?case using dep_mono_list [of n "Suc n" ks] by auto
next
  case (4 lc word cls b pcs n tag cs kids ks)
  then show ?case by (auto simp: max_def)
next
  case (5 lc word cls b pcs n tag cs kids ks)
  then show ?case using dep_mono_list [of n "Suc n" ks] by auto
qed simp

definition highlight :: "(jstring \<Rightarrow> jstring) \<Rightarrow> jstring \<Rightarrow> jstring \<Rightarrow> node \<Rightarrow> node list" where
  "highlight lc word cls nd =
     (case nd of
        TextNode v \<Rightarrow> [TextNode v]
      | Element tag cs ks \<Rightarrow>
          if tag \<in> set skippedTags then [nd]
          else (let inner = highlightKids lc word cls (inSVG False tag) cs (length ks) ks
                in replicate (snd inner) (rectNode cls) @ [Element tag cs (fst inner)]))"

text \<open>\<open>this.each(...)\<close> over the selected elements, which are not in a drawing.\<close>

definition highlightText :: "(jstring \<Rightarrow> jstring) \<Rightarrow> jstring \<Rightarrow> jstring \<Rightarrow> node list \<Rightarrow> node list" where
  "highlightText lc word cls els = concat (map (highlight lc word cls) els)"

text \<open>\<open>s.split(/\s+/)\<close>: the flag says that the character before was white space.\<close>

fun splitSpaces :: "bool \<Rightarrow> jstring \<Rightarrow> jstring list" where
  "splitSpaces b [] = [[]]"
| "splitSpaces b (c # s) =
     (if is_js_space c then (if b then splitSpaces True s else [] # splitSpaces True s)
      else case splitSpaces False s of w # ws \<Rightarrow> (c # w) # ws | [] \<Rightarrow> [[c]])"

text \<open>
  The words of the parameter \<open>highlight\<close>; a parameter without a value has no \<open>split\<close>.
\<close>

definition highlightTerms :: "jstring \<Rightarrow> jstring list result" where
  "highlightTerms search =
     (case getQueryParameters search of
        Inl e \<Rightarrow> Inl e
      | Inr params \<Rightarrow>
          (case map_of params (js ''highlight'') of
             None \<Rightarrow> Inr []
           | Some vs \<Rightarrow>
               (case vs of
                  Some v # _ \<Rightarrow> Inr (splitSpaces False v)
                | _ \<Rightarrow> Inl TypeError)))"

text \<open>The whole function: the document after the timer has run, and whether the link is added.\<close>

definition highlightSearchWords ::
  "(jstring \<Rightarrow> jstring) \<Rightarrow> jstring \<Rightarrow> node list \<Rightarrow> (node list \<times> bool) result" where
  "highlightSearchWords lc search body =
     (case highlightTerms search of
        Inl e \<Rightarrow> Inl e
      | Inr terms \<Rightarrow>
          Inr (fold (\<lambda>t. highlightText lc (lc t) (js ''highlighted'')) terms body, terms \<noteq> []))"

text \<open>\<open>$('span.highlighted').removeClass('highlighted')\<close>.\<close>

primrec hideSearchWords :: "node \<Rightarrow> node" where
  "hideSearchWords (TextNode v) = TextNode v"
| "hideSearchWords (Element tag cs ks) =
     Element tag (if tag = js ''span'' then filter (\<lambda>c. c \<noteq> js ''highlighted'') cs else cs)
       (map hideSearchWords ks)"

section \<open>Translations\<close>

text \<open>An entry of the catalogue is a string or an array of the forms of a plural.\<close>

datatype message = Single jstring | Forms "jstring list"

record documentation =
  TRANSLATIONS :: "jstring \<rightharpoonup> message"
  PLURAL_EXPR :: "nat \<Rightarrow> nat"
  LOCALE :: jstring

record catalog =
  messages :: "(jstring \<times> message) list"
  plural_expr :: "nat \<Rightarrow> nat"
  locale_name :: jstring

definition initDocumentation :: documentation where
  "initDocumentation = \<lparr>TRANSLATIONS = (\<lambda>_. None), PLURAL_EXPR = (\<lambda>n. if n = 1 then 0 else 1),
     LOCALE = js ''unknown''\<rparr>"

text \<open>An empty array of forms gives \<open>undefined\<close>, here \<open>None\<close>.\<close>

definition gettext :: "documentation \<Rightarrow> jstring \<Rightarrow> jstring option" where
  "gettext d string =
     (case TRANSLATIONS d string of
        None \<Rightarrow> Some string
      | Some (Single t) \<Rightarrow> Some t
      | Some (Forms ts) \<Rightarrow> (case ts of t # _ \<Rightarrow> Some t | [] \<Rightarrow> None))"

text \<open>
  The function asks for \<open>PLURALEXPR\<close>, a field the object does not have (it is called
  \<open>PLURAL_EXPR\<close>): a translated message ends in a \<open>TypeError\<close>.
\<close>

definition ngettext :: "documentation \<Rightarrow> jstring \<Rightarrow> jstring \<Rightarrow> nat \<Rightarrow> jstring result" where
  "ngettext d singular plural n =
     (case TRANSLATIONS d singular of
        None \<Rightarrow> Inr (if n = 1 then singular else plural)
      | Some translated \<Rightarrow> Inl TypeError)"

definition addTranslations :: "catalog \<Rightarrow> documentation \<Rightarrow> documentation" where
  "addTranslations c d =
     d\<lparr>TRANSLATIONS := fold (\<lambda>(k, m) t. t(k \<mapsto> m)) (messages c) (TRANSLATIONS d),
       PLURAL_EXPR := plural_expr c, LOCALE := locale_name c\<rparr>"

section \<open>Index toggles, keys, URLs and the browser\<close>

text \<open>A toggle image and the rows it stands for.\<close>

record toggler =
  src :: jstring
  rows_shown :: bool

definition toggleClick :: "toggler \<Rightarrow> toggler" where
  "toggleClick t =
     t\<lparr>rows_shown := \<not> rows_shown t,
       src := (if drop (length (src t) - 9) (src t) = js ''minus.png''
               then take (length (src t) - 9) (src t) @ js ''plus.png''
               else take (length (src t) - 8) (src t) @ js ''minus.png'')\<rparr>"

definition initIndexTable :: "bool \<Rightarrow> toggler list \<Rightarrow> toggler list" where
  "initIndexTable collapse ts = (if collapse then map toggleClick ts else ts)"

record key_event =
  activeTag :: jstring
  altKey :: bool
  ctrlKey :: bool
  metaKey :: bool
  shiftKey :: bool
  keyCode :: nat

text \<open>The page the key leads to, for the links of the page; \<open>None\<close> when nothing happens.\<close>

definition keydown :: "jstring option \<Rightarrow> jstring option \<Rightarrow> key_event \<Rightarrow> jstring option" where
  "keydown prevHref nextHref e =
     (if activeTag e \<notin> set (map js [''TEXTAREA'', ''INPUT'', ''SELECT'', ''BUTTON'']) \<and>
         \<not> altKey e \<and> \<not> ctrlKey e \<and> \<not> metaKey e \<and> \<not> shiftKey e
      then
        (if keyCode e = 37 then (case prevHref of Some h \<Rightarrow> if h \<noteq> [] then Some h else None | None \<Rightarrow> None)
         else if keyCode e = 39 then (case nextHref of Some h \<Rightarrow> if h \<noteq> [] then Some h else None | None \<Rightarrow> None)
         else None)
      else None)"

definition makeURL :: "jstring \<Rightarrow> jstring \<Rightarrow> jstring" where
  "makeURL root relativeURL = root @ [47] @ relativeURL"

text \<open>
  \<open>this === '..'\<close> in a callback of \<open>$.each\<close>: the callback is not strict, so \<open>this\<close> is a
  \<open>String\<close> object, and an object is strictly equal to no string.
\<close>

definition boxedEquals :: "jstring \<Rightarrow> jstring \<Rightarrow> bool" where
  "boxedEquals this lit' \<longleftrightarrow> False"

text \<open>\<open>s.substring(i, j)\<close>, whose arguments are swapped when they are out of order.\<close>

definition substring :: "nat \<Rightarrow> nat \<Rightarrow> jstring \<Rightarrow> jstring" where
  "substring i j s = slice (min i j) (max i j) s"

definition lastSlash :: "jstring \<Rightarrow> nat" where
  "lastSlash url = length url - length (takeWhile (\<lambda>c. c \<noteq> 47) (rev url))"

definition getCurrentURL :: "jstring \<Rightarrow> jstring \<Rightarrow> jstring" where
  "getCurrentURL root path =
     (let parts = fold (\<lambda>p ps. if boxedEquals p (js ''..'') then butlast ps else ps)
                    (splitOn 47 root) (splitOn 47 path);
          url = join [47] parts
      in substring (lastSlash url) (length path - 1) path)"

text \<open>The class \<open>[\w.]\<close>, and the expressions of \<open>uaMatch\<close>: the first position of a name that is
  followed as the expression says, with the version that follows.\<close>

definition wordDot :: "nat \<Rightarrow> bool" where
  "wordDot c \<longleftrightarrow> (48 \<le> c \<and> c \<le> 57) \<or> (65 \<le> c \<and> c \<le> 90) \<or> (97 \<le> c \<and> c \<le> 122) \<or> c = 95 \<or> c = 46"

definition versionAfter :: "nat list \<Rightarrow> jstring \<Rightarrow> jstring option" where
  "versionAfter seps s =
     (case s of
        c # t \<Rightarrow> if c \<in> set seps \<and> takeWhile wordDot t \<noteq> [] then Some (takeWhile wordDot t) else None
      | [] \<Rightarrow> None)"

fun firstSome :: "(jstring \<Rightarrow> 'b option) \<Rightarrow> jstring \<Rightarrow> 'b option" where
  "firstSome f [] = f []"
| "firstSome f (c # s) = (case f (c # s) of Some x \<Rightarrow> Some x | None \<Rightarrow> firstSome f s)"

text \<open>\<open>.*version\<close> is greedy: the last occurrence on the line that works.\<close>

fun lastVersion :: "jstring \<Rightarrow> jstring option" where
  "lastVersion [] = None"
| "lastVersion (c # s) =
     (case (if is_line_end c then None else lastVersion s) of
        Some v \<Rightarrow> Some v
      | None \<Rightarrow>
          if startsWith (js ''version'') (c # s) then versionAfter [32, 47] (drop 7 (c # s)) else None)"

text \<open>\<open>.*? rv:\<close> is lazy: the first occurrence on the line that works.\<close>

fun firstRv :: "jstring \<Rightarrow> jstring option" where
  "firstRv [] = None"
| "firstRv (c # s) =
     (if startsWith (js '' rv:'') (c # s) \<and> takeWhile wordDot (drop 4 (c # s)) \<noteq> []
      then Some (takeWhile wordDot (drop 4 (c # s)))
      else if is_line_end c then None else firstRv s)"

definition uaExec :: "jstring \<Rightarrow> (jstring \<Rightarrow> jstring option) \<Rightarrow> jstring \<Rightarrow> (jstring \<times> jstring) option" where
  "uaExec name after ua =
     firstSome (\<lambda>s. if startsWith name s then map_option (Pair name) (after (drop (length name) s)) else None) ua"

definition uaMatch :: "(jstring \<Rightarrow> jstring) \<Rightarrow> jstring \<Rightarrow> jstring \<times> jstring" where
  "uaMatch lc ua0 =
     (let ua = lc ua0 in
      case uaExec (js ''chrome'') (versionAfter [32, 47]) ua of Some m \<Rightarrow> m | None \<Rightarrow>
     (case uaExec (js ''webkit'') (versionAfter [32, 47]) ua of Some m \<Rightarrow> m | None \<Rightarrow>
     (case uaExec (js ''opera'') (\<lambda>s. case lastVersion s of Some v \<Rightarrow> Some v | None \<Rightarrow> versionAfter [32, 47] s) ua
        of Some m \<Rightarrow> m | None \<Rightarrow>
     (case uaExec (js ''msie'') (versionAfter [32]) ua of Some m \<Rightarrow> m | None \<Rightarrow>
     (if \<not> occurs_in (js ''compatible'') ua
      then (case uaExec (js ''mozilla'') (\<lambda>s. Some (case firstRv s of Some v \<Rightarrow> v | None \<Rightarrow> js ''0'')) ua of
              Some m \<Rightarrow> m | None \<Rightarrow> ([], js ''0''))
      else ([], js ''0''))))))"

section \<open>Lemmas: URL parameters\<close>

definition unitString :: "jstring \<Rightarrow> bool" where
  "unitString s \<longleftrightarrow> (\<forall>c \<in> set s. c < 65536)"

lemma urldecode_encode:
  assumes "encodeURIComponent s = Some e" "unitString s"
  shows "urldecode (Some e) = Inr (Some s)"
proof -
  have "list_all uriSafe e" using assms encode_safe by (simp add: unitString_def)
  then have "map (\<lambda>c. if c = 43 then 32 else c) e = e"
    by (intro map_idI) (auto simp: list_all_iff uriSafe_def uriUnescaped_def)
  moreover have "decodeURIComponent e = Some s"
    using assms decode_encode by (simp add: unitString_def)
  ultimately show ?thesis by (auto simp: urldecode_def)
qed

lemma encode_free:
  assumes "encodeURIComponent s = Some e" "unitString s"
  shows "38 \<notin> set e" "61 \<notin> set e" "63 \<notin> set e"
  using encode_safe [OF assms(1)] assms(2)
  by (auto simp: unitString_def list_all_iff uriSafe_def uriUnescaped_def)

lemma pushParam_ok:
  assumes "key \<notin> set inheritedNames"
  shows "\<exists>r'. pushParam key v r = Inr r' \<and>
    map_of r' = (map_of r)(key \<mapsto> (case map_of r key of None \<Rightarrow> [] | Some vs \<Rightarrow> vs) @ [v])"
proof (induction r)
  case Nil
  then show ?case using assms by (simp add: fun_eq_iff)
next
  case (Cons p r)
  obtain k vs where p: "p = (k, vs)" by fastforce
  from Cons obtain r' where "pushParam key v r = Inr r'"
    "map_of r' = (map_of r)(key \<mapsto> (case map_of r key of None \<Rightarrow> [] | Some vs \<Rightarrow> vs) @ [v])" by blast
  then show ?case unfolding p by (cases "k = key") (auto simp: fun_eq_iff)
qed

text \<open>A parameter as the pages write it: key and value encoded, with an equals sign between.\<close>

definition paramText :: "jstring \<times> jstring \<Rightarrow> jstring option" where
  "paramText kv =
     (case (encodeURIComponent (fst kv), encodeURIComponent (snd kv)) of
        (Some k, Some v) \<Rightarrow> Some (k @ [61] @ v)
      | _ \<Rightarrow> None)"

definition goodParam :: "jstring \<times> jstring \<Rightarrow> bool" where
  "goodParam kv \<longleftrightarrow> unitString (fst kv) \<and> unitString (snd kv) \<and> fst kv \<notin> set inheritedNames"

lemma paramText_reads:
  assumes "paramText kv = Some p" "goodParam kv"
  shows "urldecode (Some (fst (keyValue p))) = Inr (Some (fst kv))"
    "urldecode (snd (keyValue p)) = Inr (Some (snd kv))" "38 \<notin> set p" "63 \<notin> set p"
proof -
  obtain k v where e: "encodeURIComponent (fst kv) = Some k" "encodeURIComponent (snd kv) = Some v"
    "p = k @ [61] @ v"
    using assms(1) by (auto simp: paramText_def split: option.splits)
  have u: "unitString (fst kv)" "unitString (snd kv)" using assms(2) by (auto simp: goodParam_def)
  note free = encode_free [OF e(1) u(1)] encode_free [OF e(2) u(2)]
  have "splitOn 61 p = [k, v]"
    using e(3) free splitOn_append_sep [of 61 k v] splitOn_no_sep [of 61 v] by simp
  then have kv: "keyValue p = (k, Some v)" by (simp add: keyValue_def)
  show "urldecode (Some (fst (keyValue p))) = Inr (Some (fst kv))"
    using kv urldecode_encode [OF e(1) u(1)] by simp
  show "urldecode (snd (keyValue p)) = Inr (Some (snd kv))"
    using kv urldecode_encode [OF e(2) u(2)] by simp
  show "38 \<notin> set p" "63 \<notin> set p" using e(3) free by auto
qed

definition valuesOf :: "jstring \<Rightarrow> (jstring \<times> jstring) list \<Rightarrow> jstring option list" where
  "valuesOf k kvs = map (\<lambda>kv. Some (snd kv)) (filter (\<lambda>kv. fst kv = k) kvs)"

lemma paramLoop_params:
  assumes "list_all2 (\<lambda>kv p. paramText kv = Some p \<and> goodParam kv) kvs ps"
  shows "\<exists>r. paramLoop ps acc = Inr r \<and>
    (\<forall>k. map_of r k = (if valuesOf k kvs = [] then map_of acc k
      else Some ((case map_of acc k of None \<Rightarrow> [] | Some vs \<Rightarrow> vs) @ valuesOf k kvs)))"
  using assms
proof (induction arbitrary: acc rule: list_all2_induct)
  case Nil
  then show ?case by (simp add: valuesOf_def)
next
  case (Cons kv kvs p ps)
  have ok: "fst kv \<notin> set inheritedNames" using Cons.hyps by (simp add: goodParam_def)
  obtain a where a: "pushParam (fst kv) (Some (snd kv)) acc = Inr a"
    "map_of a = (map_of acc)(fst kv \<mapsto>
       (case map_of acc (fst kv) of None \<Rightarrow> [] | Some vs \<Rightarrow> vs) @ [Some (snd kv)])"
    using pushParam_ok [OF ok] by blast
  obtain r where r: "paramLoop ps a = Inr r"
    "\<forall>k. map_of r k = (if valuesOf k kvs = [] then map_of a k
      else Some ((case map_of a k of None \<Rightarrow> [] | Some vs \<Rightarrow> vs) @ valuesOf k kvs))"
    using Cons.IH [of a] by blast
  have "paramLoop (p # ps) acc = Inr r"
    using paramText_reads(1,2) [of kv p] Cons.hyps(1) a(1) r(1) by simp
  then show ?case using r(2) a(2) by (auto simp: valuesOf_def)
qed

lemma indexOf_hd [simp]: "indexOf [c] (c # s) = 0"
  by (simp add: indexOf_def)

lemma getQueryParameters_params:
  assumes "list_all2 (\<lambda>kv p. paramText kv = Some p \<and> goodParam kv) kvs ps" "kvs \<noteq> []"
  shows "\<exists>r. getQueryParameters (63 # join [38] ps) = Inr r \<and>
    (\<forall>k. map_of r k = (if valuesOf k kvs = [] then None else Some (valuesOf k kvs)))"
proof -
  have "\<forall>p \<in> set ps. 38 \<notin> set p"
    using assms(1) paramText_reads(3) by (induction rule: list_all2_induct) auto
  moreover have "ps \<noteq> []" using assms by auto
  ultimately have "splitOn 38 (join [38] ps) = ps" by (rule splitOn_join [rotated])
  moreover obtain r where "paramLoop ps [] = Inr r"
    "\<forall>k. map_of r k = (if valuesOf k kvs = [] then None else Some (valuesOf k kvs))"
    using paramLoop_params [OF assms(1), of "[]"] by auto
  ultimately show ?thesis by (auto simp: getQueryParameters_def)
qed

section \<open>Lemmas: highlighting\<close>

primrec textContent :: "node \<Rightarrow> jstring" where
  "textContent (TextNode v) = v"
| "textContent (Element tag cs ks) = concat (map textContent ks)"

text \<open>The texts, and the tags, of the elements that carry a class.\<close>

primrec marks :: "jstring \<Rightarrow> node \<Rightarrow> jstring list" where
  "marks cls (TextNode v) = []"
| "marks cls (Element tag cs ks) =
     (if cls \<in> set cs then [concat (map textContent ks)] else []) @ concat (map (marks cls) ks)"

primrec markTags :: "jstring \<Rightarrow> node \<Rightarrow> jstring list" where
  "markTags cls (TextNode v) = []"
| "markTags cls (Element tag cs ks) = (if cls \<in> set cs then [tag] else []) @ concat (map (markTags cls) ks)"

lemma markNode_simps [simp]:
  "textContent (markNode b cls w) = w" "marks cls (markNode b cls w) = (if b then [] else [w])"
  "markTags cls (markNode b cls w) = (if b then [] else [js ''span''])"
  by (simp_all add: markNode_def)

lemma rectNode_simps [simp]:
  "textContent (rectNode cls) = []" "marks cls (rectNode cls) = [[]]" "markTags cls (rectNode cls) = [js ''rect'']"
  by (simp_all add: rectNode_def)

lemma take_substr_drop: "take i v @ substr i n v @ drop (i + n) v = v"
  by (metis add.commute append_take_drop_id drop_drop substr_def)

lemma rects_text [simp]: "concat (map textContent (replicate r (rectNode cls))) = []"
  by (induction r) auto

lemma highlightKids_text:
  "concat (map textContent (fst (highlightKids lc word cls b pcs n ks))) = concat (map textContent ks)"
proof (induction lc word cls b pcs n ks rule: highlightKids.induct)
  case (3 lc word cls b pcs n v ks)
  then show ?case
    using take_substr_drop [of "nat (indexOf word (lc v))" v "length word"] by (simp add: Let_def)
next
  case (4 lc word cls b pcs n tag cs kids ks)
  then show ?case by (auto simp: Let_def simp del: map_replicate)
qed simp_all

lemma highlight_text: "concat (map textContent (highlight lc word cls nd)) = textContent nd"
  by (auto simp: highlight_def highlightKids_text Let_def simp del: map_replicate split: node.splits)

lemma highlightText_text:
  "concat (map textContent (highlightText lc word cls els)) = concat (map textContent els)"
  by (induction els) (simp_all add: highlightText_def highlight_text)

lemma highlight_fold_text:
  "concat (map textContent (fold (\<lambda>t. highlightText lc (f t) cls) terms body)) = concat (map textContent body)"
  by (induction terms arbitrary: body) (simp_all add: highlightText_text)

lemma indexOf_nth:
  assumes "indexOf p s \<ge> 0"
  shows "substr (nat (indexOf p s)) (length p) s = p"
  using assms
  by (cases rule: indexOf_cases [of p s]) (auto simp: startsWith_def substr_def)

text \<open>A mark holds the word; a frame holds nothing.\<close>

definition markOf :: "(nat \<Rightarrow> nat) \<Rightarrow> jstring \<Rightarrow> jstring \<Rightarrow> node list \<Rightarrow> bool" where
  "markOf f word cls ks \<longleftrightarrow> (\<forall>m \<in> set (concat (map (marks cls) ks)). map f m = word \<or> m = [])"

lemma markOf_simps [simp]:
  "markOf f word cls []" "markOf f word cls (nd # ks) \<longleftrightarrow> (\<forall>m \<in> set (marks cls nd). map f m = word \<or> m = []) \<and> markOf f word cls ks"
  "markOf f word cls (ks @ ks') \<longleftrightarrow> markOf f word cls ks \<and> markOf f word cls ks'"
  "markOf f word cls (replicate r (rectNode cls))"
  by (auto simp: markOf_def)

lemma highlightKids_marks:
  "markOf f word cls ks \<Longrightarrow> markOf f word cls (fst (highlightKids (map f) word cls b pcs n ks))"
proof (induction "map f" word cls b pcs n ks rule: highlightKids.induct)
  case (3 word cls b pcs n v ks)
  have "map f (substr (nat (indexOf word (map f v))) (length word) v) = word" if "indexOf word (map f v) \<ge> 0"
    using indexOf_nth [OF that] by (simp add: substr_def take_map drop_map)
  with 3 show ?case by (auto simp: Let_def)
next
  case (4 word cls b pcs n tag cs kids ks)
  have "markOf f word cls kids" using "4.prems" by (auto simp: markOf_def)
  with 4 show ?case by (auto simp: Let_def highlightKids_text markOf_def [of f word cls "fst _"])
qed auto

lemma highlight_marks: "markOf f word cls [nd] \<Longrightarrow> markOf f word cls (highlight (map f) word cls nd)"
proof (cases nd)
  case (Element tag cs ks)
  assume m: "markOf f word cls [nd]"
  then have "markOf f word cls ks" using Element by (auto simp: markOf_def)
  from highlightKids_marks [OF this, of "inSVG False tag" cs "length ks"] m Element show ?thesis
    by (auto simp: highlight_def highlightKids_text Let_def markOf_def [of f word cls "fst _"])
qed (simp add: highlight_def)

lemma hideSearchWords_text: "textContent (hideSearchWords nd) = textContent nd"
  by (induction nd) (auto simp: comp_def intro!: arg_cong [of _ _ concat])

text \<open>Only elements with certain tags carry the mark.\<close>

definition carriers :: "jstring set \<Rightarrow> node \<Rightarrow> bool" where
  "carriers T nd \<longleftrightarrow> set (markTags (js ''highlighted'') nd) \<subseteq> T"

lemma carriers_simps [simp]:
  "carriers T (TextNode v)"
  "carriers T (Element tag cs ks) \<longleftrightarrow> (js ''highlighted'' \<in> set cs \<longrightarrow> tag \<in> T) \<and> list_all (carriers T) ks"
  by (auto simp: carriers_def list_all_iff simp del: js.simps)

lemma hideSearchWords_carriers:
  "carriers (insert (js ''span'') T) nd \<Longrightarrow> carriers T (hideSearchWords nd)"
  by (induction nd) (auto simp: list_all_iff simp del: js.simps)

lemma rects_carriers: "js ''rect'' \<in> T \<Longrightarrow> list_all (carriers T) (replicate r (rectNode (js ''highlighted'')))"
  by (induction r) (simp_all add: rectNode_def del: js.simps)

lemma highlightKids_carriers:
  "js ''span'' \<in> T \<Longrightarrow> js ''rect'' \<in> T \<Longrightarrow> list_all (carriers T) ks \<Longrightarrow>
   list_all (carriers T) (fst (highlightKids lc word (js ''highlighted'') b pcs n ks))"
proof (induction lc word "js ''highlighted''" b pcs n ks rule: highlightKids.induct)
  case (3 lc word b pcs n v ks)
  then show ?case by (simp add: Let_def markNode_def del: js.simps)
next
  case (4 lc word b pcs n tag cs kids ks)
  then show ?case by (cases "tag \<in> set skippedTags") (simp_all add: Let_def rects_carriers del: js.simps)
qed simp_all

lemma highlight_carriers:
  "js ''span'' \<in> T \<Longrightarrow> js ''rect'' \<in> T \<Longrightarrow> carriers T nd \<Longrightarrow> list_all (carriers T) (highlight lc word (js ''highlighted'') nd)"
  using highlightKids_carriers [of T]
  by (cases nd) (simp_all add: highlight_def Let_def rects_carriers del: js.simps)

lemma highlight_fold_keeps:
  assumes "\<And>nd t. P nd \<Longrightarrow> list_all P (highlight lc (f t) cls nd)" "list_all P body"
  shows "list_all P (fold (\<lambda>t. highlightText lc (f t) cls) terms body)"
  using assms(2)
proof (induction terms arbitrary: body)
  case (Cons t terms)
  have "list_all P (highlight lc (f t) cls nd)" if "nd \<in> set body" for nd
    by (rule assms(1)) (use Cons.prems that in \<open>simp add: list_all_iff\<close>)
  then have "list_all P (highlightText lc (f t) cls body)"
    unfolding highlightText_def list_all_iff set_concat set_map by blast
  from Cons.IH [OF this] show ?case by simp
qed simp

text \<open>Outside drawings there are no frames.\<close>

primrec drawingFree :: "node \<Rightarrow> bool" where
  "drawingFree (TextNode v) = True"
| "drawingFree (Element tag cs ks) = (tag \<noteq> js ''svg'' \<and> list_all drawingFree ks)"

definition plainNode :: "node \<Rightarrow> bool" where
  "plainNode nd \<longleftrightarrow> drawingFree nd \<and> carriers {js ''span''} nd"

lemma plainNode_simps [simp]:
  "plainNode (TextNode v)"
  "plainNode (Element tag cs ks) \<longleftrightarrow> tag \<noteq> js ''svg'' \<and> (js ''highlighted'' \<in> set cs \<longrightarrow> tag = js ''span'') \<and> list_all plainNode ks"
  by (auto simp: plainNode_def list_all_iff simp del: js.simps)

lemma inSVG_outside: "tag \<noteq> js ''svg'' \<Longrightarrow> inSVG False tag = False"
  by (simp add: inSVG_def)

lemma markNode_plain: "plainNode (markNode False (js ''highlighted'') w)"
  by (simp add: markNode_def)

lemma highlightKids_plain:
  "list_all plainNode ks \<Longrightarrow> \<not> b \<Longrightarrow>
   list_all plainNode (fst (highlightKids lc word (js ''highlighted'') b pcs n ks)) \<and>
   snd (highlightKids lc word (js ''highlighted'') b pcs n ks) = 0"
proof (induction lc word "js ''highlighted''" b pcs n ks rule: highlightKids.induct)
  case (3 lc word b pcs n v ks)
  then show ?case by (auto simp: Let_def markNode_plain simp del: js.simps)
next
  case (4 lc word b pcs n tag cs kids ks)
  then show ?case by (auto simp: Let_def inSVG_outside simp del: js.simps)
qed (auto simp del: js.simps)

lemma highlight_plain: "plainNode nd \<Longrightarrow> list_all plainNode (highlight lc word (js ''highlighted'') nd)"
  using highlightKids_plain [of _ False lc word]
  by (cases nd) (auto simp: highlight_def Let_def inSVG_outside simp del: js.simps)

text \<open>Words joined by blanks come back from the split at white space.\<close>

lemma splitSpaces_word:
  "w \<noteq> [] \<Longrightarrow> \<forall>c \<in> set w. \<not> is_js_space c \<Longrightarrow>
   splitSpaces b (w @ s) = (w @ hd (splitSpaces False s)) # tl (splitSpaces False s)"
proof (induction w arbitrary: b rule: list_nonempty_induct)
  case (single x)
  then show ?case by (cases s) (auto split: list.splits)
next
  case (cons x xs)
  then show ?case by simp
qed

lemma splitSpaces_join:
  "ws \<noteq> [] \<Longrightarrow> \<forall>w \<in> set ws. w \<noteq> [] \<and> (\<forall>c \<in> set w. \<not> is_js_space c) \<Longrightarrow>
   splitSpaces b (join [32] ws) = ws"
proof (induction ws arbitrary: b rule: induct_list012)
  case (2 w)
  then show ?case using splitSpaces_word [of w b "[]"] by simp
next
  case (3 w v ws)
  then show ?case
    using splitSpaces_word [of w b "32 # join [32] (v # ws)"] by (simp add: is_js_space_def)
qed simp

section \<open>Lemmas: toggles\<close>

definition togglerSrc :: "jstring \<Rightarrow> bool \<Rightarrow> jstring" where
  "togglerSrc base open' = base @ (if open' then js ''minus.png'' else js ''plus.png'')"

lemma toggleClick_src:
  assumes "src t = togglerSrc base (rows_shown t)" "base \<noteq> []" "last base \<noteq> 115"
  shows "src (toggleClick t) = togglerSrc base (rows_shown (toggleClick t))"
proof (cases "rows_shown t")
  case True
  then show ?thesis using assms by (simp add: toggleClick_def togglerSrc_def)
next
  case False
  have "drop (length base - 1) base = [last base]"
    using assms(2) by (metis append_butlast_last_id append_eq_conv_conj length_butlast)
  then show ?thesis using False assms by (simp add: toggleClick_def togglerSrc_def)
qed

section \<open>Lemmas: helpers with a defect\<close>

text \<open>A message with a translation has no plural: the call ends in an error.\<close>

lemma ngettext_translated:
  "m \<in> fst ` set (messages c) \<Longrightarrow> ngettext (addTranslations c d) m plural n = Inl TypeError"
proof -
  have "fold (\<lambda>(k, m) t. t(k \<mapsto> m)) ms t m \<noteq> None" if "m \<in> fst ` set ms \<or> t m \<noteq> None"
    for ms and t :: "jstring \<rightharpoonup> message"
    using that
  proof (induction ms arbitrary: t)
    case (Cons p ms)
    show ?case using Cons.prems Cons.IH [of "t(fst p \<mapsto> snd p)"] by (cases p) auto
  qed simp
  then show "m \<in> fst ` set (messages c) \<Longrightarrow> ?thesis"
    by (auto simp: ngettext_def addTranslations_def split: option.splits)
qed

text \<open>The root of the manual has no influence, and the last character of the path is lost.\<close>

lemma getCurrentURL_root:
  "getCurrentURL root path = substring (lastSlash path) (length path - 1) path"
proof -
  have "fold (\<lambda>p ps. if boxedEquals p (js ''..'') then butlast ps else ps) rs ps = ps"
    for rs ps :: "jstring list"
    by (induction rs) (simp_all add: boxedEquals_def)
  then show ?thesis by (simp add: getCurrentURL_def Let_def join_splitOn)
qed

section \<open>Properties\<close>

text \<open>
  The parameters of a URL come back: a query string of encoded keys and values is
  accepted, and every key has the list of its values in their order, for keys and
  values of any characters, as long as no key is one of the names every object inherits.
\<close>

theorem query_parameters_roundtrip:
  assumes "list_all2 (\<lambda>kv p. paramText kv = Some p \<and> goodParam kv) kvs ps" "kvs \<noteq> []"
  shows "\<exists>r. getQueryParameters (63 # join [38] ps) = Inr r \<and>
    (\<forall>k. map_of r k = (if valuesOf k kvs = [] then None else Some (valuesOf k kvs)))"
  using assms by (rule getQueryParameters_params)

theorem query_parameters_roundtrip_witness:
  "\<exists>r. getQueryParameters (js ''?q=a%26%C3%A9&q=%20'') = Inr r \<and>
    map_of r (js ''q'') = Some [Some (js ''a&'' @ [233]), Some (js '' '')]"
proof -
  let ?kvs = "[(js ''q'', js ''a&'' @ [233]), (js ''q'', js '' '')]"
  have "list_all2 (\<lambda>kv p. paramText kv = Some p \<and> goodParam kv) ?kvs [js ''q=a%26%C3%A9'', js ''q=%20'']"
    by (simp add: paramText_def uriUnescaped_def goodParam_def unitString_def inheritedNames_def
        utf8_def percent_def hexDigit_def leadSurrogate_def trailSurrogate_def)
  from query_parameters_roundtrip [OF this] obtain r where
    r: "getQueryParameters (js ''?q=a%26%C3%A9&q=%20'') = Inr r"
    "map_of r (js ''q'') = Some (valuesOf (js ''q'') ?kvs)"
    by (auto simp: valuesOf_def)
  then show ?thesis by (simp add: valuesOf_def)
qed

text \<open>
  C20. Highlighting changes no text, whatever the document and the words, and hiding the marks undoes it outside drawings: the text
  stays as it was, no element of a document without drawings carries the mark any more, and in a document with
  drawings only their frames do.
\<close>

theorem highlighting_is_reversible:
  assumes "highlightSearchWords lc search body = Inr (body', link)" "list_all (carriers {js ''span''}) body"
  shows "concat (map textContent body') = concat (map textContent body) \<and>
    concat (map textContent (map hideSearchWords body')) = concat (map textContent body) \<and>
    set (concat (map (markTags (js ''highlighted'')) (map hideSearchWords body'))) \<subseteq> {js ''rect''} \<and>
    (list_all drawingFree body \<longrightarrow> concat (map (markTags (js ''highlighted'')) (map hideSearchWords body')) = [])"
proof (intro conjI impI)
  let ?T = "{js ''span'', js ''rect''}"
  obtain terms where b: "body' = fold (\<lambda>t. highlightText lc (lc t) (js ''highlighted'')) terms body"
    using assms(1) by (auto simp: highlightSearchWords_def split: sum.splits)
  show same: "concat (map textContent body') = concat (map textContent body)" unfolding b by (rule highlight_fold_text)
  then show "concat (map textContent (map hideSearchWords body')) = concat (map textContent body)"
    by (simp add: comp_def hideSearchWords_text)
  have "list_all (carriers ?T) body" using assms(2) by (auto simp: list_all_iff carriers_def simp del: js.simps)
  then have "list_all (carriers ?T) body'"
    unfolding b by (intro highlight_fold_keeps) (simp_all add: highlight_carriers del: js.simps)
  then have "\<forall>nd \<in> set body'. carriers {js ''rect''} (hideSearchWords nd)"
    by (auto simp: list_all_iff intro!: hideSearchWords_carriers simp del: js.simps)
  then show "set (concat (map (markTags (js ''highlighted'')) (map hideSearchWords body'))) \<subseteq> {js ''rect''}"
    by (auto simp: carriers_def simp del: js.simps)
  assume "list_all drawingFree body"
  then have "list_all plainNode body" using assms(2) by (auto simp: list_all_iff plainNode_def)
  then have "list_all plainNode body'" unfolding b by (intro highlight_fold_keeps) (simp_all add: highlight_plain del: js.simps)
  then have "\<forall>nd \<in> set body'. carriers {} (hideSearchWords nd)"
    by (auto simp: list_all_iff plainNode_def intro!: hideSearchWords_carriers simp del: js.simps)
  then show "concat (map (markTags (js ''highlighted'')) (map hideSearchWords body')) = []"
    by (auto simp: carriers_def concat_eq_Nil_conv simp del: js.simps)
qed

theorem highlighting_is_reversible_witness:
  "\<exists>body'. highlightSearchWords id (js ''?highlight=b'') [Element (js ''body'') [] [TextNode (js ''abc'')]] =
     Inr (body', True) \<and>
   concat (map textContent body') = js ''abc'' \<and>
   concat (map (markTags (js ''highlighted'')) (map hideSearchWords body')) = []"
proof -
  have "highlightSearchWords id (js ''?highlight=b'') [Element (js ''body'') [] [TextNode (js ''abc'')]] =
    Inr ([Element (js ''body'') [] [TextNode (js ''a''),
      Element (js ''span'') [js ''highlighted''] [TextNode (js ''b'')], TextNode (js ''c'')]], True)"
    by (simp add: highlightSearchWords_def highlightTerms_def getQueryParameters_def indexOf_def
        keyValue_def urldecode_def inheritedNames_def highlightText_def highlight_def skippedTags_def
        blocked_def is_js_space_def substr_def markNode_def inSVG_def)
  from highlighting_is_reversible [OF this] show ?thesis
    unfolding \<open>highlightSearchWords id _ _ = _\<close> by simp
qed

text \<open>
  In a drawing the frame of a word stays when the marks are hidden, because only \<open>span\<close> elements lose the class.
\<close>

theorem hidden_frames_stay:
  "concat (map (markTags (js ''highlighted'')) (map hideSearchWords
     (highlightText id (js ''vm'') (js ''highlighted'')
       [Element (js ''body'') [] [Element (js ''svg'') [] [Element (js ''text'') [] [TextNode (js ''a vm'')]]]]))) = [js ''rect'']"
  by code_simp

text \<open>
  Only the word is marked: in a document without marks, and with a conversion to
  lower case that works character by character, every element that carries the mark
  after a pass for a word holds an occurrence of that word, or is an empty frame.
\<close>

theorem highlight_marks_the_word:
  assumes "marks cls nd = []"
  shows "\<forall>m \<in> set (concat (map (marks cls) (highlight (map f) word cls nd))). map f m = word \<or> m = []"
  using highlight_marks [of f word cls nd] assms by (auto simp: markOf_def)

theorem highlight_marks_the_word_witness:
  "list_all (\<lambda>m. map (\<lambda>c. if 65 \<le> c \<and> c \<le> 90 then c + 32 else c) m = js ''vm'' \<or> m = [])
     (concat (map (marks (js ''hit'')) (highlight (map (\<lambda>c. if 65 \<le> c \<and> c \<le> 90 then c + 32 else c)) (js ''vm'') (js ''hit'')
      (Element (js ''p'') [] [TextNode (js ''a VM''), Element (js ''b'') [] [TextNode (js ''vms'')]]))))"
  unfolding list_all_iff by (rule highlight_marks_the_word) simp

text \<open>
  Occurrences are missed: the loop over the children runs as often as there were
  children at first, while each mark inserts two more. A text that is the only child
  gets one mark however often the word occurs in it, and marks in the first child keep
  the later children from being looked at.
\<close>

theorem highlight_misses_occurrences:
  "highlight id (js ''vm'') (js ''hit'') (Element (js ''p'') [] [TextNode (js ''vm vm'')]) =
     [Element (js ''p'') [] [TextNode [], Element (js ''span'') [js ''hit''] [TextNode (js ''vm'')],
       TextNode (js '' vm'')]] \<and>
   highlight id (js ''vm'') (js ''hit'')
       (Element (js ''p'') [] [TextNode (js ''a vm''), Element (js ''b'') [] [], Element (js ''i'') [] [TextNode (js ''vm'')]]) =
     [Element (js ''p'') [] [TextNode (js ''a ''), Element (js ''span'') [js ''hit''] [TextNode (js ''vm'')],
       TextNode [], Element (js ''b'') [] [], Element (js ''i'') [] [TextNode (js ''vm'')]]]"
  by code_simp

end
