(* ===== verification/JQuery_Param.thy ===== *)
theory JQuery_Param
  imports Doc_Tools
begin

text \<open>
  \<open>jQuery.param\<close> of \<^verbatim>\<open>jquery.js\<close>: an object or a list of form fields as the query string of a URL, the inverse of
  the parser \<open>getQueryParameters\<close> that the same pages use (theory \<open>Doc_Tools\<close>). The lemmas
  show what the parser reads from the string.
\<close>

section \<open>Values\<close>

text \<open>
  \<open>null\<close> and \<open>undefined\<close>; a simple value, by its text; a function, by its source and what it returns;
  an array; an object; and an object of another class, which counts as a simple value.
\<close>

datatype pval =
    PMissing
  | PText jstring
  | PCall jstring pval
  | PArr "pval list"
  | PObj "(jstring \<times> pval) list"
  | POther jstring

text \<open>\<open>String(v)\<close>, with the empty text for a missing value.\<close>

fun paramTextOf :: "pval \<Rightarrow> jstring" where
  "paramTextOf PMissing = []"
| "paramTextOf (PText s) = s"
| "paramTextOf (PCall code res) = code"
| "paramTextOf (PArr vs) = join [44] (map paramTextOf vs)"
| "paramTextOf (PObj ps) = js ''[object Object]''"
| "paramTextOf (POther s) = s"

text \<open>The value \<open>add\<close> appends: a function is called.\<close>

definition addValue :: "pval \<Rightarrow> jstring" where
  "addValue v = paramTextOf (case v of PCall code res \<Rightarrow> res | _ \<Rightarrow> v)"

definition isObjectV :: "pval \<Rightarrow> bool" where
  "isObjectV v = (case v of PArr _ \<Rightarrow> True | PObj _ \<Rightarrow> True | POther _ \<Rightarrow> True | _ \<Rightarrow> False)"

definition rbracket :: "jstring \<Rightarrow> bool" where
  "rbracket prefix = endsWith (js ''[]'') prefix"

section \<open>Serialising\<close>

definition bracketed :: "jstring \<Rightarrow> jstring \<Rightarrow> jstring" where
  "bracketed prefix name = prefix @ [91] @ name @ [93]"

text \<open>The pairs that are added, in order.\<close>

fun buildParams :: "bool \<Rightarrow> jstring \<Rightarrow> pval \<Rightarrow> (jstring \<times> jstring) list"
  and buildItems :: "bool \<Rightarrow> jstring \<Rightarrow> nat \<Rightarrow> pval list \<Rightarrow> (jstring \<times> jstring) list"
  and buildProps :: "bool \<Rightarrow> jstring \<Rightarrow> (jstring \<times> pval) list \<Rightarrow> (jstring \<times> jstring) list" where
  "buildParams traditional prefix (PArr vs) = buildItems traditional prefix 0 vs"
| "buildParams traditional prefix (PObj ps) =
     (if \<not> traditional then buildProps traditional prefix ps else [(prefix, addValue (PObj ps))])"
| "buildParams traditional prefix v = [(prefix, addValue v)]"
| "buildItems traditional prefix i [] = []"
| "buildItems traditional prefix i (v # vs) =
     (if traditional \<or> rbracket prefix then [(prefix, addValue v)]
      else buildParams traditional (bracketed prefix (if isObjectV v then dec i else [])) v) @
     buildItems traditional prefix (Suc i) vs"
| "buildProps traditional prefix [] = []"
| "buildProps traditional prefix ((name, v) # ps) =
     buildParams traditional (bracketed prefix name) v @ buildProps traditional prefix ps"

text \<open>The argument: nothing, form fields with name and value, or an object.\<close>

datatype param_arg = NoParams | FormFields "(jstring \<times> pval) list" | ParamsOf "(jstring \<times> pval) list"

definition paramPairs :: "param_arg \<Rightarrow> bool \<Rightarrow> (jstring \<times> jstring) list" where
  "paramPairs a traditional =
     (case a of
        NoParams \<Rightarrow> []
      | FormFields fs \<Rightarrow> map (\<lambda>(n, v). (n, addValue v)) fs
      | ParamsOf ps \<Rightarrow> concat (map (\<lambda>(n, v). buildParams traditional n v) ps))"

text \<open>Encoding may raise a \<open>URIError\<close>: \<open>None\<close>.\<close>

definition encodePair :: "jstring \<times> jstring \<Rightarrow> jstring option" where
  "encodePair kv =
     (case (encodeURIComponent (fst kv), encodeURIComponent (snd kv)) of
        (Some k, Some v) \<Rightarrow> Some (k @ [61] @ v)
      | _ \<Rightarrow> None)"

definition param :: "param_arg \<Rightarrow> bool \<Rightarrow> jstring option" where
  "param a traditional = map_option (join [38]) (those (map encodePair (paramPairs a traditional)))"

section \<open>Lemmas\<close>

lemma encodePair_paramText: "encodePair = paramText"
  by (rule ext) (simp add: encodePair_def paramText_def)

text \<open>Texts the encoder and the parser accept.\<close>

definition plainText :: "jstring \<Rightarrow> bool" where
  "plainText s \<longleftrightarrow> list_all (\<lambda>c. c < 65536 \<and> \<not> leadSurrogate c \<and> \<not> trailSurrogate c) s"

definition plainPair :: "jstring \<times> jstring \<Rightarrow> bool" where
  "plainPair kv \<longleftrightarrow> plainText (fst kv) \<and> plainText (snd kv) \<and> fst kv \<notin> set inheritedNames"

lemma plainPair_encodes: "plainPair kv \<Longrightarrow> \<exists>p. paramText kv = Some p \<and> goodParam kv"
  using encode_total [of "fst kv"] encode_total [of "snd kv"]
  by (auto simp: plainPair_def plainText_def list_all_iff paramText_def goodParam_def unitString_def)

lemma plainPairs_encode:
  "list_all plainPair kvs \<Longrightarrow>
    \<exists>ps. those (map paramText kvs) = Some ps \<and> list_all2 (\<lambda>kv p. paramText kv = Some p \<and> goodParam kv) kvs ps"
proof (induction kvs)
  case (Cons kv kvs)
  then obtain p ps where "paramText kv = Some p" "goodParam kv" "those (map paramText kvs) = Some ps"
    "list_all2 (\<lambda>kv p. paramText kv = Some p \<and> goodParam kv) kvs ps" using plainPair_encodes [of kv] by auto
  then show ?case by (intro exI [of _ "p # ps"]) simp
qed simp

lemma param_reads:
  assumes "list_all plainPair (paramPairs a trad)" "paramPairs a trad \<noteq> []"
  shows "\<exists>s r. param a trad = Some s \<and> getQueryParameters (63 # s) = Inr r \<and>
    (\<forall>k. map_of r k = (let vs = valuesOf k (paramPairs a trad) in if vs = [] then None else Some vs))"
proof -
  obtain ps where ps: "those (map paramText (paramPairs a trad)) = Some ps"
    "list_all2 (\<lambda>kv p. paramText kv = Some p \<and> goodParam kv) (paramPairs a trad) ps"
    using plainPairs_encode [OF assms(1)] by blast
  from getQueryParameters_params [OF ps(2) assms(2)] ps(1) show ?thesis
    by (auto simp: param_def encodePair_paramText Let_def)
qed

text \<open>The name under which the items of a list are sent.\<close>

definition itemKey :: "bool \<Rightarrow> jstring \<Rightarrow> jstring" where
  "itemKey trad k = (if trad \<or> rbracket k then k else k @ js ''[]'')"

lemma buildItems_texts: "buildItems trad k i (map PText vs) = map (\<lambda>v. (itemKey trad k, v)) vs"
  by (induction vs arbitrary: i) (auto simp: itemKey_def addValue_def isObjectV_def bracketed_def)

definition listsArg :: "(jstring \<times> jstring list) list \<Rightarrow> param_arg" where
  "listsArg ls = ParamsOf (map (\<lambda>(k, vs). (k, PArr (map PText vs))) ls)"

lemma paramPairs_lists: "paramPairs (listsArg ls) trad = concat (map (\<lambda>(k, vs). map (\<lambda>v. (itemKey trad k, v)) vs) ls)"
  by (induction ls) (auto simp: listsArg_def paramPairs_def buildItems_texts)

lemma valuesOf_append: "valuesOf k (xs @ ys) = valuesOf k xs @ valuesOf k ys"
  by (simp add: valuesOf_def)

lemma valuesOf_lists:
  "distinct (map (\<lambda>l. itemKey trad (fst l)) ls) \<Longrightarrow> (k, vs) \<in> set ls \<Longrightarrow>
    valuesOf (itemKey trad k) (concat (map (\<lambda>(k, vs). map (\<lambda>v. (itemKey trad k, v)) vs) ls)) = map Some vs"
proof (induction ls)
  case (Cons l ls)
  obtain m us where l: "l = (m, us)" by fastforce
  have none: "valuesOf (itemKey trad m) (concat (map (\<lambda>(k, vs). map (\<lambda>v. (itemKey trad k, v)) vs) ls)) = []"
    using Cons.prems(1) l by (force simp: valuesOf_def filter_empty_conv)
  have own: "valuesOf (itemKey trad m) (map (\<lambda>v. (itemKey trad m, v)) us) = map Some us"
    by (induction us) (auto simp: valuesOf_def)
  have other: "itemKey trad j \<noteq> itemKey trad m" if "(j, ws) \<in> set ls" for j ws
    using Cons.prems(1) l that by force
  have skip: "valuesOf (itemKey trad k) (map (\<lambda>v. (itemKey trad m, v)) us) = []" if "(k, vs) \<in> set ls"
    using other [OF that] by (auto simp: valuesOf_def)
  show ?case using Cons l none own skip by (auto simp: valuesOf_append)
qed simp

section \<open>Properties\<close>

text \<open>
  C40. What \<open>jQuery.param\<close> writes the pages read back: for an object of lists of texts without surrogates, the
  query string is read by \<open>getQueryParameters\<close>, and every key that has values has exactly them, in order; the key is
  the name itself in the traditional form, and the name followed by brackets otherwise.
\<close>
theorem param_roundtrip:
  assumes "list_all (\<lambda>(k, vs). plainText (itemKey trad k) \<and> itemKey trad k \<notin> set inheritedNames \<and> list_all plainText vs) ls"
    and "distinct (map (\<lambda>l. itemKey trad (fst l)) ls)" and "(k, vs) \<in> set ls" and "vs \<noteq> []"
  shows "\<exists>s r. param (listsArg ls) trad = Some s \<and> getQueryParameters (63 # s) = Inr r \<and>
    map_of r (itemKey trad k) = Some (map Some vs)"
proof -
  have "list_all plainPair (paramPairs (listsArg ls) trad)"
    using assms(1) by (fastforce simp: paramPairs_lists list_all_iff plainPair_def)
  moreover have v: "valuesOf (itemKey trad k) (paramPairs (listsArg ls) trad) = map Some vs"
    using valuesOf_lists [OF assms(2,3)] by (simp add: paramPairs_lists)
  then have "paramPairs (listsArg ls) trad \<noteq> []" using assms(4) by (auto simp: valuesOf_def)
  ultimately show ?thesis using param_reads [of "listsArg ls" trad] v assms(4) by fastforce
qed

theorem param_roundtrip_witness:
  "\<exists>s r. param (listsArg [(js ''q'', [js ''a&b'', js ''c''])]) False = Some s \<and> getQueryParameters (63 # s) = Inr r \<and>
    map_of r (js ''q[]'') = Some [Some (js ''a&b''), Some (js ''c'')]"
proof -
  have k: "itemKey False (js ''q'') = js ''q[]''" by (simp add: itemKey_def rbracket_def endsWith_def)
  have "plainText (js ''q[]'')" "js ''q[]'' \<notin> set inheritedNames" "plainText (js ''a&b'')" "plainText (js ''c'')"
    by (simp_all add: plainText_def leadSurrogate_def trailSurrogate_def inheritedNames_def)
  then show ?thesis
    using param_roundtrip [of False "[(js ''q'', [js ''a&b'', js ''c''])]" "js ''q''" "[js ''a&b'', js ''c'']"]
    by (simp add: k del: js.simps)
qed

end
