(* ===== verification/JS_Regex.thy ===== *)
theory JS_Regex
  imports JS_Prelude
begin

text \<open>
  Regular expressions with groups, as the language matches them: by backtracking, with the ways to match in the order
  of preference. The fragment is what the selector engine uses. The lemmas give the first match of the
  common shapes.
\<close>

section \<open>Matching\<close>

text \<open>
  A repetition is greedy, and an iteration that consumes nothing is not repeated. A group records the text it
  matched, the last time it took part.
\<close>

datatype rx = Sym "nat \<Rightarrow> bool" | Cat rx rx | Or rx rx | Star rx | Grp nat rx | Eps | Eos

type_synonym captures = "(nat \<times> jstring) list"

fun starMatches :: "(captures \<times> jstring \<Rightarrow> (captures \<times> jstring) list) \<Rightarrow> nat \<Rightarrow> captures \<times> jstring \<Rightarrow> (captures \<times> jstring) list" where
  "starMatches f 0 cs = [cs]"
| "starMatches f (Suc n) cs =
     concat (map (\<lambda>ct. if length (snd ct) < length (snd cs) then starMatches f n ct else []) (f cs)) @ [cs]"

primrec matches :: "rx \<Rightarrow> captures \<times> jstring \<Rightarrow> (captures \<times> jstring) list" where
  "matches (Sym p) cs = (case snd cs of c # s \<Rightarrow> if p c then [(fst cs, s)] else [] | [] \<Rightarrow> [])"
| "matches (Cat a b) cs = concat (map (matches b) (matches a cs))"
| "matches (Or a b) cs = matches a cs @ matches b cs"
| "matches (Star a) cs = starMatches (matches a) (length (snd cs)) cs"
| "matches (Grp n a) cs =
     map (\<lambda>(c, t). ((n, take (length (snd cs) - length t) (snd cs)) # c, t)) (matches a cs)"
| "matches Eps cs = [cs]"
| "matches Eos cs = (if snd cs = [] then [cs] else [])"

text \<open>\<open>exec\<close> of an expression that is anchored at the start: the groups and the text matched.\<close>

definition execAt :: "rx \<Rightarrow> jstring \<Rightarrow> (captures \<times> jstring) option" where
  "execAt r s =
     (case matches r ([], s) of [] \<Rightarrow> None | (c, t) # _ \<Rightarrow> Some (c, take (length s - length t) s))"

definition grp :: "captures \<Rightarrow> nat \<Rightarrow> jstring option" where
  "grp c n = map_of c n"

text \<open>\<open>test\<close> of an expression that is not anchored.\<close>

fun testAnywhere :: "rx \<Rightarrow> jstring \<Rightarrow> bool" where
  "testAnywhere r [] \<longleftrightarrow> execAt r [] \<noteq> None"
| "testAnywhere r (c # s) \<longleftrightarrow> execAt r (c # s) \<noteq> None \<or> testAnywhere r s"

section \<open>Shapes\<close>

definition Plus :: "rx \<Rightarrow> rx" where
  "Plus r = Cat r (Star r)"

definition Maybe :: "rx \<Rightarrow> rx" where
  "Maybe r = Or r Eps"

fun upTo :: "nat \<Rightarrow> rx \<Rightarrow> rx" where
  "upTo 0 r = Eps"
| "upTo (Suc n) r = Maybe (Cat r (upTo n r))"

fun wordRx :: "jstring \<Rightarrow> rx" where
  "wordRx [] = Eps"
| "wordRx (c # s) = Cat (Sym (\<lambda>x. x = c)) (wordRx s)"

definition lits :: "string \<Rightarrow> rx" where
  "lits s = wordRx (js s)"

section \<open>Lemmas\<close>

text \<open>What remains is always an end of the text.\<close>

lemma starMatches_suffix:
  assumes "\<And>cs ct. ct \<in> set (f cs) \<Longrightarrow> \<exists>u. snd cs = u @ snd ct"
  shows "ct \<in> set (starMatches f n cs) \<Longrightarrow> \<exists>u. snd cs = u @ snd ct"
proof (induction n arbitrary: cs)
  case (Suc n)
  then consider "ct = cs" | cm where "cm \<in> set (f cs)" "ct \<in> set (starMatches f n cm)" by (auto split: if_splits)
  then show ?case
  proof cases
    case 2
    then show ?thesis using Suc.IH [OF 2(2)] assms [OF 2(1)] by (metis append.assoc)
  qed simp
qed simp

lemma matches_suffix: "ct \<in> set (matches r cs) \<Longrightarrow> \<exists>u. snd cs = u @ snd ct"
proof (induction r arbitrary: cs ct)
  case (Sym p)
  then show ?case by (cases cs; cases "snd cs") (auto split: if_splits)
next
  case (Cat a b)
  then obtain cm where "cm \<in> set (matches a cs)" "ct \<in> set (matches b cm)" by auto
  with Cat.IH show ?case by (metis append.assoc)
next
  case (Star a)
  show ?case by (rule starMatches_suffix [where f = "matches a" and n = "length (snd cs)"]) (use Star in auto)
next
  case (Grp n a)
  then obtain cm where "cm \<in> set (matches a cs)" "snd ct = snd cm" by (auto split: prod.splits)
  with Grp.IH show ?case by auto
qed (auto split: if_splits)

lemma execAt_prefix: "execAt r s = Some (c, m) \<Longrightarrow> \<exists>t. s = m @ t"
  by (auto simp: execAt_def dest: matches_suffix split: list.splits) (metis append_take_drop_id)

lemma execAt_drop: "execAt r s = Some (c, m) \<Longrightarrow> s = m @ drop (length m) s"
  using execAt_prefix by (metis append_eq_conv_conj)

text \<open>The first match of a sequence whose first part has a first match that can be continued.\<close>

lemma matches_Cat_hd:
  "matches a cs = x # xs \<Longrightarrow> matches b x \<noteq> [] \<Longrightarrow> \<exists>ys. matches (Cat a b) cs = hd (matches b x) # ys"
  by (cases "matches b x") auto

text \<open>A greedy repetition takes pieces as long as there are any, when each piece is taken in its preferred way.\<close>

definition takes :: "(captures \<times> jstring \<Rightarrow> (captures \<times> jstring) list) \<Rightarrow> jstring \<Rightarrow> bool" where
  "takes f k \<longleftrightarrow> k \<noteq> [] \<and> (\<forall>c t. \<exists>xs. f (c, k @ t) = (c, t) # xs)"

lemma star_first:
  "length (concat ks @ s) \<le> n \<Longrightarrow> list_all (takes f) ks \<Longrightarrow> f (c, s) = [] \<Longrightarrow>
    \<exists>xs. starMatches f n (c, concat ks @ s) = (c, s) # xs"
proof (induction ks arbitrary: n)
  case Nil
  then show ?case by (cases n) auto
next
  case (Cons k ks)
  have k: "k \<noteq> []" "\<exists>xs. f (c, k @ concat ks @ s) = (c, concat ks @ s) # xs"
    using Cons.prems(2) unfolding takes_def by auto
  then obtain xs where xs: "f (c, k @ concat ks @ s) = (c, concat ks @ s) # xs" by blast
  from k(1) Cons.prems(1) obtain m where n: "n = Suc m" "length (concat ks @ s) \<le> m"
    by (cases n; cases k) auto
  then obtain ys where "starMatches f m (c, concat ks @ s) = (c, s) # ys"
    using Cons.IH [of m] Cons.prems by auto
  with k(1) xs n show ?case by (cases k) auto
qed

lemma Star_first:
  "list_all (takes (matches r)) ks \<Longrightarrow> matches r (c, s) = [] \<Longrightarrow>
    \<exists>xs. matches (Star r) (c, concat ks @ s) = (c, s) # xs"
  using star_first [of ks s "length (concat ks @ s)" "matches r" c] by simp

lemma Plus_first:
  assumes "list_all (takes (matches r)) ks" "ks \<noteq> []" "matches r (c, s) = []"
  shows "\<exists>xs. matches (Plus r) (c, concat ks @ s) = (c, s) # xs"
proof -
  obtain k ks' where ks: "ks = k # ks'" using assms(2) by (cases ks) auto
  then obtain xs where xs: "matches r (c, k @ concat ks' @ s) = (c, concat ks' @ s) # xs"
    using assms(1) unfolding takes_def by auto
  moreover obtain ys where "matches (Star r) (c, concat ks' @ s) = (c, s) # ys"
    using Star_first [of r ks' c s] assms ks by auto
  ultimately show ?thesis using ks by (simp add: Plus_def)
qed

text \<open>A repetition of a class.\<close>

lemma Star_class:
  assumes "list_all p w" "s = [] \<or> \<not> p (hd s)"
  shows "\<exists>xs. matches (Star (Sym p)) (c, w @ s) = (c, s) # xs"
proof -
  have "list_all (takes (matches (Sym p))) (map (\<lambda>x. [x]) w)"
    using assms(1) by (auto simp: list_all_iff takes_def)
  moreover have "matches (Sym p) (c, s) = []" using assms(2) by (cases s) auto
  moreover have "concat (map (\<lambda>x. [x]) w) = w" by (induction w) auto
  ultimately show ?thesis using Star_first [of "Sym p" "map (\<lambda>x. [x]) w" c s] by simp
qed

text \<open>The characters that a match consumes belong to the classes of the expression.\<close>

primrec within :: "(nat \<Rightarrow> bool) \<Rightarrow> rx \<Rightarrow> bool" where
  "within p (Sym q) \<longleftrightarrow> (\<forall>x. q x \<longrightarrow> p x)"
| "within p (Cat a b) \<longleftrightarrow> within p a \<and> within p b"
| "within p (Or a b) \<longleftrightarrow> within p a \<and> within p b"
| "within p (Star a) \<longleftrightarrow> within p a"
| "within p (Grp n a) \<longleftrightarrow> within p a"
| "within p Eps \<longleftrightarrow> True"
| "within p Eos \<longleftrightarrow> True"

definition consumes :: "(nat \<Rightarrow> bool) \<Rightarrow> captures \<times> jstring \<Rightarrow> captures \<times> jstring \<Rightarrow> bool" where
  "consumes p cs ct \<longleftrightarrow> (\<exists>u. snd cs = u @ snd ct \<and> list_all p u)"

lemma consumes_refl [simp]: "consumes p cs cs"
  by (simp add: consumes_def)

lemma consumes_trans: "consumes p a b \<Longrightarrow> consumes p b c \<Longrightarrow> consumes p a c"
  unfolding consumes_def by (metis append.assoc list_all_append)

lemma starMatches_consumes:
  assumes "\<And>cs ct. ct \<in> set (f cs) \<Longrightarrow> consumes p cs ct"
  shows "ct \<in> set (starMatches f n cs) \<Longrightarrow> consumes p cs ct"
proof (induction n arbitrary: cs)
  case (Suc n)
  then consider "ct = cs" | cm where "cm \<in> set (f cs)" "ct \<in> set (starMatches f n cm)" by (auto split: if_splits)
  then show ?case
  proof cases
    case 2
    then show ?thesis using consumes_trans [OF assms [OF 2(1)] Suc.IH [OF 2(2)]] by simp
  qed simp
qed simp

lemma matches_consumes: "within p r \<Longrightarrow> ct \<in> set (matches r cs) \<Longrightarrow> consumes p cs ct"
proof (induction r arbitrary: cs ct)
  case (Sym q)
  then show ?case by (cases cs; cases "snd cs") (auto simp: consumes_def split: if_splits)
next
  case (Cat a b)
  then obtain cm where "cm \<in> set (matches a cs)" "ct \<in> set (matches b cm)" by auto
  with Cat show ?case using consumes_trans [of p cs cm ct] by simp
next
  case (Star a)
  show ?case by (rule starMatches_consumes [where f = "matches a" and n = "length (snd cs)"]) (use Star in auto)
next
  case (Grp n a)
  then obtain cm where "cm \<in> set (matches a cs)" "snd ct = snd cm" by (auto split: prod.splits)
  with Grp show ?case by (auto simp: consumes_def)
qed (auto split: if_splits)

lemma execAt_consumes:
  assumes "within p r" "execAt r s = Some (c, m)"
  shows "list_all p m"
proof -
  obtain t xs where "matches r ([], s) = (c, t) # xs" "m = take (length s - length t) s"
    using assms(2) by (auto simp: execAt_def split: list.splits)
  with matches_consumes [OF assms(1), of "(c, t)" "([], s)"] show ?thesis by (auto simp: consumes_def)
qed

text \<open>A group is not longer than the text it is taken from.\<close>

definition shortCaps :: "nat \<Rightarrow> captures \<Rightarrow> bool" where
  "shortCaps n c \<longleftrightarrow> list_all (\<lambda>(k, x). length x \<le> n) c"

lemma starMatches_caps:
  assumes "\<And>cs ct. ct \<in> set (f cs) \<Longrightarrow> length (snd cs) \<le> n \<Longrightarrow> shortCaps n (fst cs) \<Longrightarrow> shortCaps n (fst ct)"
    and "\<And>cs ct. ct \<in> set (f cs) \<Longrightarrow> \<exists>u. snd cs = u @ snd ct"
  shows "ct \<in> set (starMatches f k cs) \<Longrightarrow> length (snd cs) \<le> n \<Longrightarrow> shortCaps n (fst cs) \<Longrightarrow> shortCaps n (fst ct)"
proof (induction k arbitrary: cs)
  case (Suc k)
  then consider "ct = cs" | cm where "cm \<in> set (f cs)" "ct \<in> set (starMatches f k cm)" by (auto split: if_splits)
  then show ?case
  proof cases
    case 2
    then have "length (snd cm) \<le> n" using assms(2) [of cm cs] Suc.prems(2) by auto
    with 2 Suc assms(1) [of cm cs] show ?thesis by blast
  qed (use Suc in simp)
qed simp

lemma matches_caps:
  "ct \<in> set (matches r cs) \<Longrightarrow> length (snd cs) \<le> n \<Longrightarrow> shortCaps n (fst cs) \<Longrightarrow> shortCaps n (fst ct)"
proof (induction r arbitrary: cs ct)
  case (Cat a b)
  then obtain cm where m: "cm \<in> set (matches a cs)" "ct \<in> set (matches b cm)" by auto
  then have "length (snd cm) \<le> n" using matches_suffix [OF m(1)] Cat.prems(2) by auto
  with m Cat show ?case by blast
next
  case (Star a)
  show ?case
    by (rule starMatches_caps [where f = "matches a" and k = "length (snd cs)" and cs = cs])
      (use Star matches_suffix in auto)
next
  case (Grp k a)
  then obtain c t where "(c, t) \<in> set (matches a cs)" "ct = ((k, take (length (snd cs) - length t) (snd cs)) # c, t)"
    by auto
  with Grp.IH [of "(c, t)" cs] Grp.prems show ?case by (auto simp: shortCaps_def)
next
  case (Sym p)
  then show ?case by (cases cs; cases "snd cs") (auto split: if_splits)
qed (auto split: if_splits)

text \<open>An expression without groups records nothing.\<close>

primrec groupFree :: "rx \<Rightarrow> bool" where
  "groupFree (Sym q) \<longleftrightarrow> True"
| "groupFree (Cat a b) \<longleftrightarrow> groupFree a \<and> groupFree b"
| "groupFree (Or a b) \<longleftrightarrow> groupFree a \<and> groupFree b"
| "groupFree (Star a) \<longleftrightarrow> groupFree a"
| "groupFree (Grp n a) \<longleftrightarrow> False"
| "groupFree Eps \<longleftrightarrow> True"
| "groupFree Eos \<longleftrightarrow> True"

lemma starMatches_fst:
  assumes "\<And>cs ct. ct \<in> set (f cs) \<Longrightarrow> fst ct = fst cs"
  shows "ct \<in> set (starMatches f n cs) \<Longrightarrow> fst ct = fst cs"
proof (induction n arbitrary: cs)
  case (Suc n)
  then consider "ct = cs" | cm where "cm \<in> set (f cs)" "ct \<in> set (starMatches f n cm)" by (auto split: if_splits)
  then show ?case
  proof cases
    case 2
    then show ?thesis using Suc.IH [OF 2(2)] assms [OF 2(1)] by simp
  qed simp
qed simp

lemma matches_fst: "groupFree r \<Longrightarrow> ct \<in> set (matches r cs) \<Longrightarrow> fst ct = fst cs"
proof (induction r arbitrary: cs ct)
  case (Sym q)
  then show ?case by (cases "snd cs") (auto split: if_splits)
next
  case (Cat a b)
  then obtain cm where m: "cm \<in> set (matches a cs)" "ct \<in> set (matches b cm)" by auto
  with Cat show ?case by simp
next
  case (Star a)
  show ?case by (rule starMatches_fst [where f = "matches a" and n = "length (snd cs)"]) (use Star in auto)
qed (auto split: if_splits)

text \<open>Expressions that do not match the empty text.\<close>

primrec nonEmpty :: "rx \<Rightarrow> bool" where
  "nonEmpty (Sym q) \<longleftrightarrow> True"
| "nonEmpty (Cat a b) \<longleftrightarrow> nonEmpty a \<or> nonEmpty b"
| "nonEmpty (Or a b) \<longleftrightarrow> nonEmpty a \<and> nonEmpty b"
| "nonEmpty (Star a) \<longleftrightarrow> False"
| "nonEmpty (Grp n a) \<longleftrightarrow> nonEmpty a"
| "nonEmpty Eps \<longleftrightarrow> False"
| "nonEmpty Eos \<longleftrightarrow> False"

lemma matches_length: "ct \<in> set (matches r cs) \<Longrightarrow> length (snd ct) \<le> length (snd cs)"
  using matches_suffix [of ct r cs] by auto

lemma matches_nonEmpty: "nonEmpty r \<Longrightarrow> ct \<in> set (matches r cs) \<Longrightarrow> length (snd ct) < length (snd cs)"
proof (induction r arbitrary: cs ct)
  case (Sym q)
  then show ?case by (cases "snd cs") (auto split: if_splits)
next
  case (Cat a b)
  then obtain cm where m: "cm \<in> set (matches a cs)" "ct \<in> set (matches b cm)" by auto
  show ?case
  proof (cases "nonEmpty a")
    case True
    then show ?thesis using Cat.IH(1) [OF _ m(1)] matches_length [OF m(2)] by simp
  next
    case False
    then show ?thesis using Cat.IH(2) [OF _ m(2)] Cat.prems(1) matches_length [OF m(1)] by simp
  qed
next
  case (Grp n a)
  then obtain cm where "cm \<in> set (matches a cs)" "snd ct = snd cm" by (auto split: prod.splits)
  with Grp show ?case by auto
qed auto

lemma execAt_nonEmpty:
  assumes "nonEmpty r" "execAt r s = Some (c, m)"
  shows "m \<noteq> []"
proof -
  obtain t xs where t: "matches r ([], s) = (c, t) # xs" "m = take (length s - length t) s"
    using assms(2) by (auto simp: execAt_def split: list.splits)
  then have "length t < length s" using matches_nonEmpty [OF assms(1), of "(c, t)" "([], s)"] by simp
  with t(2) show ?thesis by auto
qed

lemma word_matches: "matches (wordRx w) (c, s) = (if startsWith w s then [(c, drop (length w) s)] else [])"
proof (induction w arbitrary: s)
  case (Cons x w)
  then show ?case by (cases s) auto
qed simp

lemma execAt_matches: "execAt r s \<noteq> None \<longleftrightarrow> matches r ([], s) \<noteq> []"
  by (auto simp: execAt_def split: list.splits)

lemma testAnywhere_iff: "testAnywhere r s \<longleftrightarrow> (\<exists>a b. s = a @ b \<and> execAt r b \<noteq> None)"
proof (induction s)
  case (Cons c s)
  then show ?case by (auto simp: Cons_eq_append_conv)
qed simp

text \<open>The ways to repeat a class of characters.\<close>

lemma starSym_set:
  "length s \<le> n \<Longrightarrow> set (starMatches (matches (Sym p)) n (c, s)) = {(c, t) | t u. s = u @ t \<and> list_all p u}"
proof (induction n arbitrary: s)
  case (Suc n)
  show ?case
  proof (cases s)
    case (Cons x s')
    have "set (starMatches (matches (Sym p)) n (c, s')) = {(c, t) | t u. s' = u @ t \<and> list_all p u}"
      by (rule Suc.IH) (use Suc.prems Cons in simp)
    then show ?thesis using Cons by (auto simp: Cons_eq_append_conv simp del: matches.simps) (auto split: if_splits)
  qed auto
qed auto

lemma Star_Sym_set: "set (matches (Star (Sym p)) (c, s)) = {(c, t) | t u. s = u @ t \<and> list_all p u}"
  using starSym_set [of s "length s" p c] by simp

end
