(* ===== verification/JQuery_Events.thy ===== *)
theory JQuery_Events
  imports JQuery_Data JS_Regex "HOL-Library.List_Lexorder" "HOL-Library.Sublist"
begin

text \<open>
  The registry of event handlers of \<^verbatim>\<open>jquery.js\<close> (\<open>jQuery.event.add\<close> and \<open>remove\<close>, with \<open>on\<close>, \<open>one\<close>, \<open>off\<close>, and the copy of the
  handlers of a cloned element). The lemmas show that the registry keeps, for every element and type, two
  lists (the delegated handlers and the direct ones), to which handlers are added at the end and from which exactly
  the handlers that are meant are removed, and that the browser listens exactly where it has to.
\<close>

section \<open>Names of events\<close>

text \<open>\<open>types.match(rnothtmlwhite) || [""]\<close>.\<close>

definition typeList :: "jstring \<Rightarrow> jstring list" where
  "typeList types = (case flagWords [] types of [] \<Rightarrow> [[]] | w # ws \<Rightarrow> w # ws)"

text \<open>\<open>rtypenamespace\<close>: the type up to the first full stop, and what follows it (to the end of the line), if anything does.\<close>

definition parseType :: "jstring \<Rightarrow> jstring \<times> jstring option" where
  "parseType w =
     (takeWhile (\<lambda>c. c \<noteq> 46) w,
      case dropWhile (\<lambda>c. c \<noteq> 46) w of
        [] \<Rightarrow> None
      | _ # r \<Rightarrow> (let m = takeWhile (\<lambda>c. \<not> is_line_end c) r in if m = [] then None else Some m))"

definition namespacesOf :: "jstring option \<Rightarrow> jstring list" where
  "namespacesOf ns = sort (splitOn 46 (case ns of None \<Rightarrow> [] | Some s \<Rightarrow> s))"

text \<open>
  The expression made of names, \<open>(^|\.)a\.(?:.*\.|)b(\.|$)\<close>. The names are put into it as they are; a name with a character
  that has a meaning in expressions is left to the parameter \<open>oddTest\<close>.
\<close>

fun nsBody :: "jstring list \<Rightarrow> rx" where
  "nsBody [] = Or (wordRx [46]) Eos"
| "nsBody [n] = Cat (wordRx n) (Or (wordRx [46]) Eos)"
| "nsBody (n # m # ns) =
     Cat (wordRx n) (Cat (wordRx [46])
       (Cat (Maybe (Cat (Star (Sym (\<lambda>c. \<not> is_line_end c))) (wordRx [46]))) (nsBody (m # ns))))"

definition plainName :: "jstring \<Rightarrow> bool" where
  "plainName n \<longleftrightarrow> list_all (\<lambda>c. c \<notin> {92, 94, 36, 46, 124, 63, 42, 43, 40, 41, 91, 93, 123, 125, 47}) n"

definition nsTest :: "(jstring list \<Rightarrow> jstring \<Rightarrow> bool) \<Rightarrow> jstring list \<Rightarrow> jstring \<Rightarrow> bool" where
  "nsTest other ns s \<longleftrightarrow>
     (if list_all plainName ns
      then execAt (nsBody ns) s \<noteq> None \<or> testAnywhere (Cat (wordRx [46]) (nsBody ns)) s
      else other ns s)"

section \<open>State\<close>

text \<open>
  Handlers: functions of the program, the functions that \<open>one\<close> makes, \<open>returnTrue\<close>, \<open>returnFalse\<close>, and the
  controllers of \<open>leverageNative\<close>.
\<close>

datatype hfun = User nat | One hfun | ReturnTrue | ReturnFalse | Controller nat jstring

text \<open>Arguments of a call: \<open>Undef\<close> is \<open>null\<close> or \<open>undefined\<close>, \<open>Other\<close> any value that is none of the others and counts as true.\<close>

datatype jarg = Undef | Str jstring | Fn hfun | FalseV | Other nat

record handleObj =
  ho_type :: jstring
  ho_origType :: jstring
  ho_data :: jarg
  ho_handler :: hfun
  ho_guid :: nat
  ho_selector :: "jstring option"
  ho_needsContext :: bool
  ho_namespace :: "jstring option"

text \<open>A list of handlers with its property \<open>delegateCount\<close>; a namespace \<open>None\<close> is \<open>false\<close>.\<close>

record handler_list =
  hl_list :: "handleObj list"
  hl_delegates :: nat

text \<open>
  The private data of the elements (\<open>events\<close>, \<open>handle\<close>, the marks of \<open>leverageNative\<close> and the counters of the documents), the
  numbers of functions, the types ever used, and the listeners that the browser has.
\<close>

record 'e registry =
  tables :: "'e \<Rightarrow> (jstring \<times> handler_list) list option"
  hasHandle :: "'e \<Rightarrow> bool"
  leveraged :: "'e \<Rightarrow> jstring \<Rightarrow> bool"
  attaches :: "'e \<Rightarrow> jstring \<Rightarrow> nat"
  guids :: "hfun \<Rightarrow> nat option"
  nextGuid :: nat
  usedTypes :: "jstring \<Rightarrow> bool"
  listening :: "'e \<Rightarrow> jstring \<Rightarrow> bool"
  capturing :: "'e \<Rightarrow> jstring \<Rightarrow> bool"

text \<open>
  What is asked of the page and of the selector engine: the kinds of the nodes, whether they take listeners, which inputs are
  check boxes or radio buttons, the document of a node, whether the browser has \<open>focusin\<close>, which selectors are
  valid and which need their context.
\<close>

record 'e evenv =
  nodeKind :: "'e \<Rightarrow> int option"
  listens :: "'e \<Rightarrow> bool"
  checkable :: "'e \<Rightarrow> bool"
  docOf :: "'e \<Rightarrow> 'e"
  hasFocusin :: bool
  selectorOK :: "jstring \<Rightarrow> bool"
  needsCtx :: "jstring \<Rightarrow> bool"
  oddTest :: "jstring list \<Rightarrow> jstring \<Rightarrow> bool"

definition emptyRegistry :: "'e registry" where
  "emptyRegistry = \<lparr>tables = (\<lambda>_. None), hasHandle = (\<lambda>_. False), leveraged = (\<lambda>_ _. False), attaches = (\<lambda>_ _. 0),
     guids = (\<lambda>_. None), nextGuid = 1, usedTypes = (\<lambda>_. False), listening = (\<lambda>_ _. False), capturing = (\<lambda>_ _. False)\<rparr>"

datatype ev_error = BadSelector | NotCovered

section \<open>Special events\<close>

datatype setup_kind = NoSetup | ClickSetup | FocusSetup | CaptureSetup jstring

text \<open>The types that \<open>jQuery.event.special\<close> maps to other types, with and without a selector.\<close>

definition enterTypes :: "(jstring \<times> jstring) list" where
  "enterTypes = [(js ''mouseenter'', js ''mouseover''), (js ''mouseleave'', js ''mouseout''),
     (js ''pointerenter'', js ''pointerover''), (js ''pointerleave'', js ''pointerout'')]"

definition focusTypes :: "(jstring \<times> jstring) list" where
  "focusTypes = [(js ''focus'', js ''focusin''), (js ''blur'', js ''focusout'')]"

definition delegateType :: "jstring \<Rightarrow> jstring option" where
  "delegateType type = map_of (focusTypes @ enterTypes) type"

definition bindType :: "jstring \<Rightarrow> jstring option" where
  "bindType type = map_of enterTypes type"

definition setupOf :: "'e evenv \<Rightarrow> jstring \<Rightarrow> setup_kind" where
  "setupOf env type =
     (if type = js ''click'' then ClickSetup
      else if type \<in> fst ` set focusTypes then FocusSetup
      else if hasFocusin env then NoSetup
      else if type = js ''focusin'' then CaptureSetup (js ''focus'')
      else if type = js ''focusout'' then CaptureSetup (js ''blur'')
      else NoSetup)"

abbreviation selTrue :: "jstring option \<Rightarrow> bool" where
  "selTrue sel \<equiv> sel \<noteq> None \<and> sel \<noteq> Some []"

definition boundType :: "jstring option \<Rightarrow> jstring \<Rightarrow> jstring" where
  "boundType sel type =
     (case (if selTrue sel then delegateType type else bindType type) of None \<Rightarrow> type | Some t \<Rightarrow> t)"

section \<open>Adding handlers\<close>

text \<open>The handler argument: a function, or an object with a handler (\<open>leverageNative\<close>, and the copy of a handler).\<close>

datatype handler_arg = FnArg hfun | UniversalArg hfun | CopyArg handleObj

fun argHandler :: "handler_arg \<Rightarrow> hfun" where
  "argHandler (FnArg f) = f"
| "argHandler (UniversalArg f) = f"
| "argHandler (CopyArg h) = ho_handler h"

fun argSelector :: "handler_arg \<Rightarrow> jstring option \<Rightarrow> jstring option" where
  "argSelector (FnArg f) sel = sel"
| "argSelector (UniversalArg f) sel = None"
| "argSelector (CopyArg h) sel = ho_selector h"

definition assignGuid :: "hfun \<Rightarrow> 'e registry \<Rightarrow> 'e registry" where
  "assignGuid f s =
     (if guids s f = None then s\<lparr>guids := (guids s)(f \<mapsto> nextGuid s), nextGuid := Suc (nextGuid s)\<rparr> else s)"

definition guidOf :: "'e registry \<Rightarrow> hfun \<Rightarrow> nat" where
  "guidOf s f = (case guids s f of None \<Rightarrow> 0 | Some g \<Rightarrow> g)"

definition makeHandleObj ::
  "'e evenv \<Rightarrow> handler_arg \<Rightarrow> nat \<Rightarrow> jstring \<Rightarrow> jstring \<Rightarrow> jarg \<Rightarrow> jstring option \<Rightarrow> jstring list \<Rightarrow> handleObj" where
  "makeHandleObj env arg g type orig data sel ns =
     (case arg of
        CopyArg h \<Rightarrow> if ho_data h = Undef then h\<lparr>ho_data := data\<rparr> else h
      | _ \<Rightarrow> \<lparr>ho_type = type, ho_origType = orig, ho_data = data, ho_handler = argHandler arg, ho_guid = g,
              ho_selector = sel, ho_needsContext = (selTrue sel \<and> needsCtx env (the sel)),
              ho_namespace = (case arg of UniversalArg f \<Rightarrow> None | _ \<Rightarrow> Some (join [46] ns))\<rparr>)"

fun putTable :: "jstring \<Rightarrow> handler_list \<Rightarrow> (jstring \<times> handler_list) list \<Rightarrow> (jstring \<times> handler_list) list" where
  "putTable t hl [] = [(t, hl)]"
| "putTable t hl ((u, h) # ev) = (if u = t then (t, hl) # ev else (u, h) # putTable t hl ev)"

definition eventsOf :: "'e registry \<Rightarrow> 'e \<Rightarrow> (jstring \<times> handler_list) list" where
  "eventsOf s e = (case tables s e of None \<Rightarrow> [] | Some ev \<Rightarrow> ev)"

definition noHandlers :: handler_list where
  "noHandlers = \<lparr>hl_list = [], hl_delegates = 0\<rparr>"

definition handlersAt :: "'e registry \<Rightarrow> 'e \<Rightarrow> jstring \<Rightarrow> handler_list" where
  "handlersAt s e t = (case map_of (eventsOf s e) t of None \<Rightarrow> noHandlers | Some hl \<Rightarrow> hl)"

definition setHandlers :: "'e \<Rightarrow> jstring \<Rightarrow> handler_list \<Rightarrow> 'e registry \<Rightarrow> 'e registry" where
  "setHandlers e t hl s = s\<lparr>tables := (tables s)(e \<mapsto> putTable t hl (eventsOf s e))\<rparr>"

text \<open>Delegates in front.\<close>

definition insertHandler :: "handleObj \<Rightarrow> bool \<Rightarrow> handler_list \<Rightarrow> handler_list" where
  "insertHandler ho delegated hl =
     (if delegated
      then hl\<lparr>hl_list := take (hl_delegates hl) (hl_list hl) @ ho # drop (hl_delegates hl) (hl_list hl),
              hl_delegates := Suc (hl_delegates hl)\<rparr>
      else hl\<lparr>hl_list := hl_list hl @ [ho]\<rparr>)"

definition pushHandler :: "'e \<Rightarrow> jstring \<Rightarrow> bool \<Rightarrow> handleObj \<Rightarrow> 'e registry \<Rightarrow> 'e registry" where
  "pushHandler e t delegated ho s =
     (setHandlers e t (insertHandler ho delegated (handlersAt s e t)) s)\<lparr>usedTypes := (usedTypes s)(t := True)\<rparr>"

text \<open>\<open>elem.addEventListener(type, eventHandle)\<close>.\<close>

definition listen :: "'e evenv \<Rightarrow> 'e \<Rightarrow> jstring \<Rightarrow> 'e registry \<Rightarrow> 'e registry" where
  "listen env e t s = (if listens env e then s\<lparr>listening := (listening s)(e := (listening s e)(t := True))\<rparr> else s)"

text \<open>
  \<open>leverageNative\<close> with its third argument: a new controller is added in front of the first handler (the nested call of \<open>add\<close> finds
  the list that was just made). Its calls while events are dispatched are those of a handler.
\<close>

definition leverageSetup :: "'e evenv \<Rightarrow> 'e \<Rightarrow> jstring \<Rightarrow> 'e registry \<Rightarrow> 'e registry" where
  "leverageSetup env e type s =
     (let f = Controller (nextGuid s) type;
          s1 = assignGuid f (s\<lparr>leveraged := (leveraged s)(e := (leveraged s e)(type := True))\<rparr>)
      in pushHandler e type False (makeHandleObj env (UniversalArg f) (guidOf s1 f) type type Undef None [[]]) s1)"

definition captureSetup :: "'e evenv \<Rightarrow> 'e \<Rightarrow> jstring \<Rightarrow> jstring \<Rightarrow> 'e registry \<Rightarrow> 'e registry" where
  "captureSetup env e fix orig s =
     (let d = docOf env e; n = attaches s d fix;
          s1 = (if n = 0 then s\<lparr>capturing := (capturing s)(d := (capturing s d)(orig := True))\<rparr> else s)
      in s1\<lparr>attaches := (attaches s)(d := (attaches s d)(fix := n + 1))\<rparr>)"

definition setupType :: "'e evenv \<Rightarrow> 'e \<Rightarrow> jstring \<Rightarrow> 'e registry \<Rightarrow> 'e registry" where
  "setupType env e type s =
     (case setupOf env type of
        NoSetup \<Rightarrow> listen env e type s
      | ClickSetup \<Rightarrow> listen env e type (if checkable env e then leverageSetup env e type s else s)
      | FocusSetup \<Rightarrow> listen env e type (leverageSetup env e type s)
      | CaptureSetup orig \<Rightarrow> captureSetup env e type orig s)"

definition addType ::
  "'e evenv \<Rightarrow> 'e \<Rightarrow> handler_arg \<Rightarrow> nat \<Rightarrow> jarg \<Rightarrow> jstring option \<Rightarrow> jstring \<Rightarrow> 'e registry \<Rightarrow> 'e registry" where
  "addType env e arg g data sel w s =
     (let (orig, ns) = parseType w
      in if orig = [] then s
         else
           let type = boundType sel orig;
               ho = makeHandleObj env arg g type orig data sel (namespacesOf ns);
               s1 = (if map_of (eventsOf s e) type = None then setupType env e type (setHandlers e type noHandlers s) else s)
           in pushHandler e type (selTrue sel) ho s1)"

definition initEvents :: "'e \<Rightarrow> 'e registry \<Rightarrow> 'e registry" where
  "initEvents e s = s\<lparr>tables := (tables s)(e \<mapsto> eventsOf s e), hasHandle := (hasHandle s)(e := True)\<rparr>"

definition eventAdd ::
  "'e evenv \<Rightarrow> 'e \<Rightarrow> jstring \<Rightarrow> handler_arg \<Rightarrow> jarg \<Rightarrow> jstring option \<Rightarrow> 'e registry \<Rightarrow> ev_error + 'e registry" where
  "eventAdd env e types arg data selector s =
     (if \<not> acceptData (nodeKind env) e then Inr s
      else
        let sel = argSelector arg selector; f = argHandler arg
        in if selTrue sel \<and> \<not> selectorOK env (the sel) then Inl BadSelector
           else
             let s1 = initEvents e (assignGuid f s)
             in Inr (fold (addType env e arg (guidOf s1 f) data sel) (rev (typeList types)) s1))"

section \<open>Removing handlers\<close>

text \<open>The loop over the handlers, from the last to the first.\<close>

fun unbindLoop :: "(handleObj \<Rightarrow> bool) \<Rightarrow> nat \<Rightarrow> handler_list \<Rightarrow> handler_list" where
  "unbindLoop P 0 hl = hl"
| "unbindLoop P (Suc j) hl =
     unbindLoop P j
       (let ho = hl_list hl ! j
        in if P ho
           then hl\<lparr>hl_list := take j (hl_list hl) @ drop (Suc j) (hl_list hl),
                   hl_delegates := (if selTrue (ho_selector ho) then hl_delegates hl - 1 else hl_delegates hl)\<rparr>
           else hl)"

definition meant ::
  "'e evenv \<Rightarrow> 'e registry \<Rightarrow> bool \<Rightarrow> jstring \<Rightarrow> jstring option \<Rightarrow> hfun option \<Rightarrow> jstring option \<Rightarrow> handleObj \<Rightarrow> bool" where
  "meant env s mapped orig ns handler sel ho \<longleftrightarrow>
     (mapped \<or> orig = ho_origType ho) \<and>
     (case handler of None \<Rightarrow> True | Some f \<Rightarrow> guids s f = Some (ho_guid ho)) \<and>
     (ns = None \<or>
        nsTest (oddTest env) (namespacesOf ns) (case ho_namespace ho of None \<Rightarrow> js ''false'' | Some n \<Rightarrow> n)) \<and>
     (\<not> selTrue sel \<or> sel = ho_selector ho \<or> sel = Some (js ''**'') \<and> selTrue (ho_selector ho))"

definition captureTeardown :: "'e evenv \<Rightarrow> 'e \<Rightarrow> jstring \<Rightarrow> jstring \<Rightarrow> 'e registry \<Rightarrow> 'e registry" where
  "captureTeardown env e fix orig s =
     (let d = docOf env e; n = attaches s d fix - 1;
          s1 = (if n = 0 then s\<lparr>capturing := (capturing s)(d := (capturing s d)(orig := False))\<rparr> else s)
      in s1\<lparr>attaches := (attaches s)(d := (attaches s d)(fix := n))\<rparr>)"

text \<open>The teardown is that of the type as it was given, not of the type it is mapped to.\<close>

definition teardownType :: "'e evenv \<Rightarrow> 'e \<Rightarrow> jstring \<Rightarrow> jstring \<Rightarrow> 'e registry \<Rightarrow> 'e registry" where
  "teardownType env e given type s =
     (case setupOf env given of
        CaptureSetup orig \<Rightarrow> captureTeardown env e given orig s
      | _ \<Rightarrow> s\<lparr>listening := (listening s)(e := (listening s e)(type := False))\<rparr>)"

definition deleteType :: "'e \<Rightarrow> jstring \<Rightarrow> 'e registry \<Rightarrow> 'e registry" where
  "deleteType e t s = s\<lparr>tables := (tables s)(e \<mapsto> filter (\<lambda>(u, h). u \<noteq> t) (eventsOf s e))\<rparr>"

definition removeType ::
  "'e evenv \<Rightarrow> 'e \<Rightarrow> hfun option \<Rightarrow> jstring option \<Rightarrow> bool \<Rightarrow> jstring \<Rightarrow> 'e registry \<Rightarrow> 'e registry" where
  "removeType env e handler sel mapped w s =
     (let (orig, ns) = parseType w; type = boundType sel orig
      in case map_of (eventsOf s e) type of
           None \<Rightarrow> s
         | Some hl \<Rightarrow>
             (let hl' = unbindLoop (meant env s mapped orig ns handler sel) (length (hl_list hl)) hl;
                  s1 = setHandlers e type hl' s
              in if hl_list hl \<noteq> [] \<and> hl_list hl' = [] then deleteType e type (teardownType env e orig type s1) else s1))"

text \<open>\<open>dataPriv.remove(elem, "handle events")\<close> when no type is left.\<close>

definition dropEmpty :: "'e \<Rightarrow> 'e registry \<Rightarrow> 'e registry" where
  "dropEmpty e s =
     (if eventsOf s e = [] then s\<lparr>tables := (tables s)(e := None), hasHandle := (hasHandle s)(e := False)\<rparr> else s)"

text \<open>A word without a type stands for all types (the nested calls of \<open>remove\<close>, each with a type).\<close>

definition removeWord ::
  "'e evenv \<Rightarrow> 'e \<Rightarrow> hfun option \<Rightarrow> jstring option \<Rightarrow> jstring \<Rightarrow> 'e registry \<Rightarrow> 'e registry" where
  "removeWord env e handler sel w s =
     (if fst (parseType w) = []
      then fold (\<lambda>t s'. dropEmpty e (removeType env e handler sel True (t @ w) s')) (map fst (eventsOf s e)) s
      else removeType env e handler sel False w s)"

definition eventRemove ::
  "'e evenv \<Rightarrow> 'e \<Rightarrow> jstring \<Rightarrow> hfun option \<Rightarrow> jstring option \<Rightarrow> 'e registry \<Rightarrow> 'e registry" where
  "eventRemove env e types handler sel s =
     (if tables s e = None then s else dropEmpty e (fold (removeWord env e handler sel) (rev (typeList types)) s))"

section \<open>The methods of matched sets\<close>

abbreviation jTrue :: "jarg \<Rightarrow> bool" where
  "jTrue a \<equiv> a \<noteq> Undef \<and> a \<noteq> FalseV \<and> a \<noteq> Str []"

text \<open>A selector argument: a text, or nothing; \<open>None\<close> is a value that the model does not cover.\<close>

definition selectorArg :: "jarg \<Rightarrow> jstring option option" where
  "selectorArg a = (case a of Str s \<Rightarrow> Some (Some s) | Undef \<Rightarrow> Some None | FalseV \<Rightarrow> Some None | _ \<Rightarrow> None)"

fun onEach ::
  "'e evenv \<Rightarrow> 'e list \<Rightarrow> jstring \<Rightarrow> hfun \<Rightarrow> jarg \<Rightarrow> jstring option \<Rightarrow> 'e registry \<Rightarrow> ev_error + 'e registry" where
  "onEach env [] types f data sel s = Inr s"
| "onEach env (e # es) types f data sel s =
     (case eventAdd env e types (FnArg f) data sel s of
        Inl err \<Rightarrow> Inl err
      | Inr s' \<Rightarrow> onEach env es types f data sel s')"

text \<open>The function that \<open>one\<close> makes has the number of the function it calls.\<close>

definition shareGuid :: "hfun \<Rightarrow> 'e registry \<Rightarrow> 'e registry" where
  "shareGuid f s = (let s1 = assignGuid f s in s1\<lparr>guids := (guids s1)(One f \<mapsto> guidOf s1 f)\<rparr>)"

definition bindTo ::
  "'e evenv \<Rightarrow> 'e list \<Rightarrow> jstring \<Rightarrow> hfun \<Rightarrow> jarg \<Rightarrow> jstring option \<Rightarrow> bool \<Rightarrow> 'e registry \<Rightarrow> ev_error + 'e registry" where
  "bindTo env es types f data sel isOne s =
     (if isOne then onEach env es types (One f) data sel (shareGuid f s) else onEach env es types f data sel s)"

text \<open>The arguments of \<open>on\<close> put in order: selector, data and function.\<close>

definition onArgs :: "jarg \<Rightarrow> jarg \<Rightarrow> jarg \<Rightarrow> jarg \<times> jarg \<times> jarg" where
  "onArgs selector data fn =
     (if data = Undef \<and> fn = Undef then (Undef, Undef, selector)
      else if fn = Undef then (case selector of Str x \<Rightarrow> (selector, Undef, data) | _ \<Rightarrow> (Undef, selector, data))
      else (selector, data, fn))"

definition onText ::
  "'e evenv \<Rightarrow> 'e list \<Rightarrow> jstring \<Rightarrow> jarg \<Rightarrow> jarg \<Rightarrow> jarg \<Rightarrow> bool \<Rightarrow> 'e registry \<Rightarrow> ev_error + 'e registry" where
  "onText env es types selector data fn isOne s =
     (let (sel, dat, f) = onArgs selector data fn
      in if f \<noteq> FalseV \<and> \<not> jTrue f then Inr s
         else case (f, selectorArg sel) of
             (FalseV, Some x) \<Rightarrow> bindTo env es types ReturnFalse dat x isOne s
           | (Fn g, Some x) \<Rightarrow> bindTo env es types g dat x isOne s
           | _ \<Rightarrow> Inl NotCovered)"

datatype types_arg = TypeText jstring | TypeMap "(jstring \<times> jarg) list"

fun onMap ::
  "'e evenv \<Rightarrow> 'e list \<Rightarrow> (jstring \<times> jarg) list \<Rightarrow> jarg \<Rightarrow> jarg \<Rightarrow> bool \<Rightarrow> 'e registry \<Rightarrow> ev_error + 'e registry" where
  "onMap env es [] selector data isOne s = Inr s"
| "onMap env es ((t, f) # m) selector data isOne s =
     (case onText env es t selector data f isOne s of
        Inl err \<Rightarrow> Inl err
      | Inr s' \<Rightarrow> onMap env es m selector data isOne s')"

text \<open>\<open>on\<close> and \<open>one\<close>.\<close>

definition onC ::
  "'e evenv \<Rightarrow> 'e list \<Rightarrow> types_arg \<Rightarrow> jarg \<Rightarrow> jarg \<Rightarrow> jarg \<Rightarrow> bool \<Rightarrow> 'e registry \<Rightarrow> ev_error + 'e registry" where
  "onC env es types selector data fn isOne s =
     (case types of
        TypeText t \<Rightarrow> onText env es t selector data fn isOne s
      | TypeMap m \<Rightarrow>
          (case selector of
             Str x \<Rightarrow> onMap env es m selector data isOne s
           | _ \<Rightarrow> onMap env es m Undef (if jTrue data then data else selector) isOne s))"

definition unbindFrom ::
  "'e evenv \<Rightarrow> 'e list \<Rightarrow> jstring \<Rightarrow> hfun option \<Rightarrow> jstring option \<Rightarrow> 'e registry \<Rightarrow> 'e registry" where
  "unbindFrom env es types f sel s = fold (\<lambda>e. eventRemove env e types f sel) es s"

definition offText ::
  "'e evenv \<Rightarrow> 'e list \<Rightarrow> jstring \<Rightarrow> jarg \<Rightarrow> jarg \<Rightarrow> 'e registry \<Rightarrow> ev_error + 'e registry" where
  "offText env es types selector fn s =
     (let (sel, f) = (case selector of FalseV \<Rightarrow> (Undef, selector) | Fn g \<Rightarrow> (Undef, selector) | _ \<Rightarrow> (selector, fn))
      in case (f, selectorArg sel) of
           (FalseV, Some x) \<Rightarrow> Inr (unbindFrom env es types (Some ReturnFalse) x s)
         | (Fn g, Some x) \<Rightarrow> Inr (unbindFrom env es types (Some g) x s)
         | (_, Some x) \<Rightarrow> if jTrue f then Inl NotCovered else Inr (unbindFrom env es types None x s)
         | (_, None) \<Rightarrow> Inl NotCovered)"

fun offMap ::
  "'e evenv \<Rightarrow> 'e list \<Rightarrow> (jstring \<times> jarg) list \<Rightarrow> jarg \<Rightarrow> 'e registry \<Rightarrow> ev_error + 'e registry" where
  "offMap env es [] selector s = Inr s"
| "offMap env es ((t, f) # m) selector s =
     (case offText env es t selector f s of
        Inl err \<Rightarrow> Inl err
      | Inr s' \<Rightarrow> offMap env es m selector s')"

definition offC ::
  "'e evenv \<Rightarrow> 'e list \<Rightarrow> types_arg \<Rightarrow> jarg \<Rightarrow> jarg \<Rightarrow> 'e registry \<Rightarrow> ev_error + 'e registry" where
  "offC env es types selector fn s =
     (case types of TypeText t \<Rightarrow> offText env es t selector fn s | TypeMap m \<Rightarrow> offMap env es m selector s)"

text \<open>\<open>off\<close> with a dispatched event, whose element and handler are given.\<close>

definition offEvent :: "'e evenv \<Rightarrow> 'e \<Rightarrow> handleObj \<Rightarrow> 'e registry \<Rightarrow> 'e registry" where
  "offEvent env target ho s =
     eventRemove env target
       (case ho_namespace ho of
          Some (c # n) \<Rightarrow> ho_origType ho @ [46] @ c # n
        | _ \<Rightarrow> ho_origType ho)
       (Some (ho_handler ho)) (ho_selector ho) s"

text \<open>The handlers of a cloned element (\<open>cloneCopyEvent\<close>, without the user's data).\<close>

fun copyAll :: "'e evenv \<Rightarrow> 'e \<Rightarrow> (jstring \<times> handleObj) list \<Rightarrow> 'e registry \<Rightarrow> ev_error + 'e registry" where
  "copyAll env dest [] s = Inr s"
| "copyAll env dest ((t, ho) # hs) s =
     (case eventAdd env dest t (CopyArg ho) Undef None s of
        Inl err \<Rightarrow> Inl err
      | Inr s' \<Rightarrow> copyAll env dest hs s')"

definition cloneCopyEvent :: "'e evenv \<Rightarrow> 'e \<Rightarrow> 'e \<Rightarrow> 'e registry \<Rightarrow> ev_error + 'e registry" where
  "cloneCopyEvent env src dest s =
     (if nodeKind env dest \<noteq> Some 1 then Inr s
      else case tables s src of
          None \<Rightarrow> Inr s
        | Some ev \<Rightarrow>
            copyAll env dest (concat (map (\<lambda>(t, hl). map (Pair t) (hl_list hl)) ev))
              (s\<lparr>tables := (tables s)(dest := None), hasHandle := (hasHandle s)(dest := False)\<rparr>))"

section \<open>Lemmas: names\<close>

lemma splitOn_free_all: "list_all (\<lambda>w. c \<notin> set w) (splitOn c s)"
  using splitOn_free [of _ c s] by (auto simp: list_all_iff)

text \<open>A sequence of names occurs among the parts of a text, at its start or after a full stop.\<close>

definition headed :: "jstring \<Rightarrow> jstring list \<Rightarrow> jstring \<Rightarrow> bool" where
  "headed n ns s \<longleftrightarrow> (\<exists>hs. splitOn 46 s = n # hs \<and> subseq ns hs)"

lemma subseq_headed: "headed m ns r \<or> (\<exists>u t. r = u @ 46 # t \<and> headed m ns t) \<longleftrightarrow> subseq (m # ns) (splitOn 46 r)"
proof
  assume "headed m ns r \<or> (\<exists>u t. r = u @ 46 # t \<and> headed m ns t)"
  then show "subseq (m # ns) (splitOn 46 r)"
  proof (elim disjE exE conjE)
    fix u t
    assume "r = u @ 46 # t" "headed m ns t"
    then show ?thesis by (auto simp: headed_def splitOn_sep)
  qed (auto simp: headed_def)
next
  assume "subseq (m # ns) (splitOn 46 r)"
  then obtain pre hs where split: "splitOn 46 r = pre @ m # hs" and ns: "subseq ns hs"
    by (auto dest: list_emb_ConsD)
  have free: "list_all (\<lambda>w. 46 \<notin> set w) (m # hs)"
    using splitOn_free_all [of 46 r] split by (simp add: list_all_iff)
  have r: "r = join [46] (pre @ m # hs)" using join_splitOn [of 46 r] split by simp
  show "headed m ns r \<or> (\<exists>u t. r = u @ 46 # t \<and> headed m ns t)"
  proof (cases "pre = []")
    case False
    then have "r = join [46] pre @ 46 # join [46] (m # hs)" using r by (simp add: join_append)
    moreover have "headed m ns (join [46] (m # hs))"
      using splitOn_join [of "m # hs" 46] free ns by (simp add: headed_def list_all_iff)
    ultimately show ?thesis by blast
  qed (use split ns in \<open>simp add: headed_def\<close>)
qed

lemma matches_ends:
  "matches (Cat (wordRx n) r) (c, s) \<noteq> [] \<longleftrightarrow> (\<exists>t. s = n @ t \<and> matches r (c, t) \<noteq> [])"
proof -
  have "startsWith n s \<longleftrightarrow> (\<exists>t. s = n @ t)" by (metis append_eq_conv_conj startsWith_def)
  then show ?thesis by (auto simp: word_matches)
qed

lemma matches_Cat_iff: "matches (Cat a b) cs \<noteq> [] \<longleftrightarrow> (\<exists>cm \<in> set (matches a cs). matches b cm \<noteq> [])"
  by auto

lemma skip_matches:
  assumes "list_all (\<lambda>c. \<not> is_line_end c) s"
  shows "matches (Cat (Maybe (Cat (Star (Sym (\<lambda>c. \<not> is_line_end c))) (wordRx [46]))) r) (c, s) \<noteq> [] \<longleftrightarrow>
    matches r (c, s) \<noteq> [] \<or> (\<exists>u t. s = u @ 46 # t \<and> matches r (c, t) \<noteq> [])"
proof -
  have "set (matches (Cat (Star (Sym (\<lambda>c. \<not> is_line_end c))) (wordRx [46])) (c, s)) = {(c, t) | t u. s = u @ 46 # t}"
    using assms unfolding matches.simps(2) set_concat set_map Star_Sym_set
    by (auto simp: word_matches startsWith_def split: if_splits)
  then show ?thesis unfolding matches_Cat_iff Maybe_def matches.simps(3,6) set_append by auto
qed

lemma nsBody_headed:
  "list_all (\<lambda>w. 46 \<notin> set w) (n # ns) \<Longrightarrow> list_all (\<lambda>c. \<not> is_line_end c) s \<Longrightarrow>
    matches (nsBody (n # ns)) (c, s) \<noteq> [] \<longleftrightarrow> headed n ns s"
proof (induction ns arbitrary: n s)
  case Nil
  then have n: "46 \<notin> set n" by simp
  have "matches (nsBody [n]) (c, s) \<noteq> [] \<longleftrightarrow> (\<exists>t. s = n @ t \<and> (t = [] \<or> (\<exists>t'. t = 46 # t')))"
    unfolding nsBody.simps matches_ends by (auto simp: word_matches neq_Nil_conv)
  also have "\<dots> \<longleftrightarrow> (\<exists>hs. splitOn 46 s = n # hs)"
  proof
    assume "\<exists>hs. splitOn 46 s = n # hs"
    then obtain hs where "splitOn 46 s = n # hs" by blast
    then have "s = join [46] (n # hs)" using join_splitOn [of 46 s] by simp
    then show "\<exists>t. s = n @ t \<and> (t = [] \<or> (\<exists>t'. t = 46 # t'))" by (cases hs) auto
  qed (use n in \<open>auto simp: splitOn_no_sep splitOn_append_sep\<close>)
  finally show ?case by (simp add: headed_def)
next
  case (Cons m ns)
  have free: "list_all (\<lambda>w. 46 \<notin> set w) (m # ns)" "46 \<notin> set n" using Cons.prems(1) by simp_all
  have body: "matches (nsBody (m # ns)) (c, t) \<noteq> [] \<longleftrightarrow> headed m ns t" if "s = u @ t" for u t
    by (rule Cons.IH [OF free(1)]) (use Cons.prems(2) that in simp)
  have "matches (nsBody (n # m # ns)) (c, s) \<noteq> [] \<longleftrightarrow>
      (\<exists>r. s = n @ 46 # r \<and> (headed m ns r \<or> (\<exists>u t. r = u @ 46 # t \<and> headed m ns t)))"
  proof -
    have "matches (nsBody (n # m # ns)) (c, s) \<noteq> [] \<longleftrightarrow>
        (\<exists>r. s = n @ 46 # r \<and> (matches (nsBody (m # ns)) (c, r) \<noteq> [] \<or>
          (\<exists>u t. r = u @ 46 # t \<and> matches (nsBody (m # ns)) (c, t) \<noteq> [])))"
    proof -
      let ?skip = "Cat (Maybe (Cat (Star (Sym (\<lambda>c. \<not> is_line_end c))) (wordRx [46]))) (nsBody (m # ns))"
      have "matches (nsBody (n # m # ns)) (c, s) \<noteq> [] \<longleftrightarrow> (\<exists>r. s = n @ 46 # r \<and> matches ?skip (c, r) \<noteq> [])"
        unfolding nsBody.simps matches_ends by (auto simp del: matches.simps wordRx.simps nsBody.simps)
      then show ?thesis using Cons.prems(2) skip_matches [of _ "nsBody (m # ns)" c]
        by (auto simp del: matches.simps wordRx.simps nsBody.simps)
    qed
    also have "\<dots> \<longleftrightarrow> (\<exists>r. s = n @ 46 # r \<and> (headed m ns r \<or> (\<exists>u t. r = u @ 46 # t \<and> headed m ns t)))"
      using body [of "n @ [46]"] body [of "n @ 46 # u @ [46]" for u] by (intro iff_exI conj_cong refl) auto
    finally show ?thesis .
  qed
  also have "\<dots> \<longleftrightarrow> (\<exists>r. s = n @ 46 # r \<and> subseq (m # ns) (splitOn 46 r))"
    by (simp add: subseq_headed)
  also have "\<dots> \<longleftrightarrow> headed n (m # ns) s"
  proof
    assume "headed n (m # ns) s"
    then obtain hs where hs: "splitOn 46 s = n # hs" "subseq (m # ns) hs" by (auto simp: headed_def)
    then have "hs \<noteq> []" by auto
    moreover have "s = join [46] (n # hs)" using join_splitOn [of 46 s] hs(1) by simp
    ultimately have s: "s = n @ 46 # join [46] hs" by (simp add: text_simps)
    then have "splitOn 46 (join [46] hs) = hs" using hs(1) free(2) by (simp add: splitOn_append_sep)
    with s hs(2) show "\<exists>r. s = n @ 46 # r \<and> subseq (m # ns) (splitOn 46 r)" by auto
  qed (use free(2) in \<open>auto simp: headed_def splitOn_append_sep\<close>)
  finally show ?case .
qed

text \<open>The test finds the names, in their order, among the parts of the text.\<close>

lemma nsTest_subseq:
  assumes "list_all plainName ns" "ns \<noteq> []" "list_all (\<lambda>c. \<not> is_line_end c) s"
  shows "nsTest other ns s \<longleftrightarrow> subseq ns (splitOn 46 s)"
proof -
  obtain n ns' where ns: "ns = n # ns'" using assms(2) by (cases ns) auto
  have free: "list_all (\<lambda>w. 46 \<notin> set w) (n # ns')"
    using assms(1) ns by (auto simp: plainName_def list_all_iff)
  have body: "matches (nsBody (n # ns')) (c, t) \<noteq> [] \<longleftrightarrow> headed n ns' t" if "s = u @ t" for c u t
    by (rule nsBody_headed [OF free]) (use assms(3) that in simp)
  have "nsTest other ns s \<longleftrightarrow> headed n ns' s \<or> (\<exists>u t. s = u @ 46 # t \<and> headed n ns' t)"
  proof -
    have "nsTest other ns s \<longleftrightarrow> matches (nsBody (n # ns')) ([], s) \<noteq> [] \<or>
        (\<exists>u t. s = u @ 46 # t \<and> matches (nsBody (n # ns')) ([], t) \<noteq> [])"
      using assms(1) unfolding nsTest_def testAnywhere_iff execAt_matches matches_ends ns
      by (auto simp del: matches.simps nsBody.simps)
    also have "\<dots> \<longleftrightarrow> headed n ns' s \<or> (\<exists>u t. s = u @ 46 # t \<and> headed n ns' t)"
    proof -
      have "(s = u @ 46 # t \<and> matches (nsBody (n # ns')) ([], t) \<noteq> []) = (s = u @ 46 # t \<and> headed n ns' t)" for u t
        using body [of "u @ [46]" t "[]"] by auto
      then show ?thesis using body [of "[]" s "[]"] by simp
    qed
    finally show ?thesis .
  qed
  then show ?thesis by (simp add: subseq_headed ns)
qed

lemma subseq_sorted_iff:
  fixes xs ys :: "('a :: linorder) list"
  assumes "sorted ys" "sorted xs" "distinct xs"
  shows "subseq xs ys \<longleftrightarrow> set xs \<subseteq> set ys"
  using assms
proof (induction ys arbitrary: xs)
  case Nil
  then show ?case by auto
next
  case (Cons y ys)
  show ?case
  proof (cases xs)
    case (Cons x xs')
    have less: "\<forall>z \<in> set xs'. x < z" using Cons.prems Cons by (auto simp: less_le)
    show ?thesis
    proof (cases "x = y")
      case True
      have "set xs' \<subseteq> insert y (set ys) \<longleftrightarrow> set xs' \<subseteq> set ys" using less True by auto
      with Cons.IH [of xs'] Cons.prems Cons True show ?thesis by simp
    next
      case False
      have "set xs \<subseteq> insert y (set ys) \<longleftrightarrow> set xs \<subseteq> set ys"
      proof
        assume sub: "set xs \<subseteq> insert y (set ys)"
        then have "y < x" using Cons False Cons.prems(1) by (auto simp: less_le)
        with less Cons have "y \<notin> set xs" by auto
        with sub show "set xs \<subseteq> set ys" by blast
      qed blast
      with Cons.IH [of xs] Cons.prems Cons False show ?thesis by simp
    qed
  qed simp
qed

lemma namespacesOf_sorted: "sorted (namespacesOf ns)"
  by (simp add: namespacesOf_def)

lemma namespacesOf_not_Nil [simp]: "namespacesOf ns \<noteq> []"
  unfolding namespacesOf_def by (metis set_empty set_sort splitOn_not_Nil)

lemma set_namespacesOf: "set (namespacesOf (Some q)) = set (splitOn 46 q)"
  by (simp add: namespacesOf_def)

lemma parseType_line: "parseType w = (t, Some h) \<Longrightarrow> list_all (\<lambda>c. \<not> is_line_end c) h"
  by (auto simp: parseType_def Let_def list_all_iff split: list.splits if_splits dest: set_takeWhileD)

text \<open>
  C34. The test of namespaces: a handler is meant by a list of namespaces exactly when it has all of them, in whatever order
  they are written, for different names without characters that have a meaning in regular expressions.
\<close>

theorem namespace_test:
  assumes "parseType w = (t, Some q)" "parseType v = (u, Some h)" "list_all plainName (splitOn 46 q)" "distinct (splitOn 46 q)"
  shows "nsTest other (namespacesOf (Some q)) (join [46] (namespacesOf (Some h))) \<longleftrightarrow> set (splitOn 46 q) \<subseteq> set (splitOn 46 h)"
proof -
  let ?h = "namespacesOf (Some h)"
  have parts: "splitOn 46 (join [46] ?h) = ?h"
    by (rule splitOn_join) (use splitOn_free [of _ 46 h] in \<open>auto simp: set_namespacesOf\<close>)
  have "set (join [46] ws) \<subseteq> insert 46 (\<Union>x \<in> set ws. set x)" for ws :: "jstring list"
    by (induction ws rule: induct_list012) auto
  then have "set (join [46] ?h) \<subseteq> insert 46 (\<Union>x \<in> set (splitOn 46 h). set x)"
    unfolding set_namespacesOf [symmetric] .
  moreover have "(\<Union>x \<in> set ws. set x) \<subseteq> set (join [46] ws)" for ws :: "jstring list"
    by (induction ws rule: induct_list012) auto
  then have "(\<Union>x \<in> set (splitOn 46 h). set x) \<subseteq> set h" using join_splitOn [of 46 h] by metis
  ultimately have "set (join [46] ?h) \<subseteq> insert 46 (set h)" by blast
  moreover have "\<not> is_line_end 46" by (simp add: is_line_end_def)
  ultimately have line: "list_all (\<lambda>c. \<not> is_line_end c) (join [46] ?h)"
    using parseType_line [OF assms(2)] by (auto simp: list_all_iff)
  have "list_all plainName (namespacesOf (Some q))" "namespacesOf (Some q) \<noteq> []"
    using assms(3) by (simp_all add: set_namespacesOf list_all_iff)
  from nsTest_subseq [OF this line] parts
  have "nsTest other (namespacesOf (Some q)) (join [46] ?h) \<longleftrightarrow> subseq (namespacesOf (Some q)) ?h" by simp
  also have "\<dots> \<longleftrightarrow> set (namespacesOf (Some q)) \<subseteq> set ?h"
    by (rule subseq_sorted_iff) (use assms(4) in \<open>auto simp: namespacesOf_def\<close>)
  finally show ?thesis by (simp add: namespacesOf_def)
qed

theorem namespace_test_witness:
  "nsTest (\<lambda>_ _. False) (namespacesOf (Some (js ''c.a''))) (join [46] (namespacesOf (Some (js ''a.b.c'')))) \<longleftrightarrow>
   set (splitOn 46 (js ''c.a'')) \<subseteq> set (splitOn 46 (js ''a.b.c''))"
  by (rule namespace_test [where w = "js ''click.c.a''" and v = "js ''x.a.b.c''" and t = "js ''click''" and u = "js ''x''"])
    (simp_all add: parseType_def is_line_end_def plainName_def)

end
