(* ===== verification/JQuery_Registry.thy ===== *)
theory JQuery_Registry
  imports JQuery_Events
begin

text \<open>
  What the registry of event handlers keeps: an abstract registry is the list of the bindings in the order in which they were
  made, and removing bindings filters it. The lemmas show that the tables of \<open>jQuery.event\<close> stand for such a list.
\<close>

section \<open>The abstract registry\<close>

record 'e binding =
  b_elem :: 'e
  b_type :: jstring
  b_orig :: jstring
  b_data :: jarg
  b_handler :: hfun
  b_selector :: "jstring option"
  b_names :: jstring

text \<open>The function that the program gave.\<close>

fun base :: "hfun \<Rightarrow> hfun" where
  "base (One f) = base f"
| "base f = f"

datatype 'e ev_op =
    Bind "'e list" jstring hfun jarg "jstring option" bool
  | Unbind "'e list" jstring "hfun option" "jstring option"

definition specWord :: "'e \<Rightarrow> hfun \<Rightarrow> jarg \<Rightarrow> jstring option \<Rightarrow> jstring \<Rightarrow> 'e binding list \<Rightarrow> 'e binding list" where
  "specWord e f data sel w log =
     (let (orig, ns) = parseType w
      in if orig = [] then log
         else log @ [\<lparr>b_elem = e, b_type = boundType sel orig, b_orig = orig, b_data = data, b_handler = f,
                      b_selector = sel, b_names = join [46] (namespacesOf ns)\<rparr>])"

definition specAdd :: "'e evenv \<Rightarrow> 'e \<Rightarrow> jstring \<Rightarrow> hfun \<Rightarrow> jarg \<Rightarrow> jstring option \<Rightarrow> 'e binding list \<Rightarrow> 'e binding list" where
  "specAdd env e types f data sel log =
     (if acceptData (nodeKind env) e then fold (specWord e f data sel) (rev (typeList types)) log else log)"

text \<open>The bindings that a word of \<open>off\<close> names.\<close>

definition named :: "'e evenv \<Rightarrow> hfun option \<Rightarrow> jstring option \<Rightarrow> jstring \<Rightarrow> 'e binding \<Rightarrow> bool" where
  "named env handler sel w b \<longleftrightarrow>
     (let (orig, ns) = parseType w
      in (orig = [] \<or> orig = b_orig b \<and> boundType sel orig = b_type b) \<and>
         (case handler of None \<Rightarrow> True | Some f \<Rightarrow> base f = base (b_handler b)) \<and>
         (ns = None \<or> nsTest (oddTest env) (namespacesOf ns) (b_names b)) \<and>
         (\<not> selTrue sel \<or> sel = b_selector b \<or> sel = Some (js ''**'') \<and> selTrue (b_selector b)))"

fun specStep :: "'e evenv \<Rightarrow> 'e ev_op \<Rightarrow> 'e binding list \<Rightarrow> 'e binding list" where
  "specStep env (Bind es types f data sel isOne) log =
     (if selTrue sel \<and> \<not> selectorOK env (the sel) \<and> list_ex (acceptData (nodeKind env)) es then log
      else fold (\<lambda>e. specAdd env e types (if isOne then One f else f) data sel) es log)"
| "specStep env (Unbind es types handler sel) log =
     filter (\<lambda>b. \<not> (b_elem b \<in> set es \<and> list_ex (\<lambda>w. named env handler sel w b) (typeList types))) log"

text \<open>The detailed operations; one that raises an error changes nothing.\<close>

fun regStep :: "'e evenv \<Rightarrow> 'e ev_op \<Rightarrow> 'e registry \<Rightarrow> 'e registry" where
  "regStep env (Bind es types f data sel isOne) s =
     (case bindTo env es types f data sel isOne s of Inl err \<Rightarrow> s | Inr s' \<Rightarrow> s')"
| "regStep env (Unbind es types handler sel) s = unbindFrom env es types handler sel s"

section \<open>The relation\<close>

definition hlAt :: "'e registry \<Rightarrow> 'e \<Rightarrow> jstring \<Rightarrow> handler_list option" where
  "hlAt s e t = map_of (eventsOf s e) t"

text \<open>Delegated handlers first, and their number.\<close>

definition wfHL :: "handler_list \<Rightarrow> bool" where
  "wfHL hl \<longleftrightarrow>
     hl_delegates hl \<le> length (hl_list hl) \<and>
     list_all (\<lambda>ho. selTrue (ho_selector ho)) (take (hl_delegates hl) (hl_list hl)) \<and>
     list_all (\<lambda>ho. \<not> selTrue (ho_selector ho)) (drop (hl_delegates hl) (hl_list hl))"

definition hoOK :: "'e evenv \<Rightarrow> (hfun \<Rightarrow> nat option) \<Rightarrow> jstring \<Rightarrow> handleObj \<Rightarrow> bool" where
  "hoOK env gd t ho \<longleftrightarrow>
     ho_origType ho \<noteq> [] \<and> 46 \<notin> set (ho_origType ho) \<and> boundType (ho_selector ho) (ho_origType ho) = t \<and>
     gd (ho_handler ho) = Some (ho_guid ho) \<and>
     ho_needsContext ho = (selTrue (ho_selector ho) \<and> needsCtx env (the (ho_selector ho)))"

text \<open>Functions have numbers, the same for a function and for what \<open>one\<close> makes of it.\<close>

definition numbersOK :: "'e registry \<Rightarrow> bool" where
  "numbersOK s \<longleftrightarrow>
     (\<forall>f g. guids s f = Some g \<longrightarrow> g < nextGuid s \<and> guids s (base f) = Some g) \<and>
     (\<forall>f f' g. guids s f = Some g \<longrightarrow> guids s f' = Some g \<longrightarrow> base f = base f') \<and>
     (\<forall>n t. guids s (Controller n t) \<noteq> None \<longrightarrow> n < nextGuid s)"

abbreviation captured :: "'e evenv \<Rightarrow> jstring \<Rightarrow> bool" where
  "captured env t \<equiv> (\<exists>orig. setupOf env t = CaptureSetup orig)"

text \<open>The browser listens exactly where there are handlers (and where \<open>jQuery\<close> does not capture the event itself).\<close>

definition listensOK :: "'e evenv \<Rightarrow> 'e registry \<Rightarrow> bool" where
  "listensOK env s \<longleftrightarrow>
     (\<forall>e t. listening s e t \<longleftrightarrow> listens env e \<and> hlAt s e t \<noteq> None \<and> \<not> captured env t) \<and>
     (\<forall>e t. hlAt s e t \<noteq> None \<longrightarrow> hasHandle s e)"

definition listOK :: "'e evenv \<Rightarrow> (hfun \<Rightarrow> nat option) \<Rightarrow> jstring \<Rightarrow> handler_list \<Rightarrow> bool" where
  "listOK env gd t hl \<longleftrightarrow> t \<noteq> [] \<and> 46 \<notin> set t \<and> wfHL hl \<and> list_all (hoOK env gd t) (hl_list hl)"

definition regOK :: "'e evenv \<Rightarrow> 'e registry \<Rightarrow> bool" where
  "regOK env s \<longleftrightarrow>
     (\<forall>e t hl. hlAt s e t = Some hl \<longrightarrow> listOK env (guids s) t hl \<and> hl_list hl \<noteq> []) \<and> numbersOK s \<and> listensOK env s"

definition bindingOf :: "'e \<Rightarrow> jstring \<Rightarrow> handleObj \<Rightarrow> 'e binding" where
  "bindingOf e t ho = \<lparr>b_elem = e, b_type = t, b_orig = ho_origType ho, b_data = ho_data ho, b_handler = ho_handler ho,
     b_selector = ho_selector ho, b_names = (case ho_namespace ho of None \<Rightarrow> [] | Some n \<Rightarrow> n)\<rparr>"

text \<open>The handlers of the program (not the controllers of \<open>leverageNative\<close>).\<close>

definition userHandlers :: "'e \<Rightarrow> jstring \<Rightarrow> handler_list \<Rightarrow> 'e binding list" where
  "userHandlers e t hl = map (bindingOf e t) (filter (\<lambda>ho. ho_namespace ho \<noteq> None) (hl_list hl))"

definition delegatedAt :: "'e \<Rightarrow> jstring \<Rightarrow> 'e binding list \<Rightarrow> 'e binding list" where
  "delegatedAt e t log = filter (\<lambda>b. b_elem b = e \<and> b_type b = t \<and> selTrue (b_selector b)) log"

definition directAt :: "'e \<Rightarrow> jstring \<Rightarrow> 'e binding list \<Rightarrow> 'e binding list" where
  "directAt e t log = filter (\<lambda>b. b_elem b = e \<and> b_type b = t \<and> \<not> selTrue (b_selector b)) log"

text \<open>The tables hold the bindings: for every element and type the delegated ones, then the direct ones, each in their order.\<close>

definition holds :: "'e registry \<Rightarrow> 'e binding list \<Rightarrow> bool" where
  "holds s log \<longleftrightarrow> (\<forall>e t. userHandlers e t (handlersAt s e t) = delegatedAt e t log @ directAt e t log)"

section \<open>Lemmas: tables\<close>

lemma map_of_putTable: "map_of (putTable t hl ev) = (map_of ev)(t \<mapsto> hl)"
  by (induction t hl ev rule: putTable.induct) auto

lemma map_of_dropTable: "map_of (filter (\<lambda>(u, h). u \<noteq> t) ev) = (map_of ev)(t := None)"
  by (induction ev) (auto simp: fun_eq_iff)

lemma handlersAt_hlAt: "handlersAt s e t = (case hlAt s e t of None \<Rightarrow> noHandlers | Some hl \<Rightarrow> hl)"
  by (simp add: handlersAt_def hlAt_def)

lemma hlAt_set [simp]: "hlAt (setHandlers e t hl s) = (hlAt s)(e := (hlAt s e)(t \<mapsto> hl))"
  by (auto simp: hlAt_def setHandlers_def eventsOf_def map_of_putTable fun_eq_iff split: option.split)

lemma hlAt_delete [simp]: "hlAt (deleteType e t s) = (hlAt s)(e := (hlAt s e)(t := None))"
  by (auto simp: hlAt_def deleteType_def eventsOf_def map_of_dropTable fun_eq_iff split: option.split)

lemma hlAt_cong: "tables s = tables s' \<Longrightarrow> hlAt s = hlAt s'"
  by (auto simp: hlAt_def eventsOf_def fun_eq_iff)

lemma hlAt_init [simp]: "hlAt (initEvents e s) = hlAt s"
  by (auto simp: hlAt_def initEvents_def eventsOf_def fun_eq_iff split: option.splits)

lemma hlAt_dropEmpty [simp]: "hlAt (dropEmpty e s) = hlAt s"
  by (auto simp: hlAt_def dropEmpty_def eventsOf_def fun_eq_iff split: option.splits)

lemma hlAt_push [simp]:
  "hlAt (pushHandler e t d ho s) = (hlAt s)(e := (hlAt s e)(t \<mapsto> insertHandler ho d (handlersAt s e t)))"
proof -
  have "hlAt (pushHandler e t d ho s) = hlAt (setHandlers e t (insertHandler ho d (handlersAt s e t)) s)"
    by (rule hlAt_cong) (simp add: pushHandler_def)
  then show ?thesis by simp
qed

lemma hlAt_assign [simp]: "hlAt (assignGuid f s) = hlAt s"
  by (rule hlAt_cong) (simp add: assignGuid_def)

lemma hlAt_listen [simp]: "hlAt (listen env e t s) = hlAt s"
  by (rule hlAt_cong) (simp add: listen_def)

lemma hlAt_capture [simp]: "hlAt (captureSetup env e f orig s) = hlAt s" "hlAt (captureTeardown env e f orig s) = hlAt s"
  by (rule hlAt_cong; simp add: captureSetup_def captureTeardown_def Let_def)+

lemma hlAt_teardown [simp]: "hlAt (teardownType env e given t s) = hlAt s"
  by (rule hlAt_cong) (simp add: teardownType_def captureTeardown_def Let_def split: setup_kind.split)

lemma set_frame [simp]:
  "guids (setHandlers e t hl s) = guids s" "nextGuid (setHandlers e t hl s) = nextGuid s"
  "listening (setHandlers e t hl s) = listening s" "hasHandle (setHandlers e t hl s) = hasHandle s"
  by (simp_all add: setHandlers_def)

lemma push_frame [simp]:
  "guids (pushHandler e t d ho s) = guids s" "nextGuid (pushHandler e t d ho s) = nextGuid s"
  "listening (pushHandler e t d ho s) = listening s" "hasHandle (pushHandler e t d ho s) = hasHandle s"
  by (simp_all add: pushHandler_def)

lemma assign_frame [simp]:
  "listening (assignGuid f s) = listening s" "hasHandle (assignGuid f s) = hasHandle s" "tables (assignGuid f s) = tables s"
  by (simp_all add: assignGuid_def)

lemma listen_frame [simp]:
  "guids (listen env e t s) = guids s" "nextGuid (listen env e t s) = nextGuid s" "hasHandle (listen env e t s) = hasHandle s"
  by (simp_all add: listen_def)

lemma capture_frame [simp]:
  "guids (captureSetup env e f orig s) = guids s" "nextGuid (captureSetup env e f orig s) = nextGuid s"
  "listening (captureSetup env e f orig s) = listening s" "hasHandle (captureSetup env e f orig s) = hasHandle s"
  by (simp_all add: captureSetup_def Let_def)

section \<open>Lemmas: types\<close>

lemma boundType_cases: "boundType sel t = t \<or> boundType sel t \<in> snd ` set (focusTypes @ enterTypes)"
proof -
  have d: "delegateType t = Some u \<Longrightarrow> u \<in> snd ` set (focusTypes @ enterTypes)" for u
    unfolding delegateType_def by (drule map_of_SomeD) force
  have b: "bindType t = Some u \<Longrightarrow> u \<in> snd ` set (focusTypes @ enterTypes)" for u
    unfolding bindType_def by (drule map_of_SomeD) force
  define x where "x = (if selTrue sel then delegateType t else bindType t)"
  have "boundType sel t = (case x of None \<Rightarrow> t | Some u \<Rightarrow> u)" by (simp add: boundType_def x_def)
  moreover have "x = Some u \<Longrightarrow> u \<in> snd ` set (focusTypes @ enterTypes)" for u
    using d [of u] b [of u] unfolding x_def by presburger
  ultimately show ?thesis by (cases x) (simp_all del: set_append)
qed

lemma mapped_types:
  assumes "u \<in> snd ` set (focusTypes @ enterTypes)"
  shows "u \<noteq> [] \<and> 46 \<notin> set u \<and> boundType sel u = u"
proof -
  have "list_all (\<lambda>u. u \<noteq> [] \<and> 46 \<notin> set u \<and> delegateType u = None \<and> bindType u = None) (map snd (focusTypes @ enterTypes))"
    by code_simp
  then have "\<forall>u \<in> set (map snd (focusTypes @ enterTypes)). u \<noteq> [] \<and> 46 \<notin> set u \<and> delegateType u = None \<and> bindType u = None"
    by (simp only: list_all_iff)
  then have "u \<noteq> [] \<and> 46 \<notin> set u \<and> delegateType u = None \<and> bindType u = None"
    by (rule bspec) (use assms in \<open>simp only: set_map\<close>)
  then show ?thesis by (simp add: boundType_def)
qed

lemma boundType_twice: "boundType sel (boundType sel t) = boundType sel t"
  using boundType_cases [of sel t] mapped_types by auto

lemma boundType_name: "t \<noteq> [] \<Longrightarrow> 46 \<notin> set t \<Longrightarrow> boundType sel t \<noteq> [] \<and> 46 \<notin> set (boundType sel t)"
  using boundType_cases [of sel t] mapped_types by auto

lemma parseType_name: "parseType w = (orig, ns) \<Longrightarrow> 46 \<notin> set orig"
  by (auto simp: parseType_def dest: set_takeWhileD)

lemma own_setup: "setupOf env t = ClickSetup \<or> setupOf env t = FocusSetup \<Longrightarrow> boundType None t = t"
  unfolding setupOf_def focusTypes_def boundType_def bindType_def enterTypes_def
  by (auto split: if_splits)

section \<open>Lemmas: lists of handlers\<close>

lemma listOK_mono: "gd \<subseteq>\<^sub>m gd' \<Longrightarrow> listOK env gd t hl \<Longrightarrow> listOK env gd' t hl"
  by (auto simp: listOK_def hoOK_def list_all_iff map_le_def dom_def)

lemma wfHL_parts:
  assumes "wfHL hl"
  obtains ds bs where "hl_list hl = ds @ bs" "hl_delegates hl = length ds"
    "\<And>ho. ho \<in> set ds \<Longrightarrow> selTrue (ho_selector ho)" "\<And>ho. ho \<in> set bs \<Longrightarrow> \<not> selTrue (ho_selector ho)"
  using assms that [of "take (hl_delegates hl) (hl_list hl)" "drop (hl_delegates hl) (hl_list hl)"]
  by (auto simp: wfHL_def list_all_iff)

lemma wfHL_I:
  "hl_list hl = ds @ bs \<Longrightarrow> hl_delegates hl = length ds \<Longrightarrow> list_all (\<lambda>ho. selTrue (ho_selector ho)) ds \<Longrightarrow>
    list_all (\<lambda>ho. \<not> selTrue (ho_selector ho)) bs \<Longrightarrow> wfHL hl"
  by (simp add: wfHL_def)

lemma listOK_none: "t \<noteq> [] \<Longrightarrow> 46 \<notin> set t \<Longrightarrow> listOK env gd t noHandlers"
  by (simp add: listOK_def wfHL_def noHandlers_def)

lemma listOK_insert:
  assumes "listOK env gd t hl" "hoOK env gd t ho" "d \<longleftrightarrow> selTrue (ho_selector ho)"
  shows "listOK env gd t (insertHandler ho d hl) \<and> hl_list (insertHandler ho d hl) \<noteq> []"
proof -
  obtain ds bs where p: "hl_list hl = ds @ bs" "hl_delegates hl = length ds"
    "\<And>ho. ho \<in> set ds \<Longrightarrow> selTrue (ho_selector ho)" "\<And>ho. ho \<in> set bs \<Longrightarrow> \<not> selTrue (ho_selector ho)"
    using assms(1) wfHL_parts [of hl] by (auto simp: listOK_def)
  have "wfHL (insertHandler ho d hl)"
  proof (cases d)
    case True
    then show ?thesis using p assms(3)
      by (intro wfHL_I [where ds = "ds @ [ho]" and bs = bs]) (auto simp: insertHandler_def list_all_iff)
  next
    case False
    then show ?thesis using p assms(3)
      by (intro wfHL_I [where ds = ds and bs = "bs @ [ho]"]) (auto simp: insertHandler_def list_all_iff)
  qed
  then show ?thesis using assms p by (auto simp: listOK_def insertHandler_def list_all_iff)
qed

lemma userHandlers_insert:
  assumes "wfHL hl" "userHandlers e t hl = A @ B" "d \<longleftrightarrow> selTrue (ho_selector ho)"
    and "\<forall>b \<in> set A. selTrue (b_selector b)" "\<forall>b \<in> set B. \<not> selTrue (b_selector b)"
  shows "userHandlers e t (insertHandler ho d hl) =
    (if ho_namespace ho = None then A @ B else if d then A @ bindingOf e t ho # B else A @ B @ [bindingOf e t ho])"
proof -
  let ?u = "\<lambda>hs. map (bindingOf e t) (filter (\<lambda>ho. ho_namespace ho \<noteq> None) hs)"
  obtain ds bs where p: "hl_list hl = ds @ bs" "hl_delegates hl = length ds"
    "\<And>ho. ho \<in> set ds \<Longrightarrow> selTrue (ho_selector ho)" "\<And>ho. ho \<in> set bs \<Longrightarrow> \<not> selTrue (ho_selector ho)"
    using assms(1) wfHL_parts by metis
  have eq: "?u ds @ ?u bs = A @ B" using assms(2) p(1) by (simp add: userHandlers_def)
  let ?sel = "\<lambda>b. selTrue (b_selector b)"
  have "filter ?sel (?u ds) = ?u ds" "filter ?sel (?u bs) = []"
    using p(3,4) by (auto simp: filter_id_conv filter_empty_conv bindingOf_def)
  moreover have "filter ?sel A = A" "filter ?sel B = []" using assms(4,5) by (auto simp: filter_id_conv filter_empty_conv)
  ultimately have "?u ds = A" using arg_cong [OF eq, of "filter ?sel"] by simp
  with eq have "?u bs = B" by simp
  with \<open>?u ds = A\<close> p show ?thesis by (simp add: userHandlers_def insertHandler_def)
qed

section \<open>Lemmas: numbers of functions\<close>

lemma assign_mono: "guids s \<subseteq>\<^sub>m guids (assignGuid f s)"
  by (auto simp: assignGuid_def map_le_def)

lemma guidOf_known: "guids s f \<noteq> None \<Longrightarrow> guids s f = Some (guidOf s f)"
  by (auto simp: guidOf_def)

lemma assign_known: "guids (assignGuid f s) f \<noteq> None"
  by (auto simp: assignGuid_def)

lemmas assign_guid = guidOf_known [OF assign_known]

lemma numbers_cong: "guids s = guids s' \<Longrightarrow> nextGuid s = nextGuid s' \<Longrightarrow> numbersOK s \<longleftrightarrow> numbersOK s'"
  by (simp only: numbersOK_def)

lemma numbers_frame [simp]:
  "numbersOK (setHandlers e t hl s) = numbersOK s" "numbersOK (pushHandler e t d ho s) = numbersOK s"
  "numbersOK (listen env e t s) = numbersOK s" "numbersOK (captureSetup env e t orig s) = numbersOK s"
  by (rule numbers_cong; simp)+

lemma numbersD:
  assumes "numbersOK s" "guids s f = Some g"
  shows "g < nextGuid s" "guids s (base f) = Some g" "guids s f' = Some g \<Longrightarrow> base f = base f'"
  using assms unfolding numbersOK_def by blast+

lemma numbers_controller: "numbersOK s \<Longrightarrow> guids s (Controller n t) \<noteq> None \<Longrightarrow> n < nextGuid s"
  unfolding numbersOK_def by blast

lemma numbers_assign:
  assumes "numbersOK s" "base f = f" "\<And>n t. f = Controller n t \<Longrightarrow> n \<le> nextGuid s"
  shows "numbersOK (assignGuid f s)"
proof (cases "guids s f")
  case None
  have new: "base f' \<noteq> f" if "guids s f' = Some g" for f' g
    using numbersD(2) [OF assms(1) that] None by auto
  have step: "guids (assignGuid f s) = (guids s)(f \<mapsto> nextGuid s)" "nextGuid (assignGuid f s) = Suc (nextGuid s)"
    using None by (simp_all add: assignGuid_def)
  show ?thesis unfolding numbersOK_def step
  proof (intro conjI allI impI)
    fix f' g
    assume g: "((guids s)(f \<mapsto> nextGuid s)) f' = Some g"
    show "g < Suc (nextGuid s)" using g numbersD(1) [OF assms(1)] by (fastforce split: if_splits)
    show "((guids s)(f \<mapsto> nextGuid s)) (base f') = Some g"
      using g assms(2) new numbersD(2) [OF assms(1)] by (cases "f' = f") auto
  next
    fix f1 f2 g
    assume "((guids s)(f \<mapsto> nextGuid s)) f1 = Some g" "((guids s)(f \<mapsto> nextGuid s)) f2 = Some g"
    moreover have "guids s h \<noteq> Some (nextGuid s)" for h using numbersD(1) [OF assms(1), of h] by auto
    ultimately show "base f1 = base f2"
      using numbersD(3) [OF assms(1), of f1 g f2] by (cases "f1 = f"; cases "f2 = f") auto
  next
    fix n t
    assume "((guids s)(f \<mapsto> nextGuid s)) (Controller n t) \<noteq> None"
    then have "f = Controller n t \<or> n < nextGuid s" using numbers_controller [OF assms(1), of n t] by (auto split: if_splits)
    then show "n < Suc (nextGuid s)" using assms(3) by force
  qed
qed (use assms in \<open>simp add: assignGuid_def\<close>)

lemma numbers_share:
  assumes "numbersOK s" "base f = f" "\<And>n t. f \<noteq> Controller n t"
  shows "numbersOK (shareGuid f s)" "guids s \<subseteq>\<^sub>m guids (shareGuid f s)" "guids (shareGuid f s) (One f) \<noteq> None"
proof -
  let ?s = "assignGuid f s"
  have ok: "numbersOK ?s" using numbers_assign assms by blast
  have g: "guids ?s f = Some (guidOf ?s f)" by (rule assign_guid)
  have step: "guids (shareGuid f s) = (guids ?s)(One f \<mapsto> guidOf ?s f)" "nextGuid (shareGuid f s) = nextGuid ?s"
    by (simp_all add: shareGuid_def Let_def)
  have same: "x = guidOf ?s f" if "guids ?s (One f) = Some x" for x
    using numbersD(2) [OF ok that] g assms(2) by simp
  show "numbersOK (shareGuid f s)" unfolding numbersOK_def step
  proof (intro conjI allI impI)
    fix f' x
    assume x: "((guids ?s)(One f \<mapsto> guidOf ?s f)) f' = Some x"
    show "x < nextGuid ?s" using x numbersD(1) [OF ok] g by (auto split: if_splits)
    show "((guids ?s)(One f \<mapsto> guidOf ?s f)) (base f') = Some x"
    proof (cases "f' = One f")
      case True
      with x g assms(2) show ?thesis by simp
    next
      case False
      then have "guids ?s (base f') = Some x" using x numbersD(2) [OF ok] by simp
      then show ?thesis using same by auto
    qed
  next
    fix f1 f2 x
    assume x: "((guids ?s)(One f \<mapsto> guidOf ?s f)) f1 = Some x" "((guids ?s)(One f \<mapsto> guidOf ?s f)) f2 = Some x"
    have "guids ?s (if h = One f then f else h) = Some x" if "((guids ?s)(One f \<mapsto> guidOf ?s f)) h = Some x" for h
      using that g by (auto split: if_splits)
    from numbersD(3) [OF ok this [OF x(1)] this [OF x(2)]] show "base f1 = base f2"
      using assms(2) by (auto split: if_splits)
  next
    fix n t
    assume "((guids ?s)(One f \<mapsto> guidOf ?s f)) (Controller n t) \<noteq> None"
    then show "n < nextGuid ?s" using numbers_controller [OF ok, of n t] by simp
  qed
  show "guids s \<subseteq>\<^sub>m guids (shareGuid f s)"
    using assign_mono [of s f] same unfolding step map_le_def by (auto simp: dom_def)
  show "guids (shareGuid f s) (One f) \<noteq> None" by (simp add: shareGuid_def Let_def)
qed

section \<open>Lemmas: adding\<close>

text \<open>
  What setting up a type leaves: a new list, empty or with a controller, and a listener where the browser is to listen.
\<close>

definition fresh :: "'e evenv \<Rightarrow> 'e \<Rightarrow> jstring \<Rightarrow> 'e registry \<Rightarrow> 'e registry \<Rightarrow> handler_list \<Rightarrow> bool" where
  "fresh env e type s s' hl \<longleftrightarrow>
     hlAt s' = (hlAt s)(e := (hlAt s e)(type \<mapsto> hl)) \<and> listOK env (guids s') type hl \<and> userHandlers e type hl = [] \<and>
     numbersOK s' \<and> guids s \<subseteq>\<^sub>m guids s' \<and> hasHandle s' = hasHandle s \<and>
     listening s' = (if listens env e \<and> \<not> captured env type then (listening s)(e := (listening s e)(type := True)) else listening s)"

lemma fresh_leverage:
  assumes "numbersOK s" "boundType None type = type" "type \<noteq> []" "46 \<notin> set type" "hlAt s e type = Some noHandlers"
  obtains hl where "hlAt (leverageSetup env e type s) = (hlAt s)(e := (hlAt s e)(type \<mapsto> hl))"
    "listOK env (guids (leverageSetup env e type s)) type hl" "userHandlers e type hl = []"
    "numbersOK (leverageSetup env e type s)" "guids s \<subseteq>\<^sub>m guids (leverageSetup env e type s)"
    "hasHandle (leverageSetup env e type s) = hasHandle s" "listening (leverageSetup env e type s) = listening s"
proof -
  let ?s0 = "s\<lparr>leveraged := (leveraged s)(e := (leveraged s e)(type := True))\<rparr>"
  let ?f = "Controller (nextGuid s) type"
  let ?s1 = "assignGuid ?f ?s0"
  let ?ho = "makeHandleObj env (UniversalArg ?f) (guidOf ?s1 ?f) type type Undef None [[]]"
  have lev: "leverageSetup env e type s = pushHandler e type False ?ho ?s1" by (simp add: leverageSetup_def Let_def)
  have s0: "hlAt ?s0 = hlAt s" by (rule hlAt_cong) simp
  have at: "handlersAt ?s1 e type = noHandlers" using assms(5) s0 by (simp add: handlersAt_hlAt)
  have "numbersOK ?s0" using assms(1) numbers_cong [of ?s0 s] by simp
  then have num: "numbersOK ?s1" by (rule numbers_assign) auto
  have ho: "hoOK env (guids ?s1) type ?ho" "ho_selector ?ho = None" "ho_namespace ?ho = None"
    using assms(2-4) assign_guid [of ?f ?s0] by (auto simp: hoOK_def makeHandleObj_def)
  let ?hl = "insertHandler ?ho False noHandlers"
  have "listOK env (guids ?s1) type ?hl" using listOK_insert [OF listOK_none [OF assms(3,4)] ho(1), of False] ho(2) by simp
  moreover have "userHandlers e type ?hl = []" using ho(3) by (simp add: userHandlers_def insertHandler_def noHandlers_def)
  moreover have "guids s \<subseteq>\<^sub>m guids ?s1" using assign_mono [of ?s0 ?f] by simp
  ultimately show ?thesis using that [of ?hl] num s0 at unfolding lev by auto
qed

lemma listening_listen:
  "listening (listen env e t s) = (if listens env e then (listening s)(e := (listening s e)(t := True)) else listening s)"
  by (simp add: listen_def)

lemma setupType_fresh:
  assumes "numbersOK s" "type \<noteq> []" "46 \<notin> set type" "hlAt s e type = None"
  shows "\<exists>hl. fresh env e type s (setupType env e type (setHandlers e type noHandlers s)) hl"
proof -
  let ?s0 = "setHandlers e type noHandlers s"
  have num: "numbersOK ?s0" using assms(1) by simp
  have at: "hlAt ?s0 e type = Some noHandlers" by simp
  have plain: "fresh env e type s (listen env e type ?s0) noHandlers" if "\<not> captured env type"
    using that num listOK_none [OF assms(2,3)]
    by (auto simp: fresh_def userHandlers_def noHandlers_def listening_listen)
  have lev: "\<exists>hl. fresh env e type s (listen env e type (leverageSetup env e type ?s0)) hl"
    if own: "setupOf env type = ClickSetup \<or> setupOf env type = FocusSetup"
  proof -
    obtain hl where h: "hlAt (leverageSetup env e type ?s0) = (hlAt ?s0)(e := (hlAt ?s0 e)(type \<mapsto> hl))"
      "listOK env (guids (leverageSetup env e type ?s0)) type hl" "userHandlers e type hl = []"
      "numbersOK (leverageSetup env e type ?s0)" "guids ?s0 \<subseteq>\<^sub>m guids (leverageSetup env e type ?s0)"
      "hasHandle (leverageSetup env e type ?s0) = hasHandle ?s0" "listening (leverageSetup env e type ?s0) = listening ?s0"
      using fresh_leverage [OF num own_setup [OF own] assms(2,3) at] by metis
    have "\<not> captured env type" using own by auto
    with h show ?thesis by (auto simp: fresh_def listening_listen intro!: exI [of _ hl])
  qed
  show ?thesis
  proof (cases "setupOf env type")
    case (CaptureSetup orig)
    have "fresh env e type s (captureSetup env e type orig ?s0) noHandlers"
      using CaptureSetup num listOK_none [OF assms(2,3)]
      by (auto simp: fresh_def userHandlers_def noHandlers_def)
    with CaptureSetup show ?thesis by (auto simp: setupType_def)
  qed (use plain lev in \<open>auto simp: setupType_def\<close>)
qed

lemma regD:
  assumes "regOK env s"
  shows "hlAt s e t = Some hl \<Longrightarrow> listOK env (guids s) t hl" "hlAt s e t = Some hl \<Longrightarrow> hl_list hl \<noteq> []" "numbersOK s"
    "listening s e t \<longleftrightarrow> listens env e \<and> hlAt s e t \<noteq> None \<and> \<not> captured env t" "hlAt s e t \<noteq> None \<Longrightarrow> hasHandle s e"
  using assms unfolding regOK_def listensOK_def by blast+

lemma regI:
  assumes "\<And>e t hl. hlAt s e t = Some hl \<Longrightarrow> listOK env (guids s) t hl \<and> hl_list hl \<noteq> []" "numbersOK s"
    and "\<And>e t. listening s e t \<longleftrightarrow> listens env e \<and> hlAt s e t \<noteq> None \<and> \<not> captured env t"
    and "\<And>e t. hlAt s e t \<noteq> None \<Longrightarrow> hasHandle s e"
  shows "regOK env s"
  using assms unfolding regOK_def listensOK_def by blast

text \<open>The list of a type, after it was set up where that was needed.\<close>

lemma addType_list:
  fixes e :: 'e
  assumes "regOK env s" "type \<noteq> []" "46 \<notin> set type"
  defines "s1 \<equiv> if hlAt s e type = None then setupType env e type (setHandlers e type noHandlers s) else s"
  obtains hl where "hlAt s1 = (hlAt s)(e := (hlAt s e)(type \<mapsto> hl))" "listOK env (guids s1) type hl"
    "userHandlers e type hl = userHandlers e type (handlersAt s e type)" "numbersOK s1" "guids s \<subseteq>\<^sub>m guids s1"
    "hasHandle s1 = hasHandle s"
    "\<And>e' t'. listening s1 e' t' \<longleftrightarrow> (if e' = e \<and> t' = type then listens env e \<and> \<not> captured env type else listening s e' t')"
proof (cases "hlAt s e type")
  case None
  then obtain hl where f: "fresh env e type s s1 hl"
    using setupType_fresh [OF regD(3) [OF assms(1)] assms(2,3) None, of env] by (auto simp: s1_def)
  have "userHandlers e type (handlersAt s e type) = []"
    using None by (simp add: handlersAt_hlAt userHandlers_def noHandlers_def)
  then show ?thesis using f regD(4) [OF assms(1), of e type] None that [of hl] by (auto simp: fresh_def split: if_splits)
next
  case (Some hl)
  then have "s1 = s" "(hlAt s)(e := (hlAt s e)(type \<mapsto> hl)) = hlAt s" by (auto simp: s1_def fun_eq_iff)
  with Some that [of hl] regD [OF assms(1)] show ?thesis by (auto simp: handlersAt_hlAt)
qed

lemma bindings_sorted:
  "\<forall>b \<in> set (delegatedAt e t log). selTrue (b_selector b)" "\<forall>b \<in> set (directAt e t log). \<not> selTrue (b_selector b)"
  by (auto simp: delegatedAt_def directAt_def)

lemma addType_step:
  fixes e :: 'e and data :: jarg and sel :: "jstring option" and w :: jstring
  assumes "regOK env s" "holds s log" "guids s f = Some g" "hasHandle s e"
  defines "s' \<equiv> addType env e (FnArg f) g data sel w s"
  shows "regOK env s' \<and> holds s' (specWord e f data sel w log) \<and> guids s \<subseteq>\<^sub>m guids s' \<and> hasHandle s' = hasHandle s"
proof -
  obtain orig ns where w: "parseType w = (orig, ns)" by fastforce
  show ?thesis
  proof (cases "orig = []")
    case True
    then show ?thesis using assms w by (simp add: addType_def specWord_def)
  next
    case False
    let ?t = "boundType sel orig"
    have name: "?t \<noteq> []" "46 \<notin> set ?t" using boundType_name [OF False parseType_name [OF w]] by blast+
    define s1 where "s1 = (if hlAt s e ?t = None then setupType env e ?t (setHandlers e ?t noHandlers s) else s)"
    let ?ho = "makeHandleObj env (FnArg f) g ?t orig data sel (namespacesOf ns)"
    have s': "s' = pushHandler e ?t (selTrue sel) ?ho s1" using w False by (simp add: s'_def addType_def Let_def hlAt_def s1_def)
    obtain hl where hl: "hlAt s1 = (hlAt s)(e := (hlAt s e)(?t \<mapsto> hl))" "listOK env (guids s1) ?t hl"
      "userHandlers e ?t hl = userHandlers e ?t (handlersAt s e ?t)" "numbersOK s1" "guids s \<subseteq>\<^sub>m guids s1"
      "hasHandle s1 = hasHandle s"
      "\<And>e' t'. listening s1 e' t' \<longleftrightarrow> (if e' = e \<and> t' = ?t then listens env e \<and> \<not> captured env ?t else listening s e' t')"
      using addType_list [OF assms(1) name, of e, folded s1_def] by metis
    have at: "handlersAt s1 e ?t = hl" using hl(1) by (simp only: handlersAt_hlAt) simp
    let ?hl = "insertHandler ?ho (selTrue sel) hl"
    have new: "hlAt s' = (hlAt s)(e := (hlAt s e)(?t \<mapsto> ?hl))" unfolding s' hlAt_push at hl(1) by (auto simp: fun_eq_iff)
    have "guids s1 f = Some g" using hl(5) assms(3) unfolding map_le_def by (metis domI)
    then have ho: "hoOK env (guids s1) ?t ?ho" using False parseType_name [OF w] by (simp add: hoOK_def makeHandleObj_def)
    have ins: "listOK env (guids s1) ?t ?hl \<and> hl_list ?hl \<noteq> []"
      by (rule listOK_insert [OF hl(2) ho]) (simp add: makeHandleObj_def)
    have frame: "guids s' = guids s1" "hasHandle s' = hasHandle s" "listening s' = listening s1" "numbersOK s'"
      unfolding s' using hl(4,6) by simp_all
    have reg: "regOK env s'"
    proof (rule regI)
      fix e' t' hl'
      assume "hlAt s' e' t' = Some hl'"
      then show "listOK env (guids s') t' hl' \<and> hl_list hl' \<noteq> []"
        using ins regD(1,2) [OF assms(1)] listOK_mono [OF hl(5), where env = env] unfolding frame(1) new by (auto split: if_splits)
    next
      show "listening s' e' t' \<longleftrightarrow> listens env e' \<and> hlAt s' e' t' \<noteq> None \<and> \<not> captured env t'" for e' t'
        using regD(4) [OF assms(1), of e' t'] unfolding frame(3) new hl(7) by auto
    next
      show "hlAt s' e' t' \<noteq> None \<Longrightarrow> hasHandle s' e'" for e' t'
        using regD(5) [OF assms(1), of e' t'] assms(4) unfolding frame(2) new by (auto split: if_splits)
    qed (rule frame(4))
    let ?b = "bindingOf e ?t ?ho"
    have b: "specWord e f data sel w log = log @ [?b]" "ho_namespace ?ho \<noteq> None" "b_selector ?b = sel"
      using w False by (simp_all add: specWord_def bindingOf_def makeHandleObj_def)
    have old: "userHandlers e' t' (handlersAt s e' t') = delegatedAt e' t' log @ directAt e' t' log" for e' t'
      using assms(2) by (simp add: holds_def)
    have "userHandlers e' t' (handlersAt s' e' t') = delegatedAt e' t' (log @ [?b]) @ directAt e' t' (log @ [?b])" for e' t'
    proof (cases "e' = e \<and> t' = ?t")
      case True
      have wf: "wfHL hl" and eq: "userHandlers e ?t hl = delegatedAt e ?t log @ directAt e ?t log"
        and d: "selTrue sel \<longleftrightarrow> selTrue (ho_selector ?ho)"
        using hl(2,3) old by (simp_all add: listOK_def makeHandleObj_def)
      have "userHandlers e ?t ?hl = (if selTrue sel then delegatedAt e ?t log @ ?b # directAt e ?t log
          else delegatedAt e ?t log @ directAt e ?t log @ [?b])"
        using userHandlers_insert [OF wf eq d bindings_sorted] b(2) by presburger
      moreover have "handlersAt s' e' t' = ?hl" using True unfolding handlersAt_hlAt new by simp
      moreover have "b_elem ?b = e" "b_type ?b = ?t" by (simp_all add: bindingOf_def)
      ultimately show ?thesis using True b(3) by (auto simp: delegatedAt_def directAt_def)
    next
      case False
      then have "handlersAt s' e' t' = handlersAt s e' t'" unfolding handlersAt_hlAt new by auto
      with False old show ?thesis by (auto simp: delegatedAt_def directAt_def bindingOf_def)
    qed
    then have "holds s' (specWord e f data sel w log)" unfolding holds_def b(1) by blast
    with reg frame hl(5) show ?thesis by simp
  qed
qed

lemma addTypes_step:
  "regOK env s \<Longrightarrow> holds s log \<Longrightarrow> guids s f = Some g \<Longrightarrow> hasHandle s e \<Longrightarrow>
    regOK env (fold (addType env e (FnArg f) g data sel) ws s) \<and>
    holds (fold (addType env e (FnArg f) g data sel) ws s) (fold (specWord e f data sel) ws log) \<and>
    guids s \<subseteq>\<^sub>m guids (fold (addType env e (FnArg f) g data sel) ws s)"
proof (induction ws arbitrary: s log)
  case (Cons w ws)
  let ?s = "addType env e (FnArg f) g data sel w s"
  have step: "regOK env ?s" "holds ?s (specWord e f data sel w log)" "guids s \<subseteq>\<^sub>m guids ?s" "hasHandle ?s = hasHandle s"
    using addType_step [OF Cons.prems, of data sel w] by blast+
  then have "guids ?s f = Some g" using Cons.prems(3) unfolding map_le_def by (metis domI)
  from Cons.IH [OF step(1,2) this] step(3,4) Cons.prems(4) show ?case by (auto intro: map_le_trans)
qed simp

lemma regOK_more:
  assumes "regOK env s" "numbersOK s'" "guids s \<subseteq>\<^sub>m guids s'" "hlAt s' = hlAt s" "listening s' = listening s"
    and "\<And>e. hasHandle s e \<Longrightarrow> hasHandle s' e"
  shows "regOK env s'"
proof (rule regI [OF _ assms(2)])
  show "listOK env (guids s') t hl \<and> hl_list hl \<noteq> []" if "hlAt s' e t = Some hl" for e t hl
    using that regD(1,2) [OF assms(1)] listOK_mono [OF assms(3), where env = env] assms(4) by auto
  show "listening s' e t \<longleftrightarrow> listens env e \<and> hlAt s' e t \<noteq> None \<and> \<not> captured env t" for e t
    using regD(4) [OF assms(1), of e t] assms(4,5) by simp
  show "hasHandle s' e" if "hlAt s' e t \<noteq> None" for e t
    using that regD(5) [OF assms(1), of e t] assms(4,6) by simp
qed

lemma holds_cong: "hlAt s' = hlAt s \<Longrightarrow> holds s' log = holds s log"
  by (simp add: holds_def handlersAt_hlAt)

text \<open>A function that has a number, or one of the program.\<close>

definition known :: "'e registry \<Rightarrow> hfun \<Rightarrow> bool" where
  "known s f \<longleftrightarrow> guids s f \<noteq> None \<or> base f = f \<and> (\<forall>n t. f \<noteq> Controller n t)"

lemma known_mono: "known s f \<Longrightarrow> guids s \<subseteq>\<^sub>m guids s' \<Longrightarrow> known s' f"
  unfolding known_def map_le_def by (metis domI domIff)

lemma assign_step:
  assumes "regOK env s" "known s f"
  shows "regOK env (assignGuid f s)"
proof (rule regOK_more [OF assms(1) _ assign_mono])
  show "numbersOK (assignGuid f s)"
  proof (cases "guids s f")
    case None
    with assms(2) have f: "base f = f" "\<And>n t. f \<noteq> Controller n t" by (auto simp: known_def)
    show ?thesis by (rule numbers_assign [OF regD(3) [OF assms(1)] f(1)]) (use f(2) in blast)
  next
    case (Some g)
    with regD(3) [OF assms(1)] show ?thesis by (simp add: assignGuid_def)
  qed
qed simp_all

lemma eventAdd_step:
  assumes "regOK env s" "holds s log" "known s f" "selTrue sel \<Longrightarrow> selectorOK env (the sel)"
  shows "\<exists>s'. eventAdd env e types (FnArg f) data sel s = Inr s' \<and> regOK env s' \<and>
    holds s' (specAdd env e types f data sel log) \<and> guids s \<subseteq>\<^sub>m guids s'"
proof (cases "acceptData (nodeKind env) e")
  case True
  let ?start = "assignGuid f s"
  let ?s = "initEvents e ?start"
  have frame: "guids ?s = guids ?start" "nextGuid ?s = nextGuid ?start" "listening ?s = listening ?start" "hasHandle ?s e"
    by (simp_all add: initEvents_def)
  have g: "guids ?s f = Some (guidOf ?s f)" by (rule guidOf_known) (simp add: initEvents_def assign_known)
  have reg0: "regOK env ?start" by (rule assign_step [OF assms(1,3)])
  have "numbersOK ?s" using regD(3) [OF reg0] numbers_cong [of ?s ?start] frame by simp
  then have reg: "regOK env ?s"
    by (rule regOK_more [OF reg0]) (simp_all add: frame, simp add: initEvents_def)
  have "holds ?s log" using assms(2) holds_cong [of ?s s log] by simp
  from addTypes_step [OF reg this g frame(4), of data sel "rev (typeList types)"] True assms(4) show ?thesis
    using assign_mono [of s f] frame(1)
    by (auto simp: eventAdd_def Let_def specAdd_def intro: map_le_trans)
qed (use assms in \<open>auto simp: eventAdd_def specAdd_def\<close>)

lemma onEach_step:
  "regOK env s \<Longrightarrow> holds s log \<Longrightarrow> known s f \<Longrightarrow> (selTrue sel \<Longrightarrow> selectorOK env (the sel)) \<Longrightarrow>
    \<exists>s'. onEach env es types f data sel s = Inr s' \<and> regOK env s' \<and>
      holds s' (fold (\<lambda>e. specAdd env e types f data sel) es log)"
proof (induction es arbitrary: s log)
  case (Cons e es)
  obtain s1 where s1: "eventAdd env e types (FnArg f) data sel s = Inr s1" "regOK env s1"
    "holds s1 (specAdd env e types f data sel log)" "guids s \<subseteq>\<^sub>m guids s1"
    using eventAdd_step [OF Cons.prems] by blast
  from Cons.IH [OF s1(2,3) known_mono [OF Cons.prems(3) s1(4)] Cons.prems(4)] s1(1) show ?case by simp
qed simp

text \<open>With an invalid selector nothing is added: the first element that takes handlers raises an error.\<close>

lemma onEach_bad:
  "selTrue sel \<Longrightarrow> \<not> selectorOK env (the sel) \<Longrightarrow>
    onEach env es types f data sel s = (if list_ex (acceptData (nodeKind env)) es then Inl BadSelector else Inr s)"
  by (induction es) (auto simp: eventAdd_def)

lemma specAdd_none: "\<not> list_ex (acceptData (nodeKind env)) es \<Longrightarrow> fold (\<lambda>e. specAdd env e types f data sel) es log = log"
  by (induction es) (auto simp: specAdd_def)

lemma bind_step:
  assumes "regOK env s" "holds s log" "base f = f" "\<And>n t. f \<noteq> Controller n t"
  shows "regOK env (regStep env (Bind es types f data sel isOne) s) \<and>
    holds (regStep env (Bind es types f data sel isOne) s) (specStep env (Bind es types f data sel isOne) log)"
proof -
  define s0 f0 where "s0 = (if isOne then shareGuid f s else s)" and "f0 = (if isOne then One f else f)"
  have bind: "bindTo env es types f data sel isOne s = onEach env es types f0 data sel s0"
    by (simp add: bindTo_def s0_def f0_def)
  have frame: "hlAt (shareGuid f s) = hlAt s" "listening (shareGuid f s) = listening s" "hasHandle (shareGuid f s) = hasHandle s"
    by (rule hlAt_cong) (simp_all add: shareGuid_def Let_def)
  have share: "numbersOK (shareGuid f s)" "guids s \<subseteq>\<^sub>m guids (shareGuid f s)" "guids (shareGuid f s) (One f) \<noteq> None"
    using numbers_share [OF regD(3) [OF assms(1)] assms(3,4)] by blast+
  have "regOK env (shareGuid f s)" by (rule regOK_more [OF assms(1) share(1,2)]) (simp_all add: frame)
  then have reg: "regOK env s0" and holds: "holds s0 log" and known: "known s0 f0"
    using assms share(3) holds_cong [OF frame(1), of log] by (auto simp: s0_def f0_def known_def)
  show ?thesis
  proof (cases "selTrue sel \<and> \<not> selectorOK env (the sel)")
    case True
    show ?thesis
    proof (cases "list_ex (acceptData (nodeKind env)) es")
      case True
      with \<open>selTrue sel \<and> _\<close> show ?thesis using assms bind onEach_bad [of sel env es types f0 data s0] by simp
    next
      case False
      with \<open>selTrue sel \<and> _\<close> show ?thesis
        using reg holds bind onEach_bad [of sel env es types f0 data s0] specAdd_none [OF False] by (simp add: f0_def)
    qed
  next
    case False
    obtain s' where "onEach env es types f0 data sel s0 = Inr s'" "regOK env s'"
      "holds s' (fold (\<lambda>e. specAdd env e types f0 data sel) es log)"
      using onEach_step [OF reg holds known, of sel es types data] False by blast
    with False bind show ?thesis by (auto simp: f0_def)
  qed
qed

section \<open>Lemmas: removing\<close>

definition cutHL :: "(handleObj \<Rightarrow> bool) \<Rightarrow> handler_list \<Rightarrow> handler_list" where
  "cutHL Q hl = \<lparr>hl_list = filter (\<lambda>ho. \<not> Q ho) (hl_list hl),
     hl_delegates = length (filter (\<lambda>ho. \<not> Q ho) (take (hl_delegates hl) (hl_list hl)))\<rparr>"

definition keep :: "(handleObj \<Rightarrow> bool) \<Rightarrow> handler_list option \<Rightarrow> handler_list option" where
  "keep Q o' = (case o' of None \<Rightarrow> None | Some hl \<Rightarrow> if hl_list (cutHL Q hl) = [] then None else Some (cutHL Q hl))"

lemma unbindLoop_append:
  "hl_list hl = xs @ ys \<Longrightarrow> unbindLoop Q (length xs) hl =
    \<lparr>hl_list = filter (\<lambda>ho. \<not> Q ho) xs @ ys,
     hl_delegates = hl_delegates hl - length (filter (\<lambda>ho. Q ho \<and> selTrue (ho_selector ho)) xs)\<rparr>"
proof (induction xs arbitrary: hl ys rule: rev_induct)
  case (snoc x xs)
  have at: "hl_list hl ! length xs = x" "take (length xs) (hl_list hl) @ drop (Suc (length xs)) (hl_list hl) = xs @ ys"
    using snoc.prems by simp_all
  show ?case
  proof (cases "Q x")
    case True
    let ?hl = "hl\<lparr>hl_list := xs @ ys, hl_delegates := (if selTrue (ho_selector x) then hl_delegates hl - 1 else hl_delegates hl)\<rparr>"
    have "unbindLoop Q (length (xs @ [x])) hl = unbindLoop Q (length xs) ?hl"
      using at True by (simp add: Let_def)
    also have "\<dots> = \<lparr>hl_list = filter (\<lambda>ho. \<not> Q ho) xs @ ys,
        hl_delegates = hl_delegates ?hl - length (filter (\<lambda>ho. Q ho \<and> selTrue (ho_selector ho)) xs)\<rparr>"
      by (rule snoc.IH) simp
    finally show ?thesis using True by auto
  next
    case False
    have "unbindLoop Q (length (xs @ [x])) hl = unbindLoop Q (length xs) hl" using at False by (simp add: Let_def)
    also have "\<dots> = \<lparr>hl_list = filter (\<lambda>ho. \<not> Q ho) xs @ x # ys,
        hl_delegates = hl_delegates hl - length (filter (\<lambda>ho. Q ho \<and> selTrue (ho_selector ho)) xs)\<rparr>"
      by (rule snoc.IH) (use snoc.prems in simp)
    finally show ?thesis using False by simp
  qed
qed simp

lemma unbindLoop_cut: "wfHL hl \<Longrightarrow> unbindLoop Q (length (hl_list hl)) hl = cutHL Q hl"
proof -
  assume "wfHL hl"
  then obtain ds bs where p: "hl_list hl = ds @ bs" "hl_delegates hl = length ds"
    "\<And>ho. ho \<in> set ds \<Longrightarrow> selTrue (ho_selector ho)" "\<And>ho. ho \<in> set bs \<Longrightarrow> \<not> selTrue (ho_selector ho)"
    using wfHL_parts by metis
  have "filter (\<lambda>ho. Q ho \<and> selTrue (ho_selector ho)) ds = filter Q ds"
    "filter (\<lambda>ho. Q ho \<and> selTrue (ho_selector ho)) bs = []"
    using p(3,4) by (auto intro: filter_cong simp: filter_empty_conv)
  moreover have "length ds - length (filter Q ds) = length (filter (\<lambda>ho. \<not> Q ho) ds)"
    using sum_length_filter_compl [of Q ds] by simp
  ultimately show ?thesis using unbindLoop_append [of hl "hl_list hl" "[]" Q] p(1,2) by (simp add: cutHL_def)
qed

lemma cut_OK: "listOK env gd t hl \<Longrightarrow> listOK env gd t (cutHL Q hl)"
proof -
  assume ok: "listOK env gd t hl"
  then obtain ds bs where p: "hl_list hl = ds @ bs" "hl_delegates hl = length ds"
    "\<And>ho. ho \<in> set ds \<Longrightarrow> selTrue (ho_selector ho)" "\<And>ho. ho \<in> set bs \<Longrightarrow> \<not> selTrue (ho_selector ho)"
    using wfHL_parts [of hl] by (auto simp: listOK_def)
  have "wfHL (cutHL Q hl)"
    by (rule wfHL_I [where ds = "filter (\<lambda>ho. \<not> Q ho) ds" and bs = "filter (\<lambda>ho. \<not> Q ho) bs"])
      (use p in \<open>auto simp: cutHL_def list_all_iff\<close>)
  with ok show ?thesis by (auto simp: listOK_def cutHL_def list_all_iff)
qed

lemma cut_twice: "cutHL Q (cutHL Q hl) = cutHL Q hl"
proof -
  let ?p = "\<lambda>ho. \<not> Q ho" and ?n = "hl_delegates hl" and ?l = "hl_list hl"
  have "filter ?p ?l = filter ?p (take ?n ?l) @ filter ?p (drop ?n ?l)" by (metis append_take_drop_id filter_append)
  then have "take (length (filter ?p (take ?n ?l))) (filter ?p ?l) = filter ?p (take ?n ?l)" by simp
  then show ?thesis by (simp add: cutHL_def)
qed

lemma keep_twice: "keep Q (keep Q o') = keep Q o'"
  by (simp add: keep_def cut_twice split: option.splits)

lemma meant_cong: "guids s = guids s' \<Longrightarrow> meant env s = meant env s'"
  by (simp only: meant_def [abs_def])

text \<open>The effect of removing a word: one list is filtered, and its listener is removed with its last handler.\<close>

definition removed :: "'e evenv \<Rightarrow> 'e \<Rightarrow> jstring set \<Rightarrow> (handleObj \<Rightarrow> bool) \<Rightarrow> 'e registry \<Rightarrow> 'e registry \<Rightarrow> bool" where
  "removed env e T Q s s' \<longleftrightarrow>
     hlAt s' = (hlAt s)(e := (\<lambda>t. if t \<in> T then keep Q (hlAt s e t) else hlAt s e t)) \<and>
     guids s' = guids s \<and> regOK env s'"

lemma teardown_frame [simp]:
  "guids (teardownType env e given t s) = guids s" "nextGuid (teardownType env e given t s) = nextGuid s"
  "hasHandle (teardownType env e given t s) = hasHandle s"
  by (simp_all add: teardownType_def captureTeardown_def Let_def split: setup_kind.split)

lemma delete_frame [simp]:
  "guids (deleteType e t s) = guids s" "nextGuid (deleteType e t s) = nextGuid s"
  "hasHandle (deleteType e t s) = hasHandle s" "listening (deleteType e t s) = listening s"
  by (simp_all add: deleteType_def)

lemma listening_teardown:
  "listening (teardownType env e given t s) e' t' \<longleftrightarrow>
    listening s e' t' \<and> (captured env given \<or> \<not> (e' = e \<and> t' = t))"
  by (auto simp: teardownType_def captureTeardown_def Let_def split: setup_kind.split)

lemma captured_own: "captured env given \<Longrightarrow> boundType sel given = given"
  unfolding setupOf_def boundType_def delegateType_def bindType_def focusTypes_def enterTypes_def
  by (auto split: if_splits)

lemma regOK_removed:
  assumes "regOK env s" "guids s' = guids s" "nextGuid s' = nextGuid s" "hasHandle s' = hasHandle s"
    and "hlAt s' = (hlAt s)(e := (hlAt s e)(t := keep Q (hlAt s e t)))"
    and "\<And>e' t'. listening s' e' t' \<longleftrightarrow> listening s e' t' \<and> \<not> (e' = e \<and> t' = t \<and> keep Q (hlAt s e t) = None)"
  shows "regOK env s'"
proof (rule regI)
  fix e' t' hl
  assume a: "hlAt s' e' t' = Some hl"
  show "listOK env (guids s') t' hl \<and> hl_list hl \<noteq> []"
  proof (cases "e' = e \<and> t' = t")
    case True
    then show ?thesis using a cut_OK [where env = env] regD(1) [OF assms(1)] unfolding assms(2,5)
      by (auto simp: keep_def split: option.splits if_splits)
  next
    case False
    then show ?thesis using a regD(1,2) [OF assms(1)] unfolding assms(2,5) by (auto split: if_splits)
  qed
next
  show "numbersOK s'" using regD(3) [OF assms(1)] numbers_cong [OF assms(2,3)] by simp
next
  show "listening s' e' t' \<longleftrightarrow> listens env e' \<and> hlAt s' e' t' \<noteq> None \<and> \<not> captured env t'" for e' t'
    using regD(4) [OF assms(1), of e' t'] unfolding assms(5,6) by (auto simp: keep_def split: option.splits if_splits)
next
  show "hlAt s' e' t' \<noteq> None \<Longrightarrow> hasHandle s' e'" for e' t'
    using regD(5) [OF assms(1), of e' t'] unfolding assms(4,5) by (auto simp: keep_def split: option.splits if_splits)
qed

lemma removeType_removed:
  assumes "regOK env s" "parseType w = (orig, ns)"
  shows "removed env e {boundType sel orig} (meant env s mapped orig ns handler sel) s (removeType env e handler sel mapped w s)"
proof -
  let ?t = "boundType sel orig" and ?Q = "meant env s mapped orig ns handler sel"
  define s' where "s' = removeType env e handler sel mapped w s"
  have only: "(\<lambda>t. if t \<in> {?t} then keep ?Q (hlAt s e t) else hlAt s e t) = (hlAt s e)(?t := keep ?Q (hlAt s e ?t))"
    by (auto simp: fun_eq_iff)
  have "hlAt s' = (hlAt s)(e := (hlAt s e)(?t := keep ?Q (hlAt s e ?t))) \<and> guids s' = guids s \<and> nextGuid s' = nextGuid s \<and>
    hasHandle s' = hasHandle s \<and>
    (\<forall>e' t'. listening s' e' t' \<longleftrightarrow> listening s e' t' \<and> \<not> (e' = e \<and> t' = ?t \<and> keep ?Q (hlAt s e ?t) = None))"
  proof (cases "hlAt s e ?t")
    case None
    then have "s' = s" "(hlAt s)(e := (hlAt s e)(?t := None)) = hlAt s"
      using assms(2) by (auto simp: s'_def removeType_def hlAt_def fun_eq_iff)
    then show ?thesis using None regD(4) [OF assms(1), of e ?t] by (auto simp: keep_def)
  next
    case (Some hl)
    have ok: "listOK env (guids s) ?t hl" "hl_list hl \<noteq> []" using regD(1,2) [OF assms(1) Some] by blast+
    have loop: "unbindLoop ?Q (length (hl_list hl)) hl = cutHL ?Q hl" by (rule unbindLoop_cut) (use ok in \<open>simp add: listOK_def\<close>)
    have s': "s' = (let s1 = setHandlers e ?t (cutHL ?Q hl) s
        in if hl_list (cutHL ?Q hl) = [] then deleteType e ?t (teardownType env e orig ?t s1) else s1)"
      using assms(2) Some ok(2) loop by (simp add: s'_def removeType_def hlAt_def Let_def)
    show ?thesis
    proof (cases "hl_list (cutHL ?Q hl) = []")
      case True
      have "captured env orig \<Longrightarrow> \<not> listening s e ?t" using captured_own [of env orig sel] regD(4) [OF assms(1), of e ?t] by auto
      with True Some show ?thesis unfolding s' by (auto simp: Let_def keep_def listening_teardown)
    next
      case False
      with Some show ?thesis unfolding s' by (auto simp: Let_def keep_def)
    qed
  qed
  note eff = this
  have "regOK env s'" by (rule regOK_removed [OF assms(1), of s' e ?t ?Q]) (use eff in blast)+
  with eff show ?thesis unfolding removed_def only s'_def by blast
qed

lemma regOK_dropEmpty: "regOK env s \<Longrightarrow> regOK env (dropEmpty e s)"
proof -
  assume ok: "regOK env s"
  have "guids (dropEmpty e s) = guids s" "nextGuid (dropEmpty e s) = nextGuid s" "listening (dropEmpty e s) = listening s"
    by (simp_all add: dropEmpty_def)
  moreover have "hasHandle (dropEmpty e s) e'" if "hlAt s e' t \<noteq> None" for e' t
    using that regD(5) [OF ok, of e' t] by (auto simp: dropEmpty_def hlAt_def)
  ultimately show ?thesis using regD [OF ok] numbers_cong [of "dropEmpty e s" s] by (intro regI) auto
qed

lemma removed_dropEmpty: "removed env e T Q s s' \<Longrightarrow> removed env e T Q s (dropEmpty e s')"
  by (auto simp: removed_def regOK_dropEmpty) (simp add: dropEmpty_def)

lemma removed_trans:
  assumes "removed env e T Q s s1" "removed env e U Q s1 s2"
  shows "removed env e (T \<union> U) Q s s2"
  using assms unfolding removed_def by (auto simp: fun_eq_iff keep_twice)

lemma removed_none: "regOK env s \<Longrightarrow> removed env e {} Q s s"
  by (simp add: removed_def)

lemma meant_mapped: "meant env s True orig ns handler sel = meant env s True [] ns handler sel"
  by (simp add: meant_def [abs_def])

lemma parseType_prefix: "46 \<notin> set t \<Longrightarrow> parseType w = ([], ns) \<Longrightarrow> parseType (t @ w) = (t, ns)"
proof -
  assume t: "46 \<notin> set t" and w: "parseType w = ([], ns)"
  have "takeWhile (\<lambda>c. c \<noteq> 46) (t @ w) = t @ takeWhile (\<lambda>c. c \<noteq> 46) w"
    "dropWhile (\<lambda>c. c \<noteq> 46) (t @ w) = dropWhile (\<lambda>c. c \<noteq> 46) w"
    using t by (auto intro: takeWhile_append2 dropWhile_append2)
  with w show ?thesis by (simp add: parseType_def)
qed

lemma removeAll_removed:
  assumes "regOK env s" "parseType w = ([], ns)" "list_all (\<lambda>t. 46 \<notin> set t) ks"
  shows "removed env e (boundType sel ` set ks) (meant env s True [] ns handler sel) s
    (fold (\<lambda>t s'. dropEmpty e (removeType env e handler sel True (t @ w) s')) ks s)"
  using assms(1,3)
proof (induction ks arbitrary: s)
  case (Cons t ks)
  let ?s = "dropEmpty e (removeType env e handler sel True (t @ w) s)"
  let ?Q = "meant env s True [] ns handler sel"
  have "parseType (t @ w) = (t, ns)" by (rule parseType_prefix [OF _ assms(2)]) (use Cons.prems in simp)
  from removed_dropEmpty [OF removeType_removed [OF Cons.prems(1) this, of e sel True handler]]
  have one: "removed env e {boundType sel t} ?Q s ?s" by (simp only: meant_mapped [of env s t])
  then have "guids ?s = guids s" "regOK env ?s" by (simp_all add: removed_def)
  from Cons.IH [OF this(2)] Cons.prems(2) meant_cong [OF this(1), of env]
  have "removed env e (boundType sel ` set ks) ?Q ?s
      (fold (\<lambda>t s'. dropEmpty e (removeType env e handler sel True (t @ w) s')) ks ?s)" by simp
  from removed_trans [OF one this] show ?case by simp
qed (simp add: removed_none)

text \<open>A type that is looked up under another name because of the selector has no handlers that the selector means.\<close>

lemma keep_all: "(\<And>ho. ho \<in> set (hl_list hl) \<Longrightarrow> \<not> Q ho) \<Longrightarrow> wfHL hl \<Longrightarrow> hl_list hl \<noteq> [] \<Longrightarrow> keep Q (Some hl) = Some hl"
proof -
  assume no: "\<And>ho. ho \<in> set (hl_list hl) \<Longrightarrow> \<not> Q ho" and wf: "wfHL hl" "hl_list hl \<noteq> []"
  have "filter (\<lambda>ho. \<not> Q ho) (hl_list hl) = hl_list hl"
    "filter (\<lambda>ho. \<not> Q ho) (take (hl_delegates hl) (hl_list hl)) = take (hl_delegates hl) (hl_list hl)"
    using no by (auto simp: filter_id_conv dest: in_set_takeD)
  then have "cutHL Q hl = hl" using wf(1) by (simp add: cutHL_def wfHL_def)
  then show ?thesis using wf(2) by (simp add: keep_def)
qed

lemma other_selector:
  assumes "boundType sel t \<noteq> t" "boundType x t = t" "selTrue sel" "x = sel \<or> sel = Some (js ''**'') \<and> selTrue x"
  shows False
proof -
  have "selTrue x" using assms(3,4) by auto
  then have "boundType x t = boundType sel t" using assms(3) by (simp add: boundType_def)
  with assms(1,2) show False by simp
qed

lemma not_selTrue_bound: "boundType sel t \<noteq> t \<Longrightarrow> \<not> selTrue sel \<Longrightarrow> boundType x t \<noteq> t"
proof -
  assume b: "boundType sel t \<noteq> t" "\<not> selTrue sel"
  then obtain u where u: "bindType t = Some u" "u \<noteq> t" unfolding boundType_def by (auto split: option.splits)
  then have t: "t \<in> set (map fst enterTypes)" unfolding bindType_def by (auto dest: map_of_SomeD intro: rev_image_eqI)
  have "list_all (\<lambda>t. delegateType t = bindType t) (map fst enterTypes)" by code_simp
  then have "\<forall>t \<in> set (map fst enterTypes). delegateType t = bindType t" by (simp only: list_all_iff)
  then have "delegateType t = bindType t" by (rule bspec) (rule t)
  then have "boundType x t = u" using u by (simp add: boundType_def)
  with u show ?thesis by simp
qed

lemma removeWord_removed:
  assumes "regOK env s" "parseType w = (orig, ns)"
  shows "removed env e (if orig = [] then UNIV else {boundType sel orig}) (meant env s (orig = []) orig ns handler sel) s
    (removeWord env e handler sel w s)"
proof (cases "orig = []")
  case True
  let ?ks = "map fst (eventsOf s e)" and ?Q = "meant env s True [] ns handler sel"
  have key: "t \<in> set ?ks \<longleftrightarrow> hlAt s e t \<noteq> None" for t by (auto simp: hlAt_def map_of_eq_None_iff)
  have "list_all (\<lambda>t. 46 \<notin> set t) ?ks"
    unfolding list_all_iff using key regD(1) [OF assms(1)] by (auto simp: listOK_def)
  from removeAll_removed [OF assms(1) assms(2) [unfolded True] this, of e sel handler]
  have r: "removed env e (boundType sel ` set ?ks) ?Q s (removeWord env e handler sel w s)"
    using assms(2) True by (simp add: removeWord_def)
  have "keep ?Q (hlAt s e t) = hlAt s e t" if "t \<notin> boundType sel ` set ?ks" for t
  proof (cases "hlAt s e t")
    case (Some hl)
    then have "t \<in> set ?ks" using key by simp
    then have t: "boundType sel t \<noteq> t" using that by (metis image_eqI)
    have ok: "listOK env (guids s) t hl" "hl_list hl \<noteq> []" using regD(1,2) [OF assms(1) Some] by blast+
    have "\<not> ?Q ho" if "ho \<in> set (hl_list hl)" for ho
    proof -
      have own: "boundType (ho_selector ho) t = t"
        using ok(1) that boundType_twice by (auto simp: listOK_def hoOK_def list_all_iff)
      then have "selTrue sel" using not_selTrue_bound [OF t] by blast
      then show ?thesis using other_selector [OF t own] unfolding meant_def by blast
    qed
    then show ?thesis using keep_all [of hl ?Q] ok Some by (simp add: listOK_def)
  qed (simp add: keep_def)
  then have "(\<lambda>t. if t \<in> boundType sel ` set ?ks then keep ?Q (hlAt s e t) else hlAt s e t) = (\<lambda>t. keep ?Q (hlAt s e t))"
    by (auto simp: fun_eq_iff)
  with r True show ?thesis by (simp add: removed_def)
next
  case False
  with removeType_removed [OF assms, of e sel False handler] assms(2) show ?thesis by (simp add: removeWord_def)
qed

text \<open>A handler that is a function of the program, or has a number.\<close>

definition registered :: "'e registry \<Rightarrow> hfun option \<Rightarrow> bool" where
  "registered s handler \<longleftrightarrow> (\<forall>f. handler = Some f \<longrightarrow> base f = f \<or> guids s f \<noteq> None)"

lemma registered_cong: "guids s = guids s' \<Longrightarrow> registered s handler = registered s' handler"
  by (simp add: registered_def)

lemma meant_named:
  assumes "regOK env s" "hlAt s e t = Some hl" "ho \<in> set (hl_list hl)" "ho_namespace ho \<noteq> None"
    and "parseType w = (orig, ns)" "registered s handler"
  shows "(orig = [] \<or> t = boundType sel orig) \<and> meant env s (orig = []) orig ns handler sel ho \<longleftrightarrow>
    named env handler sel w (bindingOf e t ho)"
proof -
  have ho: "guids s (ho_handler ho) = Some (ho_guid ho)"
    using regD(1) [OF assms(1,2)] assms(3) by (auto simp: listOK_def hoOK_def list_all_iff)
  have "guids s f = Some (ho_guid ho) \<longleftrightarrow> base f = base (ho_handler ho)" if f: "handler = Some f" for f
  proof
    assume "guids s f = Some (ho_guid ho)"
    from numbersD(3) [OF regD(3) [OF assms(1)] this ho] show "base f = base (ho_handler ho)" .
  next
    assume eq: "base f = base (ho_handler ho)"
    have g: "guids s (base f) = Some (ho_guid ho)" unfolding eq by (rule numbersD(2) [OF regD(3) [OF assms(1)] ho])
    show "guids s f = Some (ho_guid ho)"
    proof (cases "guids s f")
      case None
      then have "base f = f" using assms(6) f by (simp add: registered_def)
      with g show ?thesis by simp
    next
      case (Some x)
      with numbersD(2) [OF regD(3) [OF assms(1)] Some] g show ?thesis by simp
    qed
  qed
  then show ?thesis using assms(4,5) unfolding meant_def named_def bindingOf_def by (cases handler) auto
qed

lemma userHandlers_keep:
  assumes "\<And>ho. ho \<in> set (hl_list hl) \<Longrightarrow> ho_namespace ho \<noteq> None \<Longrightarrow> Q ho \<longleftrightarrow> P (bindingOf e t ho)"
  shows "userHandlers e t (case keep Q (Some hl) of None \<Rightarrow> noHandlers | Some hl \<Rightarrow> hl) = filter (\<lambda>b. \<not> P b) (userHandlers e t hl)"
proof -
  have "filter (\<lambda>ho. ho_namespace ho \<noteq> None) (filter (\<lambda>ho. \<not> Q ho) (hl_list hl)) =
      filter (\<lambda>ho. \<not> P (bindingOf e t ho)) (filter (\<lambda>ho. ho_namespace ho \<noteq> None) (hl_list hl))"
    unfolding filter_filter using assms by (auto intro: filter_cong)
  moreover have "userHandlers e t (case keep Q (Some hl) of None \<Rightarrow> noHandlers | Some hl \<Rightarrow> hl) = userHandlers e t (cutHL Q hl)"
    by (auto simp: keep_def userHandlers_def noHandlers_def)
  ultimately show ?thesis by (simp add: userHandlers_def cutHL_def filter_map comp_def)
qed

lemma filtered_at:
  "filter (\<lambda>b. \<not> (b_elem b = e \<and> P b)) (delegatedAt e' t log) = delegatedAt e' t (filter (\<lambda>b. \<not> (b_elem b = e \<and> P b)) log)"
  "filter (\<lambda>b. \<not> (b_elem b = e \<and> P b)) (directAt e' t log) = directAt e' t (filter (\<lambda>b. \<not> (b_elem b = e \<and> P b)) log)"
  by (auto simp: delegatedAt_def directAt_def intro: filter_cong)

lemma removeWord_step:
  assumes "regOK env s" "holds s log" "registered s handler"
  shows "regOK env (removeWord env e handler sel w s) \<and> guids (removeWord env e handler sel w s) = guids s \<and>
    holds (removeWord env e handler sel w s) (filter (\<lambda>b. \<not> (b_elem b = e \<and> named env handler sel w b)) log)"
proof -
  obtain orig ns where w: "parseType w = (orig, ns)" by fastforce
  let ?s = "removeWord env e handler sel w s" and ?P = "\<lambda>b. b_elem b = e \<and> named env handler sel w b"
  let ?Q = "meant env s (orig = []) orig ns handler sel"
  have r: "hlAt ?s = (hlAt s)(e := (\<lambda>t. if t \<in> (if orig = [] then UNIV else {boundType sel orig}) then keep ?Q (hlAt s e t)
      else hlAt s e t))" and reg: "regOK env ?s" and gd: "guids ?s = guids s"
    using removeWord_removed [OF assms(1) w, of e sel handler] unfolding removed_def by blast+
  have "userHandlers e' t (handlersAt ?s e' t) = filter (\<lambda>b. \<not> ?P b) (userHandlers e' t (handlersAt s e' t))" for e' t
  proof (cases "e' = e")
    case False
    have "filter (\<lambda>b. \<not> ?P b) (userHandlers e' t hl) = userHandlers e' t hl" for hl
      using False by (auto simp: userHandlers_def bindingOf_def filter_id_conv)
    with False show ?thesis by (simp add: handlersAt_hlAt r)
  next
    case True
    show ?thesis
    proof (cases "hlAt s e t")
      case None
      with True show ?thesis by (simp add: handlersAt_hlAt r keep_def userHandlers_def noHandlers_def)
    next
      case (Some hl)
      note eq = meant_named [OF assms(1) Some _ _ w assms(3), where sel = sel]
      show ?thesis
      proof (cases "orig = [] \<or> t = boundType sel orig")
        case True
        then have "handlersAt ?s e t = (case keep ?Q (Some hl) of None \<Rightarrow> noHandlers | Some hl \<Rightarrow> hl)"
          using Some by (auto simp: handlersAt_hlAt r)
        moreover have "?Q ho \<longleftrightarrow> ?P (bindingOf e t ho)" if "ho \<in> set (hl_list hl)" "ho_namespace ho \<noteq> None" for ho
          using eq [OF that] True by (simp add: bindingOf_def)
        ultimately show ?thesis using userHandlers_keep [of hl ?Q ?P e t] Some \<open>e' = e\<close> by (simp add: handlersAt_hlAt)
      next
        case False
        then have "\<not> ?P b" if "b \<in> set (userHandlers e t hl)" for b
          using eq that by (auto simp: userHandlers_def)
        then have "filter (\<lambda>b. \<not> ?P b) (userHandlers e t hl) = userHandlers e t hl" by (simp add: filter_id_conv)
        with False Some \<open>e' = e\<close> show ?thesis by (simp add: handlersAt_hlAt r)
      qed
    qed
  qed
  with assms(2) have "holds ?s (filter (\<lambda>b. \<not> ?P b) log)" unfolding holds_def filtered_at [symmetric] by simp
  with reg gd show ?thesis by blast
qed

lemma removeWords_step:
  "regOK env s \<Longrightarrow> holds s log \<Longrightarrow> registered s handler \<Longrightarrow> regOK env (fold (removeWord env e handler sel) ws s) \<and>
    guids (fold (removeWord env e handler sel) ws s) = guids s \<and>
    holds (fold (removeWord env e handler sel) ws s)
      (filter (\<lambda>b. \<not> (b_elem b = e \<and> list_ex (\<lambda>w. named env handler sel w b) ws)) log)"
proof (induction ws arbitrary: s log)
  case (Cons w ws)
  let ?s = "removeWord env e handler sel w s"
  have step: "regOK env ?s" "guids ?s = guids s" "holds ?s (filter (\<lambda>b. \<not> (b_elem b = e \<and> named env handler sel w b)) log)"
    using removeWord_step [OF Cons.prems, of e sel w] by blast+
  have "filter (\<lambda>b. \<not> (b_elem b = e \<and> list_ex (\<lambda>w. named env handler sel w b) ws))
      (filter (\<lambda>b. \<not> (b_elem b = e \<and> named env handler sel w b)) log) =
    filter (\<lambda>b. \<not> (b_elem b = e \<and> list_ex (\<lambda>w. named env handler sel w b) (w # ws))) log"
    by (auto intro: filter_cong)
  with Cons.IH [OF step(1,3)] registered_cong [OF step(2), of handler] Cons.prems(3) step(2) show ?case by simp
qed simp

lemma eventRemove_step:
  assumes "regOK env s" "holds s log" "registered s handler"
  shows "regOK env (eventRemove env e types handler sel s) \<and> guids (eventRemove env e types handler sel s) = guids s \<and>
    holds (eventRemove env e types handler sel s)
      (filter (\<lambda>b. \<not> (b_elem b = e \<and> list_ex (\<lambda>w. named env handler sel w b) (typeList types))) log)"
proof (cases "tables s e = None")
  case True
  then have "userHandlers e t (handlersAt s e t) = []" for t
    by (simp add: handlersAt_def eventsOf_def userHandlers_def noHandlers_def)
  then have "delegatedAt e t log = []" "directAt e t log = []" for t using assms(2) unfolding holds_def by (metis append_is_Nil_conv)+
  then have "b \<in> set log \<Longrightarrow> b_elem b \<noteq> e" for b unfolding delegatedAt_def directAt_def filter_empty_conv by blast
  then have "filter (\<lambda>b. \<not> (b_elem b = e \<and> list_ex (\<lambda>w. named env handler sel w b) (typeList types))) log = log"
    by (auto simp: filter_id_conv)
  with True assms show ?thesis by (simp add: eventRemove_def)
next
  case False
  have "list_ex P (rev xs) = list_ex P xs" for P and xs :: "jstring list" by (auto simp: list_ex_iff)
  with removeWords_step [OF assms, of e sel "rev (typeList types)"]
  have "regOK env (fold (removeWord env e handler sel) (rev (typeList types)) s)"
    "guids (fold (removeWord env e handler sel) (rev (typeList types)) s) = guids s"
    "holds (fold (removeWord env e handler sel) (rev (typeList types)) s)
      (filter (\<lambda>b. \<not> (b_elem b = e \<and> list_ex (\<lambda>w. named env handler sel w b) (typeList types))) log)" by simp_all
  moreover have "eventRemove env e types handler sel s =
      dropEmpty e (fold (removeWord env e handler sel) (rev (typeList types)) s)" using False by (auto simp: eventRemove_def)
  moreover have "guids (dropEmpty e x) = guids x" for x :: "'a registry" by (simp add: dropEmpty_def)
  ultimately show ?thesis by (simp only: regOK_dropEmpty holds_cong [OF hlAt_dropEmpty])
qed

lemma unbind_step:
  "regOK env s \<Longrightarrow> holds s log \<Longrightarrow> registered s handler \<Longrightarrow> regOK env (unbindFrom env es types handler sel s) \<and>
    holds (unbindFrom env es types handler sel s) (specStep env (Unbind es types handler sel) log)"
proof (induction es arbitrary: s log)
  case Nil
  then show ?case by (simp add: unbindFrom_def)
next
  case (Cons e es)
  let ?s = "eventRemove env e types handler sel s"
  let ?log = "filter (\<lambda>b. \<not> (b_elem b = e \<and> list_ex (\<lambda>w. named env handler sel w b) (typeList types))) log"
  have "regOK env ?s" "holds ?s ?log" "guids ?s = guids s" using eventRemove_step [OF Cons.prems] by blast+
  from Cons.IH [OF this(1,2)] registered_cong [OF this(3), of handler] Cons.prems(3) have "regOK env (unbindFrom env es types handler sel ?s) \<and>
    holds (unbindFrom env es types handler sel ?s) (specStep env (Unbind es types handler sel) ?log)" by blast
  moreover have "specStep env (Unbind es types handler sel) ?log = specStep env (Unbind (e # es) types handler sel) log"
    by (auto intro: filter_cong)
  moreover have "unbindFrom env (e # es) types handler sel s = unbindFrom env es types handler sel ?s"
    by (simp add: unbindFrom_def)
  ultimately show ?case by (simp only:)
qed

section \<open>Properties\<close>

text \<open>The operations on functions of the program.\<close>

fun ownOp :: "'e ev_op \<Rightarrow> bool" where
  "ownOp (Bind es types f data sel isOne) \<longleftrightarrow> base f = f \<and> (\<forall>n t. f \<noteq> Controller n t)"
| "ownOp (Unbind es types handler sel) \<longleftrightarrow> (\<forall>f. handler = Some f \<longrightarrow> base f = f)"

definition regStands :: "'e evenv \<Rightarrow> 'e registry \<Rightarrow> 'e binding list \<Rightarrow> bool" where
  "regStands env s log \<longleftrightarrow> regOK env s \<and> holds s log"

lemma regOK_empty: "regOK env emptyRegistry"
  by (rule regI) (simp_all add: emptyRegistry_def hlAt_def eventsOf_def numbersOK_def)

lemma holds_empty: "holds emptyRegistry []"
  by (simp add: holds_def handlersAt_def eventsOf_def emptyRegistry_def userHandlers_def noHandlers_def delegatedAt_def directAt_def)

text \<open>Operations that are not on functions of the program are left out by both sides.\<close>

definition ownStep :: "('e ev_op \<Rightarrow> 's \<Rightarrow> 's) \<Rightarrow> 'e ev_op \<Rightarrow> 's \<Rightarrow> 's" where
  "ownStep step op s = (if ownOp op then step op s else s)"

interpretation reg: event_simulation "ownStep (regStep env)" "ownStep (specStep env)" "regStands env"
  for env :: "'e evenv"
proof
  fix s log and op :: "'e ev_op"
  assume "regStands env s log"
  then show "regStands env (ownStep (regStep env) op s) (ownStep (specStep env) op log)"
    unfolding regStands_def ownStep_def
  proof (cases op)
    case (Bind es types f data sel isOne)
    with bind_step [of env s log f es types data sel isOne] \<open>regStands env s log\<close>
    show "regOK env (if ownOp op then regStep env op s else s) \<and>
        holds (if ownOp op then regStep env op s else s) (if ownOp op then specStep env op log else log)"
      by (simp add: regStands_def del: regStep.simps specStep.simps)
  next
    case (Unbind es types handler sel)
    with unbind_step [of env s log handler es types sel] \<open>regStands env s log\<close>
    show "regOK env (if ownOp op then regStep env op s else s) \<and>
        holds (if ownOp op then regStep env op s else s) (if ownOp op then specStep env op log else log)"
      by (auto simp: regStands_def registered_def simp del: specStep.simps)
  qed
qed

lemma own_steps: "list_all ownOp ops \<Longrightarrow> fold (ownStep step) ops s = fold step ops s"
  by (induction ops arbitrary: s) (simp_all add: ownStep_def)

lemma registry_reached:
  assumes "list_all ownOp ops"
  shows "regStands env (fold (regStep env) ops emptyRegistry) (fold (specStep env) ops [])"
proof -
  have "regStands env emptyRegistry []" by (simp add: regStands_def regOK_empty holds_empty)
  from reg.sim_run [OF this, of ops] assms show ?thesis by (simp add: own_steps)
qed

text \<open>
  C31. The registry of handlers implements a list of bindings: after every sequence of bindings and removals (\<open>on\<close>, \<open>one\<close> and \<open>off\<close> once their
  arguments are sorted out) with functions of the program, the table of each element and type holds the delegated bindings and then the direct ones, each in the
  order in which they were made, without those that an \<open>off\<close> named; and the browser listens exactly where there are handlers.
\<close>

theorem registry_refines:
  assumes "list_all ownOp ops"
  shows "holds (fold (regStep env) ops emptyRegistry) (fold (specStep env) ops []) \<and>
    listensOK env (fold (regStep env) ops emptyRegistry)"
  using registry_reached [OF assms, of env] by (simp add: regStands_def regOK_def)

text \<open>A page of a browser without \<open>focusin\<close>: a document (0), elements, and no invalid selectors.\<close>

definition evPage :: "nat evenv" where
  "evPage = \<lparr>nodeKind = (\<lambda>e. Some (if e = 0 then 9 else 1)), listens = (\<lambda>_. True), checkable = (\<lambda>_. False), docOf = (\<lambda>_. 0),
     hasFocusin = False, selectorOK = (\<lambda>_. True), needsCtx = (\<lambda>_. False), oddTest = (\<lambda>_ _. False)\<rparr>"

definition sampleOps :: "nat ev_op list" where
  "sampleOps = [Bind [1, 2] (js ''click.a keyup.b.a'') (User 7) Undef None False, Bind [1] (js ''click'') (User 8) Undef (Some (js ''li'')) True,
     Unbind [1] (js ''.a'') (Some (User 7)) None]"

theorem registry_refines_witness:
  "holds (fold (regStep evPage) sampleOps emptyRegistry) (fold (specStep evPage) sampleOps []) \<and>
   listensOK evPage (fold (regStep evPage) sampleOps emptyRegistry)"
  by (rule registry_refines) (simp add: sampleOps_def)

text \<open>
  A delegated handler for \<open>focus\<close> is kept in the table of \<open>focusin\<close>, where \<open>off("focus")\<close> without a selector does not look: it
  stays.
\<close>

theorem off_keeps_delegated_focus:
  "let s = regStep evPage (Bind [1] (js ''focus'') (User 7) Undef (Some (js ''a'')) False) emptyRegistry;
       s' = regStep evPage (Unbind [1] (js ''focus'') None None) s
   in map ho_origType (hl_list (handlersAt s' 1 (js ''focusin''))) = [js ''focus'']"
  by code_simp

text \<open>
  The counter of the document for \<open>focusin\<close> is not decreased when a delegated handler for \<open>focus\<close> is removed: \<open>remove\<close> takes the
  teardown of the type as it was given, \<open>add\<close> the setup of the type it is mapped to. The document goes on capturing.
\<close>

theorem focus_capture_leaks:
  "let s = regStep evPage (Bind [1] (js ''focus'') (User 7) Undef (Some (js ''a'')) False) emptyRegistry;
       s' = regStep evPage (Unbind [1] (js ''focus'') (Some (User 7)) (Some (js ''a''))) s
   in tables s' 1 = None \<and> attaches s' 0 (js ''focusin'') = 1 \<and> capturing s' 0 (js ''focus'')"
  by code_simp

end
