(* ===== verification/JQuery_Dispatch.thy ===== *)
theory JQuery_Dispatch
  imports JQuery_Registry
begin

text \<open>
  Events of \<^verbatim>\<open>jquery.js\<close>: the event object, the handlers that an element has for an event (\<open>jQuery.event.handlers\<close>), their calls
  (\<open>jQuery.event.dispatch\<close>), and events that the program fires itself (\<open>jQuery.event.trigger\<close>). The lemmas show which handlers are
  called and in which order, whatever they do to the registry meanwhile.
\<close>

section \<open>Event objects\<close>

text \<open>What a handler returns; a value other than \<open>false\<close> and \<open>undefined\<close> is a number.\<close>

datatype hret = RUndef | RFalse | RVal nat

record 'e jqEvent =
  ev_type :: jstring
  ev_target :: "'e option"
  ev_button :: nat
  ev_related :: "'e option"
  ev_namespace :: "jstring option"
  ev_names :: "jstring list option"
  ev_isTrigger :: nat
  ev_result :: hret
  ev_current :: "'e option"
  ev_delegate :: "'e option"
  ev_handleObj :: "handleObj option"
  ev_data :: jarg
  ev_prevented :: bool
  ev_stopped :: bool
  ev_stoppedNow :: bool

text \<open>\<open>new jQuery.Event(type)\<close>; \<open>ev_names\<close> are the names in \<open>rnamespace\<close>.\<close>

definition newEvent :: "jstring \<Rightarrow> 'e jqEvent" where
  "newEvent type = \<lparr>ev_type = type, ev_target = None, ev_button = 0, ev_related = None, ev_namespace = None, ev_names = None,
     ev_isTrigger = 0, ev_result = RUndef, ev_current = None, ev_delegate = None, ev_handleObj = None, ev_data = Undef,
     ev_prevented = False, ev_stopped = False, ev_stoppedNow = False\<rparr>"

definition preventDefault :: "'e jqEvent \<Rightarrow> 'e jqEvent" where
  "preventDefault ev = ev\<lparr>ev_prevented := True\<rparr>"

definition stopPropagation :: "'e jqEvent \<Rightarrow> 'e jqEvent" where
  "stopPropagation ev = ev\<lparr>ev_stopped := True\<rparr>"

definition stopImmediatePropagation :: "'e jqEvent \<Rightarrow> 'e jqEvent" where
  "stopImmediatePropagation ev = stopPropagation (ev\<lparr>ev_stoppedNow := True\<rparr>)"

text \<open>An event of the browser, and the object made of it; a text is not a target.\<close>

record 'e native_event =
  nv_type :: jstring
  nv_target :: "'e option"
  nv_related :: "'e option"
  nv_button :: nat
  nv_prevented :: bool

text \<open>
  The page as far as events ask for it: the ancestors of a node from its parent on, which nodes are disabled or windows, the window
  of a document, the selector engine (does an element match a selector below a context), containment, the handlers in
  attributes (\<open>onclick\<close>), whether a node has a method with the name of a type, links, and inputs in the midst of a click.
\<close>

record 'e pageTree =
  chain :: "'e \<Rightarrow> 'e list"
  disabledE :: "'e \<Rightarrow> bool"
  isWin :: "'e \<Rightarrow> bool"
  windowOf :: "'e \<Rightarrow> 'e"
  finds :: "jstring \<Rightarrow> 'e \<Rightarrow> 'e \<Rightarrow> bool"
  findsIn :: "jstring \<Rightarrow> 'e \<Rightarrow> 'e \<Rightarrow> bool"
  containsE :: "'e \<Rightarrow> 'e \<Rightarrow> bool"
  inline :: "jstring \<Rightarrow> 'e \<Rightarrow> hfun option"
  hasMethod :: "jstring \<Rightarrow> 'e \<Rightarrow> bool"
  isLink :: "'e \<Rightarrow> bool"
  busyClick :: "'e \<Rightarrow> bool"

definition fixEvent :: "'e evenv \<Rightarrow> 'e pageTree \<Rightarrow> 'e native_event \<Rightarrow> 'e jqEvent" where
  "fixEvent env tr nv =
     (newEvent (nv_type nv))
       \<lparr>ev_target :=
          (case nv_target nv of
             None \<Rightarrow> None
           | Some t \<Rightarrow> if nodeKind env t = Some 3 then (case chain tr t of [] \<Rightarrow> None | p # _ \<Rightarrow> Some p) else Some t),
        ev_related := nv_related nv, ev_button := nv_button nv, ev_prevented := nv_prevented nv\<rparr>"

section \<open>The handlers of an element for an event\<close>

text \<open>The loop over the delegated handlers for one element, with the answers already known by selector.\<close>

fun matchLoop :: "'e pageTree \<Rightarrow> 'e \<Rightarrow> 'e \<Rightarrow> (jstring \<times> bool) list \<Rightarrow> handleObj list \<Rightarrow> handleObj list" where
  "matchLoop tr this cur seen [] = []"
| "matchLoop tr this cur seen (ho # hos) =
     (let sel = (case ho_selector ho of None \<Rightarrow> [] | Some x \<Rightarrow> x) @ [32];
          seen' = (case map_of seen sel of
                      Some b \<Rightarrow> seen
                    | None \<Rightarrow> (sel, if ho_needsContext ho then findsIn tr sel this cur else finds tr sel this cur) # seen)
      in if map_of seen' sel = Some True then ho # matchLoop tr this cur seen' hos else matchLoop tr this cur seen' hos)"

definition handlersFor :: "'e evenv \<Rightarrow> 'e pageTree \<Rightarrow> 'e \<Rightarrow> 'e jqEvent \<Rightarrow> handler_list \<Rightarrow> ('e \<times> handleObj list) list" where
  "handlersFor env tr this ev hl =
     (let click = (ev_type ev = js ''click'');
          below = (case ev_target ev of
              None \<Rightarrow> []
            | Some t \<Rightarrow>
                if hl_delegates hl > 0 \<and> nodeKind env t \<notin> {None, Some 0} \<and> \<not> (click \<and> ev_button ev \<ge> 1)
                then concat (map (\<lambda>cur.
                       if nodeKind env cur = Some 1 \<and> \<not> (click \<and> disabledE tr cur)
                       then (case matchLoop tr this cur [] (take (hl_delegates hl) (hl_list hl)) of
                               [] \<Rightarrow> []
                             | m # ms \<Rightarrow> [(cur, m # ms)])
                       else []) (takeWhile (\<lambda>cur. cur \<noteq> this) (t # chain tr t)))
                else [])
      in below @ (if hl_delegates hl < length (hl_list hl) then [(this, drop (hl_delegates hl) (hl_list hl))] else []))"

section \<open>Calls\<close>

text \<open>
  The state: the registry, the type that \<open>trigger\<close> is just firing (\<open>jQuery.event.triggered\<close>), and the rest. A function of
  the program is any function of the element, the event and the state; it may change all of them.
\<close>

record ('e, 'w) evWorld =
  w_reg :: "'e registry"
  w_triggered :: "jstring option"
  w_rest :: 'w

type_synonym ('e, 'w) handlerRuns = "hfun \<Rightarrow> 'e \<Rightarrow> 'e jqEvent \<Rightarrow> ('e, 'w) evWorld \<Rightarrow> hret \<times> 'e jqEvent \<times> ('e, 'w) evWorld"

fun callFun :: "'e evenv \<Rightarrow> ('e, 'w) handlerRuns \<Rightarrow> hfun \<Rightarrow> ('e \<Rightarrow> 'e jqEvent \<Rightarrow> ('e, 'w) evWorld \<Rightarrow> hret \<times> 'e jqEvent \<times> ('e, 'w) evWorld)" where
  "callFun env run (One f) this ev W =
     (let W' = (case (ev_delegate ev, ev_handleObj ev) of
                  (Some d, Some ho) \<Rightarrow> W\<lparr>w_reg := offEvent env d ho (w_reg W)\<rparr>
                | _ \<Rightarrow> W)
      in callFun env run f this ev W')"
| "callFun env run ReturnTrue this ev W = (RVal 1, ev, W)"
| "callFun env run ReturnFalse this ev W = (RFalse, ev, W)"
| "callFun env run (User n) this ev W = run (User n) this ev W"
| "callFun env run (Controller n t) this ev W = run (Controller n t) this ev W"

text \<open>The handlers of \<open>mouseenter\<close> and its relatives are not called when the pointer comes from or goes to a node inside.\<close>

definition callHandler ::
  "'e evenv \<Rightarrow> 'e pageTree \<Rightarrow> ('e, 'w) handlerRuns \<Rightarrow> handleObj \<Rightarrow> 'e \<Rightarrow> 'e jqEvent \<Rightarrow> ('e, 'w) evWorld \<Rightarrow> hret \<times> 'e jqEvent \<times> ('e, 'w) evWorld" where
  "callHandler env tr run ho this ev W =
     (case bindType (ho_origType ho) of
        None \<Rightarrow> callFun env run (ho_handler ho) this ev W
      | Some fix \<Rightarrow>
          if (case ev_related ev of None \<Rightarrow> True | Some r \<Rightarrow> r \<noteq> this \<and> \<not> containsE tr this r)
          then (let (ret, ev', W') = callFun env run (ho_handler ho) this (ev\<lparr>ev_type := ho_origType ho\<rparr>) W
                in (ret, ev'\<lparr>ev_type := fix\<rparr>, W'))
          else (RUndef, ev, W))"

definition nsMeets :: "'e evenv \<Rightarrow> jstring list option \<Rightarrow> handleObj \<Rightarrow> bool" where
  "nsMeets env names ho \<longleftrightarrow>
     (case names of
        None \<Rightarrow> True
      | Some ns \<Rightarrow> (case ho_namespace ho of None \<Rightarrow> True | Some n \<Rightarrow> nsTest (oddTest env) ns n))"

definition noteResult :: "hret \<Rightarrow> 'e jqEvent \<Rightarrow> 'e jqEvent" where
  "noteResult r ev =
     (case r of
        RUndef \<Rightarrow> ev
      | RFalse \<Rightarrow> stopPropagation (preventDefault (ev\<lparr>ev_result := RFalse\<rparr>))
      | RVal n \<Rightarrow> ev\<lparr>ev_result := RVal n\<rparr>)"

fun runList ::
  "'e evenv \<Rightarrow> 'e pageTree \<Rightarrow> ('e, 'w) handlerRuns \<Rightarrow> 'e \<Rightarrow> handleObj list \<Rightarrow> 'e jqEvent \<Rightarrow> ('e, 'w) evWorld \<Rightarrow> 'e jqEvent \<times> ('e, 'w) evWorld" where
  "runList env tr run cur [] ev W = (ev, W)"
| "runList env tr run cur (ho # hos) ev W =
     (if ev_stoppedNow ev then (ev, W)
      else if nsMeets env (ev_names ev) ho
      then (let (r, ev', W') = callHandler env tr run ho cur (ev\<lparr>ev_handleObj := Some ho, ev_data := ho_data ho\<rparr>) W
            in runList env tr run cur hos (noteResult r ev') W')
      else runList env tr run cur hos ev W)"

fun runQueue ::
  "'e evenv \<Rightarrow> 'e pageTree \<Rightarrow> ('e, 'w) handlerRuns \<Rightarrow> ('e \<times> handleObj list) list \<Rightarrow> 'e jqEvent \<Rightarrow> ('e, 'w) evWorld \<Rightarrow> 'e jqEvent \<times> ('e, 'w) evWorld" where
  "runQueue env tr run [] ev W = (ev, W)"
| "runQueue env tr run ((cur, hos) # q) ev W =
     (if ev_stopped ev then (ev, W)
      else let (ev', W') = runList env tr run cur hos (ev\<lparr>ev_current := Some cur\<rparr>) W in runQueue env tr run q ev' W')"

text \<open>\<open>jQuery.event.dispatch\<close> on an event object (no type has a hook before the dispatch).\<close>

definition dispatch ::
  "'e evenv \<Rightarrow> 'e pageTree \<Rightarrow> ('e, 'w) handlerRuns \<Rightarrow> 'e \<Rightarrow> 'e jqEvent \<Rightarrow> ('e, 'w) evWorld \<Rightarrow> 'e jqEvent \<times> ('e, 'w) evWorld" where
  "dispatch env tr run this ev W =
     (let ev1 = ev\<lparr>ev_delegate := Some this\<rparr>
      in runQueue env tr run (handlersFor env tr this ev1 (handlersAt (w_reg W) this (ev_type ev))) ev1 W)"

text \<open>The listener that the browser calls (\<open>elemData.handle\<close>), which leaves out the second event of a \<open>trigger\<close>.\<close>

definition handleNative ::
  "'e evenv \<Rightarrow> 'e pageTree \<Rightarrow> ('e, 'w) handlerRuns \<Rightarrow> 'e \<Rightarrow> 'e jqEvent \<Rightarrow> ('e, 'w) evWorld \<Rightarrow> 'e jqEvent \<times> ('e, 'w) evWorld" where
  "handleNative env tr run this ev W =
     (if w_triggered W = Some (ev_type ev) then (ev, W) else dispatch env tr run this ev W)"

section \<open>Firing events\<close>

definition focusMorph :: "jstring \<Rightarrow> bool" where
  "focusMorph s \<longleftrightarrow> s = js ''focusinfocus'' \<or> s = js ''focusoutblur''"

text \<open>The type and the names of an event to fire: a text, or an event object.\<close>

datatype 'e fired = FireType jstring | FireEvent "'e jqEvent"

definition firedType :: "'e fired \<Rightarrow> jstring" where
  "firedType x = (case x of FireType t \<Rightarrow> t | FireEvent ev \<Rightarrow> ev_type ev)"

definition firedNames :: "'e fired \<Rightarrow> jstring list" where
  "firedNames x =
     (let t = firedType x
      in if 46 \<in> set t then sort (tl (splitOn 46 t))
         else case x of
             FireEvent ev \<Rightarrow> (case ev_namespace ev of None \<Rightarrow> [] | Some n \<Rightarrow> splitOn 46 n)
           | _ \<Rightarrow> [])"

definition baseType :: "'e fired \<Rightarrow> jstring" where
  "baseType x = hd (splitOn 46 (firedType x))"

definition firedEvent :: "'e \<Rightarrow> bool \<Rightarrow> 'e fired \<Rightarrow> 'e jqEvent" where
  "firedEvent elem onlyHandlers x =
     (let ev = (case x of FireType t \<Rightarrow> newEvent (baseType x) | FireEvent ev \<Rightarrow> ev); n = join [46] (firedNames x)
      in ev\<lparr>ev_isTrigger := (if onlyHandlers then 2 else 3), ev_namespace := Some n,
            ev_names := (if n = [] then None else Some (firedNames x)), ev_result := RUndef,
            ev_target := (case ev_target ev of None \<Rightarrow> Some elem | Some t \<Rightarrow> Some t)\<rparr>)"

text \<open>The hook of \<open>click\<close>, \<open>focus\<close> and \<open>blur\<close> before an event is fired: \<open>leverageNative\<close> with two arguments.\<close>

definition triggerHook :: "'e evenv \<Rightarrow> 'e \<Rightarrow> jstring \<Rightarrow> 'e registry \<Rightarrow> 'e registry" where
  "triggerHook env elem type s =
     (if (setupOf env type = ClickSetup \<and> checkable env elem \<or> setupOf env type = FocusSetup) \<and> \<not> leveraged s elem type
      then (case eventAdd env elem type (FnArg ReturnTrue) Undef None s of Inl e \<Rightarrow> s | Inr s' \<Rightarrow> s')
      else s)"

definition bubbleType :: "jstring \<Rightarrow> jstring" where
  "bubbleType type = (case delegateType type of None \<Rightarrow> type | Some t \<Rightarrow> t)"

text \<open>The nodes on the way, each with the type that is fired there.\<close>

definition eventPath :: "'e evenv \<Rightarrow> 'e pageTree \<Rightarrow> 'e \<Rightarrow> jstring \<Rightarrow> bool \<Rightarrow> ('e \<times> jstring) list" where
  "eventPath env tr elem type onlyHandlers =
     (let first = (elem, case bindType type of None \<Rightarrow> type | Some t \<Rightarrow> t);
          up = (if focusMorph (bubbleType type @ type) then elem # chain tr elem else chain tr elem);
          top = (if up = [] then elem else last up)
      in if onlyHandlers \<or> type = js ''load'' \<or> isWin tr elem then [first]
         else first # map (\<lambda>x. (x, bubbleType type)) (up @ (if top = docOf env elem then [windowOf tr top] else [])))"

fun firePath ::
  "'e evenv \<Rightarrow> 'e pageTree \<Rightarrow> ('e, 'w) handlerRuns \<Rightarrow> jstring \<Rightarrow> ('e \<times> jstring) list \<Rightarrow> 'e jqEvent \<Rightarrow> ('e, 'w) evWorld \<Rightarrow> 'e jqEvent \<times> ('e, 'w) evWorld" where
  "firePath env tr run type [] ev W = (ev, W)"
| "firePath env tr run type ((cur, t) # path) ev W =
     (if ev_stopped ev then (ev, W)
      else
        let ev1 = ev\<lparr>ev_type := t\<rparr>;
            (ev2, W2) = (if hlAt (w_reg W) cur t \<noteq> None \<and> hasHandle (w_reg W) cur
                         then handleNative env tr run cur ev1 W else (ev1, W));
            (ev3, W3) = (case (if 58 \<in> set type then None else inline tr type cur) of
                None \<Rightarrow> (ev2, W2)
              | Some f \<Rightarrow>
                  if acceptData (nodeKind env) cur
                  then (let (r, ev', W') = run f cur ev2 W2; ev'' = ev'\<lparr>ev_result := r\<rparr>
                        in (if r = RFalse then preventDefault ev'' else ev'', W'))
                  else (ev2, W2))
        in firePath env tr run type path ev3 W3)"

text \<open>Whether the default action is left to the hook of the type (\<open>special._default\<close>).\<close>

definition ownDefault :: "'e evenv \<Rightarrow> 'e pageTree \<Rightarrow> 'e jqEvent \<Rightarrow> jstring \<Rightarrow> bool" where
  "ownDefault env tr ev type =
     (if setupOf env type = ClickSetup
      then (case ev_target ev of None \<Rightarrow> False | Some t \<Rightarrow> checkable env t \<and> busyClick tr t \<or> isLink tr t)
      else setupOf env type = FocusSetup)"

text \<open>
  \<open>jQuery.event.trigger\<close>. The call of the method of the node is an argument: it stands for \<open>elem[type]()\<close> with what surrounds it, the
  inline handler that is taken off meanwhile and, for a stopped event, the listener that stops its copy.
\<close>

definition trigger ::
  "'e evenv \<Rightarrow> 'e pageTree \<Rightarrow> ('e, 'w) handlerRuns \<Rightarrow> (jstring \<Rightarrow> 'e \<Rightarrow> ('e, 'w) evWorld \<Rightarrow> ('e, 'w) evWorld) \<Rightarrow> 'e fired \<Rightarrow> 'e \<Rightarrow> bool \<Rightarrow>
     ('e, 'w) evWorld \<Rightarrow> hret \<times> ('e, 'w) evWorld" where
  "trigger env tr run method x elem onlyHandlers W =
     (if nodeKind env elem = Some 3 \<or> nodeKind env elem = Some 8 then (RUndef, W)
      else if (case w_triggered W of None \<Rightarrow> False | Some t \<Rightarrow> focusMorph (firedType x @ t)) then (RUndef, W)
      else
        let type = baseType x;
            ev = firedEvent elem onlyHandlers x;
            W1 = (if onlyHandlers then W else W\<lparr>w_reg := triggerHook env elem type (w_reg W)\<rparr>);
            (ev2, W2) = firePath env tr run type (eventPath env tr elem type onlyHandlers) ev W1;
            ev3 = ev2\<lparr>ev_type := type\<rparr>;
            W3 = (if \<not> onlyHandlers \<and> \<not> ev_prevented ev3 \<and> \<not> ownDefault env tr ev3 type \<and> acceptData (nodeKind env) elem \<and>
                     58 \<notin> set type \<and> hasMethod tr type elem \<and> \<not> isWin tr elem
                  then (method type elem (W2\<lparr>w_triggered := Some type\<rparr>))\<lparr>w_triggered := None\<rparr>
                  else W2)
        in (ev_result ev3, W3))"

section \<open>What is called\<close>

text \<open>A delegated handler is meant when the selector engine finds the element below the node the handler is bound to.\<close>

definition meets :: "'e pageTree \<Rightarrow> 'e \<Rightarrow> 'e \<Rightarrow> handleObj \<Rightarrow> bool" where
  "meets tr this cur ho \<longleftrightarrow>
     (let sel = (case ho_selector ho of None \<Rightarrow> [] | Some x \<Rightarrow> x) @ [32]
      in if ho_needsContext ho then findsIn tr sel this cur else finds tr sel this cur)"

text \<open>The elements from the target up to the node, without the node itself, that take part.\<close>

definition takingPart :: "'e evenv \<Rightarrow> 'e pageTree \<Rightarrow> 'e \<Rightarrow> 'e jqEvent \<Rightarrow> 'e list" where
  "takingPart env tr this ev =
     (case ev_target ev of
        None \<Rightarrow> []
      | Some t \<Rightarrow>
          if nodeKind env t \<in> {None, Some 0} \<or> ev_type ev = js ''click'' \<and> ev_button ev \<ge> 1 then []
          else filter (\<lambda>cur. nodeKind env cur = Some 1 \<and> \<not> (ev_type ev = js ''click'' \<and> disabledE tr cur))
            (takeWhile (\<lambda>cur. cur \<noteq> this) (t # chain tr t)))"

definition queueSpec :: "'e evenv \<Rightarrow> 'e pageTree \<Rightarrow> 'e \<Rightarrow> 'e jqEvent \<Rightarrow> handler_list \<Rightarrow> ('e \<times> handleObj list) list" where
  "queueSpec env tr this ev hl =
     filter (\<lambda>(cur, hos). hos \<noteq> [])
       (map (\<lambda>cur. (cur, filter (\<lambda>ho. selTrue (ho_selector ho) \<and> meets tr this cur ho) (hl_list hl))) (takingPart env tr this ev) @
        [(this, filter (\<lambda>ho. \<not> selTrue (ho_selector ho)) (hl_list hl))])"

fun takeUpTo :: "('a \<Rightarrow> bool) \<Rightarrow> 'a list \<Rightarrow> 'a list" where
  "takeUpTo P [] = []"
| "takeUpTo P (x # xs) = (if P x then [x] else x # takeUpTo P xs)"

text \<open>What a handler wants: to go on, to stop after its element, or to stop at once.\<close>

datatype verdict = Go | Stop | Now

text \<open>
  The calls for a queue: of each element the handlers with the right names, up to the first that stops at once; of the
  elements, up to the first where a called handler stops the event.
\<close>

definition groupCalls :: "'e evenv \<Rightarrow> jstring list option \<Rightarrow> (handleObj \<Rightarrow> verdict) \<Rightarrow> handleObj list \<Rightarrow> handleObj list" where
  "groupCalls env names v hos = takeUpTo (\<lambda>ho. v ho = Now) (filter (nsMeets env names) hos)"

definition queueCalls ::
  "'e evenv \<Rightarrow> jstring list option \<Rightarrow> (handleObj \<Rightarrow> verdict) \<Rightarrow> ('e \<times> handleObj list) list \<Rightarrow> ('e \<times> handleObj) list" where
  "queueCalls env names v q =
     concat (map (\<lambda>(cur, hos). map (Pair cur) (groupCalls env names v hos))
       (takeUpTo (\<lambda>(cur, hos). list_ex (\<lambda>ho. v ho \<noteq> Go) (groupCalls env names v hos)) q))"

text \<open>Functions of the program that do what their verdicts say, and may do anything to the state.\<close>

definition obeys :: "(handleObj \<Rightarrow> verdict) \<Rightarrow> ('e, 'w) handlerRuns \<Rightarrow> bool" where
  "obeys v run \<longleftrightarrow>
     (\<forall>this ev W ho r ev' W'. ev_handleObj ev = Some ho \<longrightarrow> run (base (ho_handler ho)) this ev W = (r, ev', W') \<longrightarrow>
        ev_names ev' = ev_names ev \<and>
        (case v ho of
           Go \<Rightarrow> r \<noteq> RFalse \<and> ev_stopped ev' = ev_stopped ev \<and> ev_stoppedNow ev' = ev_stoppedNow ev
         | Stop \<Rightarrow> (r = RFalse \<or> ev_stopped ev') \<and> ev_stoppedNow ev' = ev_stoppedNow ev
         | Now \<Rightarrow> ev_stopped ev' \<and> ev_stoppedNow ev'))"

text \<open>The same functions, with a list of the calls.\<close>

definition forget :: "('e, 'w \<times> 'l) evWorld \<Rightarrow> ('e, 'w) evWorld" where
  "forget W = \<lparr>w_reg = w_reg W, w_triggered = w_triggered W, w_rest = fst (w_rest W)\<rparr>"

definition logged :: "('e, 'w) handlerRuns \<Rightarrow> ('e, 'w \<times> ('e \<times> handleObj) list) handlerRuns" where
  "logged run f this ev W =
     (let (r, ev', W') = run f this ev (forget W)
      in (r, ev', \<lparr>w_reg = w_reg W', w_triggered = w_triggered W',
        w_rest = (w_rest W', snd (w_rest W) @ (case ev_handleObj ev of None \<Rightarrow> [] | Some ho \<Rightarrow> [(this, ho)]))\<rparr>))"

abbreviation calls :: "('e, 'w \<times> ('e \<times> handleObj) list) evWorld \<Rightarrow> ('e \<times> handleObj) list" where
  "calls W \<equiv> snd (w_rest W)"

fun isUser :: "hfun \<Rightarrow> bool" where
  "isUser (User n) = True"
| "isUser _ = False"

definition plainHandler :: "handleObj \<Rightarrow> bool" where
  "plainHandler ho \<longleftrightarrow> isUser (base (ho_handler ho)) \<and> bindType (ho_origType ho) = None"

section \<open>Lemmas\<close>

lemma matchLoop_filter:
  assumes "\<And>x. x \<in> set hos \<Longrightarrow> selTrue (ho_selector x) \<and> ho_needsContext x = N (ho_selector x)"
    and "\<And>x b. x \<in> set hos \<Longrightarrow> map_of seen (the (ho_selector x) @ [32]) = Some b \<Longrightarrow> b = meets tr this cur x"
  shows "matchLoop tr this cur seen hos = filter (meets tr this cur) hos"
  using assms
proof (induction hos arbitrary: seen)
  case (Cons ho hos)
  obtain x where x: "ho_selector ho = Some x" using Cons.prems(1) [of ho] by auto
  define seen' where "seen' = (case map_of seen (x @ [32]) of Some b \<Rightarrow> seen | None \<Rightarrow> (x @ [32], meets tr this cur ho) # seen)"
  have ans: "map_of seen' (x @ [32]) = Some (meets tr this cur ho)"
    using Cons.prems(2) [of ho] x by (auto simp: seen'_def split: option.split)
  have "matchLoop tr this cur seen' hos = filter (meets tr this cur) hos"
  proof (rule Cons.IH)
    show "selTrue (ho_selector y) \<and> ho_needsContext y = N (ho_selector y)" if "y \<in> set hos" for y
      using Cons.prems(1) [of y] that by simp
    fix y b
    assume y: "y \<in> set hos" "map_of seen' (the (ho_selector y) @ [32]) = Some b"
    obtain z where z: "ho_selector y = Some z" using Cons.prems(1) [of y] y(1) by auto
    show "b = meets tr this cur y"
    proof (cases "z = x")
      case True
      then have "meets tr this cur y = meets tr this cur ho"
        using z x Cons.prems(1) [of y] Cons.prems(1) [of ho] y(1) by (simp add: meets_def)
      then show ?thesis using ans y(2) z True by simp
    next
      case False
      then have "map_of seen (z @ [32]) = Some b" using y(2) z by (auto simp: seen'_def split: option.splits)
      then show ?thesis using Cons.prems(2) [of y b] y(1) z by simp
    qed
  qed
  moreover have "matchLoop tr this cur seen (ho # hos) =
      (if map_of seen' (x @ [32]) = Some True then ho # matchLoop tr this cur seen' hos else matchLoop tr this cur seen' hos)"
  proof -
    have "(if ho_needsContext ho then findsIn tr (x @ [32]) this cur else finds tr (x @ [32]) this cur) = meets tr this cur ho"
      by (simp add: meets_def x)
    then show ?thesis by (simp only: matchLoop.simps x option.case seen'_def Let_def)
  qed
  ultimately show ?case using ans by simp
qed simp

lemma groups_filter:
  "concat (map (\<lambda>cur. if el cur then (case m cur of [] \<Rightarrow> [] | x # xs \<Rightarrow> [(cur, x # xs)]) else []) cs) =
    filter (\<lambda>(cur, hos). hos \<noteq> []) (map (\<lambda>cur. (cur, m cur)) (filter el cs))"
  by (induction cs) (auto split: list.splits)

lemma handlersFor_spec:
  assumes "wfHL hl"
    and "\<forall>ho \<in> set (hl_list hl). ho_needsContext ho = (selTrue (ho_selector ho) \<and> needsCtx env (the (ho_selector ho)))"
  shows "handlersFor env tr this ev hl = queueSpec env tr this ev hl"
proof -
  obtain ds bs where p: "hl_list hl = ds @ bs" "hl_delegates hl = length ds"
    "\<And>ho. ho \<in> set ds \<Longrightarrow> selTrue (ho_selector ho)" "\<And>ho. ho \<in> set bs \<Longrightarrow> \<not> selTrue (ho_selector ho)"
    using assms(1) wfHL_parts [of hl] by metis
  have ctx: "ho_needsContext ho = (selTrue (ho_selector ho) \<and> needsCtx env (the (ho_selector ho)))" if "ho \<in> set ds" for ho
    using assms(2) p(1) that by simp
  have loop: "matchLoop tr this cur [] ds = filter (meets tr this cur) ds" for cur
    by (rule matchLoop_filter [where N = "\<lambda>sel. selTrue sel \<and> needsCtx env (the sel)"]) (use p(3) ctx in auto)
  have dele: "filter (\<lambda>ho. selTrue (ho_selector ho) \<and> P ho) (hl_list hl) = filter P ds" for P
  proof -
    have "filter (\<lambda>ho. selTrue (ho_selector ho) \<and> P ho) ds = filter P ds" by (rule filter_cong [OF refl]) (use p(3) in blast)
    moreover have "filter (\<lambda>ho. selTrue (ho_selector ho) \<and> P ho) bs = []" unfolding filter_empty_conv using p(4) by blast
    ultimately show ?thesis unfolding p(1) by simp
  qed
  have dire: "filter (\<lambda>ho. \<not> selTrue (ho_selector ho)) (hl_list hl) = bs"
  proof -
    have "filter (\<lambda>ho. \<not> selTrue (ho_selector ho)) ds = []" using p(3) by (auto simp: filter_empty_conv)
    moreover have "filter (\<lambda>ho. \<not> selTrue (ho_selector ho)) bs = bs" using p(4) by (auto simp: filter_id_conv)
    ultimately show ?thesis unfolding p(1) by simp
  qed
  have none: "filter (\<lambda>(cur, hos). hos \<noteq> []) (map (\<lambda>cur. (cur, filter (meets tr this cur) ds)) cs) = []" if "ds = []" for cs
    using that by (induction cs) auto
  show ?thesis
    using none unfolding handlersFor_def queueSpec_def takingPart_def Let_def dele dire p(2)
    by (auto simp: p(1) loop groups_filter split: option.splits)
qed

lemma callFun_base:
  "base f = User n \<Longrightarrow> \<exists>W'. w_rest W' = w_rest W \<and> callFun env run f this ev W = run (User n) this ev W'"
proof (induction f arbitrary: W)
  case (One f)
  define W1 where "W1 = (case (ev_delegate ev, ev_handleObj ev) of
      (Some d, Some ho) \<Rightarrow> W\<lparr>w_reg := offEvent env d ho (w_reg W)\<rparr> | _ \<Rightarrow> W)"
  have "w_rest W1 = w_rest W" by (auto simp: W1_def split: option.split)
  moreover have "callFun env run (One f) this ev W = callFun env run f this ev W1" by (simp only: callFun.simps W1_def Let_def)
  moreover obtain W' where "w_rest W' = w_rest W1" "callFun env run f this ev W1 = run (User n) this ev W'"
    using One.IH [of W1] One.prems by auto
  ultimately show ?case by metis
qed auto

text \<open>One call of a handler of the program is logged and does what its verdict says.\<close>

lemma call_logged:
  assumes "obeys v run" "plainHandler ho" "ev_handleObj ev = Some ho"
    and "callHandler env tr (logged run) ho cur ev W = (r, ev', W')"
  shows "calls W' = calls W @ [(cur, ho)]" "ev_names ev' = ev_names ev"
    "case v ho of
       Go \<Rightarrow> r \<noteq> RFalse \<and> ev_stopped ev' = ev_stopped ev \<and> ev_stoppedNow ev' = ev_stoppedNow ev
     | Stop \<Rightarrow> (r = RFalse \<or> ev_stopped ev') \<and> ev_stoppedNow ev' = ev_stoppedNow ev
     | Now \<Rightarrow> ev_stopped ev' \<and> ev_stoppedNow ev'"
proof -
  obtain n where n: "base (ho_handler ho) = User n" "bindType (ho_origType ho) = None"
    using assms(2) by (auto simp: plainHandler_def elim: isUser.elims)
  obtain W1 where W1: "w_rest W1 = w_rest W" "callFun env (logged run) (ho_handler ho) cur ev W = logged run (User n) cur ev W1"
    using callFun_base [OF n(1)] by metis
  obtain r1 ev1 W2 where run: "run (User n) cur ev (forget W1) = (r1, ev1, W2)" by (metis prod_cases3)
  have eq: "r = r1" "ev' = ev1" "calls W' = calls W1 @ [(cur, ho)]"
    using assms(3,4) n(2) W1(2) run by (auto simp: callHandler_def logged_def)
  have "ev_names ev1 = ev_names ev \<and> (case v ho of
       Go \<Rightarrow> r1 \<noteq> RFalse \<and> ev_stopped ev1 = ev_stopped ev \<and> ev_stoppedNow ev1 = ev_stoppedNow ev
     | Stop \<Rightarrow> (r1 = RFalse \<or> ev_stopped ev1) \<and> ev_stoppedNow ev1 = ev_stoppedNow ev
     | Now \<Rightarrow> ev_stopped ev1 \<and> ev_stoppedNow ev1)"
    using assms(1,3) run n(1) unfolding obeys_def by metis
  then show "calls W' = calls W @ [(cur, ho)]" "ev_names ev' = ev_names ev"
    "case v ho of
       Go \<Rightarrow> r \<noteq> RFalse \<and> ev_stopped ev' = ev_stopped ev \<and> ev_stoppedNow ev' = ev_stoppedNow ev
     | Stop \<Rightarrow> (r = RFalse \<or> ev_stopped ev') \<and> ev_stoppedNow ev' = ev_stoppedNow ev
     | Now \<Rightarrow> ev_stopped ev' \<and> ev_stoppedNow ev'"
    unfolding eq W1(1) by blast+
qed

lemma noteResult_fields:
  "ev_names (noteResult r ev) = ev_names ev" "ev_stoppedNow (noteResult r ev) = ev_stoppedNow ev"
  "ev_stopped (noteResult r ev) \<longleftrightarrow> ev_stopped ev \<or> r = RFalse"
  by (auto simp: noteResult_def stopPropagation_def preventDefault_def split: hret.split)

lemma runList_calls:
  assumes "obeys v run"
  shows "list_all plainHandler hos \<Longrightarrow> \<not> ev_stoppedNow ev \<Longrightarrow> runList env tr (logged run) cur hos ev W = (ev', W') \<Longrightarrow>
    calls W' = calls W @ map (Pair cur) (groupCalls env (ev_names ev) v hos) \<and> ev_names ev' = ev_names ev \<and>
    (ev_stopped ev' \<longleftrightarrow> ev_stopped ev \<or> list_ex (\<lambda>ho. v ho \<noteq> Go) (groupCalls env (ev_names ev) v hos)) \<and>
    (ev_stoppedNow ev' \<longrightarrow> ev_stopped ev')"
proof (induction hos arbitrary: ev W)
  case Nil
  then show ?case by (simp add: groupCalls_def)
next
  case (Cons ho hos)
  show ?case
  proof (cases "nsMeets env (ev_names ev) ho")
    case False
    then have rest: "runList env tr (logged run) cur hos ev W = (ev', W')" using Cons.prems(2,3) by simp
    have "list_all plainHandler hos" using Cons.prems(1) by simp
    moreover have "groupCalls env (ev_names ev) v (ho # hos) = groupCalls env (ev_names ev) v hos"
      using False by (simp add: groupCalls_def)
    ultimately show ?thesis using Cons.IH [OF _ Cons.prems(2) rest] by metis
  next
    case True
    let ?ev = "ev\<lparr>ev_handleObj := Some ho, ev_data := ho_data ho\<rparr>"
    obtain r ev1 W1 where call: "callHandler env tr (logged run) ho cur ?ev W = (r, ev1, W1)" by (metis prod_cases3)
    have plain: "plainHandler ho" "list_all plainHandler hos" and h: "ev_handleObj ?ev = Some ho" using Cons.prems(1) by simp_all
    note c = call_logged [OF assms plain(1) h call]
    let ?ev1 = "noteResult r ev1"
    have rest: "runList env tr (logged run) cur hos ?ev1 W1 = (ev', W')"
      using Cons.prems(2,3) True call by simp
    have names: "ev_names ?ev1 = ev_names ev" using c(2) by (simp add: noteResult_fields)
    show ?thesis
    proof (cases "v ho = Now")
      case now: True
      then have "ev_stopped ?ev1" "ev_stoppedNow ?ev1" using c(3) by (simp_all add: noteResult_fields)
      then have "(ev', W') = (?ev1, W1)" using rest by (cases hos) auto
      with now True c(1) names show ?thesis by (simp add: groupCalls_def noteResult_fields \<open>ev_stopped ?ev1\<close>) (use \<open>ev_stopped ?ev1\<close> in \<open>simp add: noteResult_fields\<close>)
    next
      case other: False
      then have n: "\<not> ev_stoppedNow ?ev1" using c(3) Cons.prems(2) by (cases "v ho") (auto simp: noteResult_fields)
      have st: "ev_stopped ?ev1 \<longleftrightarrow> ev_stopped ev \<or> v ho \<noteq> Go"
        using c(3) other by (cases "v ho") (auto simp: noteResult_fields)
      have g: "groupCalls env (ev_names ev) v (ho # hos) = ho # groupCalls env (ev_names ev) v hos"
        using True other by (simp add: groupCalls_def)
      from Cons.IH [OF plain(2) n rest] names st c(1) show ?thesis unfolding g by auto
    qed
  qed
qed

lemma runQueue_calls:
  assumes "obeys v run"
  shows "list_all (\<lambda>(cur, hos). list_all plainHandler hos) q \<Longrightarrow> \<not> ev_stopped ev \<Longrightarrow> \<not> ev_stoppedNow ev \<Longrightarrow>
    calls (snd (runQueue env tr (logged run) q ev W)) = calls W @ queueCalls env (ev_names ev) v q"
proof (induction q arbitrary: ev W)
  case Nil
  then show ?case by (simp add: queueCalls_def)
next
  case (Cons x q)
  obtain cur hos where x: "x = (cur, hos)" by fastforce
  obtain ev1 W1 where run: "runList env tr (logged run) cur hos (ev\<lparr>ev_current := Some cur\<rparr>) W = (ev1, W1)" by fastforce
  have r: "calls W1 = calls W @ map (Pair cur) (groupCalls env (ev_names ev) v hos)" "ev_names ev1 = ev_names ev"
    "ev_stopped ev1 \<longleftrightarrow> list_ex (\<lambda>ho. v ho \<noteq> Go) (groupCalls env (ev_names ev) v hos)" "ev_stoppedNow ev1 \<longrightarrow> ev_stopped ev1"
    using runList_calls [OF assms _ _ run] Cons.prems x by auto
  have step: "runQueue env tr (logged run) (x # q) ev W = runQueue env tr (logged run) q ev1 W1"
    using Cons.prems(2) run x by simp
  show ?case
  proof (cases "ev_stopped ev1")
    case True
    then have "runQueue env tr (logged run) q ev1 W1 = (ev1, W1)" by (cases q) auto
    with True r step x show ?thesis by (simp add: queueCalls_def)
  next
    case False
    with Cons.IH [of ev1 W1] Cons.prems(1) r step x show ?thesis by (auto simp: queueCalls_def)
  qed
qed

lemma queueSpec_plain:
  "list_all plainHandler (hl_list hl) \<Longrightarrow> list_all (\<lambda>(cur, hos). list_all plainHandler hos) (queueSpec env tr this ev hl)"
  by (auto simp: queueSpec_def list_all_iff)

lemma handlersAt_OK:
  assumes "regOK env s"
  shows "wfHL (handlersAt s e t)"
    "\<forall>ho \<in> set (hl_list (handlersAt s e t)).
       ho_needsContext ho = (selTrue (ho_selector ho) \<and> needsCtx env (the (ho_selector ho)))"
  using regD(1) [OF assms, of e t]
  by (auto simp: handlersAt_hlAt listOK_def hoOK_def list_all_iff noHandlers_def wfHL_def split: option.split)

lemma handlersFor_reg:
  "regOK env s \<Longrightarrow> handlersFor env tr this ev (handlersAt s this t) = queueSpec env tr this ev (handlersAt s this t)"
  by (rule handlersFor_spec [OF handlersAt_OK])

lemma dispatch_calls':
  assumes "regOK env (w_reg W)" "obeys v run" "list_all plainHandler (hl_list (handlersAt (w_reg W) this (ev_type ev)))"
    and "\<not> ev_stopped ev" "\<not> ev_stoppedNow ev"
  shows "calls (snd (dispatch env tr (logged run) this ev W)) =
    calls W @ queueCalls env (ev_names ev) v (queueSpec env tr this ev (handlersAt (w_reg W) this (ev_type ev)))"
proof -
  let ?ev = "ev\<lparr>ev_delegate := Some this\<rparr>" and ?hl = "handlersAt (w_reg W) this (ev_type ev)"
  have "queueSpec env tr this ?ev ?hl = queueSpec env tr this ev ?hl"
  proof -
    have "takingPart env tr this ?ev = takingPart env tr this ev"
      by (cases "ev_target ev") (simp_all add: takingPart_def)
    then show ?thesis by (simp only: queueSpec_def)
  qed
  then show ?thesis
    using runQueue_calls [OF assms(2) queueSpec_plain [OF assms(3), of env tr this ev], of ?ev env tr W] assms(4,5)
    by (simp add: dispatch_def Let_def handlersFor_reg [OF assms(1)])
qed

text \<open>
  C32. An event on an element calls, in this order: for each element from the target up, the delegated handlers whose selector
  finds that element, in the order in which they were bound; then the direct handlers of the element. Handlers with the wrong
  names are left out; a handler that stops the event lets the remaining handlers of its element run, one that stops it at
  once does not. What the handlers do to the registry meanwhile (binding and removing handlers, their own included) does
  not change which ones are called. (For functions of the program that each stop the event always or never, and types outside the
  \<open>mouseenter\<close> family.)
\<close>

theorem dispatch_calls:
  assumes "regOK env (w_reg W)" "obeys v run" "list_all plainHandler (hl_list (handlersAt (w_reg W) this (ev_type ev)))"
    and "\<not> ev_stopped ev" "\<not> ev_stoppedNow ev"
  shows "calls (snd (dispatch env tr (logged run) this ev W)) =
    calls W @ queueCalls env (ev_names ev) v (queueSpec env tr this ev (handlersAt (w_reg W) this (ev_type ev)))"
  by (rule dispatch_calls' [OF assms])

text \<open>A click on an item (2) of a list (1): a delegated handler for items and two direct ones, the first of which stops the event.\<close>

definition sampleReg :: "nat registry" where
  "sampleReg = fold (regStep evPage) [Bind [1] (js ''click'') (User 7) Undef None False, Bind [1] (js ''click.x'') (User 8) Undef None False,
     Bind [1] (js ''click'') (User 9) Undef (Some (js ''li'')) True] emptyRegistry"

definition evTree :: "nat pageTree" where
  "evTree = \<lparr>chain = (\<lambda>e. if e = 2 then [1, 0] else if e = 1 then [0] else []), disabledE = (\<lambda>_. False), isWin = (\<lambda>_. False),
     windowOf = (\<lambda>_. 5), finds = (\<lambda>sel this cur. cur = 2), findsIn = (\<lambda>_ _ _. False), containsE = (\<lambda>_ _. False), inline = (\<lambda>_ _. None),
     hasMethod = (\<lambda>_ _. False), isLink = (\<lambda>_. False), busyClick = (\<lambda>_. False)\<rparr>"

definition evRun :: "(nat, unit) handlerRuns" where
  "evRun f this ev W = (if f = User 7 then RFalse else RUndef, ev, W)"

definition sampleVerdict :: "handleObj \<Rightarrow> verdict" where
  "sampleVerdict ho = (if base (ho_handler ho) = User 7 then Stop else Go)"

definition sampleWorld :: "(nat, unit \<times> (nat \<times> handleObj) list) evWorld" where
  "sampleWorld = \<lparr>w_reg = sampleReg, w_triggered = None, w_rest = ((), [])\<rparr>"

lemma sampleReg_OK: "regOK evPage sampleReg"
proof -
  have "list_all ownOp [Bind [1] (js ''click'') (User 7) Undef None False, Bind [1] (js ''click.x'') (User 8) Undef None False,
     Bind [1] (js ''click'') (User 9) Undef (Some (js ''li'')) True]" by simp
  from registry_reached [OF this, of evPage] show ?thesis by (simp only: regStands_def sampleReg_def)
qed

theorem dispatch_calls_witness:
  "let ev = (newEvent (js ''click''))\<lparr>ev_target := Some 2\<rparr>
   in calls (snd (dispatch evPage evTree (logged evRun) 1 ev sampleWorld)) =
     calls sampleWorld @ queueCalls evPage (ev_names ev) sampleVerdict
       (queueSpec evPage evTree 1 ev (handlersAt (w_reg sampleWorld) 1 (ev_type ev)))"
  unfolding Let_def
proof (rule dispatch_calls)
  show "regOK evPage (w_reg sampleWorld)" by (simp add: sampleWorld_def sampleReg_OK)
  show "obeys sampleVerdict evRun" by (auto simp: obeys_def evRun_def sampleVerdict_def)
  show "list_all plainHandler
      (hl_list (handlersAt (w_reg sampleWorld) 1 (ev_type ((newEvent (js ''click''))\<lparr>ev_target := Some 2\<rparr>))))" by code_simp
qed (simp_all add: newEvent_def)

section \<open>Lemmas: firing\<close>

text \<open>Functions that leave the registry and the event as they are.\<close>

definition quiet :: "('e, 'w) handlerRuns \<Rightarrow> bool" where
  "quiet run \<longleftrightarrow>
     (\<forall>f this ev W r ev' W'. run f this ev W = (r, ev', W') \<longrightarrow>
        r \<noteq> RFalse \<and> ev_names ev' = ev_names ev \<and> ev_stopped ev' = ev_stopped ev \<and> ev_stoppedNow ev' = ev_stoppedNow ev \<and>
        ev_prevented ev' = ev_prevented ev \<and> ev_target ev' = ev_target ev \<and> ev_button ev' = ev_button ev \<and>
        w_reg W' = w_reg W \<and> w_triggered W' = w_triggered W)"

definition sameEvent :: "'e jqEvent \<Rightarrow> 'e jqEvent \<Rightarrow> bool" where
  "sameEvent ev ev' \<longleftrightarrow>
     ev_names ev' = ev_names ev \<and> ev_stopped ev' = ev_stopped ev \<and> ev_stoppedNow ev' = ev_stoppedNow ev \<and>
     ev_prevented ev' = ev_prevented ev \<and> ev_target ev' = ev_target ev \<and> ev_button ev' = ev_button ev"

definition sameWorld :: "('e, 'w) evWorld \<Rightarrow> ('e, 'v) evWorld \<Rightarrow> bool" where
  "sameWorld W W' \<longleftrightarrow> w_reg W' = w_reg W \<and> w_triggered W' = w_triggered W"

definition simpleHandler :: "handleObj \<Rightarrow> bool" where
  "simpleHandler ho \<longleftrightarrow> isUser (ho_handler ho) \<and> bindType (ho_origType ho) = None"

lemma simple_plain: "simpleHandler ho \<Longrightarrow> plainHandler ho"
  by (auto simp: simpleHandler_def plainHandler_def elim: isUser.elims)

lemma quiet_obeys: "quiet run \<Longrightarrow> obeys (\<lambda>_. Go) run"
  unfolding quiet_def obeys_def by (simp (no_asm_use)) blast

lemma quiet_call:
  assumes "quiet run" "simpleHandler ho" "callHandler env tr (logged run) ho cur ev W = (r, ev', W')"
  shows "r \<noteq> RFalse \<and> sameEvent ev ev' \<and> sameWorld W W'"
proof -
  obtain n where n: "ho_handler ho = User n" "bindType (ho_origType ho) = None"
    using assms(2) by (auto simp: simpleHandler_def elim: isUser.elims)
  obtain r1 ev1 W1 where run: "run (User n) cur ev (forget W) = (r1, ev1, W1)" by (metis prod_cases3)
  then have "r = r1" "ev' = ev1" "w_reg W' = w_reg W1" "w_triggered W' = w_triggered W1"
    using assms(3) n by (auto simp: callHandler_def logged_def)
  with assms(1) run show ?thesis unfolding quiet_def sameEvent_def sameWorld_def by (auto simp: forget_def)
qed

lemma quiet_list:
  assumes "quiet run"
  shows "list_all simpleHandler hos \<Longrightarrow> runList env tr (logged run) cur hos ev W = (ev', W') \<Longrightarrow> sameEvent ev ev' \<and> sameWorld W W'"
proof (induction hos arbitrary: ev W)
  case (Cons ho hos)
  let ?ev = "ev\<lparr>ev_handleObj := Some ho, ev_data := ho_data ho\<rparr>"
  obtain r ev1 W1 where call: "callHandler env tr (logged run) ho cur ?ev W = (r, ev1, W1)" by (metis prod_cases3)
  have q: "r \<noteq> RFalse" "sameEvent ?ev ev1" "sameWorld W W1" using quiet_call [OF assms _ call] Cons.prems(1) by simp_all
  then have "sameEvent ev (noteResult r ev1)" by (cases r) (simp_all add: sameEvent_def noteResult_def)
  then show ?case using Cons.IH [of "noteResult r ev1" W1] Cons.IH [of ev W] Cons.prems q(3) call
    by (auto simp: sameEvent_def sameWorld_def split: if_splits)
qed (simp add: sameEvent_def sameWorld_def)

lemma quiet_queue:
  assumes "quiet run"
  shows "list_all (\<lambda>(cur, hos). list_all simpleHandler hos) q \<Longrightarrow> runQueue env tr (logged run) q ev W = (ev', W') \<Longrightarrow>
    sameEvent ev ev' \<and> sameWorld W W'"
proof (induction q arbitrary: ev W)
  case (Cons x q)
  obtain cur hos where x: "x = (cur, hos)" by fastforce
  obtain ev1 W1 where run: "runList env tr (logged run) cur hos (ev\<lparr>ev_current := Some cur\<rparr>) W = (ev1, W1)" by fastforce
  have "sameEvent (ev\<lparr>ev_current := Some cur\<rparr>) ev1" "sameWorld W W1"
    using quiet_list [OF assms _ run] Cons.prems(1) x by simp_all
  with Cons.IH [of ev1 W1] Cons.prems x run show ?case by (auto simp: sameEvent_def sameWorld_def split: if_splits)
qed (simp add: sameEvent_def sameWorld_def)

lemma queueSpec_same:
  "ev_type ev = ev_type ev' \<Longrightarrow> ev_target ev = ev_target ev' \<Longrightarrow> ev_button ev = ev_button ev' \<Longrightarrow>
    queueSpec env tr this ev hl = queueSpec env tr this ev' hl"
  by (simp only: queueSpec_def takingPart_def)

lemma queueSpec_simple:
  "list_all simpleHandler (hl_list hl) \<Longrightarrow> list_all (\<lambda>(cur, hos). list_all simpleHandler hos) (queueSpec env tr this ev hl)"
  by (auto simp: queueSpec_def list_all_iff)

definition simpleAt :: "'e registry \<Rightarrow> 'e \<times> jstring \<Rightarrow> bool" where
  "simpleAt s = (\<lambda>(e, t). list_all simpleHandler (hl_list (handlersAt s e t)))"

text \<open>The calls at one node of the way.\<close>

definition callsAt :: "'e evenv \<Rightarrow> 'e pageTree \<Rightarrow> 'e jqEvent \<Rightarrow> 'e registry \<Rightarrow> 'e \<times> jstring \<Rightarrow> ('e \<times> handleObj) list" where
  "callsAt env tr ev s = (\<lambda>(cur, t). queueCalls env (ev_names ev) (\<lambda>_. Go) (queueSpec env tr cur (ev\<lparr>ev_type := t\<rparr>) (handlersAt s cur t)))"

lemma callsAt_same: "sameEvent ev ev' \<Longrightarrow> callsAt env tr ev' s x = callsAt env tr ev s x"
  unfolding callsAt_def sameEvent_def by (cases x) (auto intro!: arg_cong [where f = "queueCalls _ _ _"] queueSpec_same)

lemma callsAt_none: "hlAt s cur t = None \<Longrightarrow> callsAt env tr ev s (cur, t) = []"
proof -
  assume "hlAt s cur t = None"
  then have "handlersAt s cur t = noHandlers" by (simp add: handlersAt_hlAt)
  moreover have "filter (\<lambda>(cur, hos). hos \<noteq> []) (map (\<lambda>cur. (cur, [])) cs) = []" for cs :: "'a list" by (induction cs) auto
  ultimately show ?thesis by (simp add: callsAt_def queueSpec_def noHandlers_def queueCalls_def)
qed

lemma dispatch_quiet:
  assumes "quiet run" "regOK env (w_reg W)" "simpleAt (w_reg W) (cur, ev_type ev)" "\<not> ev_stopped ev" "\<not> ev_stoppedNow ev"
    and "dispatch env tr (logged run) cur ev W = (ev', W')"
  shows "sameEvent ev ev' \<and> sameWorld W W' \<and> calls W' = calls W @ callsAt env tr ev (w_reg W) (cur, ev_type ev)"
proof -
  let ?hl = "handlersAt (w_reg W) cur (ev_type ev)" and ?ev = "ev\<lparr>ev_delegate := Some cur\<rparr>"
  have simple: "list_all simpleHandler (hl_list ?hl)" using assms(3) by (simp add: simpleAt_def)
  then have "list_all plainHandler (hl_list ?hl)" by (auto simp: list_all_iff simple_plain)
  from dispatch_calls' [OF assms(2) quiet_obeys [OF assms(1)] this assms(4,5), of tr] assms(6)
  have "calls W' = calls W @ callsAt env tr ev (w_reg W) (cur, ev_type ev)" by (simp add: callsAt_def)
  moreover have "sameEvent ?ev ev' \<and> sameWorld W W'"
    using quiet_queue [OF assms(1) queueSpec_simple [OF simple, of env tr cur ?ev], of env tr ?ev W ev' W'] assms(6)
    by (simp add: dispatch_def Let_def handlersFor_reg [OF assms(2)])
  ultimately show ?thesis by (simp add: sameEvent_def)
qed

lemma firePath_quiet:
  assumes "quiet run" "regOK env s" "\<And>x. inline tr type x = None"
  shows "list_all (simpleAt s) path \<Longrightarrow> w_reg W = s \<Longrightarrow> w_triggered W = None \<Longrightarrow> \<not> ev_stopped ev \<Longrightarrow> \<not> ev_stoppedNow ev \<Longrightarrow>
    firePath env tr (logged run) type path ev W = (ev', W') \<Longrightarrow>
    sameEvent ev ev' \<and> sameWorld W W' \<and> calls W' = calls W @ concat (map (callsAt env tr ev s) path)"
proof (induction path arbitrary: ev W)
  case Nil
  then show ?case by (simp add: sameEvent_def sameWorld_def)
next
  case (Cons x path)
  obtain cur t where x: "x = (cur, t)" by fastforce
  let ?ev = "ev\<lparr>ev_type := t\<rparr>"
  obtain ev1 W1 where one: "(if hlAt (w_reg W) cur t \<noteq> None \<and> hasHandle (w_reg W) cur
      then handleNative env tr (logged run) cur ?ev W else (?ev, W)) = (ev1, W1)" by fastforce
  have step: "firePath env tr (logged run) type path ev1 W1 = (ev', W')"
    using Cons.prems(4,6) one assms(3) x by (simp split: if_splits)
  have "sameEvent ?ev ev1 \<and> sameWorld W W1 \<and> calls W1 = calls W @ callsAt env tr ev s (cur, t)"
  proof (cases "hlAt s cur t = None")
    case True
    with one Cons.prems(2) callsAt_none [OF True, of env tr ev] show ?thesis by (auto simp: sameEvent_def sameWorld_def)
  next
    case False
    then have "dispatch env tr (logged run) cur ?ev W = (ev1, W1)"
      using one Cons.prems(2,3) regD(5) [OF assms(2), of cur t] by (simp add: handleNative_def)
    from dispatch_quiet [OF assms(1) _ _ _ _ this] Cons.prems assms(2) x
    show ?thesis by (simp add: callsAt_def)
  qed
  then have s1: "sameEvent ev ev1" "sameWorld W W1" "calls W1 = calls W @ callsAt env tr ev s (cur, t)"
    by (simp_all add: sameEvent_def)
  have "sameEvent ev1 ev' \<and> sameWorld W1 W' \<and> calls W' = calls W1 @ concat (map (callsAt env tr ev1 s) path)"
    by (rule Cons.IH [OF _ _ _ _ _ step]) (use s1 Cons.prems in \<open>simp_all add: sameEvent_def sameWorld_def\<close>)
  moreover have "map (callsAt env tr ev1 s) path = map (callsAt env tr ev s) path"
    using callsAt_same [OF s1(1)] by simp
  ultimately show ?case using s1 x by (auto simp: sameEvent_def sameWorld_def)
qed

lemma twice_halves:
  assumes "t @ t = s"
  shows "take (length s div 2) s = drop (length s div 2) s"
  unfolding assms [symmetric] by simp

lemma plain_no_morph: "\<not> focusMorph (t @ t)"
  using twice_halves [of t "js ''focusinfocus''"] twice_halves [of t "js ''focusoutblur''"]
  by (auto simp only: focusMorph_def) (simp_all add: js_def)

lemma firedNames_text: "firedNames (FireType x) = sort (tl (splitOn 46 x))"
  by (simp add: firedNames_def firedType_def splitOn_no_sep)

text \<open>The way of a type without a type of its own for binding or bubbling.\<close>

lemma eventPath_plain:
  assumes "bindType type = None" "delegateType type = None"
  shows "eventPath env tr elem type False =
    map (\<lambda>n. (n, type)) (elem #
      (if type = js ''load'' \<or> isWin tr elem then []
       else chain tr elem @ (if last (elem # chain tr elem) = docOf env elem then [windowOf tr (docOf env elem)] else [])))"
  using assms plain_no_morph [of type] by (auto simp: eventPath_def bubbleType_def Let_def)

text \<open>
  C33. An event that the program fires on an element calls the handlers of the element, then those of its parent and so on
  up to the topmost node and, when that is the document of the element, of the window; at each node the handlers bound to the type, each as in a
  dispatch for a new event whose target is the element and whose names are those of the given text, sorted. A \<open>load\<close> event and an event on a window stay
  where they are. At last the method of the element with the name of the type is called once. (For a type without hooks and without
  another type that it is bound to, no handlers in attributes, handlers that do not stop or prevent the event and leave the registry alone.)
\<close>

theorem trigger_calls:
  fixes x :: jstring and tr :: "'e pageTree" and env :: "'e evenv" and elem :: 'e and W :: "('e, 'w \<times> ('e \<times> handleObj) list) evWorld"
  defines "type \<equiv> hd (splitOn 46 x)" and "names \<equiv> sort (tl (splitOn 46 x))"
  defines "ev \<equiv> (newEvent type)\<lparr>ev_target := Some elem, ev_names := (if join [46] names = [] then None else Some names)\<rparr>"
  defines "nodes \<equiv> elem #
    (if type = js ''load'' \<or> isWin tr elem then []
     else chain tr elem @ (if last (elem # chain tr elem) = docOf env elem then [windowOf tr (docOf env elem)] else []))"
  assumes "quiet run" "regOK env (w_reg W)" "w_triggered W = None" "nodeKind env elem \<notin> {Some 3, Some 8}"
    and "setupOf env type = NoSetup" "bindType type = None" "delegateType type = None" "\<And>e. inline tr type e = None"
    and "list_all (\<lambda>n. simpleAt (w_reg W) (n, type)) nodes"
  shows "\<exists>r W'. w_reg W' = w_reg W \<and>
    calls W' = calls W @ concat (map (\<lambda>n. callsAt env tr ev (w_reg W) (n, type)) nodes) \<and>
    trigger env tr (logged run) method (FireType x) elem False W =
      (r, if acceptData (nodeKind env) elem \<and> 58 \<notin> set type \<and> hasMethod tr type elem \<and> \<not> isWin tr elem
          then (method type elem (W'\<lparr>w_triggered := Some type\<rparr>))\<lparr>w_triggered := None\<rparr> else W')"
proof -
  let ?ev = "firedEvent elem False (FireType x)" and ?path = "map (\<lambda>n. (n, type)) nodes"
  have base: "baseType (FireType x :: 'e fired) = type" by (simp add: baseType_def firedType_def type_def)
  have W: "W\<lparr>w_reg := triggerHook env elem type (w_reg W)\<rparr> = W" using assms(9) by (auto simp: triggerHook_def)
  have path: "eventPath env tr elem type False = ?path"
    unfolding nodes_def by (rule eventPath_plain [OF assms(10,11)])
  have "firedNames (FireType x :: 'e fired) = names" by (simp add: firedNames_text names_def)
  then have same: "sameEvent ev ?ev"
    by (simp add: sameEvent_def ev_def firedEvent_def newEvent_def Let_def)
  obtain ev' W' where f: "firePath env tr (logged run) type ?path ?ev W = (ev', W')" by fastforce
  have new: "\<not> ev_stopped ?ev" "\<not> ev_stoppedNow ?ev" "\<not> ev_prevented ?ev"
    by (simp_all add: firedEvent_def newEvent_def Let_def)
  have p: "sameEvent ?ev ev' \<and> sameWorld W W' \<and> calls W' = calls W @ concat (map (callsAt env tr ?ev (w_reg W)) ?path)"
    by (rule firePath_quiet [OF assms(5,6,12) _ refl assms(7) new(1,2) f]) (use assms(13) in \<open>simp add: list_all_iff\<close>)
  have "\<not> ownDefault env tr e type" for e using assms(9) by (simp add: ownDefault_def)
  with p new(3) assms(7,8) f W show ?thesis
    by (intro exI [of _ "ev_result ev'"] exI [of _ W'])
      (simp add: trigger_def Let_def base path sameEvent_def sameWorld_def callsAt_same [OF same] o_def)
qed

text \<open>A key event on an item of a list, with a handler at the list.\<close>

definition keyReg :: "nat registry" where
  "keyReg = fold (regStep evPage) [Bind [1] (js ''keyup.a'') (User 7) Undef None False] emptyRegistry"

definition quietRun :: "(nat, unit) handlerRuns" where
  "quietRun f this ev W = (RUndef, ev, W)"

definition keyWorld :: "(nat, unit \<times> (nat \<times> handleObj) list) evWorld" where
  "keyWorld = \<lparr>w_reg = keyReg, w_triggered = None, w_rest = ((), [])\<rparr>"

theorem trigger_calls_witness:
  "\<exists>r W'. w_reg W' = w_reg keyWorld \<and> map (map_prod id ho_handler) (calls W') = [(1, User 7)] \<and>
     trigger evPage evTree (logged quietRun) (\<lambda>_ _ W. W) (FireType (js ''keyup.a'')) 2 False keyWorld =
       (r, if acceptData (nodeKind evPage) 2 \<and> 58 \<notin> set (js ''keyup'') \<and>
              hasMethod evTree (js ''keyup'') 2 \<and> \<not> isWin evTree 2
           then (W'\<lparr>w_triggered := Some (js ''keyup'')\<rparr>)\<lparr>w_triggered := None\<rparr> else W')"
proof -
  let ?x = "js ''keyup.a''"
  let ?nodes = "2 # (if js ''keyup'' = js ''load'' \<or> isWin evTree 2 then []
    else chain evTree 2 @ (if last (2 # chain evTree 2) = docOf evPage 2 then [windowOf evTree (docOf evPage 2)] else []))"
  let ?ev = "(newEvent (js ''keyup''))\<lparr>ev_target := Some 2, ev_names := (if join [46] [js ''a''] = [] then None else Some [js ''a''])\<rparr>"
  have type: "hd (splitOn 46 ?x) = js ''keyup''" by code_simp
  have names: "sort (tl (splitOn 46 ?x)) = [js ''a'']" by code_simp
  have q: "quiet quietRun" by (auto simp: quiet_def quietRun_def)
  have "list_all ownOp [Bind [1] (js ''keyup.a'') (User 7) Undef None False]" by simp
  from registry_reached [OF this, of evPage] have ok: "regOK evPage (w_reg keyWorld)"
    by (simp only: keyWorld_def keyReg_def regStands_def evWorld.simps)
  have t: "w_triggered keyWorld = None" by (simp add: keyWorld_def)
  have k: "nodeKind evPage 2 \<notin> {Some 3, Some 8}" by (simp add: evPage_def)
  have hooks: "setupOf evPage (js ''keyup'') = NoSetup" "bindType (js ''keyup'') = None" "delegateType (js ''keyup'') = None"
    by code_simp+
  have i: "inline evTree (js ''keyup'') e = None" for e by (simp add: evTree_def)
  have simple: "list_all (\<lambda>n. simpleAt (w_reg keyWorld) (n, js ''keyup'')) ?nodes" by code_simp
  have "map (map_prod id ho_handler) (concat (map (\<lambda>n. callsAt evPage evTree ?ev (w_reg keyWorld) (n, js ''keyup'')) ?nodes)) = [(1, User 7)]"
    by code_simp
  moreover have "calls keyWorld = []" by (simp add: keyWorld_def)
  moreover note trigger_calls [of quietRun evPage keyWorld 2 ?x evTree "\<lambda>_ _ W. W", unfolded type names, OF q ok t k hooks i simple]
  ultimately show ?thesis by (metis append_Nil)
qed

end
