(* ===== verification/Sizzle_Dom.thy ===== *)
theory Sizzle_Dom
  imports JS_Prelude JS_Sort
begin

text \<open>
  The documents on which the selector engine of \<^verbatim>\<open>jquery.js\<close> works, and its functions that do not
  depend on a selector: the text of nodes, containment, and the sorting of nodes in document order
  (\<open>getText\<close>, \<open>contains\<close>, \<open>siblingCheck\<close>, \<open>sortOrder\<close>, \<open>uniqueSort\<close>). The lemmas show that the sorting puts
  the nodes in the order in which the document is written, each one once.
\<close>

section \<open>Documents\<close>

text \<open>
  A node with its type, name, attributes, value (of a text) and children. A reference
  to a node is its path: its index among its siblings, then the index of its parent, and so on up to the root, whose
  path is empty. Two references are the same node when the paths are equal.
\<close>

datatype dnode =
  DNode (nType: nat) (nName: jstring) (nAttrs: "(jstring \<times> jstring) list") (nValue: jstring) (nKids: "dnode list")

type_synonym path = "nat list"

fun nodeAt :: "dnode \<Rightarrow> path \<Rightarrow> dnode option" where
  "nodeAt d [] = Some d"
| "nodeAt d (i # up) =
     (case nodeAt d up of
        None \<Rightarrow> None
      | Some p \<Rightarrow> if i < length (nKids p) then Some (nKids p ! i) else None)"

definition nodeTypeAt :: "dnode \<Rightarrow> path \<Rightarrow> nat" where
  "nodeTypeAt d p = (case nodeAt d p of Some n \<Rightarrow> nType n | None \<Rightarrow> 0)"

definition nodeNameAt :: "dnode \<Rightarrow> path \<Rightarrow> jstring" where
  "nodeNameAt d p = (case nodeAt d p of Some n \<Rightarrow> nName n | None \<Rightarrow> [])"

definition attrAt :: "dnode \<Rightarrow> path \<Rightarrow> jstring \<Rightarrow> jstring option" where
  "attrAt d p a = (case nodeAt d p of Some n \<Rightarrow> map_of (nAttrs n) a | None \<Rightarrow> None)"

definition isElement :: "dnode \<Rightarrow> path \<Rightarrow> bool" where
  "isElement d p \<longleftrightarrow> nodeTypeAt d p = 1"

text \<open>The nodes reached by following \<open>parentNode\<close>, \<open>previousSibling\<close> or \<open>nextSibling\<close>, the nearest first.\<close>

fun ancestors :: "path \<Rightarrow> path list" where
  "ancestors [] = []"
| "ancestors (i # up) = up # ancestors up"

definition preceding :: "path \<Rightarrow> path list" where
  "preceding p = (case p of [] \<Rightarrow> [] | i # up \<Rightarrow> map (\<lambda>j. j # up) (rev [0..<i]))"

definition childCount :: "dnode \<Rightarrow> path \<Rightarrow> nat" where
  "childCount d p = (case nodeAt d p of Some n \<Rightarrow> length (nKids n) | None \<Rightarrow> 0)"

definition following :: "dnode \<Rightarrow> path \<Rightarrow> path list" where
  "following d p = (case p of [] \<Rightarrow> [] | i # up \<Rightarrow> map (\<lambda>j. j # up) [Suc i..<childCount d up])"

text \<open>The proper descendants of a node in document order, and the elements among them.\<close>

fun subtree :: "dnode \<Rightarrow> path \<Rightarrow> path list" and subtrees :: "dnode list \<Rightarrow> nat \<Rightarrow> path \<Rightarrow> path list" where
  "subtree (DNode t n as v ks) p = subtrees ks 0 p"
| "subtrees [] i p = []"
| "subtrees (k # ks) i p = (i # p) # subtree k (i # p) @ subtrees ks (Suc i) p"

definition descendants :: "dnode \<Rightarrow> path \<Rightarrow> path list" where
  "descendants d p = (case nodeAt d p of None \<Rightarrow> [] | Some n \<Rightarrow> filter (isElement d) (subtree n p))"

section \<open>Functions of the engine\<close>

text \<open>
  The text of a node: elements, documents and fragments have the texts of their children, the values of text and
  character data nodes count, others do not.
\<close>

fun getText :: "dnode \<Rightarrow> jstring" and getTexts :: "dnode list \<Rightarrow> jstring" where
  "getText (DNode t n as v ks) =
     (if t = 1 \<or> t = 9 \<or> t = 11 then getTexts ks else if t = 3 \<or> t = 4 then v else [])"
| "getTexts [] = []"
| "getTexts (k # ks) = getText k @ getTexts ks"

text \<open>Containment by following the parents.\<close>

definition containsNode :: "path \<Rightarrow> path \<Rightarrow> bool" where
  "containsNode a b \<longleftrightarrow> list_ex (\<lambda>x. x = a) (ancestors b)"

text \<open>
  What the sorting asks of the browser: whether \<open>compareDocumentPosition\<close> is native, which nodes have it, its bit mask, the method
  \<open>contains\<close> of elements, \<open>sourceIndex\<close> (of old browsers; \<open>None\<close> is \<open>undefined\<close>), the three answers of
  \<open>support\<close> that bear on sorting, and whether the document of the nodes is the one of the window (\<open>preferredDoc\<close>).
\<close>

record sortBrowser =
  hasCompare :: bool
  canCompare :: "path \<Rightarrow> bool"
  compareDocumentPosition :: "path \<Rightarrow> path \<Rightarrow> nat"
  nativeContains :: "path \<Rightarrow> path \<Rightarrow> bool"
  sourceIndex :: "path \<Rightarrow> int option"
  sortDetached :: bool
  sortStable :: bool
  detectDuplicates :: bool
  isPreferred :: bool

text \<open>Containment with the methods of the browser; a document asks its root element.\<close>

definition documentElement :: "dnode \<Rightarrow> path \<Rightarrow> path" where
  "documentElement d p = (case filter (isElement d) (map (\<lambda>j. j # p) [0..<childCount d p]) of [] \<Rightarrow> p | e # _ \<Rightarrow> e)"

definition containsNative :: "sortBrowser \<Rightarrow> dnode \<Rightarrow> path \<Rightarrow> path \<Rightarrow> bool" where
  "containsNative br d a b =
     (case b of
        [] \<Rightarrow> False
      | _ # bup \<Rightarrow>
          a = bup \<or>
          nodeTypeAt d bup = 1 \<and> nativeContains br (if nodeTypeAt d a = 9 then documentElement d a else a) bup)"

text \<open>
  The order of two siblings: the difference of the source indices when both are elements that have one (and it is not 0); otherwise the loop looks for the
  second behind the first.
\<close>

definition sourceDiff :: "sortBrowser \<Rightarrow> dnode \<Rightarrow> path \<Rightarrow> path \<Rightarrow> int" where
  "sourceDiff br d x y =
     (if isElement d x \<and> isElement d y
      then (case (sourceIndex br x, sourceIndex br y) of (Some i, Some j) \<Rightarrow> i - j | _ \<Rightarrow> 0) else 0)"

definition siblingCheck :: "sortBrowser \<Rightarrow> dnode \<Rightarrow> path option \<Rightarrow> path option \<Rightarrow> int" where
  "siblingCheck br d a b =
     (case (a, b) of
        (Some x, Some y) \<Rightarrow>
          if sourceDiff br d x y \<noteq> 0 then sourceDiff br d x y
          else if list_ex (\<lambda>c. c = y) (following d x) then -1 else 1
      | (Some x, None) \<Rightarrow> 1
      | (None, _) \<Rightarrow> -1)"

text \<open>\<open>ap[i]\<close> and \<open>bp[i]\<close> at the first index where the lists from the root differ.\<close>

fun discrepancy :: "path list \<Rightarrow> path list \<Rightarrow> path option \<times> path option" where
  "discrepancy (x # xs) (y # ys) = (if x = y then discrepancy xs ys else (Some x, Some y))"
| "discrepancy xs ys = ((case xs of [] \<Rightarrow> None | x # _ \<Rightarrow> Some x), (case ys of [] \<Rightarrow> None | y # _ \<Rightarrow> Some y))"

text \<open>
  The comparison of two different nodes of one tree, which has the document as its root when the root is of type 9. \<open>sortInput\<close> is the copy of the
  list for browsers whose \<open>sort\<close> is not stable. Nodes of one tree have the same \<open>ownerDocument\<close> and their lists of ancestors begin with the same
  node, so that the answers of the code for nodes of several documents are not needed.
\<close>

definition inputOrder :: "path list option \<Rightarrow> path \<Rightarrow> path \<Rightarrow> int" where
  "inputOrder sortInput a b =
     (case sortInput of
        None \<Rightarrow> 0
      | Some xs \<Rightarrow> int (length (takeWhile (\<lambda>x. x \<noteq> a) xs)) - int (length (takeWhile (\<lambda>x. x \<noteq> b) xs)))"

definition isDocument :: "dnode \<Rightarrow> path \<Rightarrow> bool" where
  "isDocument d a \<longleftrightarrow> a = [] \<and> nType d = 9"

definition orderNative :: "sortBrowser \<Rightarrow> dnode \<Rightarrow> path list option \<Rightarrow> path \<Rightarrow> path \<Rightarrow> int" where
  "orderNative br d sortInput a b =
     (let existence = (if canCompare br a then 0 else 1) - (if canCompare br b then 0 else 1);
          compare = compareDocumentPosition br a b;
          related = (\<lambda>x. isDocument d x \<or> isPreferred br \<and> containsNative br d [] x)
      in if existence \<noteq> 0 then existence
         else if compare mod 2 = 1 \<or> \<not> sortDetached br \<and> compareDocumentPosition br b a = compare
         then (if related a then -1 else if related b then 1 else inputOrder sortInput a b)
         else if compare div 4 mod 2 = 1 then -1 else 1)"

definition orderByWalking :: "sortBrowser \<Rightarrow> dnode \<Rightarrow> path list option \<Rightarrow> path \<Rightarrow> path \<Rightarrow> int" where
  "orderByWalking br d sortInput a b =
     (if a = [] \<or> b = []
      then (if isDocument d a then -1 else if isDocument d b then 1 else if a \<noteq> [] then -1 else if b \<noteq> [] then 1
            else inputOrder sortInput a b)
      else if tl a = tl b then siblingCheck br d (Some a) (Some b)
      else (let (x, y) = discrepancy (rev (a # ancestors a)) (rev (b # ancestors b)) in siblingCheck br d x y))"

text \<open>\<open>sortOrder\<close>, with the flag \<open>hasDuplicate\<close> that it sets when it is asked for a node and the same node.\<close>

definition sortOrder :: "sortBrowser \<Rightarrow> dnode \<Rightarrow> path list option \<Rightarrow> path \<Rightarrow> path \<Rightarrow> bool \<Rightarrow> int \<times> bool" where
  "sortOrder br d sortInput a b hasDuplicate =
     (if a = b then (0, True)
      else if hasCompare br then (orderNative br d sortInput a b, hasDuplicate)
      else (orderByWalking br d sortInput a b, hasDuplicate))"

text \<open>The loop over the sorted list that removes an element equal to the next one.\<close>

fun removeDuplicates :: "'a list \<Rightarrow> 'a list" where
  "removeDuplicates (x # y # xs) = (if x = y then removeDuplicates (y # xs) else x # removeDuplicates (y # xs))"
| "removeDuplicates xs = xs"

text \<open>The flag starts with \<open>!support.detectDuplicates\<close>, and the comparisons of \<open>sort\<close> set it.\<close>

definition uniqueSort :: "sortBrowser \<Rightarrow> dnode \<Rightarrow> path list \<Rightarrow> path list" where
  "uniqueSort br d results =
     (let sortInput = (if sortStable br then None else Some results);
          (sorted, hasDuplicate) = sortNoting (sortOrder br d sortInput) results (\<not> detectDuplicates br)
      in if hasDuplicate then removeDuplicates sorted else sorted)"

section \<open>Lemmas: document order\<close>

text \<open>The order in which the document is written: parents before children, earlier siblings first.\<close>

fun writtenBefore :: "nat list \<Rightarrow> nat list \<Rightarrow> bool" where
  "writtenBefore [] ys \<longleftrightarrow> ys \<noteq> []"
| "writtenBefore (x # xs) [] \<longleftrightarrow> False"
| "writtenBefore (x # xs) (y # ys) \<longleftrightarrow> x < y \<or> x = y \<and> writtenBefore xs ys"

lemma writtenBefore_total: "xs \<noteq> ys \<Longrightarrow> writtenBefore xs ys \<or> writtenBefore ys xs"
  by (induction xs ys rule: writtenBefore.induct) auto

lemma writtenBefore_irrefl [simp]: "\<not> writtenBefore xs xs"
  by (induction xs) auto

lemma writtenBefore_trans: "writtenBefore xs ys \<Longrightarrow> writtenBefore ys zs \<Longrightarrow> writtenBefore xs zs"
proof (induction xs ys arbitrary: zs rule: writtenBefore.induct)
  case (1 ys)
  then show ?case by (cases zs) (auto elim: writtenBefore.elims)
next
  case (3 x xs y ys)
  then show ?case by (cases zs) auto
qed simp

definition docLess :: "path \<Rightarrow> path \<Rightarrow> bool" where
  "docLess a b \<longleftrightarrow> writtenBefore (rev a) (rev b)"

definition docCmp :: "path \<Rightarrow> path \<Rightarrow> int" where
  "docCmp a b = (if a = b then 0 else if docLess a b then -1 else 1)"

interpretation dc: comparator docCmp
proof unfold_locales
  fix x y z :: path
  have total: "docLess y x" if "x \<noteq> y" "\<not> docLess x y" for x y :: path
    using writtenBefore_total [of "rev x" "rev y"] that by (auto simp: docLess_def)
  show "docCmp y x \<le> 0" if "docCmp x y > 0" using that total [of x y] by (auto simp: docCmp_def split: if_splits)
  show "docCmp x z \<le> 0" if "docCmp x y \<le> 0" "docCmp y z \<le> 0"
    using that writtenBefore_trans [of "rev x" "rev y" "rev z"] by (auto simp: docCmp_def docLess_def split: if_splits)
qed

text \<open>The nodes from the root down to a node.\<close>

fun downFrom :: "path \<Rightarrow> nat list \<Rightarrow> path list" where
  "downFrom up [] = [up]"
| "downFrom up (x # xs) = up # downFrom (x # up) xs"

lemma downFrom_snoc: "downFrom up (xs @ [x]) = downFrom up xs @ [x # rev xs @ up]"
  by (induction up xs rule: downFrom.induct) auto

lemma rev_ancestors: "rev (a # ancestors a) = downFrom [] (rev a)"
proof (induction a)
  case (Cons i a)
  then show ?case by (simp add: downFrom_snoc)
qed simp

definition inDoc :: "dnode \<Rightarrow> path \<Rightarrow> bool" where
  "inDoc d p \<longleftrightarrow> nodeAt d p \<noteq> None"

lemma inDoc_tl: "inDoc d (i # up) \<Longrightarrow> inDoc d up \<and> i < childCount d up"
  by (auto simp: inDoc_def childCount_def split: option.splits if_splits)

lemma inDoc_append: "inDoc d (xs @ up) \<Longrightarrow> inDoc d up"
  by (induction xs) (use inDoc_tl in auto)

text \<open>
  What the DOM standard says of \<open>compareDocumentPosition\<close> for two nodes of one tree (4: the other follows, 2: it precedes, 16 and 8: one contains the other), and
  what the browsers with \<open>sourceIndex\<close> say of it: it counts the elements in the order of the page.
\<close>

definition position :: "path \<Rightarrow> path \<Rightarrow> nat" where
  "position a b =
     (if docLess a b then (if a \<in> set (ancestors b) then 20 else 4) else (if b \<in> set (ancestors a) then 10 else 2))"

definition standardBrowser :: "sortBrowser \<Rightarrow> dnode \<Rightarrow> bool" where
  "standardBrowser br d \<longleftrightarrow>
     (hasCompare br \<longrightarrow>
        (\<forall>a b. inDoc d a \<longrightarrow> inDoc d b \<longrightarrow> canCompare br a \<and> (a \<noteq> b \<longrightarrow> compareDocumentPosition br a b = position a b))) \<and>
     (\<forall>a b i j. inDoc d a \<longrightarrow> inDoc d b \<longrightarrow> isElement d a \<longrightarrow> isElement d b \<longrightarrow> sourceIndex br a = Some i \<longrightarrow> sourceIndex br b = Some j \<longrightarrow>
        (i < j \<longleftrightarrow> docLess a b))"

text \<open>The sign of a comparison is all that sorting looks at.\<close>

definition signIs :: "bool \<Rightarrow> int \<Rightarrow> bool" where
  "signIs before r \<longleftrightarrow> (if before then r < 0 else r > 0)"

lemma sibling_order: "x \<noteq> y \<Longrightarrow> docLess (x # up) (y # up) \<longleftrightarrow> x < y"
proof -
  have "x \<noteq> y \<Longrightarrow> writtenBefore (xs @ [x]) (xs @ [y]) = (x < y)" for xs by (induction xs) auto
  then show "x \<noteq> y \<Longrightarrow> docLess (x # up) (y # up) \<longleftrightarrow> x < y" by (simp add: docLess_def)
qed

lemma docLess_asym: "a \<noteq> b \<Longrightarrow> docLess b a \<longleftrightarrow> \<not> docLess a b"
  using writtenBefore_total [of "rev a" "rev b"] writtenBefore_trans [of "rev a" "rev b" "rev a"]
  by (auto simp: docLess_def)

lemma siblingCheck_index:
  assumes "standardBrowser br d" "inDoc d (x # up)" "inDoc d (y # up)" "x \<noteq> y"
  shows "signIs (x < y) (siblingCheck br d (Some (x # up)) (Some (y # up)))"
proof (cases "sourceDiff br d (x # up) (y # up) = 0")
  case True
  then show ?thesis using inDoc_tl [OF assms(3)] assms(4)
    by (auto simp: siblingCheck_def following_def list_ex_iff signIs_def)
next
  case False
  then obtain i j where ij: "sourceIndex br (x # up) = Some i" "sourceIndex br (y # up) = Some j"
    "isElement d (x # up)" "isElement d (y # up)"
    by (auto simp: sourceDiff_def split: if_splits option.splits)
  then have "i < j \<longleftrightarrow> docLess (x # up) (y # up)" using assms(1-3) unfolding standardBrowser_def by blast
  then show ?thesis using False ij sibling_order [OF assms(4), of up]
    by (auto simp: siblingCheck_def sourceDiff_def signIs_def)
qed

lemma discrepancy_order:
  assumes "standardBrowser br d"
  shows "xs \<noteq> ys \<Longrightarrow> inDoc d (rev xs @ up) \<Longrightarrow> inDoc d (rev ys @ up) \<Longrightarrow>
    signIs (writtenBefore xs ys) (case discrepancy (downFrom up xs) (downFrom up ys) of (x, y) \<Rightarrow> siblingCheck br d x y)"
proof (induction xs arbitrary: ys up)
  case Nil
  then obtain y zs where "ys = y # zs" by (cases ys) auto
  then show ?case by (cases zs) (simp_all add: siblingCheck_def signIs_def)
next
  case (Cons x xs)
  show ?case
  proof (cases ys)
    case Nil
    then show ?thesis by (cases xs) (simp_all add: siblingCheck_def signIs_def)
  next
    case (Cons y zs)
    show ?thesis
    proof (cases "x = y")
      case True
      with Cons Cons.prems show ?thesis using Cons.IH [of zs "y # up"] by simp
    next
      case False
      have "inDoc d (y # up)" "inDoc d (x # up)"
        using Cons.prems(2,3) Cons inDoc_append [of d "rev zs" "y # up"] inDoc_append [of d "rev xs" "x # up"] by simp_all
      from siblingCheck_index [OF assms this(2,1) False] False Cons show ?thesis
        by (cases xs; cases zs) auto
    qed
  qed
qed

lemma orderByWalking_sign:
  assumes "standardBrowser br d" "nType d = 9" "inDoc d a" "inDoc d b" "a \<noteq> b"
  shows "signIs (docLess a b) (orderByWalking br d inp a b)"
proof (cases "a = [] \<or> b = []")
  case True
  then show ?thesis using assms(2,5) by (cases "rev a"; cases "rev b") (auto simp: orderByWalking_def isDocument_def docLess_def signIs_def)
next
  case F: False
  show ?thesis
  proof (cases "tl a = tl b")
    case True
    then obtain i j up where ab: "a = i # up" "b = j # up" using F by (cases a; cases b) auto
    with siblingCheck_index [OF assms(1), of i up j] sibling_order [of i j up] assms(3-5) show ?thesis
      by (simp add: orderByWalking_def)
  next
    case False
    with F show ?thesis
      using discrepancy_order [OF assms(1), of "rev a" "rev b" "[]"] assms(3-5)
      by (simp add: orderByWalking_def docLess_def rev_ancestors [simplified] split: prod.splits)
  qed
qed

lemma orderNative_sign:
  assumes "standardBrowser br d" "hasCompare br" "inDoc d a" "inDoc d b" "a \<noteq> b"
  shows "signIs (docLess a b) (orderNative br d inp a b)"
proof -
  have "canCompare br a" "canCompare br b" "compareDocumentPosition br a b = position a b" "compareDocumentPosition br b a = position b a"
    using assms unfolding standardBrowser_def by blast+
  with docLess_asym [OF assms(5)] show ?thesis by (auto simp: orderNative_def position_def signIs_def Let_def)
qed

lemma sortOrder_docCmp:
  assumes "standardBrowser br d" "nType d = 9" "inDoc d a" "inDoc d b"
  shows "\<exists>r. sortOrder br d inp a b s = (r, s \<or> a = b) \<and> (r \<le> 0 \<longleftrightarrow> docCmp a b \<le> 0)"
proof (cases "a = b")
  case False
  with orderNative_sign [OF assms(1) _ assms(3,4) False, of inp] orderByWalking_sign [OF assms False, of inp] show ?thesis
    by (auto simp: sortOrder_def docCmp_def signIs_def split: if_splits)
qed (simp add: sortOrder_def docCmp_def)

text \<open>Sorting with the flag is sorting, and the flag tells whether a node comes twice.\<close>

lemma insertNoting_docCmp:
  assumes "\<And>y s. y \<in> set ys \<Longrightarrow> \<exists>r. c x y s = (r, s \<or> x = y) \<and> (r \<le> 0 \<longleftrightarrow> docCmp x y \<le> 0)"
    and "sorted_wrt (\<lambda>a b. docCmp a b \<le> 0) ys"
  shows "insertNoting c x ys s = (insertBy docCmp x ys, s \<or> x \<in> set ys)"
  using assms
proof (induction ys arbitrary: s)
  case (Cons y ys)
  obtain r where r: "c x y s = (r, s \<or> x = y)" "r \<le> 0 \<longleftrightarrow> docCmp x y \<le> 0" using Cons.prems(1) [of y s] by auto
  show ?case
  proof (cases "docCmp x y \<le> 0")
    case True
    have "x \<notin> set ys" if "x \<noteq> y"
    proof
      assume "x \<in> set ys"
      then have "docCmp y x \<le> 0" using Cons.prems(2) by simp
      with True that docLess_asym [OF that] show False by (simp add: docCmp_def split: if_splits)
    qed
    with True r show ?thesis by auto
  next
    case False
    then have "x \<noteq> y" by (auto simp: docCmp_def)
    with False r Cons show ?thesis by simp
  qed
qed simp

lemma sortNoting_docCmp:
  assumes "\<And>x y s. x \<in> set xs \<Longrightarrow> y \<in> set xs \<Longrightarrow> \<exists>r. c x y s = (r, s \<or> x = y) \<and> (r \<le> 0 \<longleftrightarrow> docCmp x y \<le> 0)"
  shows "sortNoting c xs s = (sortBy docCmp xs, s \<or> \<not> distinct xs)"
  using assms
proof (induction xs)
  case (Cons x xs)
  have set: "set (sortBy docCmp xs) = set xs" by (metis dc.mset_sortBy set_mset_mset)
  have "insertNoting c x (sortBy docCmp xs) (s \<or> \<not> distinct xs) =
      (insertBy docCmp x (sortBy docCmp xs), (s \<or> \<not> distinct xs) \<or> x \<in> set (sortBy docCmp xs))"
    by (rule insertNoting_docCmp [OF _ dc.sorted_sortBy]) (use Cons.prems set in auto)
  with Cons set show ?case by (auto simp: sortBy_def)
qed (simp add: sortBy_def)

lemma removeDuplicates_set: "set (removeDuplicates xs) = set xs"
  by (induction xs rule: removeDuplicates.induct) auto

lemma removeDuplicates_sorted:
  "sorted_wrt (\<lambda>a b. docCmp a b \<le> 0) xs \<Longrightarrow> sorted_wrt docLess (removeDuplicates xs)"
proof (induction xs rule: removeDuplicates.induct)
  case (1 x y xs)
  show ?case
  proof (cases "x = y")
    case False
    have "docLess x z" if "z \<in> set (y # xs)" for z
    proof (cases "x = z")
      case True
      with that 1(3) False have "docCmp x y \<le> 0" "docCmp y x \<le> 0" by auto
      then show ?thesis using False writtenBefore_trans [of "rev x" "rev y" "rev x"]
        by (auto simp: docCmp_def docLess_def split: if_splits)
    next
      case z: False
      with that 1(3) have "docCmp x z \<le> 0" by auto
      with z show ?thesis by (simp add: docCmp_def split: if_splits)
    qed
    with 1(2) [OF False] 1(3) False show ?thesis by (auto simp: removeDuplicates_set)
  qed (use 1 in auto)
qed auto

lemma removeDuplicates_distinct: "distinct xs \<Longrightarrow> removeDuplicates xs = xs"
  by (induction xs rule: removeDuplicates.induct) auto

text \<open>The preorder of a node lists its descendants in document order.\<close>

lemma below_paths:
  "q \<in> set (subtree n p) \<Longrightarrow> \<exists>xs. xs \<noteq> [] \<and> q = xs @ p"
  "q \<in> set (subtrees ks i p) \<Longrightarrow> \<exists>xs j. i \<le> j \<and> q = xs @ j # p"
proof (induction n p and ks i p rule: subtree_subtrees.induct)
  case (1 t n as v ks p)
  then show ?case by force
next
  case (3 k ks i p)
  then consider "q = i # p" | "q \<in> set (subtree k (i # p))" | "q \<in> set (subtrees ks (Suc i) p)" by auto
  then show ?case
  proof cases
    case 1
    then show ?thesis by (intro exI [of _ "[]"]) auto
  next
    case 2
    then show ?thesis using 3(1) by auto
  next
    case c: 3
    then show ?thesis using 3(2) Suc_leD by blast
  qed
qed simp

lemma nodeAt_append: "nodeAt d (xs @ p) = (case nodeAt d p of None \<Rightarrow> None | Some n \<Rightarrow> nodeAt n xs)"
  by (induction xs) (auto split: option.split)

lemma nodeAt_last: "nodeAt n (xs @ [j]) = (if j < length (nKids n) then nodeAt (nKids n ! j) xs else None)"
  by (simp add: nodeAt_append)

lemma below_iff:
  "q \<in> set (subtree n p) \<longleftrightarrow> (\<exists>xs. xs \<noteq> [] \<and> q = xs @ p \<and> nodeAt n xs \<noteq> None)"
  "q \<in> set (subtrees ks i p) \<longleftrightarrow> (\<exists>xs j. j < length ks \<and> q = xs @ (i + j) # p \<and> nodeAt (ks ! j) xs \<noteq> None)"
proof (induction n p and ks i p rule: subtree_subtrees.induct)
  case (1 t n as v ks p)
  have "(\<exists>xs. xs \<noteq> [] \<and> q = xs @ p \<and> nodeAt (DNode t n as v ks) xs \<noteq> None) \<longleftrightarrow>
      (\<exists>xs j. j < length ks \<and> q = xs @ j # p \<and> nodeAt (ks ! j) xs \<noteq> None)" (is "?l = ?r")
  proof
    assume ?l
    then obtain xs where xs: "xs \<noteq> []" "q = xs @ p" "nodeAt (DNode t n as v ks) xs \<noteq> None" by blast
    then obtain ys j where "xs = ys @ [j]" by (cases xs rule: rev_cases) auto
    with xs show ?r by (auto simp: nodeAt_last split: if_splits)
  next
    assume ?r
    then obtain xs j where "j < length ks" "q = xs @ j # p" "nodeAt (ks ! j) xs \<noteq> None" by blast
    then show ?l by (intro exI [of _ "xs @ [j]"]) (simp add: nodeAt_last)
  qed
  with 1 show ?case by simp
next
  case (3 k ks i p)
  have "(\<exists>xs j. j < length (k # ks) \<and> q = xs @ (i + j) # p \<and> nodeAt ((k # ks) ! j) xs \<noteq> None) \<longleftrightarrow>
      (\<exists>xs. q = xs @ i # p \<and> nodeAt k xs \<noteq> None) \<or>
      (\<exists>xs j. j < length ks \<and> q = xs @ (Suc i + j) # p \<and> nodeAt (ks ! j) xs \<noteq> None)" (is "?l = (?a \<or> ?b)")
  proof
    assume ?l
    then obtain xs j where j: "j < length (k # ks)" "q = xs @ (i + j) # p" "nodeAt ((k # ks) ! j) xs \<noteq> None" by blast
    show "?a \<or> ?b"
    proof (cases j)
      case 0
      with j show ?thesis by auto
    next
      case (Suc j')
      with j have "j' < length ks \<and> q = xs @ (Suc i + j') # p \<and> nodeAt (ks ! j') xs \<noteq> None" by simp
      then show ?thesis by blast
    qed
  next
    assume "?a \<or> ?b"
    then consider xs where "q = xs @ i # p" "nodeAt k xs \<noteq> None"
      | xs j where "j < length ks" "q = xs @ (Suc i + j) # p" "nodeAt (ks ! j) xs \<noteq> None" by blast
    then show ?l
    proof cases
      case 1
      then show ?thesis by (intro exI [of _ xs] exI [of _ 0]) simp
    next
      case 2
      then show ?thesis by (intro exI [of _ xs] exI [of _ "Suc j"]) simp
    qed
  qed
  moreover have "(\<exists>xs. q = xs @ i # p \<and> nodeAt k xs \<noteq> None) \<longleftrightarrow> q = i # p \<or> q \<in> set (subtree k (i # p))"
    unfolding 3(1) by (metis append_Nil nodeAt.simps(1) option.distinct(1))
  ultimately show ?case using 3(2) by auto
qed simp

lemma docLess_append: "xs \<noteq> [] \<Longrightarrow> docLess p (xs @ p)"
proof -
  have "writtenBefore ys (ys @ zs) \<longleftrightarrow> zs \<noteq> []" for ys zs by (induction ys) auto
  then show "xs \<noteq> [] \<Longrightarrow> docLess p (xs @ p)" by (simp add: docLess_def)
qed

lemma docLess_sibling: "i < j \<Longrightarrow> docLess (xs @ i # p) (ys @ j # p)"
proof -
  assume "i < j"
  then have "writtenBefore (us @ i # vs) (us @ j # ws)" for us vs ws by (induction us) auto
  then show "docLess (xs @ i # p) (ys @ j # p)" by (simp add: docLess_def)
qed

lemma below_sorted: "sorted_wrt docLess (subtree n p)" "sorted_wrt docLess (subtrees ks i p)"
proof (induction n p and ks i p rule: subtree_subtrees.induct)
  case (3 k ks i p)
  have first: "docLess (i # p) q" if "q \<in> set (subtree k (i # p))" for q
    using below_paths(1) [OF that] docLess_append by auto
  have later: "docLess x q" if q: "q \<in> set (subtrees ks (Suc i) p)" and x: "x = i # p \<or> x \<in> set (subtree k (i # p))" for x q
  proof -
    obtain ys j where "Suc i \<le> j" "q = ys @ j # p" using below_paths(2) [OF q] by blast
    moreover obtain xs where "x = xs @ i # p" using x below_paths(1) [of x k "i # p"] by (metis append_Nil)
    ultimately show ?thesis using docLess_sibling [of i j xs p ys] by simp
  qed
  from 3 first later show ?case by (auto simp: sorted_wrt_append)
qed simp_all

lemma ancestors_iff: "p \<in> set (ancestors q) \<longleftrightarrow> (\<exists>xs. xs \<noteq> [] \<and> q = xs @ p)"
proof (induction q)
  case (Cons i q)
  show ?case
  proof
    assume "p \<in> set (ancestors (i # q))"
    then consider "p = q" | xs where "q = xs @ p" using Cons by auto
    then show "\<exists>xs. xs \<noteq> [] \<and> i # q = xs @ p"
    proof cases
      case 1
      then show ?thesis by (intro exI [of _ "[i]"]) simp
    next
      case 2
      then show ?thesis by (intro exI [of _ "i # xs"]) simp
    qed
  next
    assume "\<exists>xs. xs \<noteq> [] \<and> i # q = xs @ p"
    then obtain xs where "xs \<noteq> []" "i # q = xs @ p" by blast
    then show "p \<in> set (ancestors (i # q))" using Cons by (cases xs; cases "tl xs") auto
  qed
qed simp

lemma descendants_set: "inDoc d p \<Longrightarrow> set (descendants d p) = {q. inDoc d q \<and> isElement d q \<and> p \<in> set (ancestors q)}"
proof -
  assume "inDoc d p"
  then obtain n where n: "nodeAt d p = Some n" by (auto simp: inDoc_def)
  have "q \<in> set (subtree n p) \<longleftrightarrow> inDoc d q \<and> p \<in> set (ancestors q)" for q
    unfolding below_iff ancestors_iff inDoc_def using n by (auto simp: nodeAt_append)
  with n show ?thesis by (auto simp: descendants_def)
qed

lemma descendants_sorted: "sorted_wrt docLess (descendants d p)"
  by (auto simp: descendants_def sorted_wrt_filter below_sorted split: option.split)

lemma docLess_irrefl [simp]: "\<not> docLess p p"
  by (simp add: docLess_def)

lemma docLess_trans: "docLess a b \<Longrightarrow> docLess b c \<Longrightarrow> docLess a c"
  unfolding docLess_def by (rule writtenBefore_trans)

text \<open>Lists in document order with the same nodes are the same.\<close>

lemma docLess_unique:
  "sorted_wrt docLess xs \<Longrightarrow> sorted_wrt docLess ys \<Longrightarrow> set xs = set ys \<Longrightarrow> xs = ys"
proof (induction xs arbitrary: ys)
  case (Cons x xs)
  then obtain y zs where ys: "ys = y # zs" by (cases ys) auto
  have "x = y"
  proof (rule ccontr)
    assume "x \<noteq> y"
    then have "x \<in> set zs" "y \<in> set xs" using Cons.prems(3) ys by auto
    then have "docLess y x" "docLess x y" using Cons.prems(1,2) ys by auto
    then show False using docLess_trans [of x y x] by simp
  qed
  moreover have "x \<notin> set xs" "y \<notin> set zs" using Cons.prems(1,2) ys by auto
  ultimately have "set xs = set zs" using Cons.prems(3) ys by auto
  with Cons ys \<open>x = y\<close> show ?case by auto
qed simp

section \<open>Properties\<close>

text \<open>
  C38. \<open>uniqueSort\<close> puts nodes of a document in document order: the result has the same nodes, each one once, and every
  node precedes the ones that come later in the document. This holds with \<open>compareDocumentPosition\<close> and without it, with
  and without \<open>sourceIndex\<close>, and whether the browser is trusted to notice repeated nodes or not: the comparison of a node with itself, which
  sorting a list with a repeated node makes, turns the removal on. (For nodes of one document, and \<open>compareDocumentPosition\<close> and
  \<open>sourceIndex\<close> as documented.)
\<close>
theorem uniqueSort_document_order:
  assumes "list_all (inDoc d) results" "nType d = 9" "standardBrowser br d"
  shows "set (uniqueSort br d results) = set results \<and> distinct (uniqueSort br d results) \<and>
    sorted_wrt docLess (uniqueSort br d results)"
proof -
  let ?s = "sortBy docCmp results"
  have set: "set ?s = set results" by (metis dc.mset_sortBy set_mset_mset)
  have sort: "sortNoting (sortOrder br d inp) results s = (?s, s \<or> \<not> distinct results)" for inp s
    by (rule sortNoting_docCmp) (use sortOrder_docCmp [OF assms(3,2)] assms(1) in \<open>simp add: list_all_iff\<close>)
  have "distinct results \<Longrightarrow> removeDuplicates ?s = ?s"
    using dc.mset_sortBy [of results] by (metis mset_eq_imp_distinct_iff removeDuplicates_distinct)
  then have "uniqueSort br d results = removeDuplicates ?s" by (auto simp: uniqueSort_def sort Let_def)
  moreover have "sorted_wrt docLess (removeDuplicates ?s)"
    by (rule removeDuplicates_sorted [OF dc.sorted_sortBy])
  moreover have "distinct xs" if "sorted_wrt docLess xs" for xs
    using that by (induction xs) (auto simp: docLess_def)
  ultimately show ?thesis using set by (simp add: removeDuplicates_set)
qed

definition sampleTree :: dnode where
  "sampleTree = DNode 9 (js ''#document'') [] []
     [DNode 1 (js ''HTML'') [] [] [DNode 1 (js ''P'') [] [] [DNode 3 (js ''#text'') [] (js ''hi'') []],
        DNode 1 (js ''UL'') [(js ''class'', js ''nav'')] [] [DNode 1 (js ''LI'') [] [] []]]]"

text \<open>A browser of today, which notices repeated nodes.\<close>

definition sampleBrowser :: sortBrowser where
  "sampleBrowser = \<lparr>hasCompare = True, canCompare = (\<lambda>_. True), compareDocumentPosition = position,
     nativeContains = (\<lambda>a b. a = b \<or> containsNode a b), sourceIndex = (\<lambda>_. None), sortDetached = True, sortStable = True,
     detectDuplicates = True, isPreferred = True\<rparr>"

theorem uniqueSort_document_order_witness:
  "set (uniqueSort sampleBrowser sampleTree [[0, 1, 0], [0, 0], [0, 0], [0]]) = set [[0, 1, 0], [0, 0], [0, 0], [0]] \<and>
   distinct (uniqueSort sampleBrowser sampleTree [[0, 1, 0], [0, 0], [0, 0], [0]]) \<and>
   sorted_wrt docLess (uniqueSort sampleBrowser sampleTree [[0, 1, 0], [0, 0], [0, 0], [0]])"
proof (rule uniqueSort_document_order)
  show "list_all (inDoc sampleTree) [[0, 1, 0], [0, 0], [0, 0], [0]]" by (simp add: inDoc_def sampleTree_def)
  show "nType sampleTree = 9" by (simp add: sampleTree_def)
  show "standardBrowser sampleBrowser sampleTree" by (simp add: standardBrowser_def sampleBrowser_def)
qed

end
