(* ===== verification/Sizzle_Tokenizer.thy ===== *)
theory Sizzle_Tokenizer
  imports JS_Regex
begin

text \<open>
  The tokenizer of the selector engine of \<^verbatim>\<open>jquery.js\<close> (\<open>tokenize\<close>, \<open>preFilter\<close>, \<open>toSelector\<close>) with its
  regular expressions, and the escaping of names in selectors (\<open>escape\<close>, \<open>runescape\<close>). The lemmas
  show that the tokens put together are the selector, that selectors that are written from parts are
  read as these parts, and that an escaped name is read as the name.
\<close>

section \<open>Regular expressions of selectors\<close>

definition white :: "nat \<Rightarrow> bool" where
  "white c \<longleftrightarrow> c \<in> {32, 9, 13, 10, 12}"

definition isHex :: "nat \<Rightarrow> bool" where
  "isHex c \<longleftrightarrow> 48 \<le> c \<and> c \<le> 57 \<or> 97 \<le> c \<and> c \<le> 102 \<or> 65 \<le> c \<and> c \<le> 70"

definition isDigit :: "nat \<Rightarrow> bool" where
  "isDigit c \<longleftrightarrow> 48 \<le> c \<and> c \<le> 57"

text \<open>\<^verbatim>\<open>[\w-]\<close>.\<close>

definition nameChar :: "nat \<Rightarrow> bool" where
  "nameChar c \<longleftrightarrow> isDigit c \<or> 65 \<le> c \<and> c \<le> 90 \<or> 97 \<le> c \<and> c \<le> 122 \<or> c = 95 \<or> c = 45"

abbreviation one :: "nat \<Rightarrow> rx" where
  "one c \<equiv> Sym (\<lambda>x. x = c)"

definition blanks :: rx where
  "blanks = Star (Sym white)"

text \<open>\<^verbatim>\<open>(?:\\[\da-fA-F]{1,6}ws?|\\[^\r\n\f]|[\w-]|[^\0-\x7f])+\<close>.\<close>

definition identChar :: rx where
  "identChar =
     Or (Cat (one 92) (Cat (Sym isHex) (Cat (upTo 5 (Sym isHex)) (Maybe (Sym white)))))
       (Or (Cat (one 92) (Sym (\<lambda>c. c \<notin> {13, 10, 12}))) (Or (Sym nameChar) (Sym (\<lambda>c. c > 127))))"

definition identRx :: rx where
  "identRx = Plus identChar"

text \<open>\<^verbatim>\<open>(?:\\.|[^\\q])*\<close>: the inside of a text in quotes.\<close>

definition quotedBody :: "nat \<Rightarrow> rx" where
  "quotedBody q = Star (Or (Cat (one 92) (Sym (\<lambda>c. \<not> is_line_end c))) (Sym (\<lambda>c. c \<noteq> 92 \<and> c \<noteq> q)))"

definition quoted :: "(nat \<Rightarrow> rx \<Rightarrow> rx) \<Rightarrow> nat \<Rightarrow> rx" where
  "quoted g n =
     Or (Cat (one 39) (Cat (g n (quotedBody 39)) (one 39))) (Cat (one 34) (Cat (g (Suc n) (quotedBody 34)) (one 34)))"

text \<open>The expression \<open>attributes\<close>, with its groups or (inside another expression) without.\<close>

definition attributes :: "(nat \<Rightarrow> rx \<Rightarrow> rx) \<Rightarrow> rx" where
  "attributes g =
     Cat (one 91) (Cat blanks (Cat (g 1 identRx) (Cat
       (Maybe (Cat blanks (Cat (g 2 (Cat (Maybe (Sym (\<lambda>c. c \<in> set (js ''*^$|!~'')))) (one 61))) (Cat blanks
         (Or (quoted g 3) (g 5 identRx))))))
       (Cat blanks (one 93)))))"

definition noGrp :: "nat \<Rightarrow> rx \<Rightarrow> rx" where
  "noGrp n r = r"

definition pseudos :: rx where
  "pseudos =
     Cat (one 58) (Cat (Grp 1 identRx) (Maybe
       (Cat (one 40) (Cat
         (Grp 2 (Or (Grp 3 (quoted Grp 4))
           (Or (Grp 6 (Star (Or (Cat (one 92) (Sym (\<lambda>c. \<not> is_line_end c)))
                  (Or (Sym (\<lambda>c. c \<notin> {92, 40, 41, 91, 93})) (attributes noGrp)))))
             (Star (Sym (\<lambda>c. \<not> is_line_end c))))))
         (one 41)))))"

text \<open>A letter in either case.\<close>

definition lowerAscii :: "nat \<Rightarrow> nat" where
  "lowerAscii c = (if 65 \<le> c \<and> c \<le> 90 then c + 32 else c)"

fun anyCase :: "jstring \<Rightarrow> rx" where
  "anyCase [] = Eps"
| "anyCase (c # s) = Cat (Sym (\<lambda>x. lowerAscii x = c)) (anyCase s)"

fun oneOf :: "jstring list \<Rightarrow> rx" where
  "oneOf [] = Sym (\<lambda>_. False)"
| "oneOf [w] = anyCase w"
| "oneOf (w # v # ws) = Or (anyCase w) (oneOf (v # ws))"

definition signRx :: rx where
  "signRx = Maybe (Sym (\<lambda>c. c = 43 \<or> c = 45))"

definition childExpr :: rx where
  "childExpr =
     Cat (one 58) (Cat (Grp 1 (oneOf [js ''only'', js ''first'', js ''last'', js ''nth'', js ''nth-last''])) (Cat (one 45)
       (Cat (Grp 2 (oneOf [js ''child'', js ''of-type''])) (Maybe (Cat (one 40) (Cat blanks (Cat
         (Grp 3 (Or (oneOf [js ''even'', js ''odd''])
           (Cat (Grp 4 (Maybe (Cat (Grp 5 signRx) (Cat (Grp 6 (Star (Sym isDigit))) (anyCase [110])))))
             (Cat blanks (Maybe (Cat (Grp 7 signRx) (Cat blanks (Grp 8 (Plus (Sym isDigit))))))))))
         (Cat blanks (one 41)))))))))"

definition rcomma :: rx where
  "rcomma = Cat blanks (Cat (one 44) blanks)"

definition rcombinators :: rx where
  "rcombinators = Cat blanks (Cat (Grp 1 (Or (Sym (\<lambda>c. c \<in> {62, 43, 126})) (Sym white))) blanks)"

section \<open>Escapes\<close>

definition hexDigitVal :: "nat \<Rightarrow> nat" where
  "hexDigitVal c = (if c \<le> 57 then c - 48 else if c \<ge> 97 then c - 87 else c - 55)"

definition hexVal16 :: "jstring \<Rightarrow> nat" where
  "hexVal16 h = foldl (\<lambda>a c. a * 16 + hexDigitVal c) 0 h"

text \<open>\<open>funescape\<close> of a hexadecimal escape: a unit, or a pair of surrogates.\<close>

definition hexUnits :: "jstring \<Rightarrow> jstring" where
  "hexUnits h =
     (let v = hexVal16 h
      in if v < 65536 then [v]
         else [or ((v - 65536) div 1024) 55296, or ((v - 65536) mod 1024) 56320])"

text \<open>\<open>s.replace(runescape, funescape)\<close>.\<close>

function unescapeCss :: "jstring \<Rightarrow> jstring" where
  "unescapeCss s =
     (case s of
        [] \<Rightarrow> []
      | c # t \<Rightarrow>
          if c \<noteq> 92 then c # unescapeCss t
          else
            (let h = takeWhile isHex (take 6 t); u = drop (length h) t
             in if h \<noteq> [] then hexUnits h @ unescapeCss (case u of w # v \<Rightarrow> if white w then v else u | [] \<Rightarrow> [])
                else case t of
                    [] \<Rightarrow> [c]
                  | e # v \<Rightarrow> if e \<in> {13, 10, 12} then c # unescapeCss t else e # unescapeCss v))"
  by pat_completeness auto
termination
  by (relation "measure length") (auto simp: less_Suc_eq_le split: list.splits dest: arg_cong [where f = length])

declare unescapeCss.simps [simp del]

text \<open>The hexadecimal form of a number below 256.\<close>

definition hexChar :: "nat \<Rightarrow> nat" where
  "hexChar n = (if n < 10 then n + 48 else n + 87)"

definition hexText :: "nat \<Rightarrow> jstring" where
  "hexText n = (if n < 16 then [hexChar n] else [hexChar (n div 16), hexChar (n mod 16)])"

text \<open>\<open>fcssescape\<close> of a character that is written as a code point, and of a special character.\<close>

definition codeEscape :: "nat \<Rightarrow> jstring" where
  "codeEscape c = (if c = 0 then [65533] else [92] @ hexText c @ [32])"

definition escapeUnit :: "nat \<Rightarrow> jstring" where
  "escapeUnit c =
     (if c \<le> 31 \<or> c = 127 then codeEscape c
      else if c \<ge> 127 \<or> nameChar c then [c]
      else [92, c])"

definition escapeCss :: "jstring \<Rightarrow> jstring" where
  "escapeCss s =
     (case s of
        [] \<Rightarrow> []
      | c # t \<Rightarrow>
          if isDigit c then codeEscape c @ concat (map escapeUnit t)
          else if c = 45 \<and> t = [] then [92, 45]
          else if c = 45 \<and> t \<noteq> [] \<and> isDigit (hd t) then 45 # codeEscape (hd t) @ concat (map escapeUnit (tl t))
          else concat (map escapeUnit s))"

section \<open>Tokens\<close>

datatype rel = Child | Descendant | Adjacent | Sibling

datatype filt =
    TagF jstring
  | ClassF jstring
  | AttrF jstring "jstring option" jstring
  | ChildF jstring jstring int int
  | PseudoF jstring "jstring option"
  | IdF jstring

datatype token = Rel jstring rel | Flt jstring filt

fun tokenValue :: "token \<Rightarrow> jstring" where
  "tokenValue (Rel v r) = v"
| "tokenValue (Flt v f) = v"

definition toSelector :: "token list \<Rightarrow> jstring" where
  "toSelector tokens = concat (map tokenValue tokens)"

text \<open>
  The errors: a selector that is not understood, a missing argument, and (in the model only) a construct that is not
  covered.
\<close>

datatype sizzle_error = SyntaxError jstring | MissingArgument | Uncovered

definition relOf :: "nat \<Rightarrow> rel" where
  "relOf c = (if c = 62 then Child else if c = 43 then Adjacent else if c = 126 then Sibling else Descendant)"

section \<open>Prefilters\<close>

definition orEmpty :: "jstring option \<Rightarrow> jstring" where
  "orEmpty v = (case v of Some s \<Rightarrow> s | None \<Rightarrow> [])"

text \<open>\<open>a || b\<close> for texts.\<close>

definition orText :: "jstring option \<Rightarrow> jstring option \<Rightarrow> jstring option" where
  "orText a b = (if orEmpty a \<noteq> [] then a else b)"

definition attrPreFilter :: "captures \<Rightarrow> filt" where
  "attrPreFilter c =
     (let v = unescapeCss (orEmpty (orText (grp c 3) (orText (grp c 4) (grp c 5))))
      in AttrF (unescapeCss (orEmpty (grp c 1))) (grp c 2) (if grp c 2 = Some (js ''~='') then [32] @ v @ [32] else v))"

definition digitsVal :: "jstring \<Rightarrow> int" where
  "digitsVal s = foldl (\<lambda>a c. a * 10 + int (c - 48)) 0 s"

definition signed :: "jstring \<Rightarrow> int \<Rightarrow> int" where
  "signed s n = (if s = [45] then - n else n)"

definition childPreFilter :: "captures \<Rightarrow> jstring \<Rightarrow> sizzle_error + filt" where
  "childPreFilter c m =
     (let type = map lowerAscii (orEmpty (grp c 1)); what = orEmpty (grp c 2); arg = orEmpty (grp c 3);
          first = (if orEmpty (grp c 4) \<noteq> []
                   then signed (orEmpty (grp c 5)) (if orEmpty (grp c 6) \<noteq> [] then digitsVal (orEmpty (grp c 6)) else 1)
                   else if arg = js ''even'' \<or> arg = js ''odd'' then 2 else 0);
          last = (case (grp c 7, grp c 8) of
                    (Some a, Some b) \<Rightarrow> signed a (digitsVal b)
                  | _ \<Rightarrow> if arg = js ''odd'' then 1 else 0)
      in if take 3 type = js ''nth''
         then (if arg = [] then Inl (SyntaxError m) else Inr (ChildF type what first last))
         else if arg \<noteq> [] then Inl (SyntaxError m)
         else Inr (ChildF type what 0 0))"

text \<open>\<open>s.slice(0, e)\<close> for a negative \<open>e\<close>, and \<open>s.indexOf(")", i)\<close>.\<close>

definition sliceNeg :: "int \<Rightarrow> jstring \<Rightarrow> jstring" where
  "sliceNeg e s = take (nat (int (length s) + e)) s"

definition parenFrom :: "nat \<Rightarrow> jstring \<Rightarrow> int" where
  "parenFrom i s = (let k = indexOf [41] (drop i s) in if k < 0 then -1 else int i + k)"

text \<open>
  The argument \<open>ex\<close> gives the length of the part of a text that is not a selector. The result is the value and the
  parts of the token, or \<open>None\<close> for a name that \<open>CHILD\<close> takes.
\<close>

definition pseudoPreFilter ::
  "(jstring \<Rightarrow> sizzle_error + nat) \<Rightarrow> captures \<Rightarrow> jstring \<Rightarrow> sizzle_error + (jstring \<times> filt) option" where
  "pseudoPreFilter ex c m =
     (let name = orEmpty (grp c 1); arg = grp c 2; unquoted = (if orEmpty (grp c 6) \<noteq> [] then [] else orEmpty arg)
      in if execAt childExpr m \<noteq> None then Inr None
         else if orEmpty (grp c 3) \<noteq> []
         then Inr (Some (m, PseudoF name (Some (orEmpty (orText (grp c 4) (grp c 5))))))
         else if unquoted \<noteq> [] \<and> testAnywhere pseudos unquoted then
           (case ex unquoted of
              Inl e \<Rightarrow> Inl e
            | Inr n \<Rightarrow>
                (let e = parenFrom (length unquoted - n) unquoted - int (length unquoted)
                 in if n \<noteq> 0 \<and> e \<noteq> 0
                    then Inr (Some (sliceNeg e m, PseudoF name (Some (sliceNeg e unquoted))))
                    else Inr (Some (m, PseudoF name arg))))
         else Inr (Some (m, PseudoF name arg)))"

section \<open>The tokenizer\<close>

datatype ftype = TAG | CLASS | ATTR | CHILD | PSEUDO | ID

text \<open>The properties of \<open>Expr.filter\<close> in the order of their creation.\<close>

definition filterTypes :: "ftype list" where
  "filterTypes = [TAG, CLASS, ATTR, CHILD, PSEUDO, ID]"

definition matchExpr :: "ftype \<Rightarrow> rx" where
  "matchExpr ty =
     (case ty of
        TAG \<Rightarrow> Grp 1 (Or identRx (one 42))
      | CLASS \<Rightarrow> Cat (one 46) (Grp 1 identRx)
      | ATTR \<Rightarrow> attributes Grp
      | CHILD \<Rightarrow> childExpr
      | PSEUDO \<Rightarrow> pseudos
      | ID \<Rightarrow> Cat (one 35) (Grp 1 identRx))"

definition tryFilter ::
  "(jstring \<Rightarrow> sizzle_error + nat) \<Rightarrow> ftype \<Rightarrow> jstring \<Rightarrow> sizzle_error + (jstring \<times> filt) option" where
  "tryFilter ex ty soFar =
     (case execAt (matchExpr ty) soFar of
        None \<Rightarrow> Inr None
      | Some (c, m) \<Rightarrow>
          (case ty of
             TAG \<Rightarrow> Inr (Some (m, TagF (orEmpty (grp c 1))))
           | CLASS \<Rightarrow> Inr (Some (m, ClassF (orEmpty (grp c 1))))
           | ATTR \<Rightarrow> Inr (Some (m, attrPreFilter c))
           | CHILD \<Rightarrow> map_sum id (\<lambda>f. Some (m, f)) (childPreFilter c m)
           | PSEUDO \<Rightarrow> pseudoPreFilter ex c m
           | ID \<Rightarrow> Inr (Some (m, IdF (orEmpty (grp c 1))))))"

text \<open>The loop over the filters; the flag says whether something has matched.\<close>

fun filterPass ::
  "(jstring \<Rightarrow> sizzle_error + nat) \<Rightarrow> ftype list \<Rightarrow> jstring \<Rightarrow> token list \<Rightarrow> bool
     \<Rightarrow> sizzle_error + jstring \<times> token list \<times> bool" where
  "filterPass ex [] soFar tokens matched = Inr (soFar, tokens, matched)"
| "filterPass ex (ty # tys) soFar tokens matched =
     (case tryFilter ex ty soFar of
        Inl e \<Rightarrow> Inl e
      | Inr None \<Rightarrow> filterPass ex tys soFar tokens matched
      | Inr (Some (m, f)) \<Rightarrow> filterPass ex tys (drop (length m) soFar) (tokens @ [Flt m f]) (m \<noteq> []))"

text \<open>A comma starts a new group, unless nothing follows it.\<close>

definition commaStep :: "bool \<Rightarrow> jstring \<Rightarrow> token list list \<Rightarrow> jstring \<times> token list list" where
  "commaStep matched soFar groups =
     (if \<not> matched then (soFar, groups @ [[]])
      else case execAt rcomma soFar of
          None \<Rightarrow> (soFar, groups)
        | Some (c, m) \<Rightarrow> (let r = drop (length m) soFar in (if r = [] then soFar else r, groups @ [[]])))"

definition combinatorStep :: "jstring \<Rightarrow> token list \<Rightarrow> jstring \<times> token list \<times> bool" where
  "combinatorStep soFar tokens =
     (case execAt rcombinators soFar of
        None \<Rightarrow> (soFar, tokens, False)
      | Some (c, m) \<Rightarrow> (drop (length m) soFar, tokens @ [Rel m (relOf (hd (orEmpty (grp c 1))))], m \<noteq> []))"

text \<open>The main loop; it goes on while something is consumed.\<close>

function scanLoop ::
  "(jstring \<Rightarrow> sizzle_error + nat) \<Rightarrow> bool \<Rightarrow> jstring \<Rightarrow> token list list \<Rightarrow> sizzle_error + token list list \<times> jstring" where
  "scanLoop ex matched soFar groups =
     (if soFar = [] then Inr (groups, [])
      else
        (let (s1, g1) = commaStep matched soFar groups; (s2, ts, m2) = combinatorStep s1 (last g1)
         in case filterPass ex filterTypes s2 ts m2 of
              Inl e \<Rightarrow> Inl e
            | Inr (s3, ts', m3) \<Rightarrow>
                (if \<not> m3 then Inr (butlast g1 @ [ts'], s3)
                 else if length s3 < length soFar then scanLoop ex True s3 (butlast g1 @ [ts'])
                 else Inr (butlast g1 @ [ts'], s3))))"
  by pat_completeness auto
termination by (relation "measure (\<lambda>(ex, m, s, g). length s)") auto

declare scanLoop.simps [simp del]

text \<open>The length of what is not a selector, for arguments nested up to a depth.\<close>

fun excess :: "nat \<Rightarrow> jstring \<Rightarrow> sizzle_error + nat" where
  "excess 0 s = Inr (length s)"
| "excess (Suc n) s = map_sum id (\<lambda>(g, r). length r) (scanLoop (excess n) False s [])"

definition tokenize :: "jstring \<Rightarrow> sizzle_error + token list list" where
  "tokenize selector =
     (case scanLoop (excess (length selector)) False selector [] of
        Inl e \<Rightarrow> Inl e
      | Inr (groups, rest) \<Rightarrow> if rest \<noteq> [] then Inl (SyntaxError selector) else Inr groups)"

section \<open>Lemmas: escapes\<close>

lemmas char_classes = white_def isHex_def isDigit_def nameChar_def

lemma hexChar_hex [simp]: "n < 16 \<Longrightarrow> isHex (hexChar n) \<and> hexDigitVal (hexChar n) = n"
  by (auto simp: hexChar_def isHex_def hexDigitVal_def)

lemma hexText_hex: "n < 256 \<Longrightarrow> list_all isHex (hexText n) \<and> hexText n \<noteq> [] \<and> length (hexText n) \<le> 2"
  by (auto simp: hexText_def)

lemma hexUnits_hexText: "n < 256 \<Longrightarrow> hexUnits (hexText n) = [n]"
  by (auto simp: hexUnits_def hexVal16_def hexText_def Let_def)

lemma takeWhile_hexText: "n < 256 \<Longrightarrow> takeWhile isHex (take 6 (hexText n @ 32 # t)) = hexText n"
  by (auto simp: hexText_def isHex_def [of 32] take_Cons')

lemma unescape_code: "c \<noteq> 0 \<Longrightarrow> c < 256 \<Longrightarrow> unescapeCss (codeEscape c @ t) = c # unescapeCss t"
  using hexText_hex [of c] takeWhile_hexText [of c t]
  by (simp add: codeEscape_def unescapeCss.simps [of "92 # _"] Let_def hexUnits_hexText white_def)

lemma unescape_plain: "c \<noteq> 92 \<Longrightarrow> unescapeCss (c # t) = c # unescapeCss t"
  by (simp add: unescapeCss.simps [of "c # t"])

lemma unescape_special:
  "\<not> isHex c \<Longrightarrow> c \<notin> {13, 10, 12} \<Longrightarrow> unescapeCss (92 # c # t) = c # unescapeCss t"
  by (simp add: unescapeCss.simps [of "92 # _"] take_Cons')

lemma unescape_unit:
  assumes "c \<noteq> 0"
  shows "unescapeCss (escapeUnit c @ t) = c # unescapeCss t"
proof -
  consider "c \<le> 31 \<or> c = 127" | "\<not> (c \<le> 31 \<or> c = 127)" "c \<ge> 127 \<or> nameChar c"
    | "\<not> (c \<le> 31 \<or> c = 127)" "\<not> (c \<ge> 127 \<or> nameChar c)" by blast
  then show ?thesis
  proof cases
    case 1
    then show ?thesis using unescape_code [of c t] assms by (auto simp: escapeUnit_def)
  next
    case 2
    then have "c \<noteq> 92" by (auto simp: char_classes)
    with 2 show ?thesis by (simp add: escapeUnit_def unescape_plain)
  next
    case 3
    then have "\<not> isHex c" "c \<notin> {13, 10, 12}" by (auto simp: char_classes)
    with 3 show ?thesis by (simp add: escapeUnit_def unescape_special)
  qed
qed

lemma unescape_units: "0 \<notin> set s \<Longrightarrow> unescapeCss (concat (map escapeUnit s)) = s"
  by (induction s) (auto simp: unescape_unit unescapeCss.simps [of "[]"])

lemma unescape_escape: "0 \<notin> set s \<Longrightarrow> unescapeCss (escapeCss s) = s"
proof (cases s)
  case (Cons c t)
  assume z: "0 \<notin> set s"
  consider "isDigit c" | "\<not> isDigit c" "c = 45" "t = []" | d u where "c = 45" "t = d # u" "isDigit d"
    | "\<not> isDigit c" "\<not> (c = 45 \<and> (t = [] \<or> isDigit (hd t)))" by (cases t) auto
  then show ?thesis
  proof cases
    case 1
    then have "c \<noteq> 0" "c < 256" by (auto simp: isDigit_def)
    with 1 Cons z show ?thesis by (simp add: escapeCss_def unescape_code unescape_units)
  next
    case 2
    with Cons show ?thesis by (simp add: escapeCss_def unescape_special isHex_def unescapeCss.simps [of "[]"])
  next
    case 3
    then have "d \<noteq> 0" "d < 256" "\<not> isDigit 45" by (auto simp: isDigit_def)
    with 3 Cons z show ?thesis by (simp add: escapeCss_def unescape_plain unescape_code unescape_units)
  next
    case 4
    then have "escapeCss s = concat (map escapeUnit s)" using Cons by (auto simp: escapeCss_def)
    with unescape_units [OF z] show ?thesis by simp
  qed
qed (simp add: escapeCss_def unescapeCss.simps)

text \<open>The pieces of an escaped name are taken by the expression for names.\<close>

lemma takes_plain:
  assumes "nameChar c \<or> c > 127"
  shows "takes (matches identChar) [c]"
proof -
  have "c \<noteq> 92" using assms by (auto simp: char_classes)
  with assms show ?thesis by (auto simp: takes_def identChar_def)
qed

lemma upTo_5: "upTo 5 r = Maybe (Cat r (Maybe (Cat r (Maybe (Cat r (Maybe (Cat r (Maybe (Cat r Eps)))))))))"
  by (simp add: eval_nat_numeral)

lemma takes_code: "c < 256 \<Longrightarrow> takes (matches identChar) ([92] @ hexText c @ [32])"
  by (auto simp: takes_def identChar_def hexText_def Maybe_def upTo_5 isHex_def [of 32] white_def)

lemma takes_special: "c \<notin> {13, 10, 12} \<Longrightarrow> \<not> isHex c \<Longrightarrow> takes (matches identChar) [92, c]"
  by (auto simp: takes_def identChar_def)

lemma takes_unit: "c \<noteq> 0 \<Longrightarrow> takes (matches identChar) (escapeUnit c)"
proof -
  assume c: "c \<noteq> 0"
  consider "c \<le> 31 \<or> c = 127" | "\<not> (c \<le> 31 \<or> c = 127)" "c \<ge> 127 \<or> nameChar c"
    | "\<not> (c \<le> 31 \<or> c = 127)" "\<not> (c \<ge> 127 \<or> nameChar c)" by blast
  then show ?thesis
  proof cases
    case 1
    then show ?thesis using takes_code [of c] c by (auto simp: escapeUnit_def codeEscape_def)
  next
    case 2
    then show ?thesis using takes_plain [of c] by (auto simp: escapeUnit_def)
  next
    case 3
    then have "\<not> isHex c" "c \<notin> {13, 10, 12}" by (auto simp: char_classes)
    with 3 show ?thesis by (simp add: escapeUnit_def takes_special)
  qed
qed

text \<open>A name as the expression takes it: pieces that are taken one by one.\<close>

definition nameText :: "jstring \<Rightarrow> bool" where
  "nameText w \<longleftrightarrow> (\<exists>ks. ks \<noteq> [] \<and> w = concat ks \<and> list_all (takes (matches identChar)) ks)"

lemma nameText_plain: "w \<noteq> [] \<Longrightarrow> list_all nameChar w \<Longrightarrow> nameText w"
  unfolding nameText_def
  by (rule exI [of _ "map (\<lambda>c. [c]) w"]) (auto simp: list_all_iff takes_plain)

lemma nameText_escape:
  assumes "s \<noteq> []" "0 \<notin> set s"
  shows "nameText (escapeCss s)"
proof -
  obtain c t where s: "s = c # t" using assms(1) by (cases s) auto
  have units: "list_all (takes (matches identChar)) (map escapeUnit u)" if "0 \<notin> set u" for u
    using that by (induction u) (auto simp: takes_unit)
  have digit: "takes (matches identChar) (codeEscape d)" if "isDigit d" for d
    using that takes_code [of d] by (auto simp: codeEscape_def isDigit_def)
  consider "isDigit c" | "\<not> isDigit c" "c = 45" "t = []" | d u where "c = 45" "t = d # u" "isDigit d"
    | "\<not> isDigit c" "\<not> (c = 45 \<and> (t = [] \<or> isDigit (hd t)))" by (cases t) auto
  then show ?thesis
  proof cases
    case 1
    with s assms(2) digit units [of t] show ?thesis
      by (auto simp: nameText_def escapeCss_def intro!: exI [of _ "codeEscape c # map escapeUnit t"])
  next
    case 2
    with s show ?thesis
      by (auto simp: nameText_def escapeCss_def isHex_def intro!: exI [of _ "[[92, 45]]"] takes_special)
  next
    case 3
    then have "\<not> isDigit 45" "nameChar 45" by (auto simp: char_classes)
    with 3 s assms(2) digit units [of u] show ?thesis
      by (auto simp: nameText_def escapeCss_def intro!: exI [of _ "[45] # codeEscape d # map escapeUnit u"] takes_plain)
  next
    case 4
    then have "escapeCss s = concat (map escapeUnit s)" using s by (auto simp: escapeCss_def)
    with assms units [of s] show ?thesis
      by (auto simp: nameText_def intro!: exI [of _ "map escapeUnit s"])
  qed
qed

text \<open>A name ends where the text ends or a character follows that cannot be part of a name.\<close>

definition stops :: "jstring \<Rightarrow> bool" where
  "stops t \<longleftrightarrow> t = [] \<or> (\<not> nameChar (hd t) \<and> hd t \<noteq> 92 \<and> hd t \<le> 127)"

lemma stops_identChar: "stops t \<Longrightarrow> matches identChar (c, t) = []"
  by (cases t) (auto simp: stops_def identChar_def)

lemma identRx_name:
  assumes "nameText w" "stops t"
  shows "\<exists>xs. matches identRx (c, w @ t) = (c, t) # xs"
proof -
  obtain ks where "ks \<noteq> []" "w = concat ks" "list_all (takes (matches identChar)) ks"
    using assms(1) by (auto simp: nameText_def)
  with Plus_first [of identChar ks c t] stops_identChar [OF assms(2)] show ?thesis by (simp add: identRx_def)
qed


section \<open>Lemmas: the tokens put together\<close>

definition sepText :: "jstring \<Rightarrow> bool" where
  "sepText s \<longleftrightarrow> (\<exists>v w. s = v @ 44 # w \<and> list_all white v \<and> list_all white w)"

text \<open>The groups with the separators between them.\<close>

definition joinGroups :: "jstring list \<Rightarrow> token list list \<Rightarrow> jstring" where
  "joinGroups seps groups = concat (map2 (\<lambda>p g. p @ toSelector g) ([] # seps) groups)"

lemma toSelector_simps [simp]:
  "toSelector [] = []" "toSelector (t # ts) = tokenValue t @ toSelector ts" "toSelector (ts @ us) = toSelector ts @ toSelector us"
  by (simp_all add: toSelector_def)

lemma joinGroups_new:
  "length groups = Suc (length seps) \<Longrightarrow> joinGroups (seps @ [p]) (groups @ [g]) = joinGroups seps groups @ p @ toSelector g"
  by (simp add: joinGroups_def flip: append_Cons)

lemma joinGroups_more:
  assumes "length groups = Suc (length seps)"
  shows "joinGroups seps (butlast groups @ [last groups @ us]) = joinGroups seps groups @ toSelector us"
proof (cases seps rule: rev_cases)
  case Nil
  with assms show ?thesis by (cases groups) (auto simp: joinGroups_def)
next
  case (snoc ps p)
  obtain gs g where "groups = gs @ [g]" using assms by (cases groups rule: rev_cases) auto
  with assms snoc show ?thesis by (simp add: joinGroups_new)
qed

lemma pseudoPreFilter_prefix:
  "pseudoPreFilter ex c m = Inr (Some (v, f)) \<Longrightarrow> \<exists>t. m = v @ t"
  by (auto simp: pseudoPreFilter_def sliceNeg_def Let_def split: if_splits sum.splits)
    (metis append_take_drop_id)

lemma tryFilter_prefix:
  assumes "tryFilter ex ty s = Inr (Some (m, f))"
  shows "s = m @ drop (length m) s"
proof -
  obtain c k where e: "execAt (matchExpr ty) s = Some (c, k)"
    using assms by (auto simp: tryFilter_def split: option.splits)
  have "\<exists>t. k = m @ t"
  proof (cases "ty = PSEUDO")
    case True
    with assms e pseudoPreFilter_prefix [of ex c k] show ?thesis by (auto simp: tryFilter_def)
  next
    case False
    with assms e show ?thesis by (cases ty; cases "childPreFilter c k") (auto simp: tryFilter_def)
  qed
  with execAt_prefix [OF e] show ?thesis by auto
qed

lemma filterPass_text:
  "filterPass ex tys s ts b = Inr (s', ts', b') \<Longrightarrow> \<exists>us. ts' = ts @ us \<and> s = toSelector us @ s'"
proof (induction ex tys s ts b rule: filterPass.induct)
  case (2 ex ty tys s ts b)
  show ?case
  proof (cases "tryFilter ex ty s")
    case (Inr r)
    show ?thesis
    proof (cases r)
      case None
      with Inr 2 show ?thesis by simp
    next
      case (Some mf)
      then obtain m f where mf: "r = Some (m, f)" by (cases mf) auto
      then obtain us where "ts' = (ts @ [Flt m f]) @ us" "drop (length m) s = toSelector us @ s'"
        using 2 Inr by fastforce
      with tryFilter_prefix [of ex ty s m f] Inr mf show ?thesis by (intro exI [of _ "Flt m f # us"]) simp
    qed
  qed (use 2 in simp)
qed simp

lemma combinatorStep_text:
  "combinatorStep s ts = (s', ts', b) \<Longrightarrow> \<exists>us. ts' = ts @ us \<and> s = toSelector us @ s'"
  by (auto simp: combinatorStep_def split: option.splits dest: execAt_drop intro: exI [of _ "[_]"])

lemma within_white: "within white blanks"
  by (simp add: blanks_def)

lemma blanks_matches: "ct \<in> set (matches blanks cs) \<Longrightarrow> \<exists>w. snd cs = w @ snd ct \<and> list_all white w"
  using matches_consumes [OF within_white] by (auto simp: consumes_def)

lemma rcomma_sep:
  assumes "execAt rcomma s = Some (c, m)"
  shows "sepText m"
proof -
  obtain t xs where m: "matches rcomma ([], s) = (c, t) # xs" "m = take (length s - length t) s"
    using assms by (auto simp: execAt_def split: list.splits)
  then have "(c, t) \<in> set (matches rcomma ([], s))" by simp
  then obtain a b where ab: "a \<in> set (matches blanks ([], s))" "b \<in> set (matches (one 44) a)" "(c, t) \<in> set (matches blanks b)"
    by (auto simp: rcomma_def simp del: matches.simps(1))
  from ab(2) have "snd a = 44 # snd b" by (auto split: list.splits if_splits)
  with blanks_matches [OF ab(1)] blanks_matches [OF ab(3)]
  obtain v w where "s = v @ 44 # w @ t" "list_all white v" "list_all white w" by auto
  with m(2) show ?thesis by (auto simp: sepText_def)
qed

text \<open>No filter starts with a blank or a comma.\<close>

lemma execAt_start: "s \<noteq> [] \<Longrightarrow> hd s \<noteq> k \<Longrightarrow> execAt (Cat (one k) r) s = None"
  by (cases s) (auto simp: execAt_def)

lemma identRx_none: "stops s \<Longrightarrow> matches identRx (c, s) = []"
  by (simp add: identRx_def Plus_def stops_identChar del: split_paired_Ex)

lemma filter_starts:
  "s \<noteq> [] \<Longrightarrow> stops s \<Longrightarrow> hd s \<noteq> 42 \<Longrightarrow> tryFilter ex TAG s = Inr None"
  "s \<noteq> [] \<Longrightarrow> hd s \<noteq> 46 \<Longrightarrow> tryFilter ex CLASS s = Inr None"
  "s \<noteq> [] \<Longrightarrow> hd s \<noteq> 91 \<Longrightarrow> tryFilter ex ATTR s = Inr None"
  "s \<noteq> [] \<Longrightarrow> hd s \<noteq> 58 \<Longrightarrow> tryFilter ex CHILD s = Inr None"
  "s \<noteq> [] \<Longrightarrow> hd s \<noteq> 58 \<Longrightarrow> tryFilter ex PSEUDO s = Inr None"
  "s \<noteq> [] \<Longrightarrow> hd s \<noteq> 35 \<Longrightarrow> tryFilter ex ID s = Inr None"
  by (auto simp: tryFilter_def matchExpr_def attributes_def childExpr_def pseudos_def execAt_start)
    (cases s; auto simp: execAt_def identRx_none)

lemma filterPass_blank:
  assumes "s \<noteq> []" "white (hd s) \<or> hd s = 44"
  shows "filterPass ex filterTypes s ts b = Inr (s, ts, b)"
proof -
  have "stops s" "hd s \<notin> {42, 46, 91, 58, 35}" using assms(2) by (auto simp: stops_def char_classes)
  with assms(1) show ?thesis by (simp add: filterTypes_def filter_starts)
qed

lemma combinator_comma:
  assumes "sepText s" "combinatorStep s ts = (s', ts', b)"
  shows "sepText s'"
proof (cases "execAt rcombinators s")
  case None
  with assms show ?thesis by (simp add: combinatorStep_def)
next
  case (Some cm)
  then obtain c m where e: "execAt rcombinators s = Some (c, m)" by (cases cm) auto
  then have s': "s' = drop (length m) s" "s = m @ s'"
    using assms(2) execAt_drop [OF e] by (auto simp: combinatorStep_def)
  have "within (\<lambda>c. c \<noteq> 44) rcombinators" by (auto simp: rcombinators_def blanks_def white_def)
  then have m: "list_all (\<lambda>c. c \<noteq> 44) m" by (rule execAt_consumes [OF _ e])
  obtain v w where vw: "s = v @ 44 # w" "list_all white v" "list_all white w" using assms(1) by (auto simp: sepText_def)
  have "\<exists>u. v = m @ u \<and> s' = u @ 44 # w"
    using s'(2) vw(1) m by (auto simp: append_eq_append_conv2 append_eq_Cons_conv Cons_eq_append_conv list_all_iff)
  then obtain u where "v = m @ u" "s' = u @ 44 # w" by blast
  with vw show ?thesis unfolding sepText_def by (intro exI [of _ u] exI [of _ w]) simp
qed

lemma scanLoop_step:
  assumes "soFar \<noteq> []" "commaStep m soFar g = (s1, g1)" "combinatorStep s1 (last g1) = (s2, ts, m2)"
    and "filterPass ex filterTypes s2 ts m2 = Inr (s3, ts', m3)"
  shows "scanLoop ex m soFar g =
    (if m3 \<and> length s3 < length soFar then scanLoop ex True s3 (butlast g1 @ [ts']) else Inr (butlast g1 @ [ts'], s3))"
  using assms by (subst scanLoop.simps) simp

text \<open>A comma with nothing behind it is never consumed.\<close>

lemma comma_stays: "sepText s \<Longrightarrow> scanLoop ex True s g = Inr (g', r) \<Longrightarrow> r \<noteq> []"
proof (induction s arbitrary: g rule: measure_induct_rule [where f = length])
  case (less s)
  obtain v w where vw: "s = v @ 44 # w" "list_all white v" "list_all white w" using less.prems(1) by (auto simp: sepText_def)
  have "\<exists>xs. matches blanks ([], v @ 44 # w) = ([], 44 # w) # xs"
    using Star_class [of white v "44 # w" "[]"] vw(2) by (simp add: blanks_def white_def [of 44] del: matches.simps)
  moreover have "\<exists>ys. matches blanks ([], w) = ([], []) # ys"
    using Star_class [of white w "[]" "[]"] vw(3) by (simp add: blanks_def del: matches.simps)
  ultimately obtain xs ys where
    "matches blanks ([], v @ 44 # w) = ([], 44 # w) # xs" "matches blanks ([], w) = ([], []) # ys" by blast
  then have "execAt rcomma s = Some ([], s)" by (simp add: execAt_def rcomma_def vw(1) del: matches.simps(4))
  then have comma: "commaStep True s g = (s, g @ [[]])" by (simp add: commaStep_def)
  obtain s2 ts b where step: "combinatorStep s (last (g @ [[]])) = (s2, ts, b)" by (metis prod_cases3)
  have s2: "sepText s2" by (rule combinator_comma [OF less.prems(1) step])
  then have ne: "s2 \<noteq> []" "white (hd s2) \<or> hd s2 = 44" by (auto simp: sepText_def hd_append list_all_iff)
  then have pass: "filterPass ex filterTypes s2 ts b = Inr (s2, ts, b)" by (rule filterPass_blank)
  have "s \<noteq> []" using vw by simp
  from scanLoop_step [OF this comma step pass] less.prems(2) less.IH [OF _ s2] ne(1) show ?case
    by (auto split: if_splits)
qed

lemma commaStep_text:
  assumes "commaStep True s g = (s1, g1)" "g \<noteq> []"
  shows "s1 = s \<and> g1 = g \<or> (\<exists>p. sepText p \<and> s = p @ s1 \<and> g1 = g @ [[]]) \<or> s1 = s \<and> sepText s"
proof (cases "execAt rcomma s")
  case (Some cm)
  then obtain c m where e: "execAt rcomma s = Some (c, m)" by (cases cm) auto
  from execAt_drop [OF e] rcomma_sep [OF e] assms e show ?thesis
    by (auto simp: commaStep_def Let_def split: if_splits)
qed (use assms in \<open>simp add: commaStep_def\<close>)

lemma scanLoop_text:
  "scanLoop ex True s g = Inr (g', []) \<Longrightarrow> length g = Suc (length seps) \<Longrightarrow> list_all sepText seps \<Longrightarrow>
    \<exists>seps'. length g' = Suc (length seps') \<and> list_all sepText seps' \<and> joinGroups seps' g' = joinGroups seps g @ s"
proof (induction s arbitrary: g seps rule: measure_induct_rule [where f = length])
  case (less s)
  show ?case
  proof (cases "s = []")
    case True
    with less.prems show ?thesis by (intro exI [of _ seps]) (simp add: scanLoop.simps [of ex True "[]"])
  next
    case False
    obtain s1 g1 where comma: "commaStep True s g = (s1, g1)" by fastforce
    obtain s2 ts b where comb: "combinatorStep s1 (last g1) = (s2, ts, b)" by (metis prod_cases3)
    have "\<exists>x. filterPass ex filterTypes s2 ts b = Inr x"
      using less.prems(1) False comma comb
      by (subst (asm) scanLoop.simps) (auto split: sum.splits)
    then obtain s3 ts' b' where pass: "filterPass ex filterTypes s2 ts b = Inr (s3, ts', b')" by (metis prod_cases3)
    have "\<not> sepText s" using comma_stays less.prems(1) by blast
    then obtain seps1 where seps1: "length g1 = Suc (length seps1)" "list_all sepText seps1"
      "joinGroups seps1 g1 @ s1 = joinGroups seps g @ s"
      using commaStep_text [OF comma] less.prems(2,3) joinGroups_new [of g seps]
      by (cases "g = []") (auto intro: that [of seps] that [of "seps @ [_]"])
    obtain us where us: "ts' = last g1 @ us" "s1 = toSelector us @ s3"
      using filterPass_text [OF pass] combinatorStep_text [OF comb] by auto
    let ?g = "butlast g1 @ [ts']"
    have j: "joinGroups seps1 ?g @ s3 = joinGroups seps g @ s" "length ?g = Suc (length seps1)"
      using joinGroups_more [OF seps1(1), of us] seps1 us by auto
    from scanLoop_step [OF False comma comb pass] less.prems(1)
    consider "length s3 < length s" "scanLoop ex True s3 ?g = Inr (g', [])" | "g' = ?g" "s3 = []"
      by (auto split: if_splits)
    then show ?thesis
    proof cases
      case 1
      then show ?thesis using less.IH [OF 1(1) 1(2) j(2) seps1(2)] j(1) by simp
    next
      case 2
      then show ?thesis using j seps1(2) by (intro exI [of _ seps1]) simp
    qed
  qed
qed

lemma tokenize_text:
  assumes "tokenize s = Inr groups" "s \<noteq> []"
  shows "\<exists>seps. length groups = Suc (length seps) \<and> list_all sepText seps \<and> s = joinGroups seps groups"
proof -
  let ?ex = "excess (length s)"
  have run: "scanLoop ?ex False s [] = Inr (groups, [])"
    using assms(1) by (auto simp: tokenize_def split: sum.splits if_splits)
  have comma: "commaStep False s [] = (s, [[]])" by (simp add: commaStep_def)
  obtain s2 ts b where comb: "combinatorStep s (last [[]]) = (s2, ts, b)" by (metis prod_cases3)
  have "\<exists>x. filterPass ?ex filterTypes s2 ts b = Inr x"
    using run assms(2) comma comb by (subst (asm) scanLoop.simps) (auto split: sum.splits)
  then obtain s3 ts' b' where pass: "filterPass ?ex filterTypes s2 ts b = Inr (s3, ts', b')" by (metis prod_cases3)
  obtain us where us: "ts' = us" "s = toSelector us @ s3"
    using filterPass_text [OF pass] combinatorStep_text [OF comb] by auto
  have j: "joinGroups [] [ts'] = toSelector ts'" by (simp add: joinGroups_def)
  from scanLoop_step [OF assms(2) comma comb pass] run
  consider "scanLoop ?ex True s3 [ts'] = Inr (groups, [])" | "groups = [ts']" "s3 = []"
    by (auto split: if_splits)
  then show ?thesis
  proof cases
    case 1
    then show ?thesis using scanLoop_text [OF 1, of "[]"] j us by auto
  next
    case 2
    then show ?thesis using j us by (intro exI [of _ "[]"]) simp
  qed
qed

section \<open>Lemmas: selectors written from parts\<close>

text \<open>The parts that are written: names, classes and identifiers, and the relations with blanks around them.\<close>

definition relText :: "rel \<Rightarrow> jstring" where
  "relText r = (case r of Child \<Rightarrow> [32, 62, 32] | Descendant \<Rightarrow> [32] | Adjacent \<Rightarrow> [32, 43, 32] | Sibling \<Rightarrow> [32, 126, 32])"

fun plainFilt :: "filt \<Rightarrow> jstring \<Rightarrow> bool" where
  "plainFilt (TagF w) v \<longleftrightarrow> v = w \<and> (nameText w \<or> w = [42])"
| "plainFilt (ClassF w) v \<longleftrightarrow> v = 46 # w \<and> nameText w"
| "plainFilt (IdF w) v \<longleftrightarrow> v = 35 # w \<and> nameText w"
| "plainFilt _ v \<longleftrightarrow> False"

fun isTagF :: "filt \<Rightarrow> bool" where
  "isTagF (TagF w) = True"
| "isTagF _ = False"

text \<open>What may follow a filter: another filter but no name, or a relation and a filter.\<close>

fun plainRest :: "token list \<Rightarrow> bool" where
  "plainRest [] \<longleftrightarrow> True"
| "plainRest (Flt v f # ts) \<longleftrightarrow> plainFilt f v \<and> \<not> isTagF f \<and> plainRest ts"
| "plainRest [Rel v r] \<longleftrightarrow> False"
| "plainRest (Rel v r # Rel v' r' # ts) \<longleftrightarrow> False"
| "plainRest (Rel v r # Flt v' f # ts) \<longleftrightarrow> v = relText r \<and> plainFilt f v' \<and> plainRest ts"

fun plainGroup :: "token list \<Rightarrow> bool" where
  "plainGroup (Flt v f # ts) \<longleftrightarrow> plainFilt f v \<and> plainRest ts"
| "plainGroup _ \<longleftrightarrow> False"

definition writeGroups :: "token list list \<Rightarrow> jstring" where
  "writeGroups groups = joinGroups (replicate (length groups - 1) [44, 32]) groups"

lemma nameText_hd: "nameText w \<Longrightarrow> w \<noteq> [] \<and> (nameChar (hd w) \<or> hd w = 92 \<or> hd w > 127)"
proof -
  assume "nameText w"
  then obtain k ks where k: "w = k @ concat ks" "takes (matches identChar) k"
    by (auto simp: nameText_def neq_Nil_conv)
  then have ne: "k \<noteq> []" and "matches identChar ([], k @ []) \<noteq> []" unfolding takes_def by (blast, metis list.distinct(1))
  then have "\<not> stops k" using stops_identChar by auto
  with k(1) ne show ?thesis by (auto simp: stops_def)
qed

lemma exec_name:
  assumes "nameText w" "stops t"
  shows "execAt (Grp 1 (Or identRx (one 42))) (w @ t) = Some ([(1, w)], w)"
    "execAt (Cat (one k) (Grp 1 identRx)) (k # w @ t) = Some ([(1, w)], k # w)"
  using identRx_name [OF assms, of "[]"] by (auto simp: execAt_def)

lemma try_plain:
  assumes "plainFilt f v" "stops t"
  shows "isTagF f \<Longrightarrow> tryFilter ex TAG (v @ t) = Inr (Some (v, f))"
    "hd v = 46 \<Longrightarrow> \<not> isTagF f \<Longrightarrow> tryFilter ex CLASS (v @ t) = Inr (Some (v, f))"
    "hd v = 35 \<Longrightarrow> \<not> isTagF f \<Longrightarrow> tryFilter ex ID (v @ t) = Inr (Some (v, f))"
proof -
  have star: "execAt (Grp 1 (Or identRx (one 42))) (42 # t) = Some ([(1, [42])], [42])"
    by (simp add: execAt_def identRx_none stops_def char_classes)
  show "isTagF f \<Longrightarrow> tryFilter ex TAG (v @ t) = Inr (Some (v, f))"
    using assms star exec_name(1) [of v t] by (cases f) (auto simp: tryFilter_def matchExpr_def grp_def orEmpty_def)
  show "hd v = 46 \<Longrightarrow> \<not> isTagF f \<Longrightarrow> tryFilter ex CLASS (v @ t) = Inr (Some (v, f))"
    "hd v = 35 \<Longrightarrow> \<not> isTagF f \<Longrightarrow> tryFilter ex ID (v @ t) = Inr (Some (v, f))"
    using assms exec_name(2) [of "tl v" t]
    by (cases f; auto simp: tryFilter_def matchExpr_def grp_def orEmpty_def)+
qed

lemma plainFilt_hd:
  "plainFilt f v \<Longrightarrow> v \<noteq> [] \<and> (if isTagF f then nameChar (hd v) \<or> hd v = 92 \<or> hd v > 127 \<or> hd v = 42 else hd v = 46 \<or> hd v = 35)"
  using nameText_hd by (cases f) auto

lemma relText_hd: "relText r \<noteq> [] \<and> hd (relText r) = 32"
  by (cases r) (auto simp: relText_def)

lemma stops_hd: "v \<noteq> [] \<Longrightarrow> hd v \<in> {46, 35, 32, 44} \<Longrightarrow> stops (v @ t)"
  by (auto simp: stops_def char_classes)

lemma rest_stops: "plainRest us \<Longrightarrow> stops t \<Longrightarrow> stops (toSelector us @ t)"
proof (cases us rule: plainRest.cases)
  case (2 v f ts)
  assume "plainRest us"
  with 2 plainFilt_hd [of f v] stops_hd [of v "toSelector ts @ t"] show ?thesis by auto
next
  case (5 v r v' f ts)
  assume "plainRest us"
  with 5 relText_hd [of r] stops_hd [of "relText r" "v' @ toSelector ts @ t"] show ?thesis by auto
qed auto

text \<open>One pass over the filters takes a part of what is left of the group, at least the first filter.\<close>

definition tokType :: "token \<Rightarrow> ftype option" where
  "tokType t =
     (case t of Flt v (TagF w) \<Rightarrow> Some TAG | Flt v (ClassF w) \<Rightarrow> Some CLASS | Flt v (IdF w) \<Rightarrow> Some ID | _ \<Rightarrow> None)"

text \<open>Behind a group comes the end or a comma.\<close>

definition tailText :: "jstring \<Rightarrow> bool" where
  "tailText t \<longleftrightarrow> t = [] \<or> hd t = 44"

lemma tail_stops: "tailText t \<Longrightarrow> stops t"
  by (auto simp: tailText_def stops_def char_classes)

lemma try_none:
  assumes "s = [] \<or> hd s = 44 \<or> hd s = 32"
  shows "tryFilter ex ty s = Inr None"
proof (cases "s = []")
  case True
  then show ?thesis
    by (cases ty) (auto simp: tryFilter_def matchExpr_def attributes_def childExpr_def pseudos_def execAt_def
        identRx_none stops_def)
next
  case False
  with assms have "stops s" "hd s \<notin> {42, 46, 91, 58, 35}" by (auto simp: stops_def char_classes)
  with False show ?thesis by (cases ty) (auto simp: filter_starts)
qed

lemma try_first:
  assumes "plainFilt f v" "stops t"
  shows "tryFilter ex ty (v @ t) = Inr (if tokType (Flt v f) = Some ty then Some (v, f) else None)"
proof -
  have v: "v \<noteq> []" "v @ t \<noteq> []" "hd (v @ t) = hd v" using plainFilt_hd [OF assms(1)] by auto
  consider (tag) "tokType (Flt v f) = Some TAG" "isTagF f" | (cls) "tokType (Flt v f) = Some CLASS" "hd v = 46" "\<not> isTagF f"
    | (idf) "tokType (Flt v f) = Some ID" "hd v = 35" "\<not> isTagF f"
    using assms(1) by (cases f) (auto simp: tokType_def)
  then show ?thesis
  proof cases
    case tag
    then have "hd (v @ t) \<notin> {46, 91, 58, 35}" using plainFilt_hd [OF assms(1)] v by (auto simp: char_classes)
    with tag v try_plain(1) [OF assms] show ?thesis by (cases ty) (auto simp: filter_starts)
  next
    case cls
    then have "stops (v @ t)" using v by (auto simp: stops_def char_classes)
    with cls v try_plain(2) [OF assms] show ?thesis by (cases ty) (auto simp: filter_starts)
  next
    case idf
    then have "stops (v @ t)" using v by (auto simp: stops_def char_classes)
    with idf v try_plain(3) [OF assms] show ?thesis by (cases ty) (auto simp: filter_starts)
  qed
qed

definition plainAt :: "token list \<Rightarrow> bool" where
  "plainAt us \<longleftrightarrow> plainRest us \<or> plainGroup us"

lemma plainAt_cases:
  assumes "plainAt us"
  obtains (nil) "us = []" | (rel) r v f ts where "us = Rel (relText r) r # Flt v f # ts" "plainFilt f v" "plainRest ts"
    | (flt) v f ts where "us = Flt v f # ts" "plainFilt f v" "plainRest ts"
  using assms by (cases us rule: plainRest.cases) (auto simp: plainAt_def)

lemma filterPass_plain:
  "plainAt us \<Longrightarrow> tailText t \<Longrightarrow>
    \<exists>u1 us'. us = u1 @ us' \<and> plainAt us' \<and> (u1 \<noteq> [] \<longrightarrow> plainRest us')
      \<and> filterPass ex tys (toSelector us @ t) ts b = Inr (toSelector us' @ t, ts @ u1, b \<or> u1 \<noteq> [])
      \<and> (u1 = [] \<longrightarrow> us = [] \<or> tokType (hd us) \<notin> Some ` set tys)"
proof (induction tys arbitrary: us ts b)
  case Nil
  then show ?case by (intro exI [of _ "[]"] exI [of _ us]) simp
next
  case (Cons ty tys)
  from Cons.prems(1) show ?case
  proof (cases rule: plainAt_cases)
    case nil
    then have "tryFilter ex ty (toSelector us @ t) = Inr None"
      using Cons.prems(2) by (intro try_none) (auto simp: tailText_def)
    with Cons.IH [OF Cons.prems, of ts b] nil show ?thesis by auto
  next
    case (rel r v f us1)
    then have "tryFilter ex ty (toSelector us @ t) = Inr None"
      using relText_hd [of r] by (intro try_none) auto
    with Cons.IH [OF Cons.prems, of ts b] rel(1) show ?thesis by (auto simp: tokType_def)
  next
    case (flt v f us1)
    have first: "tryFilter ex ty (v @ toSelector us1 @ t) = Inr (if tokType (Flt v f) = Some ty then Some (v, f) else None)"
      by (rule try_first [OF flt(2) rest_stops [OF flt(3) tail_stops [OF Cons.prems(2)]]])
    show ?thesis
    proof (cases "tokType (Flt v f) = Some ty")
      case True
      have "plainAt us1" using flt(3) by (simp add: plainAt_def)
      from Cons.IH [OF this Cons.prems(2), of "ts @ [Flt v f]" True]
      obtain u1 us' where "us1 = u1 @ us'" "plainAt us'" "u1 \<noteq> [] \<longrightarrow> plainRest us'"
        "filterPass ex tys (toSelector us1 @ t) (ts @ [Flt v f]) True = Inr (toSelector us' @ t, (ts @ [Flt v f]) @ u1, True)"
        by (metis (no_types, lifting))
      with True first flt plainFilt_hd [OF flt(2)] show ?thesis
        by (intro exI [of _ "Flt v f # u1"] exI [of _ us']) auto
    next
      case False
      with first Cons.IH [OF Cons.prems, of ts b] flt(1) show ?thesis by auto
    qed
  qed
qed

lemma filterPass_flt:
  assumes "plainFilt f v" "plainRest us" "tailText t"
  shows "\<exists>u1 us'. us = u1 @ us' \<and> plainRest us' \<and>
    filterPass ex filterTypes (v @ toSelector us @ t) ts b = Inr (toSelector us' @ t, ts @ Flt v f # u1, True)"
proof -
  have "plainAt (Flt v f # us)" using assms by (simp add: plainAt_def)
  from filterPass_plain [OF this assms(3), of ex filterTypes ts b]
  obtain w us' where w: "Flt v f # us = w @ us'" "w \<noteq> [] \<longrightarrow> plainRest us'"
    "filterPass ex filterTypes (v @ toSelector us @ t) ts b = Inr (toSelector us' @ t, ts @ w, b \<or> w \<noteq> [])"
    "w = [] \<longrightarrow> tokType (Flt v f) \<notin> Some ` set filterTypes" by auto
  have "tokType (Flt v f) \<in> Some ` set filterTypes"
    using assms(1) by (cases f) (auto simp: tokType_def filterTypes_def)
  with w obtain u1 where "w = Flt v f # u1" "us = u1 @ us'" "plainRest us'" by (cases w) auto
  with w(3) show ?thesis by auto
qed

lemma no_comma:
  assumes "list_all white w" "s \<noteq> []" "\<not> white (hd s)" "hd s \<noteq> 44"
  shows "execAt rcomma (w @ s) = None"
proof (rule ccontr)
  assume "execAt rcomma (w @ s) \<noteq> None"
  then obtain c m where e: "execAt rcomma (w @ s) = Some (c, m)" by auto
  then obtain u v x where m: "m = u @ 44 # v" "list_all white u" "w @ s = m @ x"
    using rcomma_sep [OF e] execAt_prefix [OF e] by (auto simp: sepText_def)
  then have "dropWhile white (w @ s) = 44 # v @ x"
    by (simp add: list_all_iff white_def [of 44])
  moreover have "dropWhile white (w @ s) = s"
    using assms by (cases s) (auto simp: list_all_iff)
  ultimately show False using assms by auto
qed

lemma blanks_none: "s = [] \<or> \<not> white (hd s) \<Longrightarrow> matches blanks (c, s) = [(c, s)]"
  by (cases s) (auto simp: blanks_def)

definition startsFilter :: "jstring \<Rightarrow> bool" where
  "startsFilter s \<longleftrightarrow> s \<noteq> [] \<and> \<not> white (hd s) \<and> hd s \<notin> {44, 62, 43, 126}"

lemma plain_starts: "plainFilt f v \<Longrightarrow> startsFilter (v @ s)"
  by (auto simp: startsFilter_def char_classes split: if_splits dest!: plainFilt_hd)

lemma no_combinator: "startsFilter s \<Longrightarrow> combinatorStep s ts = (s, ts, False)"
  by (cases s) (auto simp: startsFilter_def combinatorStep_def execAt_def rcombinators_def blanks_none)

lemma combinator_rel:
  assumes "startsFilter s"
  shows "combinatorStep (relText r @ s) ts = (s, ts @ [Rel (relText r) r], True)"
proof -
  obtain x s' where s: "s = x # s'" "\<not> white x" "x \<notin> {62, 43, 126}" using assms by (cases s) (auto simp: startsFilter_def)
  have one [simp]: "\<not> white k \<Longrightarrow> matches blanks (c, 32 # k # y) = [(c, k # y), (c, 32 # k # y)]"
    "\<not> white k \<Longrightarrow> matches blanks (c, k # y) = [(c, k # y)]" for c k y
    by (auto simp: blanks_def white_def [of 32])
  have [simp]: "\<not> white 62" "\<not> white 43" "\<not> white 126" "white 32" by (auto simp: white_def)
  show ?thesis using s
    by (cases r) (auto simp: relText_def combinatorStep_def execAt_def rcombinators_def grp_def orEmpty_def relOf_def)
qed

text \<open>The rest of a group is read token by token.\<close>

lemma scan_rest:
  "plainRest us \<Longrightarrow> tailText t \<Longrightarrow>
    scanLoop ex True (toSelector us @ t) (g @ [ts]) = scanLoop ex True t (g @ [ts @ us])"
proof (induction us arbitrary: ts rule: measure_induct_rule [where f = length])
  case (less us)
  have "plainAt us" using less.prems by (simp add: plainAt_def)
  then show ?case
  proof (cases rule: plainAt_cases)
    case (rel r v f us1)
    let ?s = "v @ toSelector us1 @ t"
    have v: "startsFilter ?s" by (rule plain_starts [OF rel(2)])
    have "list_all white [32]" by (simp add: white_def)
    with v have "execAt rcomma (relText r @ ?s) = None"
      using no_comma [of "[32]"] by (cases r) (auto simp: relText_def startsFilter_def white_def)
    then have comma: "commaStep True (toSelector us @ t) (g @ [ts]) = (relText r @ ?s, g @ [ts])"
      using rel(1) by (simp add: commaStep_def)
    have comb: "combinatorStep (relText r @ ?s) (last (g @ [ts])) = (?s, ts @ [Rel (relText r) r], True)"
      using combinator_rel [OF v] by simp
    obtain u1 us' where u: "us1 = u1 @ us'" "plainRest us'"
      "filterPass ex filterTypes ?s (ts @ [Rel (relText r) r]) True =
        Inr (toSelector us' @ t, (ts @ [Rel (relText r) r]) @ Flt v f # u1, True)"
      using filterPass_flt [OF rel(2,3) less.prems(2)] by blast
    have "toSelector us @ t \<noteq> []" "length (toSelector us' @ t) < length (toSelector us @ t)" "length us' < length us"
      using rel(1) u(1) relText_hd [of r] by auto
    with scanLoop_step [OF _ comma comb u(3)] less.IH [OF _ u(2) less.prems(2)] rel(1) u(1) show ?thesis by simp
  next
    case (flt v f us1)
    let ?s = "v @ toSelector us1 @ t"
    have v: "startsFilter ?s" by (rule plain_starts [OF flt(2)])
    then have comma: "commaStep True (toSelector us @ t) (g @ [ts]) = (?s, g @ [ts])"
      using flt(1) no_comma [of "[]" ?s] by (auto simp: commaStep_def startsFilter_def)
    have comb: "combinatorStep ?s (last (g @ [ts])) = (?s, ts, False)" using no_combinator [OF v] by simp
    obtain u1 us' where u: "us1 = u1 @ us'" "plainRest us'"
      "filterPass ex filterTypes ?s ts False = Inr (toSelector us' @ t, ts @ Flt v f # u1, True)"
      using filterPass_flt [OF flt(2,3) less.prems(2)] by blast
    have "toSelector us @ t \<noteq> []" "length (toSelector us' @ t) < length (toSelector us @ t)" "length us' < length us"
      using flt(1) u(1) plainFilt_hd [OF flt(2)] by auto
    with scanLoop_step [OF _ comma comb u(3)] less.IH [OF _ u(2) less.prems(2)] flt(1) u(1) show ?thesis by simp
  qed simp
qed

text \<open>A group that has just been opened.\<close>

lemma scan_group:
  assumes "plainGroup us" "tailText t" "commaStep m s g = (toSelector us @ t, g @ [[]])"
    and "length (toSelector us @ t) \<le> length s"
  shows "scanLoop ex m s g = scanLoop ex True t (g @ [us])"
proof -
  obtain v f us1 where flt: "us = Flt v f # us1" "plainFilt f v" "plainRest us1"
    using assms(1) by (cases us rule: plainGroup.cases) auto
  let ?s = "v @ toSelector us1 @ t"
  have "startsFilter ?s" by (rule plain_starts [OF flt(2)])
  then have comb: "combinatorStep (toSelector us @ t) (last (g @ [[]])) = (?s, [], False)"
    using no_combinator flt(1) by simp
  obtain u1 us' where u: "us1 = u1 @ us'" "plainRest us'"
    "filterPass ex filterTypes ?s [] False = Inr (toSelector us' @ t, [] @ Flt v f # u1, True)"
    using filterPass_flt [OF flt(2,3) assms(2)] by blast
  have "length v \<ge> 1" using plainFilt_hd [OF flt(2)] by (cases v) simp_all
  then have "s \<noteq> []" "length (toSelector us' @ t) < length s"
    using assms(4) flt(1) u(1) by (auto simp del: One_nat_def length_greater_0_conv)
  with scanLoop_step [OF _ assms(3) comb u(3)] scan_rest [OF u(2) assms(2)] flt(1) u(1) show ?thesis by simp
qed

lemma rcomma_blank: "startsFilter s \<Longrightarrow> execAt rcomma ([44, 32] @ s) = Some ([], [44, 32])"
proof -
  assume "startsFilter s"
  then have "s \<noteq> []" "\<not> white (hd s)" by (auto simp: startsFilter_def)
  then have "\<exists>xs. matches blanks ([], [32] @ s) = ([], s) # xs"
    unfolding blanks_def by (intro Star_class) (auto simp: white_def)
  then show ?thesis by (auto simp: execAt_def rcomma_def blanks_none white_def)
qed

definition writeMore :: "token list list \<Rightarrow> jstring" where
  "writeMore gs = concat (map (\<lambda>g. [44, 32] @ toSelector g) gs)"

lemma plainGroup_starts: "plainGroup us \<Longrightarrow> startsFilter (toSelector us @ t)"
  using plain_starts by (cases us rule: plainGroup.cases) auto

lemma tail_more: "tailText (writeMore gs)"
  by (cases gs) (auto simp: writeMore_def tailText_def)

lemma scan_groups:
  "list_all plainGroup gs \<Longrightarrow> g \<noteq> [] \<Longrightarrow> scanLoop ex True (writeMore gs) g = Inr (g @ gs, [])"
proof (induction gs arbitrary: g)
  case Nil
  then show ?case by (simp add: writeMore_def scanLoop.simps [of ex True "[]"])
next
  case (Cons us gs)
  have starts: "startsFilter (toSelector us @ writeMore gs)" using Cons.prems plainGroup_starts by simp
  have s: "writeMore (us # gs) = [44, 32] @ toSelector us @ writeMore gs" by (simp add: writeMore_def)
  have "commaStep True (writeMore (us # gs)) g = (toSelector us @ writeMore gs, g @ [[]])"
    using rcomma_blank [OF starts] starts s by (auto simp: commaStep_def startsFilter_def)
  then have "scanLoop ex True (writeMore (us # gs)) g = scanLoop ex True (writeMore gs) (g @ [us])"
    using Cons.prems(1) s by (intro scan_group tail_more) auto
  with Cons show ?case by simp
qed

lemma joinGroups_write: "joinGroups (replicate (length gs) [44, 32]) (g # gs) = toSelector g @ writeMore gs"
proof -
  have "concat (map2 (\<lambda>p g. p @ toSelector g) (replicate (length gs) [44, 32]) gs) = writeMore gs"
    by (induction gs) (auto simp: writeMore_def)
  then show ?thesis by (simp add: joinGroups_def)
qed

lemma tokenize_write:
  assumes "list_all plainGroup gs" "gs \<noteq> []"
  shows "tokenize (writeGroups gs) = Inr gs"
proof -
  obtain g gs' where gs: "gs = g # gs'" using assms(2) by (cases gs) auto
  then have s: "writeGroups gs = toSelector g @ writeMore gs'" by (simp add: writeGroups_def joinGroups_write)
  have "scanLoop ex False (writeGroups gs) [] = scanLoop ex True (writeMore gs') ([] @ [g])" for ex
    using assms(1) gs s by (intro scan_group tail_more) (auto simp: commaStep_def)
  with assms(1) gs show ?thesis by (simp add: tokenize_def scan_groups)
qed

lemma tokenize_escaped_id:
  assumes "s \<noteq> []" "0 \<notin> set s"
  shows "tokenize (35 # escapeCss s) = Inr [[Flt (35 # escapeCss s) (IdF (escapeCss s))]]"
  using tokenize_write [of "[[Flt (35 # escapeCss s) (IdF (escapeCss s))]]"] nameText_escape [OF assms]
  by (simp add: writeGroups_def joinGroups_def)

section \<open>Lemmas: the depth of nested arguments\<close>

text \<open>The argument of a pseudo class is shorter than the text, so a depth of its length is enough.\<close>

lemma pseudos_caps:
  assumes "execAt pseudos s = Some (c, m)"
  shows "shortCaps (length s - 1) c"
proof -
  obtain r where r: "pseudos = Cat (one 58) r" by (simp add: pseudos_def)
  obtain t xs where "matches pseudos ([], s) = (c, t) # xs" using assms by (auto simp: execAt_def split: list.splits)
  then have "(c, t) \<in> set (matches pseudos ([], s))" by simp
  then have "(c, t) \<in> set (matches r ([], tl s))" unfolding r by (cases s) (auto split: if_splits)
  from matches_caps [OF this, of "length s - 1"] show ?thesis by (simp add: shortCaps_def)
qed

lemma grp_short: "shortCaps n c \<Longrightarrow> length (orEmpty (grp c k)) \<le> n"
  by (auto simp: shortCaps_def grp_def orEmpty_def list_all_iff split: option.split dest!: map_of_SomeD)

lemma tryFilter_cong:
  assumes "\<And>u. length u < length s \<Longrightarrow> ex u = ex' u"
  shows "tryFilter ex ty s = tryFilter ex' ty s"
proof (cases "ty = PSEUDO \<and> execAt pseudos s \<noteq> None")
  case True
  then obtain c m where e: "execAt pseudos s = Some (c, m)" by auto
  then have "s \<noteq> []" by (auto simp: execAt_def pseudos_def)
  moreover have "length (orEmpty (grp c 2)) \<le> length s - 1" by (rule grp_short [OF pseudos_caps [OF e]])
  ultimately have "length (orEmpty (grp c 2)) < length s" by (cases s) auto
  with assms have "ex (orEmpty (grp c 2)) = ex' (orEmpty (grp c 2))" by blast
  with e True show ?thesis by (simp add: tryFilter_def matchExpr_def pseudoPreFilter_def Let_def)
next
  case False
  then show ?thesis by (cases ty) (auto simp: tryFilter_def matchExpr_def split: option.split)
qed

lemma filterPass_cong:
  "(\<And>u. length u < length s \<Longrightarrow> ex u = ex' u) \<Longrightarrow> filterPass ex tys s ts b = filterPass ex' tys s ts b"
proof (induction tys arbitrary: s ts b)
  case (Cons ty tys)
  have t: "tryFilter ex ty s = tryFilter ex' ty s" by (rule tryFilter_cong) (rule Cons.prems)
  have "filterPass ex tys (drop k s) us d = filterPass ex' tys (drop k s) us d" for k us d
    by (rule Cons.IH) (use Cons.prems in auto)
  with t Cons.IH [of s] Cons.prems show ?case by (auto split: sum.split option.split)
qed simp

lemma scanLoop_cong:
  "(\<And>u. length u < length s \<Longrightarrow> ex u = ex' u) \<Longrightarrow> scanLoop ex m s g = scanLoop ex' m s g"
proof (induction s arbitrary: m g rule: measure_induct_rule [where f = length])
  case (less s)
  obtain s1 g1 where c: "commaStep m s g = (s1, g1)" by fastforce
  obtain s2 ts b where d: "combinatorStep s1 (last g1) = (s2, ts, b)" by (metis prod_cases3)
  have "length s1 \<le> length s" using c by (auto simp: commaStep_def Let_def split: if_splits option.splits)
  moreover have "length s2 \<le> length s1" using combinatorStep_text [OF d] by auto
  ultimately have "filterPass ex filterTypes s2 ts b = filterPass ex' filterTypes s2 ts b"
    by (intro filterPass_cong less.prems) auto
  with c d show ?case
    unfolding scanLoop.simps [of ex m s] scanLoop.simps [of ex' m s]
    by (auto split: sum.split simp: less.prems intro!: less.IH)
qed

lemma excess_depth: "length s \<le> n \<Longrightarrow> length s \<le> k \<Longrightarrow> excess n s = excess k s"
proof (induction s arbitrary: n k rule: measure_induct_rule [where f = length])
  case (less s)
  show ?case
  proof (cases "s = []")
    case True
    have "excess j [] = Inr 0" for j by (cases j) (auto simp: scanLoop.simps [of _ _ "[]"])
    with True show ?thesis by simp
  next
    case False
    with less.prems obtain n' k' where nk: "n = Suc n'" "k = Suc k'" by (cases n; cases k) auto
    have "scanLoop (excess n') False s [] = scanLoop (excess k') False s []"
      by (rule scanLoop_cong) (use less nk in auto)
    with nk show ?thesis by simp
  qed
qed

lemma tokenize_depth:
  "length s \<le> n \<Longrightarrow>
    tokenize s = (case scanLoop (excess n) False s [] of
      Inl e \<Rightarrow> Inl e | Inr (groups, rest) \<Rightarrow> if rest \<noteq> [] then Inl (SyntaxError s) else Inr groups)"
  using scanLoop_cong [of s "excess (length s)" "excess n" False "[]"] excess_depth by (auto simp: tokenize_def)

section \<open>Lemmas: the tokens one by one\<close>

text \<open>A token is not empty, and a sibling relation is written with its character.\<close>

fun tokenOK :: "token \<Rightarrow> bool" where
  "tokenOK (Rel v r) \<longleftrightarrow> v \<noteq> [] \<and> (r = Adjacent \<longrightarrow> 43 \<in> set v) \<and> (r = Sibling \<longrightarrow> 126 \<in> set v)"
| "tokenOK (Flt v f) \<longleftrightarrow> v \<noteq> []"

lemma execAt_member:
  "execAt r s = Some (c, m) \<Longrightarrow> \<exists>t. (c, t) \<in> set (matches r ([], s)) \<and> m = take (length s - length t) s"
  by (auto simp: execAt_def split: list.splits)

lemma blanks_fst: "ct \<in> set (matches blanks cs) \<Longrightarrow> fst ct = fst cs"
  using matches_fst [of blanks ct cs] by (simp add: blanks_def del: matches.simps)

lemma combinator_char:
  assumes "execAt rcombinators s = Some (c, m)"
  shows "\<exists>k. grp c 1 = Some [k] \<and> k \<in> set m"
proof -
  obtain t where t: "(c, t) \<in> set (matches rcombinators ([], s))" "m = take (length s - length t) s"
    using execAt_member [OF assms] by blast
  let ?k = "Or (Sym (\<lambda>c. c \<in> {62, 43, 126})) (Sym white)"
  from t(1) obtain a b where ab: "a \<in> set (matches blanks ([], s))" "b \<in> set (matches (Grp 1 ?k) a)"
    "(c, t) \<in> set (matches blanks b)"
    by (auto simp: rcombinators_def simp del: matches.simps(1,3,5))
  obtain v where v: "s = v @ snd a" using blanks_matches [OF ab(1)] by auto
  obtain w where w: "snd b = w @ t" using blanks_matches [OF ab(3)] by auto
  obtain k u where k: "snd a = k # u" "snd b = u" "fst b = (1, [k]) # fst a"
    using ab(2) by (cases "snd a") (auto split: if_splits)
  have "fst (c, t) = fst b" using ab(3) blanks_fst by blast
  then have "grp c 1 = Some [k]" using k(3) by (simp add: grp_def)
  moreover have "k \<in> set m" using t(2) v w k(1,2) by simp
  ultimately show ?thesis by blast
qed

lemma identRx_groupFree: "groupFree identRx"
  by (simp add: identRx_def Plus_def identChar_def upTo_5 Maybe_def)

lemmas identRx_fst = matches_fst [OF identRx_groupFree]

lemma matchExpr_nonEmpty: "nonEmpty (matchExpr ty)"
  by (cases ty) (simp_all add: matchExpr_def identRx_def Plus_def identChar_def attributes_def childExpr_def pseudos_def)

text \<open>The text of a pseudo class has, beside its argument, a colon and two parentheses.\<close>

lemma pseudos_length:
  assumes "execAt pseudos s = Some (c, m)" "orEmpty (grp c 2) \<noteq> []"
  shows "length (orEmpty (grp c 2)) + 3 \<le> length m"
proof -
  obtain t where t: "(c, t) \<in> set (matches pseudos ([], s))" "m = take (length s - length t) s"
    using execAt_member [OF assms(1)] by blast
  obtain A where p: "pseudos = Cat (one 58) (Cat (Grp 1 identRx) (Maybe (Cat (one 40) (Cat (Grp 2 A) (one 41)))))"
    by (simp add: pseudos_def)
  from t(1) obtain b where b: "b \<in> set (matches (Grp 1 identRx) ([], tl s))" "s \<noteq> []"
      "(c, t) \<in> set (matches (Maybe (Cat (one 40) (Cat (Grp 2 A) (one 41)))) b)"
    unfolding p by (cases s) (auto simp del: matches.simps(4,5) split: if_splits)
  from b(1) obtain ct where "ct \<in> set (matches identRx ([], tl s))" "fst b = (1, take (length (tl s) - length (snd ct)) (tl s)) # fst ct"
    by (auto split: prod.splits)
  then have name: "grp (fst b) 2 = None" using identRx_fst [of ct "([], tl s)"] by (simp add: grp_def)
  have "(c, t) \<noteq> b" using assms(2) name by (auto simp: orEmpty_def)
  with b(3) obtain d where d: "snd b = 40 # d" "(c, t) \<in> set (matches (Cat (Grp 2 A) (one 41)) (fst b, d))"
    unfolding Maybe_def by (cases "snd b") (auto simp del: matches.simps(5) split: if_splits)
  then obtain e where e: "e \<in> set (matches A (fst b, d))" "snd e = 41 # t" "grp c 2 = Some (take (length d - length (snd e)) d)"
    by (auto simp: grp_def split: list.splits if_splits)
  have "length (orEmpty (grp c 2)) = length d - length (41 # t)" using e(2,3) by (simp add: orEmpty_def)
  moreover have "length (41 # t) \<le> length d" using matches_length [OF e(1)] e(2) by simp
  moreover have "length (snd b) \<le> length (tl s)" using matches_length [OF b(1)] by simp
  ultimately show ?thesis using t(2) b(2) d(1) by (cases s) auto
qed

lemma pseudo_nonEmpty:
  assumes "execAt pseudos s = Some (c, m)" "pseudoPreFilter ex c m = Inr (Some (v, f))"
  shows "v \<noteq> []"
proof -
  have m: "m \<noteq> []" using execAt_nonEmpty [OF matchExpr_nonEmpty [of PSEUDO]] assms(1) by (simp add: matchExpr_def)
  let ?u = "if orEmpty (grp c 6) \<noteq> [] then [] else orEmpty (grp c 2)"
  consider "v = m" | n where "?u \<noteq> []" "v = sliceNeg (parenFrom (length ?u - n) ?u - int (length ?u)) m"
    using assms(2) unfolding pseudoPreFilter_def Let_def by (auto split: if_splits sum.splits)
  then show ?thesis
  proof cases
    case 2
    then have "length ?u + 3 \<le> length m" using pseudos_length [OF assms(1)] by (auto split: if_splits)
    moreover have "parenFrom (length ?u - n) ?u \<ge> -1" by (auto simp: parenFrom_def Let_def)
    ultimately have "nat (int (length m) + (parenFrom (length ?u - n) ?u - int (length ?u))) \<ge> 1" by linarith
    with 2(2) m show ?thesis by (simp add: sliceNeg_def)
  qed (use m in simp)
qed

lemma tryFilter_nonEmpty:
  assumes "tryFilter ex ty s = Inr (Some (v, f))"
  shows "v \<noteq> []"
proof -
  obtain c k where e: "execAt (matchExpr ty) s = Some (c, k)"
    using assms by (auto simp: tryFilter_def split: option.splits)
  have k: "k \<noteq> []" by (rule execAt_nonEmpty [OF matchExpr_nonEmpty e])
  show ?thesis
  proof (cases "ty = PSEUDO")
    case True
    with assms e pseudo_nonEmpty [of s c k ex v f] show ?thesis by (simp add: tryFilter_def matchExpr_def)
  next
    case False
    with assms e k show ?thesis by (cases ty; cases "childPreFilter c k") (auto simp: tryFilter_def)
  qed
qed

lemma filterPass_tokens:
  "filterPass ex tys s ts b = Inr (s', ts', b') \<Longrightarrow> list_all tokenOK ts \<Longrightarrow> list_all tokenOK ts'"
proof (induction ex tys s ts b rule: filterPass.induct)
  case (2 ex ty tys s ts b)
  show ?case
  proof (cases "tryFilter ex ty s")
    case (Inr r)
    show ?thesis
    proof (cases r)
      case None
      with Inr 2 show ?thesis by simp
    next
      case (Some mf)
      obtain m f where mf: "mf = (m, f)" by fastforce
      then have "m \<noteq> []" using Inr Some tryFilter_nonEmpty by blast
      with Inr Some mf 2 show ?thesis by simp
    qed
  qed (use 2 in simp)
qed simp

lemma combinatorStep_tokens:
  assumes "combinatorStep s ts = (s', ts', b)" "list_all tokenOK ts"
  shows "list_all tokenOK ts'"
proof (cases "execAt rcombinators s")
  case None
  with assms show ?thesis by (simp add: combinatorStep_def)
next
  case (Some cm)
  then obtain c m where e: "execAt rcombinators s = Some (c, m)" by (cases cm) auto
  then obtain k where "grp c 1 = Some [k]" "k \<in> set m" using combinator_char by blast
  with assms e show ?thesis by (auto simp: combinatorStep_def orEmpty_def relOf_def split: if_splits)
qed

lemma scanLoop_tokens:
  "scanLoop ex matched s g = Inr (g', r) \<Longrightarrow> list_all (list_all tokenOK) g \<Longrightarrow> matched \<longrightarrow> g \<noteq> [] \<Longrightarrow>
    list_all (list_all tokenOK) g'"
proof (induction s arbitrary: g matched rule: measure_induct_rule [where f = length])
  case (less s)
  show ?case
  proof (cases "s = []")
    case True
    with less.prems show ?thesis by (simp add: scanLoop.simps [of ex matched "[]"])
  next
    case False
    obtain s1 g1 where comma: "commaStep matched s g = (s1, g1)" by fastforce
    have g1: "list_all (list_all tokenOK) g1" "g1 \<noteq> []"
      using comma less.prems(2,3) by (auto simp: commaStep_def Let_def split: if_splits option.splits)
    obtain s2 ts b where comb: "combinatorStep s1 (last g1) = (s2, ts, b)" by (metis prod_cases3)
    have "\<exists>x. filterPass ex filterTypes s2 ts b = Inr x"
      using less.prems(1) False comma comb by (subst (asm) scanLoop.simps) (auto split: sum.splits)
    then obtain s3 ts' b' where pass: "filterPass ex filterTypes s2 ts b = Inr (s3, ts', b')" by (metis prod_cases3)
    have "list_all tokenOK (last g1)" using g1 last_in_set [of g1] by (auto simp: list_all_iff)
    then have "list_all tokenOK ts'"
      using filterPass_tokens [OF pass] combinatorStep_tokens [OF comb] by blast
    then have g2: "list_all (list_all tokenOK) (butlast g1 @ [ts'])" using g1 by (auto simp: list_all_iff dest: in_set_butlastD)
    from scanLoop_step [OF False comma comb pass] less.prems(1) less.IH [OF _ _ g2] g2 show ?thesis
      by (auto split: if_splits)
  qed
qed

lemma tokenize_tokens: "tokenize s = Inr groups \<Longrightarrow> list_all (list_all tokenOK) groups"
  using scanLoop_tokens [of "excess (length s)" False s "[]"] by (auto simp: tokenize_def split: sum.splits if_splits)

section \<open>Properties\<close>

text \<open>A selector written from parts with any names: an item is a part or a relation.\<close>

datatype sitem = Name jstring | Any | ClassName jstring | Ident jstring | Relation rel

fun itemToken :: "sitem \<Rightarrow> token" where
  "itemToken (Name w) = Flt (escapeCss w) (TagF (escapeCss w))"
| "itemToken Any = Flt [42] (TagF [42])"
| "itemToken (ClassName w) = Flt (46 # escapeCss w) (ClassF (escapeCss w))"
| "itemToken (Ident w) = Flt (35 # escapeCss w) (IdF (escapeCss w))"
| "itemToken (Relation r) = Rel (relText r) r"

definition writeItems :: "sitem list list \<Rightarrow> jstring" where
  "writeItems gs = writeGroups (map (map itemToken) gs)"

fun readToken :: "token \<Rightarrow> sitem option" where
  "readToken (Rel v r) = Some (Relation r)"
| "readToken (Flt v (TagF w)) = Some (if w = [42] then Any else Name (unescapeCss w))"
| "readToken (Flt v (ClassF w)) = Some (ClassName (unescapeCss w))"
| "readToken (Flt v (IdF w)) = Some (Ident (unescapeCss w))"
| "readToken (Flt v f) = None"

fun goodItem :: "sitem \<Rightarrow> bool" where
  "goodItem (Name w) \<longleftrightarrow> w \<noteq> [] \<and> 0 \<notin> set w"
| "goodItem (ClassName w) \<longleftrightarrow> w \<noteq> [] \<and> 0 \<notin> set w"
| "goodItem (Ident w) \<longleftrightarrow> w \<noteq> [] \<and> 0 \<notin> set w"
| "goodItem _ \<longleftrightarrow> True"

definition isRelation :: "sitem \<Rightarrow> bool" where
  "isRelation i \<longleftrightarrow> (case i of Relation r \<Rightarrow> True | _ \<Rightarrow> False)"

definition isTag :: "sitem \<Rightarrow> bool" where
  "isTag i \<longleftrightarrow> (case i of Name w \<Rightarrow> True | Any \<Rightarrow> True | _ \<Rightarrow> False)"

text \<open>No two relations meet, none is at an end, and a tag is first or behind a relation.\<close>

fun goodItems :: "bool \<Rightarrow> sitem list \<Rightarrow> bool" where
  "goodItems start [] \<longleftrightarrow> \<not> start"
| "goodItems start (i # is) \<longleftrightarrow>
     goodItem i \<and> (if isRelation i then \<not> start \<and> goodItems True is else (isTag i \<longrightarrow> start) \<and> goodItems False is)"

lemma plain_item: "goodItem i \<Longrightarrow> \<not> isRelation i \<Longrightarrow>
    \<exists>v f. itemToken i = Flt v f \<and> plainFilt f v \<and> (isTagF f \<longleftrightarrow> isTag i)"
  by (cases i) (auto simp: isRelation_def isTag_def nameText_escape)

lemma plain_items:
  "(goodItems False is \<longrightarrow> plainRest (map itemToken is)) \<and> (goodItems True is \<longrightarrow> plainGroup (map itemToken is))"
proof (induction "is")
  case (Cons i "is")
  show ?case
  proof (cases "isRelation i")
    case True
    then obtain r where r: "itemToken i = Rel (relText r) r" by (cases i) (auto simp: isRelation_def)
    have "goodItems True is \<Longrightarrow> plainRest (map itemToken (i # is))"
      using Cons.IH r by (cases "map itemToken is" rule: plainGroup.cases) auto
    with True show ?thesis by simp
  next
    case False
    then show ?thesis using Cons.IH plain_item [of i] by auto
  qed
qed simp

lemma escape_not_star: "w \<noteq> [] \<Longrightarrow> 0 \<notin> set w \<Longrightarrow> escapeCss w \<noteq> [42]"
  using nameText_hd [OF nameText_escape [of w]] by (auto simp: char_classes)

lemma read_item: "goodItem i \<Longrightarrow> readToken (itemToken i) = Some i"
  by (cases i) (auto simp: unescape_escape escape_not_star)

lemma read_items: "goodItems b is \<Longrightarrow> map (readToken \<circ> itemToken) is = map Some is"
  by (induction "is" arbitrary: b) (auto simp: read_item split: if_splits)

text \<open>
  C37. A selector that is written from parts is read as these parts: groups of tags, classes, identifiers and relations,
  with any names (escaped; without the character 0, which has no escape).
\<close>

theorem tokenize_written:
  assumes "list_all (goodItems True) gs" "gs \<noteq> []"
  shows "map_sum id (map (map readToken)) (tokenize (writeItems gs)) = Inr (map (map Some) gs)"
proof -
  have "list_all plainGroup (map (map itemToken) gs)"
    using assms(1) plain_items by (auto simp: list_all_iff)
  then have "tokenize (writeItems gs) = Inr (map (map itemToken) gs)"
    using tokenize_write assms(2) by (simp add: writeItems_def)
  with assms(1) read_items show ?thesis by (auto simp: list_all_iff)
qed

text \<open>The selector \<^verbatim>\<open>a > .b\.c, *\<close>.\<close>

theorem tokenize_written_witness:
  "let gs = [[Name [97], Relation Child, ClassName [98, 46, 99]], [Any]]
   in writeItems gs = [97, 32, 62, 32, 46, 98, 92, 46, 99, 44, 32, 42] \<and>
      map_sum id (map (map readToken)) (tokenize (writeItems gs)) = Inr (map (map Some) gs)"
proof -
  let ?gs = "[[Name [97], Relation Child, ClassName [98, 46, 99]], [Any]]"
  have good: "list_all (goodItems True) ?gs" by (simp add: isRelation_def isTag_def)
  have "writeItems ?gs = [97, 32, 62, 32, 46, 98, 92, 46, 99, 44, 32, 42]"
    by (simp add: writeItems_def writeGroups_def joinGroups_def toSelector_def relText_def escapeCss_def escapeUnit_def char_classes)
  with tokenize_written [OF good] show ?thesis by (simp only: Let_def) simp
qed

text \<open>
  The tokens of a selector put together, with the commas between the groups and the blanks around them, are the
  selector: nothing is skipped and nothing is read twice, and a comma with nothing behind it is an error.
\<close>

theorem tokenize_covers:
  assumes "tokenize s = Inr groups" "s \<noteq> []"
  shows "\<exists>seps. length groups = Suc (length seps) \<and> list_all sepText seps \<and> s = joinGroups seps groups"
  by (rule tokenize_text [OF assms])

theorem tokenize_covers_witness:
  "\<exists>seps. length [[Flt [97] (TagF [97])], [Flt [42] (TagF [42])]] = Suc (length seps) \<and> list_all sepText seps
     \<and> [97, 44, 32, 42] = joinGroups seps [[Flt [97] (TagF [97])], [Flt [42] (TagF [42])]]"
proof -
  let ?gs = "[[Flt [97] (TagF [97])], [Flt [42] (TagF [42])]]"
  have "nameText [97]" by (rule nameText_plain) (auto simp: char_classes)
  then have "tokenize (writeGroups ?gs) = Inr ?gs" by (intro tokenize_write) auto
  moreover have "writeGroups ?gs = [97, 44, 32, 42]" by (simp add: writeGroups_def joinGroups_def)
  ultimately show ?thesis using tokenize_covers [of "[97, 44, 32, 42]" ?gs] by simp
qed

end
