(* ===== verification/Sizzle_Filters.thy ===== *)
theory Sizzle_Filters
  imports Sizzle_Dom Sizzle_Tokenizer
begin

text \<open>
  The filters of the selector engine of \<^verbatim>\<open>jquery.js\<close> on one element (\<open>Expr.filter\<close>, \<open>Expr.pseudos\<close>): tags, classes,
  attributes, positions among the siblings (with the cache of positions) and the pseudo classes that
  look at the element alone, and the indexes of the positional ones. The lemmas compare them with
  what the selectors mean.
\<close>

section \<open>The page\<close>

text \<open>
  A page: its tree, the conversion to lower case of the language, whether it is HTML, the properties of
  elements as the browser gives them (absent for \<open>None\<close>), the fragment of its address, and the focus.
\<close>

datatype propVal = PBool bool | PStr jstring | PNum int | PNull

record dom =
  domTree :: dnode
  lowerCase :: "jstring \<Rightarrow> jstring"
  isHtml :: bool
  domProp :: "path \<Rightarrow> jstring \<Rightarrow> propVal option"
  hash :: jstring
  activeElement :: "path option"
  hasFocus :: bool

definition lcName :: "dom \<Rightarrow> path \<Rightarrow> jstring" where
  "lcName D p = lowerCase D (nodeNameAt (domTree D) p)"

definition elementAt :: "dom \<Rightarrow> path \<Rightarrow> bool" where
  "elementAt D p = isElement (domTree D) p"

definition attrOf :: "dom \<Rightarrow> path \<Rightarrow> jstring \<Rightarrow> jstring option" where
  "attrOf D p a = attrAt (domTree D) p a"

definition strProp :: "dom \<Rightarrow> path \<Rightarrow> jstring \<Rightarrow> jstring" where
  "strProp D p n = (case domProp D p n of Some (PStr s) \<Rightarrow> s | _ \<Rightarrow> [])"

definition boolProp :: "dom \<Rightarrow> path \<Rightarrow> jstring \<Rightarrow> bool \<Rightarrow> bool" where
  "boolProp D p n b \<longleftrightarrow> domProp D p n = Some (PBool b)"

definition truthyProp :: "dom \<Rightarrow> path \<Rightarrow> jstring \<Rightarrow> bool" where
  "truthyProp D p n \<longleftrightarrow>
     (case domProp D p n of
        None \<Rightarrow> False | Some PNull \<Rightarrow> False | Some (PBool b) \<Rightarrow> b | Some (PStr s) \<Rightarrow> s \<noteq> [] | Some (PNum n) \<Rightarrow> n \<noteq> 0)"

section \<open>Tags, classes and attributes\<close>

definition tagFilter :: "dom \<Rightarrow> jstring \<Rightarrow> path \<Rightarrow> bool" where
  "tagFilter D w p \<longleftrightarrow>
     w = [42] \<or> nodeNameAt (domTree D) p \<noteq> [] \<and> lcName D p = lowerCase D (unescapeCss w)"

text \<open>
  The expression that \<open>new RegExp\<close> makes of the text of a class name. The name stands there as it is written in the
  selector, so its escapes become escapes of the expression: of a character that is not a letter or digit the character,
  of digits an octal number. \<open>None\<close> stands for the escapes that are not covered (references to groups, boundaries, and
  the escapes with \<open>c\<close>, \<open>u\<close> and \<open>x\<close>).
\<close>

definition isOctal :: "nat \<Rightarrow> bool" where
  "isOctal c \<longleftrightarrow> 48 \<le> c \<and> c \<le> 55"

definition octalVal :: "jstring \<Rightarrow> nat" where
  "octalVal s = foldl (\<lambda>a c. a * 8 + (c - 48)) 0 s"

definition octalDigits :: "jstring \<Rightarrow> jstring" where
  "octalDigits s = takeWhile isOctal (take (if s \<noteq> [] \<and> hd s \<le> 51 then 3 else 2) s)"

definition isAlnum :: "nat \<Rightarrow> bool" where
  "isAlnum c \<longleftrightarrow> isDigit c \<or> 65 \<le> c \<and> c \<le> 90 \<or> 97 \<le> c \<and> c \<le> 122"

definition wordChar :: "nat \<Rightarrow> bool" where
  "wordChar c \<longleftrightarrow> isAlnum c \<or> c = 95"

definition letterEscape :: "nat \<Rightarrow> rx option" where
  "letterEscape c =
     (if c \<in> set (js ''bBcux'') then None
      else if c = 100 then Some (Sym isDigit)
      else if c = 68 then Some (Sym (\<lambda>x. \<not> isDigit x))
      else if c = 119 then Some (Sym wordChar)
      else if c = 87 then Some (Sym (\<lambda>x. \<not> wordChar x))
      else if c = 115 then Some (Sym is_js_space)
      else if c = 83 then Some (Sym (\<lambda>x. \<not> is_js_space x))
      else Some (one (if c = 102 then 12 else if c = 110 then 10 else if c = 114 then 13 else if c = 116 then 9
                 else if c = 118 then 11 else c)))"

definition thenRx :: "rx option \<Rightarrow> rx option \<Rightarrow> rx option" where
  "thenRx a b = (case (a, b) of (Some x, Some y) \<Rightarrow> Some (Cat x y) | _ \<Rightarrow> None)"

function classRx :: "jstring \<Rightarrow> rx option" where
  "classRx s =
     (case s of
        [] \<Rightarrow> Some Eps
      | c # t \<Rightarrow>
          if c \<noteq> 92 then thenRx (Some (one c)) (classRx t)
          else case t of
              [] \<Rightarrow> None
            | e # u \<Rightarrow>
                if isDigit e then
                  (if e \<noteq> 48 \<and> digitsVal (takeWhile isDigit t) \<le> 2 then None
                   else if \<not> isOctal e then thenRx (Some (one e)) (classRx u)
                   else thenRx (Some (one (octalVal (octalDigits t)))) (classRx (drop (length (octalDigits t)) t)))
                else if isAlnum e then thenRx (letterEscape e) (classRx u)
                else thenRx (Some (one e)) (classRx u))"
  by pat_completeness auto
termination by (relation "measure length") (auto simp: less_Suc_eq_le)

declare classRx.simps [simp del]

definition classTest :: "rx \<Rightarrow> jstring \<Rightarrow> bool" where
  "classTest r s \<longleftrightarrow>
     (let e = Cat r (Or (Sym white) Eos) in execAt e s \<noteq> None \<or> testAnywhere (Cat (Sym white) e) s)"

text \<open>The class of an element: the property, or else the attribute.\<close>

definition classText :: "dom \<Rightarrow> path \<Rightarrow> jstring" where
  "classText D p =
     (if strProp D p (js ''className'') \<noteq> [] then strProp D p (js ''className'') else orEmpty (attrOf D p (js ''class'')))"

definition classFilter :: "dom \<Rightarrow> rx \<Rightarrow> path \<Rightarrow> bool" where
  "classFilter D r p \<longleftrightarrow> classTest r (classText D p)"

text \<open>\<open>s.replace(rwhitespace, " ")\<close>.\<close>

fun squeeze :: "jstring \<Rightarrow> jstring" where
  "squeeze [] = []"
| "squeeze (c # s) =
     (if white c then (case s of d # _ \<Rightarrow> if white d then squeeze s else 32 # squeeze s | [] \<Rightarrow> [32])
      else c # squeeze s)"

definition attrTest :: "jstring option \<Rightarrow> jstring \<Rightarrow> jstring option \<Rightarrow> bool" where
  "attrTest op check found =
     (case found of
        None \<Rightarrow> op = Some (js ''!='')
      | Some result \<Rightarrow>
          (case op of
             None \<Rightarrow> True
           | Some o1 \<Rightarrow>
               if o1 = js ''='' then result = check
               else if o1 = js ''!='' then result \<noteq> check
               else if o1 = js ''^='' then check \<noteq> [] \<and> indexOf check result = 0
               else if o1 = js ''*='' then check \<noteq> [] \<and> indexOf check result > -1
               else if o1 = js ''$='' then check \<noteq> [] \<and> drop (length result - length check) result = check
               else if o1 = js ''~='' then indexOf check ([32] @ squeeze result @ [32]) > -1
               else if o1 = js ''|='' then result = check \<or> take (length check + 1) result = check @ [45]
               else False))"

text \<open>
  \<open>Sizzle.attr\<close>. The hooks in \<open>Expr.attrHandle\<close> give in HTML for an attribute that is true or false its name in lower case as the value when it is present, whatever
  it is set to, and nothing otherwise; in XML they leave the answer to \<open>getAttribute\<close>, which in HTML looks for the name
  in lower case. (For browsers that pass \<open>support.attributes\<close>, where the file adds no other hook.)
\<close>

definition booleans :: "jstring list" where
  "booleans = map js [''checked'', ''selected'', ''async'', ''autofocus'', ''autoplay'', ''controls'', ''defer'', ''disabled'', ''hidden'',
     ''ismap'', ''loop'', ''multiple'', ''open'', ''readonly'', ''required'', ''scoped'']"

definition getAttribute :: "dom \<Rightarrow> path \<Rightarrow> jstring \<Rightarrow> jstring option" where
  "getAttribute D p name = attrOf D p (if isHtml D then lowerCase D name else name)"

definition boolHandle :: "dom \<Rightarrow> path \<Rightarrow> jstring \<Rightarrow> jstring option" where
  "boolHandle D p name = (case getAttribute D p name of None \<Rightarrow> None | Some _ \<Rightarrow> Some (lowerCase D name))"

definition sizzleAttr :: "dom \<Rightarrow> path \<Rightarrow> jstring \<Rightarrow> jstring option" where
  "sizzleAttr D p name =
     (if lowerCase D name \<in> set booleans \<and> isHtml D then boolHandle D p name else getAttribute D p name)"

definition attrFilter :: "dom \<Rightarrow> jstring \<Rightarrow> jstring option \<Rightarrow> jstring \<Rightarrow> path \<Rightarrow> bool" where
  "attrFilter D name op check p \<longleftrightarrow> attrTest op check (sizzleAttr D p name)"

text \<open>The identifier, as the filter that the engine adds for browsers with \<open>getElementById\<close>.\<close>

definition idFilter :: "dom \<Rightarrow> jstring \<Rightarrow> path \<Rightarrow> bool" where
  "idFilter D w p \<longleftrightarrow> attrOf D p (js ''id'') = Some (unescapeCss w)"

section \<open>Positions among the siblings\<close>

definition ofKind :: "dom \<Rightarrow> bool \<Rightarrow> path \<Rightarrow> path \<Rightarrow> bool" where
  "ofKind D ofType elem node \<longleftrightarrow> (if ofType then lcName D node = lcName D elem else elementAt D node)"

text \<open>\<open>:first-\<close>, \<open>:last-\<close> and \<open>:only-\<close>: no sibling of the kind in the direction, or in both.\<close>

definition simpleChild :: "dom \<Rightarrow> jstring \<Rightarrow> bool \<Rightarrow> path \<Rightarrow> bool" where
  "simpleChild D type ofType elem \<longleftrightarrow>
     (let forward = drop (length type - 4) type \<noteq> js ''last'';
          dir = (if forward then preceding elem else following (domTree D) elem)
      in \<not> list_ex (ofKind D ofType elem) dir
         \<and> (type = js ''only'' \<longrightarrow> \<not> list_ex (ofKind D ofType elem) (following (domTree D) elem)))"

text \<open>
  The cache of positions: of a parent and a type the run, the index of a child and its position among the elements, and
  of an element and a type the run and its position from the end.
\<close>

record child_cache =
  fwdCache :: "path \<Rightarrow> jstring \<Rightarrow> (nat \<times> nat \<times> nat) option"
  bwdCache :: "path \<Rightarrow> jstring \<Rightarrow> (nat \<times> nat) option"

text \<open>
  The loop of \<open>:nth-child\<close>: from the child with index \<open>i\<close> on, counting the elements, until the element
  is found; at the end it starts again from the first child, once. The result is the index and the
  position, or the count 0 when the element was not found.
\<close>

function seekForward :: "dom \<Rightarrow> path \<Rightarrow> nat \<Rightarrow> bool \<Rightarrow> nat \<Rightarrow> nat \<Rightarrow> (nat \<times> nat) option" where
  "seekForward D parent k again i diff =
     (if i < childCount (domTree D) parent then
        (let diff' = (if elementAt D (i # parent) then diff + 1 else diff)
         in if elementAt D (i # parent) \<and> i = k then Some (i, diff')
            else seekForward D parent k again (Suc i) diff')
      else if again then seekForward D parent k False 0 0
      else None)"
  by pat_completeness auto
termination
  by (relation "inv_image (less_than <*lex*> less_than)
        (\<lambda>(D, parent, k, again, i, diff). (if again then 1 else 0, childCount (domTree D) parent - i))") auto

declare seekForward.simps [simp del]

definition fwdPosition :: "dom \<Rightarrow> nat \<Rightarrow> jstring \<Rightarrow> path \<Rightarrow> nat \<Rightarrow> child_cache \<Rightarrow> nat \<times> child_cache" where
  "fwdPosition D run type parent k C =
     (let start = (case fwdCache C parent type of
                     Some (r, i, d) \<Rightarrow> if r = run \<and> i \<noteq> 0 then Some (i, d) else None
                   | None \<Rightarrow> None);
          found = (case start of
                     Some (i, d) \<Rightarrow> seekForward D parent k True (Suc i) d
                   | None \<Rightarrow> seekForward D parent k False 0 0)
      in case found of
           Some (i, d) \<Rightarrow> (d, C\<lparr>fwdCache := (fwdCache C)(parent := (fwdCache C parent)(type := Some (run, i, d)))\<rparr>)
         | None \<Rightarrow> (0, C))"

text \<open>
  The other loop: over siblings in one direction up to the element, counting those of the kind; with the cache every
  one that is passed gets the count as its position. \<open>None\<close>: the element was not met.
\<close>

fun seekAll ::
  "dom \<Rightarrow> bool \<Rightarrow> bool \<Rightarrow> nat \<Rightarrow> jstring \<Rightarrow> path \<Rightarrow> path list \<Rightarrow> nat \<Rightarrow> child_cache \<Rightarrow> nat option \<times> child_cache" where
  "seekAll D useCache ofType run type elem [] diff C = (None, C)"
| "seekAll D useCache ofType run type elem (node # nodes) diff C =
     (if ofKind D ofType elem node then
        (let C' = (if useCache
                   then C\<lparr>bwdCache := (bwdCache C)(node := (bwdCache C node)(type := Some (run, diff + 1)))\<rparr> else C)
         in if node = elem then (Some (diff + 1), C')
            else seekAll D useCache ofType run type elem nodes (diff + 1) C')
      else seekAll D useCache ofType run type elem nodes diff C)"

definition childrenOf :: "dom \<Rightarrow> path \<Rightarrow> path list" where
  "childrenOf D parent = map (\<lambda>i. i # parent) [0..<childCount (domTree D) parent]"

text \<open>
  Without the cache the loop starts at an end. With the cache and no position in it, \<open>nodeIndex\<close> is \<open>false\<close> and
  \<open>++nodeIndex\<close> is 1, so that the loop first goes from the element itself in the direction, over the siblings
  before it, and only then starts at the end.
\<close>

definition bwdPosition ::
  "dom \<Rightarrow> bool \<Rightarrow> bool \<Rightarrow> nat \<Rightarrow> jstring \<Rightarrow> bool \<Rightarrow> path \<Rightarrow> child_cache \<Rightarrow> nat \<times> child_cache" where
  "bwdPosition D useCache ofType run type forward elem C =
     (let siblings = (if forward then childrenOf D (tl elem) else rev (childrenOf D (tl elem)));
          known = (if useCache then (case bwdCache C elem type of Some (r, d) \<Rightarrow> if r = run then Some d else None | None \<Rightarrow> None)
                   else None)
      in case known of
           Some d \<Rightarrow> (d, C)
         | None \<Rightarrow>
             (let C1 = (if useCache then snd (seekAll D useCache ofType run type elem (preceding elem) 0 C) else C);
                  (found, C2) = seekAll D useCache ofType run type elem siblings 0 C1
              in (case found of Some d \<Rightarrow> d | None \<Rightarrow> 0, C2)))"

text \<open>\<open>diff % first === 0 && diff / first >= 0\<close>; the remainder of a division by 0 is not a number.\<close>

definition nthTest :: "int \<Rightarrow> int \<Rightarrow> int \<Rightarrow> bool" where
  "nthTest first last' pos \<longleftrightarrow>
     (let diff = pos - last' in diff = first \<or> first \<noteq> 0 \<and> diff mod first = 0 \<and> (diff = 0 \<or> (diff > 0 \<longleftrightarrow> first > 0)))"

definition childFilter ::
  "dom \<Rightarrow> nat \<Rightarrow> jstring \<Rightarrow> jstring \<Rightarrow> int \<Rightarrow> int \<Rightarrow> path \<Rightarrow> child_cache \<Rightarrow> bool \<times> child_cache" where
  "childFilter D run type what first last' elem C =
     (let simple = take 3 type \<noteq> js ''nth''; forward = drop (length type - 4) type \<noteq> js ''last'';
          ofType = (what = js ''of-type''); useCache = isHtml D \<and> \<not> ofType
      in if first = 1 \<and> last' = 0 then (elem \<noteq> [], C)
         else case elem of
             [] \<Rightarrow> (False, C)
           | k # parent \<Rightarrow>
               if simple then (simpleChild D type ofType elem, C)
               else if forward \<and> useCache then
                 (let (pos, C') = fwdPosition D run type parent k C in (nthTest first last' (int pos), C'))
               else
                 (let (pos, C') = bwdPosition D useCache ofType run type forward elem C in (nthTest first last' (int pos), C')))"

section \<open>Lemmas: positions\<close>

text \<open>The position of a child among the elements (or those of a kind), from the start and from the end.\<close>

definition placeFrom :: "(path \<Rightarrow> bool) \<Rightarrow> path list \<Rightarrow> path \<Rightarrow> nat" where
  "placeFrom K siblings elem = Suc (length (filter K (takeWhile (\<lambda>x. x \<noteq> elem) siblings)))"

definition elemsUpTo :: "dom \<Rightarrow> path \<Rightarrow> nat \<Rightarrow> nat" where
  "elemsUpTo D parent n = length (filter (\<lambda>i. elementAt D (i # parent)) [0..<n])"

lemma elemsUpTo_Suc: "elemsUpTo D parent (Suc n) = elemsUpTo D parent n + (if elementAt D (n # parent) then 1 else 0)"
  by (simp add: elemsUpTo_def)

lemma placeFrom_elems:
  assumes "k < childCount (domTree D) parent"
  shows "placeFrom (elementAt D) (childrenOf D parent) (k # parent) = Suc (elemsUpTo D parent k)"
proof -
  let ?n = "childCount (domTree D) parent"
  have "[0..<?n] = [0..<k] @ [k..<?n]" using upt_add_eq_append [of 0 k "?n - k"] assms by simp
  also have "[k..<?n] = k # [Suc k..<?n]" using assms by (rule upt_conv_Cons)
  finally have "[0..<?n] = [0..<k] @ k # [Suc k..<?n]" .
  then have "childrenOf D parent = map (\<lambda>i. i # parent) [0..<k] @ (k # parent) # map (\<lambda>i. i # parent) [Suc k..<?n]"
    by (simp add: childrenOf_def)
  moreover have "takeWhile (\<lambda>x. x \<noteq> k # parent) (map (\<lambda>i. i # parent) [0..<k] @ (k # parent) # ys) = map (\<lambda>i. i # parent) [0..<k]" for ys
    by (subst takeWhile_append2) auto
  ultimately show ?thesis by (simp add: placeFrom_def elemsUpTo_def filter_map comp_def)
qed

lemma seekForward_found:
  "i \<le> k \<Longrightarrow> k < childCount (domTree D) parent \<Longrightarrow> elementAt D (k # parent) \<Longrightarrow> diff = elemsUpTo D parent i \<Longrightarrow>
    seekForward D parent k again i diff = Some (k, elemsUpTo D parent (Suc k))"
proof (induction "k - i" arbitrary: i diff)
  case 0
  then show ?case by (subst seekForward.simps) (auto simp: elemsUpTo_Suc)
next
  case (Suc n)
  then have "i < k" "i < childCount (domTree D) parent" by auto
  moreover have "seekForward D parent k again (Suc i) (elemsUpTo D parent (Suc i)) = Some (k, elemsUpTo D parent (Suc k))"
    using Suc by (intro Suc.hyps(1)) auto
  ultimately show ?case using Suc.prems by (subst seekForward.simps) (auto simp: elemsUpTo_Suc [of D parent i])
qed

lemma seekForward_again:
  "k < i \<Longrightarrow> k < childCount (domTree D) parent \<Longrightarrow> elementAt D (k # parent) \<Longrightarrow>
    seekForward D parent k True i diff = Some (k, elemsUpTo D parent (Suc k))"
proof (induction "childCount (domTree D) parent - i" arbitrary: i diff)
  case 0
  then show ?case
    by (subst seekForward.simps) (auto simp: seekForward_found elemsUpTo_def)
next
  case (Suc n)
  with Suc.hyps(1) [of "Suc i"] show ?case by (subst seekForward.simps) auto
qed

text \<open>What the cache of a run says is right: the position is that of the child with the index.\<close>

definition fwdRight :: "dom \<Rightarrow> nat \<Rightarrow> child_cache \<Rightarrow> bool" where
  "fwdRight D run C \<longleftrightarrow> (\<forall>parent type i d. fwdCache C parent type = Some (run, i, d) \<longrightarrow> d = elemsUpTo D parent (Suc i))"

lemma fwdPosition_right:
  assumes "fwdRight D run C" "k < childCount (domTree D) parent" "elementAt D (k # parent)"
  shows "\<exists>C'. fwdPosition D run type parent k C = (elemsUpTo D parent (Suc k), C') \<and> fwdRight D run C'"
proof -
  have scratch: "seekForward D parent k False 0 0 = Some (k, elemsUpTo D parent (Suc k))"
    using seekForward_found [of 0 k D parent 0 False] assms by (simp add: elemsUpTo_def)
  have cached: "seekForward D parent k True (Suc i) d = Some (k, elemsUpTo D parent (Suc k))"
    if "fwdCache C parent type = Some (run, i, d)" for i d
  proof (cases "Suc i \<le> k")
    case True
    have "d = elemsUpTo D parent (Suc i)" using assms(1) that by (auto simp: fwdRight_def)
    with True assms show ?thesis using seekForward_found [of "Suc i" k D parent d True] by simp
  next
    case False
    with assms show ?thesis using seekForward_again [of k "Suc i" D parent d] by simp
  qed
  let ?C = "C\<lparr>fwdCache := (fwdCache C)(parent := (fwdCache C parent)(type := Some (run, k, elemsUpTo D parent (Suc k))))\<rparr>"
  have "fwdPosition D run type parent k C = (elemsUpTo D parent (Suc k), ?C)"
  proof (cases "fwdCache C parent type")
    case None
    with scratch show ?thesis by (simp add: fwdPosition_def)
  next
    case (Some x)
    obtain r i d where "x = (r, i, d)" by (cases x) auto
    with Some scratch cached show ?thesis by (auto simp: fwdPosition_def)
  qed
  moreover have "fwdRight D run ?C" using assms(1) by (auto simp: fwdRight_def)
  ultimately show ?thesis by blast
qed

text \<open>The other loop finds the place of the element in the list.\<close>

lemma seekAll_place:
  "elem \<in> set nodes \<Longrightarrow> ofKind D ofType elem elem \<Longrightarrow>
    fst (seekAll D useCache ofType run type elem nodes diff C) = Some (diff + placeFrom (ofKind D ofType elem) nodes elem)"
  by (induction nodes arbitrary: diff C) (auto simp: placeFrom_def Let_def)

lemma seekAll_fwd: "fwdCache (snd (seekAll D useCache ofType run type elem nodes diff C)) = fwdCache C"
  by (induction nodes arbitrary: diff C) (auto simp: Let_def)

lemma seekAll_uncached: "snd (seekAll D False ofType run type elem nodes diff C) = C"
  by (induction nodes arbitrary: diff) (auto simp: Let_def)

lemma nthTest_iff: "nthTest first last' pos \<longleftrightarrow> (\<exists>n::nat. pos = first * int n + last')"
proof
  assume t: "nthTest first last' pos"
  show "\<exists>n::nat. pos = first * int n + last'"
  proof (cases "pos - last' = first")
    case True
    then show ?thesis by (intro exI [of _ 1]) simp
  next
    case False
    with t have f: "first \<noteq> 0" "(pos - last') mod first = 0" "pos - last' = 0 \<or> (pos - last' > 0 \<longleftrightarrow> first > 0)"
      by (auto simp: nthTest_def Let_def)
    let ?q = "(pos - last') div first"
    have q: "pos - last' = first * ?q" using f(2) by (metis add.right_neutral mult_div_mod_eq)
    have "?q \<ge> 0" using f(1,3)
      by (metis div_0 dual_order.refl linorder_neqE_linordered_idom nonneg1_imp_zdiv_pos_iff not_less_iff_gr_or_eq pos_imp_zdiv_nonneg_iff neg_imp_zdiv_nonneg_iff order.order_iff_strict linorder_not_less)
    with q show ?thesis by (intro exI [of _ "nat ?q"]) simp
  qed
next
  assume "\<exists>n::nat. pos = first * int n + last'"
  then obtain n :: nat where "pos = first * int n + last'" by blast
  then have "pos - last' = first * int n" by simp
  then show "nthTest first last' pos"
    by (cases "n = 0"; cases "first = 0") (auto simp: nthTest_def Let_def zero_less_mult_iff)
qed

lemma inDoc_child: "inDoc d (k # parent) \<Longrightarrow> k < childCount d parent"
  using inDoc_tl by blast

lemma ofKind_elem: "ofKind D False elem = elementAt D"
  by (auto simp: ofKind_def)

lemma place_pos: "\<exists>n::nat. int (placeFrom K nodes elem) = 1 * int n + 0"
  by simp

definition siblingsFrom :: "dom \<Rightarrow> jstring \<Rightarrow> path \<Rightarrow> path list" where
  "siblingsFrom D type parent =
     (if drop (length type - 4) type \<noteq> js ''last'' then childrenOf D parent else rev (childrenOf D parent))"

definition notYet :: "nat \<Rightarrow> jstring \<Rightarrow> path \<Rightarrow> child_cache \<Rightarrow> bool" where
  "notYet run type elem C \<longleftrightarrow> (case bwdCache C elem type of Some (r, d) \<Rightarrow> r \<noteq> run | None \<Rightarrow> True)"

text \<open>Whether positions from the end are taken from the cache.\<close>

definition cachesBackward :: "dom \<Rightarrow> jstring \<Rightarrow> jstring \<Rightarrow> bool" where
  "cachesBackward D type what \<longleftrightarrow>
     isHtml D \<and> what \<noteq> js ''of-type'' \<and> drop (length type - 4) type = js ''last''"

lemma bwdPosition_place:
  assumes "k < childCount (domTree D) parent" "ofKind D ofType (k # parent) (k # parent)"
    and "useCache \<longrightarrow> notYet run type (k # parent) C" "forward \<longleftrightarrow> drop (length type - 4) type \<noteq> js ''last''"
  shows "\<exists>C'. bwdPosition D useCache ofType run type forward (k # parent) C =
      (placeFrom (ofKind D ofType (k # parent)) (siblingsFrom D type parent) (k # parent), C') \<and> fwdCache C' = fwdCache C"
proof -
  let ?e = "k # parent" and ?s = "siblingsFrom D type parent"
  have s: "?e \<in> set ?s" using assms(1) by (auto simp: siblingsFrom_def childrenOf_def)
  let ?C1 = "if useCache then snd (seekAll D useCache ofType run type ?e (preceding ?e) 0 C) else C"
  have known: "(if useCache then (case bwdCache C ?e type of Some (r, d) \<Rightarrow> if r = run then Some d else None | None \<Rightarrow> None)
      else None) = None"
    using assms(3) by (auto simp: notYet_def split: option.splits)
  obtain f C2 where f: "seekAll D useCache ofType run type ?e ?s 0 ?C1 = (f, C2)" by fastforce
  then have "f = Some (placeFrom (ofKind D ofType ?e) ?s ?e)"
    using seekAll_place [OF s assms(2), of useCache run type 0 ?C1] by simp
  moreover have "fwdCache C2 = fwdCache C"
    using f seekAll_fwd [of D useCache ofType run type ?e ?s 0 ?C1] by (auto simp: seekAll_fwd)
  moreover have sib: "(if forward then childrenOf D (tl ?e) else rev (childrenOf D (tl ?e))) = ?s"
    using assms(4) by (simp add: siblingsFrom_def del: js.simps)
  have "bwdPosition D useCache ofType run type forward ?e C = (case f of Some d \<Rightarrow> d | None \<Rightarrow> 0, C2)"
    unfolding bwdPosition_def Let_def sib known f by simp
  ultimately show ?thesis by simp
qed

lemma childFilter_place:
  assumes "inDoc (domTree D) (k # parent)" "elementAt D (k # parent)" "take 3 type = js ''nth''"
    and "fwdRight D run C" "cachesBackward D type what \<Longrightarrow> notYet run type (k # parent) C"
  shows "(fst (childFilter D run type what first last' (k # parent) C) \<longleftrightarrow>
      (\<exists>n::nat. int (placeFrom (ofKind D (what = js ''of-type'') (k # parent)) (siblingsFrom D type parent) (k # parent)) =
        first * int n + last')) \<and>
    fwdRight D run (snd (childFilter D run type what first last' (k # parent) C))"
proof -
  have k: "k < childCount (domTree D) parent" by (rule inDoc_child [OF assms(1)])
  let ?of = "what = js ''of-type''" and ?fwd = "drop (length type - 4) type \<noteq> js ''last''" and ?e = "k # parent"
  let ?place = "placeFrom (ofKind D ?of ?e) (siblingsFrom D type parent) ?e"
  have "(fst (childFilter D run type what first last' ?e C) \<longleftrightarrow> nthTest first last' (int ?place))
      \<and> fwdRight D run (snd (childFilter D run type what first last' ?e C))"
  proof (cases "first = 1 \<and> last' = 0")
    case True
    then show ?thesis using assms(4) by (simp add: childFilter_def nthTest_iff)
  next
    case first: False
    show ?thesis
    proof (cases "?fwd \<and> isHtml D \<and> \<not> ?of")
      case True
      then have "?place = elemsUpTo D parent (Suc k)"
        using placeFrom_elems [OF k] assms(2) by (simp add: siblingsFrom_def ofKind_elem elemsUpTo_Suc)
      with fwdPosition_right [OF assms(4) k assms(2), of type] True first assms(3) show ?thesis
        by (auto simp: childFilter_def Let_def)
    next
      case False
      have "ofKind D ?of ?e ?e" using assms(2) by (simp add: ofKind_def)
      moreover have "isHtml D \<and> \<not> ?of \<longrightarrow> notYet run type ?e C" using False assms(5) by (auto simp: cachesBackward_def)
      ultimately
      obtain C' where C': "bwdPosition D (isHtml D \<and> \<not> ?of) ?of run type ?fwd ?e C = (?place, C')" "fwdCache C' = fwdCache C"
        using bwdPosition_place [OF k, of ?of "isHtml D \<and> \<not> ?of" run type C ?fwd] by blast
      then have "fwdRight D run C'" using assms(4) by (simp add: fwdRight_def)
      with C' False first assms(3) show ?thesis by (auto simp: childFilter_def Let_def)
    qed
  qed
  then show ?thesis by (simp add: nthTest_iff del: js.simps)
qed

text \<open>
  C39. \<open>:nth-child\<close> and its relatives take the elements whose position is \<open>first * n + last\<close> for some \<open>n\<close> \<open>\<ge>\<close> 0, where
  the position counts the elements, or those of the same name, from the start or from the end; for the positions from
  the start whatever the cache holds of this run is right and stays right. (Where positions from the end are taken from
  the cache, the element must not have one there.)
\<close>

theorem childFilter_position:
  assumes "inDoc (domTree D) (k # parent)" "elementAt D (k # parent)" "take 3 type = js ''nth''"
    and "fwdRight D run C" "cachesBackward D type what \<Longrightarrow> notYet run type (k # parent) C"
  shows "(fst (childFilter D run type what first last' (k # parent) C) \<longleftrightarrow>
      (\<exists>n::nat. int (placeFrom (ofKind D (what = js ''of-type'') (k # parent)) (siblingsFrom D type parent) (k # parent)) =
        first * int n + last')) \<and>
    fwdRight D run (snd (childFilter D run type what first last' (k # parent) C))"
  by (rule childFilter_place [OF assms])

text \<open>A list with a text between its three items.\<close>

definition sampleList :: dom where
  "sampleList = \<lparr>domTree = DNode 9 [] [] []
       [DNode 1 (js ''UL'') [] [] [DNode 1 (js ''LI'') [] [] [], DNode 3 [] [] (js ''x'') [], DNode 1 (js ''LI'') [] [] [],
         DNode 1 (js ''LI'') [] [] []]],
     lowerCase = map lowerAscii, isHtml = True, domProp = (\<lambda>_ _. None), hash = [], activeElement = None,
     hasFocus = False\<rparr>"

definition noPositions :: child_cache where
  "noPositions = \<lparr>fwdCache = (\<lambda>_ _. None), bwdCache = (\<lambda>_ _. None)\<rparr>"

theorem childFilter_position_witness:
  "(fst (childFilter sampleList 1 (js ''nth'') (js ''child'') 2 1 [3, 0] noPositions) \<longleftrightarrow>
     (\<exists>n::nat. int (placeFrom (ofKind sampleList (js ''child'' = js ''of-type'') [3, 0]) (siblingsFrom sampleList (js ''nth'') [0]) [3, 0]) =
        2 * int n + 1)) \<and>
   fwdRight sampleList 1 (snd (childFilter sampleList 1 (js ''nth'') (js ''child'') 2 1 [3, 0] noPositions))"
  by (rule childFilter_position) (simp_all add: inDoc_def elementAt_def isElement_def nodeTypeAt_def sampleList_def
      noPositions_def fwdRight_def notYet_def)

text \<open>
  \<open>:nth-last-child\<close> depends on the order in which elements are tested: of three items the first is the third from the
  end, and is found when it is tested alone, but not after the second one has been tested in the same run (as in
  \<open>li:nth-last-child(3) ~ li\<close>), because that test leaves a wrong position of the first item in the cache.
\<close>

theorem nth_last_child_stale:
  "fst (childFilter sampleList 1 (js ''nth-last'') (js ''child'') 0 3 [0, 0] noPositions) = True \<and>
   fst (childFilter sampleList 1 (js ''nth-last'') (js ''child'') 0 3 [0, 0]
     (snd (childFilter sampleList 1 (js ''nth-last'') (js ''child'') 0 3 [2, 0] noPositions))) = False"
  by code_simp

section \<open>Lemmas: words\<close>

text \<open>The words of a text: what stands between blanks.\<close>

fun wordsAcc :: "jstring \<Rightarrow> jstring \<Rightarrow> jstring list" where
  "wordsAcc cur [] = (if cur = [] then [] else [cur])"
| "wordsAcc cur (c # s) =
     (if white c then (if cur = [] then [] else [cur]) @ wordsAcc [] s else wordsAcc (cur @ [c]) s)"

definition wordsOf :: "jstring \<Rightarrow> jstring list" where
  "wordsOf s = wordsAcc [] s"

definition oneWord :: "jstring \<Rightarrow> bool" where
  "oneWord v \<longleftrightarrow> v \<noteq> [] \<and> list_all (\<lambda>c. \<not> white c) v"

definition wordEnd :: "jstring \<Rightarrow> bool" where
  "wordEnd b \<longleftrightarrow> b = [] \<or> white (hd b)"

lemma wordsAcc_iff:
  "oneWord v \<Longrightarrow> v \<in> set (wordsAcc cur s) \<longleftrightarrow>
    (\<exists>u b. s = u @ b \<and> v = cur @ u \<and> wordEnd b) \<or> (\<exists>a x b. s = a @ x # v @ b \<and> white x \<and> wordEnd b)"
proof (induction cur s rule: wordsAcc.induct)
  case (1 cur)
  then show ?case by (auto simp: oneWord_def wordEnd_def)
next
  case (2 cur c s)
  show ?case
  proof (cases "white c")
    case True
    have first: "(\<exists>u b. c # s = u @ b \<and> v = cur @ u \<and> wordEnd b) \<longleftrightarrow> v = cur"
      using True 2(3) by (auto simp: Cons_eq_append_conv oneWord_def wordEnd_def)
    have more: "(\<exists>a x b. c # s = a @ x # v @ b \<and> white x \<and> wordEnd b) \<longleftrightarrow>
        (\<exists>u b. s = u @ b \<and> v = [] @ u \<and> wordEnd b) \<or> (\<exists>a x b. s = a @ x # v @ b \<and> white x \<and> wordEnd b)"
      using True by (auto simp: Cons_eq_append_conv)
    have "v \<noteq> []" using 2(3) by (simp add: oneWord_def)
    then show ?thesis using first more 2(1) [OF True 2(3)] True by auto
  next
    case False
    have "(\<exists>u b. c # s = u @ b \<and> v = cur @ u \<and> wordEnd b) \<longleftrightarrow> (\<exists>u b. s = u @ b \<and> v = (cur @ [c]) @ u \<and> wordEnd b)"
      using False by (auto simp: Cons_eq_append_conv wordEnd_def)
    moreover have "(\<exists>a x b. c # s = a @ x # v @ b \<and> white x \<and> wordEnd b) \<longleftrightarrow> (\<exists>a x b. s = a @ x # v @ b \<and> white x \<and> wordEnd b)"
      using False by (auto simp: Cons_eq_append_conv)
    ultimately show ?thesis using 2(2) [OF False 2(3)] False by simp
  qed
qed

lemma wordsOf_iff:
  "oneWord v \<Longrightarrow> v \<in> set (wordsOf s) \<longleftrightarrow>
    (\<exists>b. s = v @ b \<and> wordEnd b) \<or> (\<exists>a x b. s = a @ x # v @ b \<and> white x \<and> wordEnd b)"
  unfolding wordsOf_def by (subst wordsAcc_iff) auto

lemma squeeze_Cons:
  "squeeze (c # s) =
    (if white c then (if s \<noteq> [] \<and> white (hd s) then squeeze s else 32 # squeeze s) else c # squeeze s)"
  by (cases s) auto

lemma wordsAcc_squeeze: "wordsAcc cur (squeeze s) = wordsAcc cur s"
proof (induction s arbitrary: cur)
  case (Cons c s)
  have "wordsAcc cur s = (if cur = [] then [] else [cur]) @ wordsAcc [] s" if "s \<noteq> []" "white (hd s)"
    using that by (cases s) auto
  with Cons show ?case by (simp add: squeeze_Cons white_def [of 32] del: squeeze.simps(2))
qed simp

lemma squeeze_white: "c \<in> set (squeeze s) \<Longrightarrow> white c \<Longrightarrow> c = 32"
  by (induction s rule: squeeze.induct) (auto split: if_splits list.splits)

text \<open>A word stands between blanks in the text with blanks around it.\<close>

lemma wordsOf_between:
  assumes "oneWord v" "\<And>c. c \<in> set t \<Longrightarrow> white c \<Longrightarrow> c = 32"
  shows "v \<in> set (wordsOf t) \<longleftrightarrow> (\<exists>x y. [32] @ t @ [32] = x @ ([32] @ v @ [32]) @ y)"
proof
  have tail: "\<exists>y. b @ [32] = 32 # y" if "wordEnd b" "set b \<subseteq> set t" for b
  proof (cases b)
    case (Cons d b')
    have "d = 32" by (rule assms(2)) (use that Cons in \<open>auto simp: wordEnd_def\<close>)
    with Cons show ?thesis by simp
  qed simp
  assume "v \<in> set (wordsOf t)"
  then consider b where "t = v @ b" "wordEnd b" | a x b where "t = a @ x # v @ b" "white x" "wordEnd b"
    unfolding wordsOf_iff [OF assms(1)] by blast
  then show "\<exists>x y. [32] @ t @ [32] = x @ ([32] @ v @ [32]) @ y"
  proof cases
    case 1
    then obtain y where "b @ [32] = 32 # y" using tail [of b] by auto
    with 1 show ?thesis by (intro exI [of _ "[]"] exI [of _ y]) simp
  next
    case 2
    then obtain y where "b @ [32] = 32 # y" using tail [of b] by auto
    moreover have "x = 32" by (rule assms(2)) (use 2 in auto)
    ultimately show ?thesis using 2 by (intro exI [of _ "32 # a"] exI [of _ y]) simp
  qed
next
  assume "\<exists>x y. [32] @ t @ [32] = x @ ([32] @ v @ [32]) @ y"
  then obtain x y where xy: "32 # t @ [32] = x @ 32 # v @ 32 # y" by auto
  let ?b = "butlast (32 # y)"
  have "last (32 # y) = last (32 # t @ [32])" unfolding xy by simp
  then have b: "32 # y = ?b @ [32]" by (metis append_butlast_last_id last_snoc list.distinct(1) last_ConsR append_is_Nil_conv)
  have be: "wordEnd ?b" by (auto simp: wordEnd_def white_def)
  show "v \<in> set (wordsOf t)"
  proof (cases x)
    case Nil
    with xy b have "t @ [32] = (v @ ?b) @ [32]" by simp
    then have "t = v @ ?b" by (simp only: append_same_eq)
    with be show ?thesis unfolding wordsOf_iff [OF assms(1)] by blast
  next
    case (Cons c x')
    with xy b have "t @ [32] = (x' @ 32 # v @ ?b) @ [32]" by simp
    then have "t = x' @ 32 # v @ ?b" by (simp only: append_same_eq)
    moreover have "white 32" by (simp add: white_def)
    ultimately show ?thesis using be unfolding wordsOf_iff [OF assms(1)] by blast
  qed
qed

text \<open>A name whose escapes are also escapes of the same characters in a regular expression.\<close>

definition easyName :: "jstring \<Rightarrow> bool" where
  "easyName w \<longleftrightarrow>
     w \<noteq> [] \<and> \<not> isDigit (hd w) \<and> \<not> (hd w = 45 \<and> tl w \<noteq> [] \<and> isDigit (hd (tl w))) \<and> list_all (\<lambda>c. c > 32 \<and> c \<noteq> 127) w"

lemma classRx_plain: "c \<noteq> 92 \<Longrightarrow> classRx (c # t) = thenRx (Some (one c)) (classRx t)"
  by (simp add: classRx.simps [of "c # t"])

lemma classRx_special:
  assumes "\<not> isAlnum c"
  shows "classRx (92 # c # t) = thenRx (Some (one c)) (classRx t)"
proof -
  have "\<not> isDigit c" using assms by (simp add: isAlnum_def)
  with assms show ?thesis by (simp add: classRx.simps [of "92 # c # t"])
qed

lemma classRx_unit:
  assumes "c > 32" "c \<noteq> 127"
  shows "classRx (escapeUnit c @ t) = thenRx (Some (one c)) (classRx t)"
proof (cases "c \<ge> 127 \<or> nameChar c")
  case True
  then have "c \<noteq> 92" by (auto simp: char_classes)
  with True assms show ?thesis by (simp add: escapeUnit_def classRx_plain)
next
  case False
  then have "\<not> isAlnum c" by (auto simp: char_classes isAlnum_def)
  with False assms show ?thesis by (simp add: escapeUnit_def classRx_special)
qed

lemma classRx_units:
  "list_all (\<lambda>c. c > 32 \<and> c \<noteq> 127) w \<Longrightarrow> classRx (concat (map escapeUnit w)) = Some (wordRx w)"
proof (induction w)
  case Nil
  then show ?case by (simp add: classRx.simps [of "[]"])
next
  case (Cons c w)
  then show ?case by (simp add: classRx_unit thenRx_def)
qed

lemma classRx_escape:
  assumes "easyName w"
  shows "classRx (escapeCss w) = Some (wordRx w)"
proof (cases "w = [45]")
  case True
  have "\<not> isAlnum 45" by (simp add: isAlnum_def isDigit_def)
  with True show ?thesis
    by (simp add: escapeCss_def isDigit_def classRx_special classRx.simps [of "[]"] thenRx_def)
next
  case False
  obtain c t where w: "w = c # t" using assms by (cases w) (auto simp: easyName_def)
  have "escapeCss w = concat (map escapeUnit w)"
    using assms False unfolding w escapeCss_def easyName_def by (cases t) auto
  with assms show ?thesis by (simp add: classRx_units easyName_def)
qed

lemma word_then:
  "matches (Cat (wordRx w) (Or (Sym white) Eos)) (c, s) \<noteq> [] \<longleftrightarrow> (\<exists>b. s = w @ b \<and> wordEnd b)"
proof (cases "startsWith w s")
  case True
  then obtain b where "s = w @ b" by (auto simp: startsWith_def) (metis append_take_drop_id)
  then show ?thesis by (cases b) (auto simp: word_matches wordEnd_def startsWith_def)
next
  case False
  then show ?thesis by (auto simp: word_matches startsWith_def)
qed

lemma classTest_words:
  assumes "oneWord w"
  shows "classTest (wordRx w) s \<longleftrightarrow> w \<in> set (wordsOf s)"
proof -
  let ?e = "Cat (wordRx w) (Or (Sym white) Eos)"
  have first: "execAt ?e t \<noteq> None \<longleftrightarrow> (\<exists>b. t = w @ b \<and> wordEnd b)" for t
    using word_then [of w "[]" t] by (simp only: execAt_matches)
  have "execAt (Cat (Sym white) ?e) t \<noteq> None \<longleftrightarrow> (\<exists>x u. t = x # u \<and> white x \<and> execAt ?e u \<noteq> None)" for t
    unfolding execAt_matches by (cases t) auto
  then have "testAnywhere (Cat (Sym white) ?e) s \<longleftrightarrow> (\<exists>a x b. s = a @ x # w @ b \<and> white x \<and> wordEnd b)"
    unfolding testAnywhere_iff first by blast
  with first [of s] show ?thesis unfolding classTest_def Let_def wordsOf_iff [OF assms] by blast
qed

lemma easy_oneWord: "easyName w \<Longrightarrow> oneWord w"
  by (auto simp: easyName_def oneWord_def list_all_iff white_def)

text \<open>
  The class filter for an escaped name takes the elements that have the name among the words of their class, for every
  name that does not start with a digit (nor with a hyphen and a digit) and has no blank or control character.
\<close>

theorem classFilter_words:
  assumes "easyName w"
  shows "\<exists>r. classRx (escapeCss w) = Some r \<and> (classFilter D r p \<longleftrightarrow> w \<in> set (wordsOf (classText D p)))"
  using classRx_escape [OF assms] classTest_words [OF easy_oneWord [OF assms]] by (simp add: classFilter_def)

theorem classFilter_words_witness:
  "\<exists>r. classRx (escapeCss [97, 46, 98]) = Some r \<and>
     (classFilter sampleList r [0, 0] \<longleftrightarrow> [97, 46, 98] \<in> set (wordsOf (classText sampleList [0, 0])))"
  by (rule classFilter_words) (simp add: easyName_def isDigit_def)

text \<open>
  A name that starts with a digit is not found by its own escape: the escape of \<open>1a\<close> is \<open>\31 a\<close>, which in
  the regular expression is the character 25, a blank and \<open>a\<close>.
\<close>

theorem classFilter_digit:
  "escapeCss (js ''1a'') = [92, 51, 49, 32, 97] \<and>
   (\<exists>r. classRx (escapeCss (js ''1a'')) = Some r \<and> \<not> classTest r (js ''1a'') \<and> classTest r [25, 32, 97])"
proof -
  have e: "escapeCss (js ''1a'') = [92, 51, 49, 32, 97]" by code_simp
  moreover have "classRx ([92, 51, 49, 32, 97]) = Some (wordRx [25, 32, 97])"
    by (simp add: classRx.simps thenRx_def char_classes digitsVal_def isOctal_def octalVal_def octalDigits_def)
  moreover have "\<not> classTest (wordRx [25, 32, 97]) (js ''1a'')" "classTest (wordRx [25, 32, 97]) [25, 32, 97]" by code_simp+
  ultimately show ?thesis by simp
qed

text \<open>
  \<open>[name~="v"]\<close> takes the elements that have \<open>v\<close> among the words of the attribute, for a value that is one word.
\<close>

theorem attrTest_words:
  assumes "oneWord v"
  shows "attrTest (Some (js ''~='')) ([32] @ v @ [32]) (Some s) \<longleftrightarrow> v \<in> set (wordsOf s)"
proof -
  have "attrTest (Some (js ''~='')) ([32] @ v @ [32]) (Some s) \<longleftrightarrow> occurs_in ([32] @ v @ [32]) ([32] @ squeeze s @ [32])"
    by (simp add: attrTest_def occurs_in_def)
  also have "\<dots> \<longleftrightarrow> v \<in> set (wordsOf (squeeze s))"
    unfolding occurs_in_iff by (rule wordsOf_between [OF assms squeeze_white, symmetric])
  finally show ?thesis by (simp add: wordsOf_def wordsAcc_squeeze)
qed

theorem attrTest_words_witness:
  "attrTest (Some (js ''~='')) ([32] @ [98] @ [32]) (Some [97, 9, 10, 98]) \<longleftrightarrow> [98] \<in> set (wordsOf [97, 9, 10, 98])"
  by (rule attrTest_words) (simp add: oneWord_def white_def)

text \<open>
  With an empty value \<open>~=\<close> is not empty: it takes elements whose attribute is empty or starts or ends with a blank, though
  no list of words has an empty word.
\<close>

theorem attrTest_empty_word:
  "attrTest (Some (js ''~='')) ([32] @ [] @ [32]) (Some []) \<and> attrTest (Some (js ''~='')) ([32] @ [] @ [32]) (Some (js '' a''))
   \<and> \<not> attrTest (Some (js ''~='')) ([32] @ [] @ [32]) (Some (js ''a b'')) \<and> [] \<notin> set (wordsOf s)"
proof -
  have "[] \<notin> set (wordsAcc cur s)" for cur by (induction cur s rule: wordsAcc.induct) auto
  moreover have "attrTest (Some (js ''~='')) ([32] @ [] @ [32]) (Some [])" by code_simp
  moreover have "attrTest (Some (js ''~='')) ([32] @ [] @ [32]) (Some (js '' a''))" by code_simp
  moreover have "\<not> attrTest (Some (js ''~='')) ([32] @ [] @ [32]) (Some (js ''a b''))" by code_simp
  ultimately show ?thesis by (simp only: wordsOf_def) simp
qed

end
