(* ===== verification/Sizzle_Pseudos.thy ===== *)
theory Sizzle_Pseudos
  imports Sizzle_Filters
begin

text \<open>
  The pseudo classes of the selector engine of \<^verbatim>\<open>jquery.js\<close> (\<open>Expr.pseudos\<close>): those that test one element, and the
  positional ones, which take elements of a list by their indexes (\<open>createPositionalPseudo\<close>). The lemmas say which
  indexes are taken, and that enabled and disabled exclude each other.
\<close>

section \<open>Tests of one element\<close>

definition containsPseudo :: "dom \<Rightarrow> jstring \<Rightarrow> path \<Rightarrow> bool" where
  "containsPseudo D arg p \<longleftrightarrow>
     (case nodeAt (domTree D) p of Some n \<Rightarrow> indexOf (unescapeCss arg) (getText n) > -1 | None \<Rightarrow> False)"

text \<open>The language: of the element, or of the nearest ancestor that has one, as long as these are elements.\<close>

definition langOf :: "dom \<Rightarrow> path \<Rightarrow> jstring" where
  "langOf D p =
     (if isHtml D then strProp D p (js ''lang'')
      else if orEmpty (attrOf D p (js ''xml:lang'')) \<noteq> [] then orEmpty (attrOf D p (js ''xml:lang''))
      else orEmpty (attrOf D p (js ''lang'')))"

fun langLoop :: "dom \<Rightarrow> jstring \<Rightarrow> path list \<Rightarrow> bool" where
  "langLoop D lang [] = False"
| "langLoop D lang (p # ps) =
     (let l = lowerCase D (langOf D p)
      in if langOf D p \<noteq> [] then l = lang \<or> indexOf (lang @ [45]) l = 0
         else case ps of [] \<Rightarrow> False | q # qs \<Rightarrow> if elementAt D q then langLoop D lang ps else False)"

definition langPseudo :: "dom \<Rightarrow> jstring \<Rightarrow> sizzle_error + (path \<Rightarrow> bool)" where
  "langPseudo D lang =
     (case execAt (Cat identRx Eos) lang of
        None \<Rightarrow> Inl (SyntaxError (js ''unsupported lang: '' @ lang))
      | Some _ \<Rightarrow> Inr (\<lambda>p. langLoop D (lowerCase D (unescapeCss lang)) (p # ancestors p)))"

definition targetPseudo :: "dom \<Rightarrow> path \<Rightarrow> bool" where
  "targetPseudo D p \<longleftrightarrow> hash D \<noteq> [] \<and> drop 1 (hash D) = strProp D p (js ''id'')"

definition docElem :: "dom \<Rightarrow> path option" where
  "docElem D = find (elementAt D) (childrenOf D [])"

definition rootPseudo :: "dom \<Rightarrow> path \<Rightarrow> bool" where
  "rootPseudo D p \<longleftrightarrow> docElem D = Some p"

definition focusPseudo :: "dom \<Rightarrow> path \<Rightarrow> bool" where
  "focusPseudo D p \<longleftrightarrow>
     activeElement D = Some p \<and> hasFocus D \<and>
     (truthyProp D p (js ''type'') \<or> truthyProp D p (js ''href'') \<or> domProp D p (js ''tabIndex'') \<noteq> Some (PNum (-1)))"

text \<open>
  \<open>inDisabledFieldset\<close>: a disabled field set among the ancestors; a legend hides its parent.
\<close>

fun fieldsetWalk :: "dom \<Rightarrow> path list \<Rightarrow> bool" where
  "fieldsetWalk D [] = False"
| "fieldsetWalk D (x # xs) =
     (if \<not> elementAt D x then fieldsetWalk D xs
      else if lcName D x = js ''legend'' then (case xs of [] \<Rightarrow> False | y # ys \<Rightarrow> fieldsetWalk D ys)
      else if boolProp D x (js ''disabled'') True \<and> lcName D x = js ''fieldset'' then True
      else fieldsetWalk D xs)"

definition inDisabledFieldset :: "dom \<Rightarrow> path \<Rightarrow> bool" where
  "inDisabledFieldset D p = fieldsetWalk D (ancestors p)"

definition disabledPseudo :: "dom \<Rightarrow> bool \<Rightarrow> path \<Rightarrow> bool" where
  "disabledPseudo D disabled p \<longleftrightarrow>
     (if domProp D p (js ''form'') \<noteq> None then
        (if p \<noteq> [] \<and> boolProp D p (js ''disabled'') False then
           (if domProp D p (js ''label'') \<noteq> None then
              (if domProp D (tl p) (js ''label'') \<noteq> None then boolProp D (tl p) (js ''disabled'') disabled
               else boolProp D p (js ''disabled'') disabled)
            else boolProp D p (js ''isDisabled'') disabled
              \<or> \<not> boolProp D p (js ''isDisabled'') (\<not> disabled) \<and> inDisabledFieldset D p = disabled)
         else boolProp D p (js ''disabled'') disabled)
      else if domProp D p (js ''label'') \<noteq> None then boolProp D p (js ''disabled'') disabled
      else False)"

definition checkedPseudo :: "dom \<Rightarrow> path \<Rightarrow> bool" where
  "checkedPseudo D p \<longleftrightarrow>
     lcName D p = js ''input'' \<and> truthyProp D p (js ''checked'') \<or> lcName D p = js ''option'' \<and> truthyProp D p (js ''selected'')"

definition selectedPseudo :: "dom \<Rightarrow> path \<Rightarrow> bool" where
  "selectedPseudo D p \<longleftrightarrow> boolProp D p (js ''selected'') True"

definition emptyPseudo :: "dom \<Rightarrow> path \<Rightarrow> bool" where
  "emptyPseudo D p \<longleftrightarrow> \<not> list_ex (\<lambda>x. nodeTypeAt (domTree D) x < 6) (childrenOf D p)"

definition parentPseudo :: "dom \<Rightarrow> path \<Rightarrow> bool" where
  "parentPseudo D p \<longleftrightarrow> \<not> emptyPseudo D p"

text \<open>\<open>rheader\<close> and \<open>rinputs\<close>.\<close>

definition headerPseudo :: "dom \<Rightarrow> path \<Rightarrow> bool" where
  "headerPseudo D p \<longleftrightarrow>
     execAt (Cat (anyCase [104]) (Cat (Sym isDigit) Eos)) (nodeNameAt (domTree D) p) \<noteq> None"

definition inputPseudo :: "dom \<Rightarrow> path \<Rightarrow> bool" where
  "inputPseudo D p \<longleftrightarrow>
     execAt (Cat (oneOf [js ''input'', js ''select'', js ''textarea'', js ''button'']) Eos) (nodeNameAt (domTree D) p) \<noteq> None"

definition buttonPseudo :: "dom \<Rightarrow> path \<Rightarrow> bool" where
  "buttonPseudo D p \<longleftrightarrow>
     lcName D p = js ''input'' \<and> domProp D p (js ''type'') = Some (PStr (js ''button'')) \<or> lcName D p = js ''button''"

definition textPseudo :: "dom \<Rightarrow> path \<Rightarrow> bool" where
  "textPseudo D p \<longleftrightarrow>
     lcName D p = js ''input'' \<and> domProp D p (js ''type'') = Some (PStr (js ''text'')) \<and>
     (case attrOf D p (js ''type'') of None \<Rightarrow> True | Some a \<Rightarrow> lowerCase D a = js ''text'')"

definition inputTypePseudo :: "dom \<Rightarrow> jstring \<Rightarrow> path \<Rightarrow> bool" where
  "inputTypePseudo D type p \<longleftrightarrow> lcName D p = js ''input'' \<and> domProp D p (js ''type'') = Some (PStr type)"

definition buttonTypePseudo :: "dom \<Rightarrow> jstring \<Rightarrow> path \<Rightarrow> bool" where
  "buttonTypePseudo D type p \<longleftrightarrow>
     (lcName D p = js ''input'' \<or> lcName D p = js ''button'') \<and> domProp D p (js ''type'') = Some (PStr type)"

section \<open>Positional pseudo classes\<close>

text \<open>The indexes that are taken of a list of a length; an argument that is not a number is \<open>None\<close>.\<close>

fun everySecond :: "nat \<Rightarrow> nat \<Rightarrow> int list" where
  "everySecond i 0 = []"
| "everySecond i (Suc 0) = [int i]"
| "everySecond i (Suc (Suc n)) = int i # everySecond (i + 2) n"

definition ltIndexes :: "nat \<Rightarrow> int \<Rightarrow> int list" where
  "ltIndexes n arg =
     (let i = (if arg < 0 then arg + int n else if arg > int n then int n else arg) in map int (rev [0..<nat i]))"

definition gtIndexes :: "nat \<Rightarrow> int \<Rightarrow> int list" where
  "gtIndexes n arg = (let i = (if arg < 0 then arg + int n else arg) in [i + 1..int n - 1])"

definition positionIndexes :: "jstring \<Rightarrow> nat \<Rightarrow> int option \<Rightarrow> int list option" where
  "positionIndexes name n arg =
     (if name = js ''first'' then Some [0]
      else if name = js ''last'' then Some [int n - 1]
      else if name = js ''even'' then Some (everySecond 0 n)
      else if name = js ''odd'' then Some (everySecond 1 (n - 1))
      else if name = js ''eq'' \<or> name = js ''nth'' then
        Some (case arg of None \<Rightarrow> [] | Some k \<Rightarrow> [if k < 0 then k + int n else k])
      else if name = js ''lt'' then Some (case arg of None \<Rightarrow> [] | Some k \<Rightarrow> ltIndexes n k)
      else if name = js ''gt'' then Some (case arg of None \<Rightarrow> [] | Some k \<Rightarrow> gtIndexes n k)
      else None)"

text \<open>
  The function a positional pseudo class makes: the elements at the indexes move from the list (where \<open>false\<close> remains)
  to the matches. The indexes are taken from the last to the first.
\<close>

definition takeAt :: "int \<Rightarrow> 'a option list \<times> (nat \<rightharpoonup> 'a) \<Rightarrow> 'a option list \<times> (nat \<rightharpoonup> 'a)" where
  "takeAt j sm =
     (let (seed, matched) = sm
      in if 0 \<le> j \<and> j < int (length seed) then
           (case seed ! nat j of
              Some x \<Rightarrow> (seed[nat j := None], matched(nat j \<mapsto> x))
            | None \<Rightarrow> sm)
         else sm)"

definition positional :: "int list \<Rightarrow> 'a option list \<times> (nat \<rightharpoonup> 'a) \<Rightarrow> 'a option list \<times> (nat \<rightharpoonup> 'a)" where
  "positional indexes sm = foldr takeAt indexes sm"

section \<open>Lemmas\<close>

lemma takeAt_length [simp]: "length (fst (takeAt j sm)) = length (fst sm)"
  by (auto simp: takeAt_def split: prod.splits option.splits)

lemma positional_length [simp]: "length (fst (positional indexes sm)) = length (fst sm)"
  by (induction indexes) (auto simp: positional_def)

text \<open>What is at an index afterwards: taken elements are matches, all others are where they were.\<close>

lemma positional_at:
  assumes "i < length xs"
  shows "fst (positional indexes (map Some xs, Map.empty)) ! i = (if int i \<in> set indexes then None else Some (xs ! i)) \<and>
    snd (positional indexes (map Some xs, Map.empty)) i = (if int i \<in> set indexes then Some (xs ! i) else None)"
proof (induction indexes)
  case Nil
  with assms show ?case by (simp add: positional_def)
next
  case (Cons j indexes)
  obtain seed matched where p: "positional indexes (map Some xs, Map.empty) = (seed, matched)" by fastforce
  have len: "length seed = length xs" using positional_length [of indexes "(map Some xs, Map.empty)"] p by simp
  have step: "positional (j # indexes) (map Some xs, Map.empty) = takeAt j (seed, matched)"
    using p by (simp add: positional_def)
  show ?case
  proof (cases "j = int i")
    case True
    with Cons p len assms step show ?thesis by (auto simp: takeAt_def split: option.splits)
  next
    case False
    then have "nat j \<noteq> i \<or> j < 0" by linarith
    with False Cons p len assms step show ?thesis by (auto simp: takeAt_def split: option.splits)
  qed
qed

lemma everySecond_set: "set (everySecond i n) = {x. \<exists>k. x = int (i + 2 * k) \<and> 2 * k < n}"
proof (induction i n rule: everySecond.induct)
  case (3 i n)
  have "(\<exists>k. x = int (i + 2 * k) \<and> 2 * k < Suc (Suc n)) \<longleftrightarrow> x = int i \<or> (\<exists>k. x = int (i + 2 + 2 * k) \<and> 2 * k < n)" for x
  proof
    assume "\<exists>k. x = int (i + 2 * k) \<and> 2 * k < Suc (Suc n)"
    then obtain k where k: "x = int (i + 2 * k)" "2 * k < Suc (Suc n)" by blast
    then show "x = int i \<or> (\<exists>k. x = int (i + 2 + 2 * k) \<and> 2 * k < n)" by (cases k) auto
  next
    assume "x = int i \<or> (\<exists>k. x = int (i + 2 + 2 * k) \<and> 2 * k < n)"
    then consider "x = int i" | k where "x = int (i + 2 + 2 * k)" "2 * k < n" by blast
    then show "\<exists>k. x = int (i + 2 * k) \<and> 2 * k < Suc (Suc n)"
    proof cases
      case 2
      then show ?thesis by (intro exI [of _ "Suc k"]) simp
    qed (intro exI [of _ 0], simp)
  qed
  with 3 show ?case by auto
qed auto

definition fromEnd :: "nat \<Rightarrow> int \<Rightarrow> int" where
  "fromEnd n k = (if k < 0 then k + int n else k)"

text \<open>The meaning of the positional names for an index.\<close>

definition positionMeans :: "jstring \<Rightarrow> nat \<Rightarrow> int option \<Rightarrow> nat \<Rightarrow> bool" where
  "positionMeans name n arg i \<longleftrightarrow>
     (if name = js ''first'' then i = 0
      else if name = js ''last'' then Suc i = n
      else if name = js ''even'' then even i
      else if name = js ''odd'' then odd i
      else case arg of
          None \<Rightarrow> False
        | Some k \<Rightarrow>
            if name = js ''lt'' then int i < fromEnd n k else if name = js ''gt'' then int i > fromEnd n k else int i = fromEnd n k)"

lemma position_index:
  assumes "positionIndexes name n arg = Some indexes" "i < n"
  shows "int i \<in> set indexes \<longleftrightarrow> positionMeans name n arg i"
proof -
  have mem: "int i \<in> set (everySecond j m) \<longleftrightarrow> (\<exists>k. i = j + 2 * k \<and> 2 * k < m)" for j m
    unfolding everySecond_set by (simp only: mem_Collect_eq of_nat_eq_iff)
  have even: "int i \<in> set (everySecond 0 n) \<longleftrightarrow> even i"
    using assms(2) unfolding mem by (auto elim!: evenE)
  have odd: "int i \<in> set (everySecond 1 (n - 1)) \<longleftrightarrow> odd i"
    using assms(2) unfolding mem by (auto elim!: oddE)
  have lt: "int i \<in> set (ltIndexes n k) \<longleftrightarrow> int i < fromEnd n k" for k
    using assms(2) by (auto simp: ltIndexes_def fromEnd_def Let_def)
  have gt: "int i \<in> set (gtIndexes n k) \<longleftrightarrow> int i > fromEnd n k" for k
    using assms(2) by (auto simp: gtIndexes_def fromEnd_def Let_def)
  consider "name = js ''first''" "indexes = [0]" | "name = js ''last''" "indexes = [int n - 1]"
    | "name = js ''even''" "indexes = everySecond 0 n" | "name = js ''odd''" "indexes = everySecond 1 (n - 1)"
    | "name = js ''eq'' \<or> name = js ''nth''" "indexes = (case arg of None \<Rightarrow> [] | Some k \<Rightarrow> [if k < 0 then k + int n else k])"
    | "name = js ''lt''" "indexes = (case arg of None \<Rightarrow> [] | Some k \<Rightarrow> ltIndexes n k)"
    | "name = js ''gt''" "indexes = (case arg of None \<Rightarrow> [] | Some k \<Rightarrow> gtIndexes n k)"
    using assms(1) unfolding positionIndexes_def by (simp del: js.simps split: if_splits)
  then show ?thesis
  proof cases
    case 2
    with assms(2) show ?thesis by (auto simp: positionMeans_def)
  next
    case 3
    with even show ?thesis by (simp add: positionMeans_def)
  next
    case 4
    with odd show ?thesis by (simp add: positionMeans_def)
  next
    case 5
    then show ?thesis by (cases arg) (auto simp: positionMeans_def fromEnd_def)
  next
    case 6
    with lt show ?thesis by (cases arg) (simp_all add: positionMeans_def)
  next
    case 7
    with gt show ?thesis by (cases arg) (simp_all add: positionMeans_def)
  qed (simp add: positionMeans_def)
qed

text \<open>
  A positional pseudo class moves from the list to the matches the elements whose index is what its name says (counted from the
  end for a negative argument), and no others.
\<close>

theorem positional_partition:
  assumes "positionIndexes name (length xs) arg = Some indexes" "i < length xs"
  shows "let (seed, matched) = positional indexes (map Some xs, Map.empty) in
    if positionMeans name (length xs) arg i then seed ! i = None \<and> matched i = Some (xs ! i)
    else seed ! i = Some (xs ! i) \<and> matched i = None"
  using positional_at [OF assms(2), of indexes] position_index [OF assms] by (auto split: prod.split)

theorem positional_partition_witness:
  "let (seed, matched) = positional (ltIndexes (length [7, 8, 9 :: nat]) (-1)) (map Some [7, 8, 9 :: nat], Map.empty) in
     if positionMeans (js ''lt'') (length [7, 8, 9 :: nat]) (Some (-1)) 1 then seed ! 1 = None \<and> matched 1 = Some ([7, 8, 9] ! 1)
     else seed ! 1 = Some ([7, 8, 9] ! 1) \<and> matched 1 = None"
  by (rule positional_partition) (simp_all add: positionIndexes_def)

text \<open>
  Of an element of a form whose property \<open>disabled\<close> is a truth value (as for an option in a group that of
  the group), exactly one of \<open>:enabled\<close> and \<open>:disabled\<close> holds.
\<close>

theorem enabled_or_disabled:
  assumes "domProp D p (js ''form'') \<noteq> None" "domProp D p (js ''disabled'') = Some (PBool b)"
    and "domProp D (tl p) (js ''label'') \<noteq> None \<Longrightarrow> domProp D (tl p) (js ''disabled'') = Some (PBool c)"
  shows "disabledPseudo D False p \<longleftrightarrow> \<not> disabledPseudo D True p"
proof -
  let ?label = "domProp D p (js ''label'') \<noteq> None" and ?group = "domProp D (tl p) (js ''label'') \<noteq> None"
  let ?is = "domProp D p (js ''isDisabled'')"
  consider "p = [] \<or> b" | "p \<noteq> []" "\<not> b" "?label" "?group" | "p \<noteq> []" "\<not> b" "?label" "\<not> ?group"
    | "p \<noteq> []" "\<not> b" "\<not> ?label" by blast
  then show ?thesis
    by cases (use assms in \<open>auto simp: disabledPseudo_def boolProp_def simp del: js.simps\<close>)
qed

theorem enabled_or_disabled_witness:
  "let D = sampleList\<lparr>domProp := (\<lambda>p n. if n = js ''disabled'' then Some (PBool False)
                                    else if n = js ''form'' then Some PNull else None)\<rparr>
   in disabledPseudo D False [0, 0] \<longleftrightarrow> \<not> disabledPseudo D True [0, 0]"
  unfolding Let_def by (rule enabled_or_disabled [where b = False and c = False]) simp_all

end
