(* ===== verification/Sizzle_Combinators.thy ===== *)
theory Sizzle_Combinators
  imports Sizzle_Pseudos
begin

text \<open>
  The combinators of the selector engine of \<^verbatim>\<open>jquery.js\<close> (\<open>addCombinator\<close>, \<open>elementMatcher\<close>): matchers that look for a matching
  ancestor or sibling, with the cache that they share through the elements. The lemmas show that the
  cache does not change any result.
\<close>

section \<open>The cache\<close>

text \<open>
  A cache entry is the array \<open>[dirruns, doneName, result]\<close>; entries are shared by the elements that one walk
  has visited, so they live in a list of their own. An element has one entry for each direction (or name to skip). The
  number of the run is \<open>dirruns\<close>. The cache of positions is part of the same state.
\<close>

datatype dirn = ParentNode | PreviousSibling

type_synonym centry = "nat \<times> nat \<times> bool option"

record cstore =
  entries :: "centry list"
  links :: "path \<Rightarrow> jstring option \<times> dirn \<Rightarrow> nat option"
  dirruns :: nat
  positions :: child_cache

type_synonym smatcher = "path \<Rightarrow> cstore \<Rightarrow> bool \<times> cstore"

definition chainOf :: "dirn \<Rightarrow> path \<Rightarrow> path list" where
  "chainOf d p = (case d of ParentNode \<Rightarrow> ancestors p | PreviousSibling \<Rightarrow> preceding p)"

text \<open>\<open>Expr.relative\<close>; \<open>next\<close> is used only for field sets.\<close>

record combinator =
  dir :: dirn
  isFirst :: bool
  skipName :: "jstring option"

definition relative :: "rel \<Rightarrow> combinator" where
  "relative r =
     (case r of
        Child \<Rightarrow> \<lparr>dir = ParentNode, isFirst = True, skipName = None\<rparr>
      | Descendant \<Rightarrow> \<lparr>dir = ParentNode, isFirst = False, skipName = None\<rparr>
      | Adjacent \<Rightarrow> \<lparr>dir = PreviousSibling, isFirst = True, skipName = None\<rparr>
      | Sibling \<Rightarrow> \<lparr>dir = PreviousSibling, isFirst = False, skipName = None\<rparr>)"

definition eligible :: "dom \<Rightarrow> combinator \<Rightarrow> bool \<Rightarrow> path \<Rightarrow> bool" where
  "eligible D c base x \<longleftrightarrow> elementAt D x \<or> base \<and> skipName c = None \<and> dir c = ParentNode"

definition setResult :: "nat \<Rightarrow> bool option \<Rightarrow> cstore \<Rightarrow> cstore" where
  "setResult i r st = st\<lparr>entries := (entries st)[i := (case entries st ! i of (a, b, _) \<Rightarrow> (a, b, r))]\<rparr>"

definition setLink :: "path \<Rightarrow> jstring option \<times> dirn \<Rightarrow> nat \<Rightarrow> cstore \<Rightarrow> cstore" where
  "setLink x k i st = st\<lparr>links := (links st)(x := (links st x)(k \<mapsto> i))\<rparr>"

text \<open>The walk without the cache, for XML.\<close>

fun walkXml :: "dom \<Rightarrow> combinator \<Rightarrow> bool \<Rightarrow> smatcher \<Rightarrow> path list \<Rightarrow> cstore \<Rightarrow> bool \<times> cstore" where
  "walkXml D c base m [] st = (False, st)"
| "walkXml D c base m (x # xs) st =
     (if eligible D c base x then
        (let (b, st') = m x st in if b then (True, st') else walkXml D c base m xs st')
      else walkXml D c base m xs st)"

text \<open>The walk with the cache; \<open>i\<close> is the new entry.\<close>

definition cached :: "cstore \<Rightarrow> nat \<Rightarrow> path \<Rightarrow> jstring option \<times> dirn \<Rightarrow> bool option option" where
  "cached st n x k =
     (case links st x k of
        None \<Rightarrow> None
      | Some j \<Rightarrow> (case entries st ! j of (run, name, r) \<Rightarrow> if run = dirruns st \<and> name = n then Some r else None))"

fun walkCached ::
  "dom \<Rightarrow> combinator \<Rightarrow> bool \<Rightarrow> nat \<Rightarrow> smatcher \<Rightarrow> nat \<Rightarrow> path list \<Rightarrow> cstore \<Rightarrow> bool \<times> cstore" where
  "walkCached D c base n m i [] st = (False, st)"
| "walkCached D c base n m i (x # xs) st =
     (if eligible D c base x then
        (if skipName c \<noteq> None \<and> skipName c = Some (lcName D x)
         then walkCached D c base n m i (tl xs) st
         else case cached st n x (skipName c, dir c) of
             Some r \<Rightarrow> (r = Some True, setResult i r st)
           | None \<Rightarrow>
               (let (b, st') = m x (setLink x (skipName c, dir c) i st); st'' = setResult i (Some b) st'
                in if b then (True, st'') else walkCached D c base n m i xs st''))
      else walkCached D c base n m i xs st)"

text \<open>\<open>addCombinator(matcher, combinator, base)\<close> with the name \<open>n\<close>.\<close>

definition addCombinator :: "dom \<Rightarrow> smatcher \<Rightarrow> combinator \<Rightarrow> bool \<Rightarrow> nat \<Rightarrow> smatcher" where
  "addCombinator D m c base n p st =
     (if isFirst c then
        (case find (eligible D c base) (chainOf (dir c) p) of None \<Rightarrow> (False, st) | Some x \<Rightarrow> m x st)
      else if \<not> isHtml D then walkXml D c base m (chainOf (dir c) p) st
      else walkCached D c base n m (length (entries st)) (chainOf (dir c) p)
             (st\<lparr>entries := entries st @ [(dirruns st, n, None)]\<rparr>))"

text \<open>\<open>elementMatcher(matchers)\<close>: all of them, from the last to the first.\<close>

fun allFrom :: "smatcher list \<Rightarrow> smatcher" where
  "allFrom [] p st = (True, st)"
| "allFrom (m # ms) p st = (let (b, st') = m p st in if b then allFrom ms p st' else (False, st'))"

definition elementMatcher :: "smatcher list \<Rightarrow> smatcher" where
  "elementMatcher ms = (if length ms > 1 then allFrom (rev ms) else hd ms)"

section \<open>Lemmas: what a matcher promises\<close>

text \<open>The meaning of a walk without any cache.\<close>

fun walkSpec :: "dom \<Rightarrow> combinator \<Rightarrow> bool \<Rightarrow> (path \<Rightarrow> bool) \<Rightarrow> path list \<Rightarrow> bool" where
  "walkSpec D c base P [] \<longleftrightarrow> False"
| "walkSpec D c base P (x # xs) \<longleftrightarrow>
     (if eligible D c base x then
        (if skipName c \<noteq> None \<and> skipName c = Some (lcName D x) then walkSpec D c base P (tl xs)
         else P x \<or> walkSpec D c base P xs)
      else walkSpec D c base P xs)"

definition combSpec :: "dom \<Rightarrow> combinator \<Rightarrow> bool \<Rightarrow> (path \<Rightarrow> bool) \<Rightarrow> path \<Rightarrow> bool" where
  "combSpec D c base P p \<longleftrightarrow>
     (if isFirst c then (case find (eligible D c base) (chainOf (dir c) p) of None \<Rightarrow> False | Some x \<Rightarrow> P x)
      else walkSpec D c base P (chainOf (dir c) p))"

text \<open>
  What the entries of this run say is true: \<open>T n x\<close> is the truth of the combinator \<open>n\<close> seen from \<open>x\<close>. The
  combinators that are just walking are exempt.
\<close>

type_synonym truth = "nat \<Rightarrow> path \<Rightarrow> bool"

text \<open>No entry is of a later run.\<close>

definition recent :: "cstore \<Rightarrow> bool" where
  "recent st \<longleftrightarrow>
     (\<forall>e \<in> set (entries st). fst e \<le> dirruns st) \<and>
     (\<forall>parent type r i d. fwdCache (positions st) parent type = Some (r, i, d) \<longrightarrow> r \<le> dirruns st)"

definition sound :: "dom \<Rightarrow> truth \<Rightarrow> nat set \<Rightarrow> cstore \<Rightarrow> bool" where
  "sound D T busy st \<longleftrightarrow>
     (\<forall>x k j. links st x k = Some j \<longrightarrow> j < length (entries st)) \<and>
     (\<forall>x k j n r. links st x k = Some j \<longrightarrow> entries st ! j = (dirruns st, n, r) \<longrightarrow> n \<notin> busy \<longrightarrow> r = Some (T n x)) \<and>
     fwdRight D (dirruns st) (positions st) \<and> recent st"

text \<open>What a matcher with the names \<open>N\<close> may change.\<close>

definition keeps :: "nat set \<Rightarrow> cstore \<Rightarrow> cstore \<Rightarrow> bool" where
  "keeps N st st' \<longleftrightarrow>
     dirruns st' = dirruns st \<and> length (entries st) \<le> length (entries st') \<and>
     (\<forall>j < length (entries st). entries st' ! j = entries st ! j) \<and>
     (\<forall>x k j. links st' x k = Some j \<longrightarrow> 
       links st x k = Some j \<or> length (entries st) \<le> j \<and> j < length (entries st') \<and> fst (snd (entries st' ! j)) \<in> N)"

definition implements :: "dom \<Rightarrow> truth \<Rightarrow> nat set \<Rightarrow> (path \<Rightarrow> bool) \<Rightarrow> smatcher \<Rightarrow> (path \<Rightarrow> bool) \<Rightarrow> bool" where
  "implements D T N Q m P \<longleftrightarrow>
     (\<forall>busy st p. Q p \<longrightarrow> sound D T busy st \<longrightarrow> busy \<inter> N = {} \<longrightarrow>
       (case m p st of (b, st') \<Rightarrow> (b \<longleftrightarrow> P p) \<and> sound D T busy st' \<and> keeps N st st'))"

lemma implementsD:
  assumes "implements D T N Q m P" "m p st = (b, st')" "Q p" "sound D T busy st" "busy \<inter> N = {}"
  shows "(b \<longleftrightarrow> P p) \<and> sound D T busy st' \<and> keeps N st st'"
  using assms(1) [unfolded implements_def, rule_format, OF assms(3,4,5)] assms(2) by simp

lemma keeps_refl [simp]: "keeps N st st"
  by (simp add: keeps_def)

lemma keeps_trans:
  assumes "keeps N a b" "keeps N b c"
  shows "keeps N a c"
proof -
  have len: "length (entries a) \<le> length (entries b)" "length (entries b) \<le> length (entries c)" using assms by (simp_all add: keeps_def)
  have "links a x k = Some j \<or> length (entries a) \<le> j \<and> j < length (entries c) \<and> fst (snd (entries c ! j)) \<in> N" if l: "links c x k = Some j" for x k j
  proof -
    from assms(2) l consider "links b x k = Some j" | "length (entries b) \<le> j" "j < length (entries c)" "fst (snd (entries c ! j)) \<in> N"
      unfolding keeps_def by blast
    then show ?thesis
    proof cases
      case 1
      then consider "links a x k = Some j" | "length (entries a) \<le> j" "j < length (entries b)" "fst (snd (entries b ! j)) \<in> N"
        using assms(1) unfolding keeps_def by blast
      then show ?thesis
      proof cases
        case 2
        moreover have "entries c ! j = entries b ! j" using assms(2) 2(2) by (simp add: keeps_def)
        ultimately show ?thesis using len by simp
      qed simp
    qed (use len in simp)
  qed
  with assms len show ?thesis by (simp add: keeps_def)
qed

lemma keeps_mono: "keeps N a b \<Longrightarrow> N \<subseteq> M \<Longrightarrow> keeps M a b"
  unfolding keeps_def by blast

lemma implementsI:
  assumes "\<And>busy st p b st'. Q p \<Longrightarrow> sound D T busy st \<Longrightarrow> busy \<inter> N = {} \<Longrightarrow> m p st = (b, st') \<Longrightarrow>
    (b \<longleftrightarrow> P p) \<and> sound D T busy st' \<and> keeps N st st'"
  shows "implements D T N Q m P"
  unfolding implements_def using assms by (simp split: prod.split)

lemma implements_mono:
  assumes "implements D T N Q m P" "N \<subseteq> M"
  shows "implements D T M Q m P"
proof (rule implementsI)
  fix busy st p b st'
  assume h: "Q p" "sound D T busy st" "busy \<inter> M = {}" "m p st = (b, st')"
  then have "busy \<inter> N = {}" using assms(2) by blast
  from implementsD [OF assms(1) h(4,1,2) this] assms(2)
  show "(b \<longleftrightarrow> P p) \<and> sound D T busy st' \<and> keeps M st st'" by (auto intro: keeps_mono)
qed

lemma implements_pure: "implements D T N Q (\<lambda>p st. (P p, st)) P"
  by (simp add: implements_def)

section \<open>Lemmas: walks\<close>

lemma setResult_simps [simp]:
  "links (setResult i r st) = links st" "dirruns (setResult i r st) = dirruns st"
  "positions (setResult i r st) = positions st" "length (entries (setResult i r st)) = length (entries st)"
  "j \<noteq> i \<Longrightarrow> entries (setResult i r st) ! j = entries st ! j"
  by (simp_all add: setResult_def)

lemma setResult_at: "i < length (entries st) \<Longrightarrow> entries st ! i = (a, b, r') \<Longrightarrow> entries (setResult i r st) ! i = (a, b, r)"
  by (simp add: setResult_def)

lemma recent_setResult [simp]: "recent st \<Longrightarrow> recent (setResult i r st)"
proof (cases "i < length (entries st)")
  case True
  assume "recent st"
  moreover have "fst (case entries st ! i of (a, b, c) \<Rightarrow> (a, b, r)) = fst (entries st ! i)" by (simp split: prod.split)
  moreover have "entries st ! i \<in> set (entries st)" using True by simp
  ultimately show ?thesis
    unfolding recent_def setResult_def by (auto dest!: set_update_subset_insert [THEN subsetD])
qed (simp add: setResult_def list_update_beyond)

lemma setResult_again: "setResult i r (setResult i r' st) = setResult i r st"
  by (cases "i < length (entries st)") (auto simp: setResult_def list_update_beyond split: prod.split)

lemma setLink_simps [simp]:
  "links (setLink x k i st) y l = (if y = x \<and> l = k then Some i else links st y l)"
  "entries (setLink x k i st) = entries st" "dirruns (setLink x k i st) = dirruns st" "positions (setLink x k i st) = positions st"
  by (simp_all add: setLink_def)

lemma recent_setLink [simp]: "recent (setLink x k i st) = recent st"
  by (simp add: recent_def)

text \<open>The state in the middle of a walk of the combinator \<open>n\<close>, which has visited \<open>V\<close> without success.\<close>

definition walking :: "dom \<Rightarrow> truth \<Rightarrow> nat \<Rightarrow> nat \<Rightarrow> path set \<Rightarrow> nat set \<Rightarrow> cstore \<Rightarrow> bool" where
  "walking D T n i V busy st \<longleftrightarrow>
     i < length (entries st) \<and> entries st ! i = (dirruns st, n, if V = {} then None else Some False) \<and>
     sound D T (insert n busy) st \<and>
     (\<forall>x k j r. links st x k = Some j \<longrightarrow> entries st ! j = (dirruns st, n, r) \<longrightarrow>
        j \<noteq> i \<and> r = Some (T n x) \<or> j = i \<and> x \<in> V)"

lemma sound_link: "sound D T busy st \<Longrightarrow> links st x k = Some j \<Longrightarrow> j < length (entries st)"
  unfolding sound_def by blast

lemma keeps_link:
  "keeps N st st' \<Longrightarrow> links st' x k = Some j \<Longrightarrow>
    links st x k = Some j \<or> length (entries st) \<le> j \<and> fst (snd (entries st' ! j)) \<in> N"
  unfolding keeps_def by blast

lemma sound_entry:
  "sound D T busy st \<Longrightarrow> links st x k = Some j \<Longrightarrow> entries st ! j = (dirruns st, n, r) \<Longrightarrow> n \<notin> busy \<Longrightarrow> r = Some (T n x)"
  unfolding sound_def by blast

lemma soundI:
  assumes "\<And>x k j. links st x k = Some j \<Longrightarrow> j < length (entries st)"
    and "\<And>x k j n r. links st x k = Some j \<Longrightarrow> entries st ! j = (dirruns st, n, r) \<Longrightarrow> n \<notin> busy \<Longrightarrow> r = Some (T n x)"
    and "fwdRight D (dirruns st) (positions st)" "recent st"
  shows "sound D T busy st"
  using assms unfolding sound_def by blast

lemma walkingD:
  assumes "walking D T n i V busy st"
  shows "i < length (entries st)" "entries st ! i = (dirruns st, n, if V = {} then None else Some False)"
    "sound D T (insert n busy) st"
    "links st x k = Some j \<Longrightarrow> entries st ! j = (dirruns st, n, r) \<Longrightarrow> j \<noteq> i \<and> r = Some (T n x) \<or> j = i \<and> x \<in> V"
  using assms unfolding walking_def by blast+

text \<open>When the walk ends, its entry gets the result, which is the truth for all that were visited.\<close>

lemma walk_finish:
  assumes "walking D T n i V busy st" "\<And>v. v \<in> V \<Longrightarrow> T n v = b"
  shows "sound D T busy (setResult i (Some b) st)"
proof (rule soundI)
  note w = walkingD [OF assms(1)]
  show "j < length (entries (setResult i (Some b) st))" if "links (setResult i (Some b) st) x k = Some j" for x k j
    using that sound_link [OF w(3)] by simp
  show "fwdRight D (dirruns (setResult i (Some b) st)) (positions (setResult i (Some b) st))" "recent (setResult i (Some b) st)"
    using w(3) by (simp_all add: sound_def)
  fix x k j n' r
  assume l: "links (setResult i (Some b) st) x k = Some j"
    "entries (setResult i (Some b) st) ! j = (dirruns (setResult i (Some b) st), n', r)" "n' \<notin> busy"
  then have link: "links st x k = Some j" by simp
  have at_i: "entries (setResult i (Some b) st) ! i = (dirruns st, n, Some b)" by (rule setResult_at [OF w(1,2)])
  show "r = Some (T n' x)"
  proof (cases "j = i")
    case True
    then have "n' = n" "r = Some b" using l(2) at_i by auto
    moreover have "x \<in> V" using w(4) [OF link] w(2) True by blast
    ultimately show ?thesis using assms(2) by simp
  next
    case False
    then have e: "entries st ! j = (dirruns st, n', r)" using l(2) by simp
    show ?thesis
    proof (cases "n' = n")
      case True
      then show ?thesis using w(4) [OF link] e False by blast
    next
      case False
      then show ?thesis using sound_entry [OF w(3) link e] l(3) by simp
    qed
  qed
qed

lemma walk_stop:
  assumes "walking D T n i V busy st" "\<And>v. v \<in> V \<Longrightarrow> \<not> T n v"
  shows "sound D T busy st"
proof -
  note w = walkingD [OF assms(1)]
  show ?thesis
  proof (cases "V = {}")
    case True
    show ?thesis
    proof (rule soundI)
      fix x k j n' r
      assume l: "links st x k = Some j" "entries st ! j = (dirruns st, n', r)" "n' \<notin> busy"
      show "r = Some (T n' x)"
      proof (cases "n' = n")
        case True
        then show ?thesis using w(4) [OF l(1)] l(2) \<open>V = {}\<close> by blast
      next
        case False
        then show ?thesis using sound_entry [OF w(3) l(1,2)] l(3) by simp
      qed
    qed (use w(3) in \<open>auto simp: sound_def\<close>)
  next
    case False
    have "(entries st)[i := (dirruns st, n, Some False)] = entries st" using w(2) False by (metis list_update_id)
    then have "setResult i (Some False) st = st" using w(2) by (simp add: setResult_def)
    then show ?thesis using walk_finish [OF assms(1), of False] assms(2) by simp
  qed
qed

text \<open>One step: the matcher of the combinator on the next node.\<close>

lemma walk_step:
  assumes "walking D T n i V busy st" "implements D T N Q m P" "n \<notin> N" "busy \<inter> N = {}" "Q x"
    and run: "m x (setLink x k i st) = (b, st')"
  shows "(b \<longleftrightarrow> P x) \<and> keeps N (setLink x k i st) st' \<and>
    walking D T n i (insert x V) busy (setResult i (Some False) st')"
proof -
  note w = walkingD [OF assms(1)]
  let ?st = "setLink x k i st"
  have "sound D T (insert n busy) ?st"
  proof (rule soundI)
    show "j < length (entries ?st)" if "links ?st y l = Some j" for y l j
      using that w(1) sound_link [OF w(3)] by (auto split: if_splits)
    show "r = Some (T n' y)" if "links ?st y l = Some j" "entries ?st ! j = (dirruns ?st, n', r)" "n' \<notin> insert n busy" for y l j n' r
      using that w(2) sound_entry [OF w(3)] by (auto split: if_splits)
  qed (use w(3) in \<open>simp_all add: sound_def\<close>)
  moreover have "insert n busy \<inter> N = {}" using assms(3,4) by blast
  ultimately have res: "b \<longleftrightarrow> P x" "sound D T (insert n busy) st'" "keeps N ?st st'"
    using implementsD [OF assms(2) run assms(5)] by blast+
  have len: "i < length (entries st')" "dirruns st' = dirruns st" and same: "\<And>j. j < length (entries st) \<Longrightarrow> entries st' ! j = entries st ! j"
    using res(3) w(1) by (auto simp: keeps_def)
  let ?st' = "setResult i (Some False) st'"
  have at_i: "entries ?st' ! i = (dirruns ?st', n, Some False)"
    using setResult_at [OF len(1)] same [OF w(1)] w(2) len(2) by simp
  have "sound D T (insert n busy) ?st'"
  proof (rule soundI)
    show "r = Some (T n' y)" if "links ?st' y l = Some j" "entries ?st' ! j = (dirruns ?st', n', r)" "n' \<notin> insert n busy" for y l j n' r
      using that at_i sound_entry [OF res(2), of y l j n' r] by (cases "j = i") auto
  qed (use res(2) in \<open>auto simp: sound_def\<close>)
  moreover have "j \<noteq> i \<and> r = Some (T n y) \<or> j = i \<and> y \<in> insert x V"
    if l: "links ?st' y l = Some j" "entries ?st' ! j = (dirruns ?st', n, r)" for y l j r
  proof (cases "j < length (entries st)")
    case True
    then have "links ?st y l = Some j" using keeps_link [OF res(3), of y l j] l(1) by simp
    then have "y = x \<and> j = i \<or> links st y l = Some j" by (cases "y = x \<and> l = k") simp_all
    then consider "y = x" "j = i" | "links st y l = Some j" by blast
    then show ?thesis
    proof cases
      case 2
      show ?thesis
      proof (cases "j = i")
        case True
        then show ?thesis using w(4) [OF 2] w(2) by blast
      next
        case False
        then show ?thesis using w(4) [OF 2] same [OF True] l(2) len(2) by auto
      qed
    qed simp
  next
    case False
    then have "j \<noteq> i" using w(1) by auto
    moreover have "links ?st y l \<noteq> Some j" using False w(1) sound_link [OF w(3), of y l j] by (auto split: if_splits)
    then have "fst (snd (entries st' ! j)) \<in> N" using keeps_link [OF res(3), of y l j] l(1) by simp
    ultimately show ?thesis using l(2) assms(3) by simp
  qed
  ultimately show ?thesis using res(1,3) at_i len unfolding walking_def by auto
qed

text \<open>What a walk is about: each node has the truth of what is left from it on.\<close>

fun truthful :: "dom \<Rightarrow> combinator \<Rightarrow> bool \<Rightarrow> (path \<Rightarrow> bool) \<Rightarrow> (path \<Rightarrow> bool) \<Rightarrow> path list \<Rightarrow> bool" where
  "truthful D c base P t [] \<longleftrightarrow> True"
| "truthful D c base P t (x # xs) \<longleftrightarrow> (t x \<longleftrightarrow> walkSpec D c base P (x # xs)) \<and> truthful D c base P t xs"

lemma truthful_tl: "truthful D c base P t xs \<Longrightarrow> truthful D c base P t (tl xs)"
  by (cases xs) auto

lemma keeps_walk:
  assumes "keeps (insert n N) st0 st" "keeps N (setLink x k i st) st'" "i = length (entries st0)"
    "i < length (entries st)" "fst (snd (entries st ! i)) = n"
  shows "keeps (insert n N) st0 (setResult i r st')"
proof -
  have "keeps (insert n N) st0 (setLink x k i st)"
    using assms(1,3,4,5) unfolding keeps_def by auto
  then have f: "keeps (insert n N) st0 st'"
    using keeps_mono [OF assms(2), of "insert n N"] by (blast intro: keeps_trans)
  have "fst (snd (entries (setResult i r st') ! j)) = fst (snd (entries st' ! j))" for j
    by (cases "j = i"; cases "i < length (entries st')") (auto simp: setResult_def list_update_beyond split: prod.split)
  then show ?thesis using f assms(3) unfolding keeps_def by auto
qed

lemma walkCached_right:
  assumes m: "implements D T N Q m P" "n \<notin> N" "busy \<inter> N = {}" and i: "i = length (entries st0)"
  shows "walking D T n i V busy st \<Longrightarrow> keeps (insert n N) st0 st \<Longrightarrow> distinct zs \<Longrightarrow> V \<inter> set zs = {} \<Longrightarrow>
    (\<And>x. x \<in> set zs \<Longrightarrow> eligible D c base x \<Longrightarrow> Q x) \<Longrightarrow> truthful D c base P (T n) zs \<Longrightarrow>
    (\<And>v. v \<in> V \<Longrightarrow> T n v = walkSpec D c base P zs) \<Longrightarrow> walkCached D c base n m i zs st = (b, st') \<Longrightarrow>
    (b \<longleftrightarrow> walkSpec D c base P zs) \<and> sound D T busy st' \<and> keeps (insert n N) st0 st'"
proof (induction zs arbitrary: V st rule: measure_induct_rule [where f = length])
  case (less zs)
  note w = walkingD [OF less.prems(1)]
  show ?case
  proof (cases zs)
    case Nil
    then show ?thesis using less.prems walk_stop [OF less.prems(1)] by auto
  next
    case (Cons x xs)
    let ?k = "(skipName c, dir c)"
    consider (no) "\<not> eligible D c base x"
      | (skip) "eligible D c base x" "skipName c \<noteq> None \<and> skipName c = Some (lcName D x)"
      | (hit) r where "eligible D c base x" "\<not> (skipName c \<noteq> None \<and> skipName c = Some (lcName D x))" "cached st n x ?k = Some r"
      | (miss) "eligible D c base x" "\<not> (skipName c \<noteq> None \<and> skipName c = Some (lcName D x))" "cached st n x ?k = None"
      by (cases "cached st n x ?k") blast+
    then show ?thesis
    proof cases
      case no
      then have run: "walkCached D c base n m i xs st = (b, st')" using less.prems(8) Cons by simp
      have "walkSpec D c base P zs = walkSpec D c base P xs" using no Cons by simp
      with less.IH [OF _ less.prems(1,2) _ _ _ _ _ run] less.prems(3-7) Cons show ?thesis by auto
    next
      case skip
      then have run: "walkCached D c base n m i (tl xs) st = (b, st')" using less.prems(8) Cons by simp
      have sp: "walkSpec D c base P zs = walkSpec D c base P (tl xs)" using skip Cons by simp
      have "set (tl xs) \<subseteq> set zs" "distinct (tl xs)" "truthful D c base P (T n) (tl xs)" "length (tl xs) < length zs"
        using less.prems(3,6) Cons by (auto simp: distinct_tl intro: truthful_tl dest: list.set_sel(2) [rotated]) (cases xs; simp)+
      with less.IH [OF _ less.prems(1,2) _ _ _ _ _ run] less.prems(4,5,7) sp show ?thesis by blast
    next
      case (hit r)
      then obtain j where j: "links st x ?k = Some j" "entries st ! j = (dirruns st, n, r)"
        by (auto simp: cached_def split: option.splits prod.splits if_splits)
      have "x \<notin> V" using less.prems(4) Cons by simp
      then have r: "r = Some (T n x)" using w(4) [OF j] by blast
      have t: "T n x \<longleftrightarrow> walkSpec D c base P zs" using less.prems(6) Cons by simp
      have res: "b = T n x" "st' = setResult i (Some (T n x)) st" using less.prems(8) Cons hit r by auto
      have "sound D T busy st'" using walk_finish [OF less.prems(1), of "T n x"] less.prems(7) t res(2) by blast
      moreover have "keeps (insert n N) st0 st'"
        using less.prems(2) i w(1,2) res(2) setResult_at [OF w(1,2)] unfolding keeps_def by (auto simp: nth_list_update setResult_def)
      ultimately show ?thesis using res(1) t by simp
    next
      case miss
      obtain d s1 where run: "m x (setLink x ?k i st) = (d, s1)" by fastforce
      have "Q x" using less.prems(5) Cons miss(1) by simp
      from walk_step [OF less.prems(1) m this run]
      have d: "d \<longleftrightarrow> P x" "keeps N (setLink x ?k i st) s1" "walking D T n i (insert x V) busy (setResult i (Some False) s1)"
        by blast+
      have fr: "keeps (insert n N) st0 (setResult i r s1)" for r
        using keeps_walk [OF less.prems(2) d(2) i w(1)] w(2) by simp
      have t: "T n x \<longleftrightarrow> walkSpec D c base P zs" using less.prems(6) Cons by simp
      show ?thesis
      proof (cases d)
        case True
        have sp: "walkSpec D c base P zs" using True d(1) miss(1,2) Cons by auto
        have "sound D T busy (setResult i (Some True) s1)"
          using walk_finish [OF d(3), of True] t sp less.prems(7) by (auto simp: setResult_again)
        moreover have "b = True" "st' = setResult i (Some True) s1" using less.prems(8) Cons miss run True by auto
        ultimately show ?thesis using sp fr by simp
      next
        case False
        have sp: "walkSpec D c base P zs = walkSpec D c base P xs" using False d(1) miss(1,2) Cons by auto
        have run': "walkCached D c base n m i xs (setResult i (Some False) s1) = (b, st')"
          using less.prems(8) Cons miss run False by auto
        have "\<And>v. v \<in> insert x V \<Longrightarrow> T n v = walkSpec D c base P xs" using t sp less.prems(7) by auto
        with less.IH [OF _ d(3) fr _ _ _ _ _ run'] less.prems(3-6) Cons sp show ?thesis by auto
      qed
    qed
  qed
qed

section \<open>Lemmas: combinators\<close>

lemma chain_tail: "chainOf d p = x # xs \<Longrightarrow> chainOf d x = xs"
proof (cases d)
  case ParentNode
  assume "chainOf d p = x # xs"
  with ParentNode show ?thesis by (cases p) (auto simp: chainOf_def)
next
  case PreviousSibling
  assume c: "chainOf d p = x # xs"
  with PreviousSibling obtain i up where p: "p = i # up" by (cases p) (auto simp: chainOf_def preceding_def)
  with c PreviousSibling obtain j where "i = Suc j" by (cases i) (auto simp: chainOf_def preceding_def)
  with c p PreviousSibling show ?thesis by (auto simp: chainOf_def preceding_def)
qed

lemma ancestors_length: "x \<in> set (ancestors p) \<Longrightarrow> length x < length p"
  by (induction p) auto

lemma chain_distinct: "distinct (chainOf d p)"
proof (cases d)
  case ParentNode
  have "distinct (ancestors p)" by (induction p) (use ancestors_length in auto)
  with ParentNode show ?thesis by (simp add: chainOf_def)
next
  case PreviousSibling
  then show ?thesis by (auto simp: chainOf_def preceding_def distinct_map inj_on_def split: list.split)
qed

lemma chain_truthful:
  assumes "\<And>x. t x \<longleftrightarrow> walkSpec D c base P (x # chainOf (dir c) x)"
  shows "chainOf (dir c) p = zs \<Longrightarrow> truthful D c base P t zs"
proof (induction zs arbitrary: p)
  case (Cons x xs)
  then have "chainOf (dir c) x = xs" by (blast intro: chain_tail)
  with Cons.IH [of x] assms [of x] show ?case by simp
qed simp

lemma walkXml_right:
  assumes "implements D T N Q m P" "busy \<inter> N = {}" "skipName c = None"
  shows "sound D T busy st \<Longrightarrow> (\<And>x. x \<in> set zs \<Longrightarrow> eligible D c base x \<Longrightarrow> Q x) \<Longrightarrow>
    walkXml D c base m zs st = (b, st') \<Longrightarrow> (b \<longleftrightarrow> walkSpec D c base P zs) \<and> sound D T busy st' \<and> keeps N st st'"
proof (induction zs arbitrary: st)
  case (Cons x xs)
  show ?case
  proof (cases "eligible D c base x")
    case True
    obtain d s1 where run: "m x st = (d, s1)" by fastforce
    have r: "d \<longleftrightarrow> P x" "sound D T busy s1" "keeps N st s1"
      using implementsD [OF assms(1) run _ Cons.prems(1) assms(2)] Cons.prems(2) True by auto
    show ?thesis
    proof (cases d)
      case False
      then have "walkXml D c base m xs s1 = (b, st')" using Cons.prems(3) True run by simp
      with Cons.IH [OF r(2)] Cons.prems(2) r True False assms(3) show ?thesis by (auto intro: keeps_trans)
    qed (use Cons.prems(3) run r True assms(3) in auto)
  next
    case False
    with Cons assms(3) show ?thesis by simp
  qed
qed simp

text \<open>A combinator has the meaning without the cache; an XML page has no names to skip.\<close>

lemma addCombinator_right:
  assumes m: "implements D T N Q m P" "n \<notin> N" and t: "\<And>x. T n x \<longleftrightarrow> walkSpec D c base P (x # chainOf (dir c) x)"
    and q: "\<And>p x. R p \<Longrightarrow> x \<in> set (chainOf (dir c) p) \<Longrightarrow> eligible D c base x \<Longrightarrow> Q x"
    and skip: "isHtml D \<or> skipName c = None"
  shows "implements D T (insert n N) R (addCombinator D m c base n) (combSpec D c base P)"
proof (rule implementsI)
  fix busy st p b st'
  assume h: "R p" "sound D T busy st" "busy \<inter> insert n N = {}" "addCombinator D m c base n p st = (b, st')"
  have busy: "busy \<inter> N = {}" "n \<notin> busy" using h(3) by blast+
  have q': "\<And>x. x \<in> set (chainOf (dir c) p) \<Longrightarrow> eligible D c base x \<Longrightarrow> Q x" using q h(1) by blast
  consider (first) "isFirst c" | (xml) "\<not> isFirst c" "\<not> isHtml D" | (html) "\<not> isFirst c" "isHtml D" by blast
  then show "(b \<longleftrightarrow> combSpec D c base P p) \<and> sound D T busy st' \<and> keeps (insert n N) st st'"
  proof cases
    case first
    show ?thesis
    proof (cases "find (eligible D c base) (chainOf (dir c) p)")
      case None
      with first h show ?thesis by (simp add: addCombinator_def combSpec_def)
    next
      case (Some x)
      then have "Q x" using q' by (auto simp: find_Some_iff)
      moreover have "m x st = (b, st')" using first h(4) Some by (simp add: addCombinator_def)
      ultimately have "(b \<longleftrightarrow> P x) \<and> sound D T busy st' \<and> keeps N st st'"
        using implementsD [OF m(1) _ _ h(2) busy(1)] by blast
      with first Some show ?thesis by (auto simp: combSpec_def intro: keeps_mono)
    qed
  next
    case xml
    then have run: "walkXml D c base m (chainOf (dir c) p) st = (b, st')" using h(4) by (simp add: addCombinator_def)
    from walkXml_right [OF m(1) busy(1) _ h(2) q' run] xml skip show ?thesis
      by (auto simp: combSpec_def intro: keeps_mono)
  next
    case html
    let ?st = "st\<lparr>entries := entries st @ [(dirruns st, n, None)]\<rparr>"
    have run: "walkCached D c base n m (length (entries st)) (chainOf (dir c) p) ?st = (b, st')"
      using html h(4) by (simp add: addCombinator_def)
    have old: "j < length (entries st)" if "links st x k = Some j" for x k j using sound_link [OF h(2) that] .
    have "sound D T busy ?st"
    proof (rule soundI)
      show "j < length (entries ?st)" if "links ?st x k = Some j" for x k j using that old by fastforce
      show "r = Some (T n' x)" if "links ?st x k = Some j" "entries ?st ! j = (dirruns ?st, n', r)" "n' \<notin> busy" for x k j n' r
        using that old sound_entry [OF h(2), of x k j n' r] by (simp add: nth_append)
    qed (use h(2) in \<open>auto simp: sound_def recent_def\<close>)
    then have s: "sound D T busy ?st" .
    have s': "sound D T (insert n busy) ?st"
      by (rule soundI) (use s in \<open>auto simp: sound_def\<close>)
    have e: "j \<noteq> length (entries st) \<and> r = Some (T n x)"
      if "links ?st x k = Some j" "entries ?st ! j = (dirruns ?st, n, r)" for x k j r
      using that old [of x k j] sound_entry [OF s that busy(2)] by simp
    have w: "walking D T n (length (entries st)) {} busy ?st"
      using s' e unfolding walking_def by simp
    have f: "keeps (insert n N) st ?st" by (simp add: keeps_def nth_append)
    from walkCached_right [OF m busy(1) refl w f chain_distinct _ q' chain_truthful [OF t refl] _ run] html
    show ?thesis by (simp add: combSpec_def)
  qed
qed

lemma allFrom_right:
  assumes "list_all2 (implements D T N Q) ms Ps"
  shows "implements D T N Q (allFrom ms) (\<lambda>p. \<forall>P \<in> set Ps. P p)"
  using assms
proof (induction ms Ps rule: list_all2_induct)
  case Nil
  then show ?case by (simp add: implements_def)
next
  case (Cons m ms P Ps)
  show ?case
  proof (rule implementsI)
    fix busy st p b st'
    assume h: "Q p" "sound D T busy st" "busy \<inter> N = {}" "allFrom (m # ms) p st = (b, st')"
    obtain d s1 where run: "m p st = (d, s1)" by fastforce
    note r = implementsD [OF Cons(1) run h(1,2,3)]
    show "(b \<longleftrightarrow> (\<forall>P \<in> set (P # Ps). P p)) \<and> sound D T busy st' \<and> keeps N st st'"
    proof (cases d)
      case True
      then have "allFrom ms p s1 = (b, st')" using h(4) run by simp
      with implementsD [OF Cons(3) this h(1) _ h(3)] r True show ?thesis by (auto intro: keeps_trans)
    qed (use h(4) run r in auto)
  qed
qed

lemma elementMatcher_right:
  assumes "list_all2 (implements D T N Q) ms Ps" "ms \<noteq> []"
  shows "implements D T N Q (elementMatcher ms) (\<lambda>p. \<forall>P \<in> set Ps. P p)"
proof (cases "length ms > 1")
  case True
  have "list_all2 (implements D T N Q) (rev ms) (rev Ps)" using assms(1) by (simp add: list_all2_rev)
  from allFrom_right [OF this] True show ?thesis by (simp add: elementMatcher_def)
next
  case False
  with assms obtain m P where "ms = [m]" "Ps = [P]" by (cases ms; cases "tl ms") (auto simp: list_all2_Cons1)
  with assms show ?thesis by (simp add: elementMatcher_def)
qed

text \<open>\<open>inDisabledFieldset\<close> is such a combinator, with legends to skip.\<close>

definition fieldsetCombinator :: combinator where
  "fieldsetCombinator = \<lparr>dir = ParentNode, isFirst = False, skipName = Some (js ''legend'')\<rparr>"

definition disabledFieldset :: "dom \<Rightarrow> path \<Rightarrow> bool" where
  "disabledFieldset D x \<longleftrightarrow> boolProp D x (js ''disabled'') True \<and> lcName D x = js ''fieldset''"

lemma fieldsetWalk_spec:
  "fieldsetWalk D xs = walkSpec D fieldsetCombinator False (disabledFieldset D) xs"
proof (induction D xs rule: fieldsetWalk.induct)
  case (2 D x xs)
  then show ?case
    by (cases xs) (auto simp: fieldsetCombinator_def eligible_def disabledFieldset_def simp del: js.simps)
qed simp

text \<open>
  The cached search for a disabled field set above an element, with legends that hide their parents, finds what the
  search without the cache finds, whatever earlier searches of the run have left in the cache.
\<close>

theorem inDisabledFieldset_cached:
  assumes "isHtml D" "sound D T busy st" "n \<notin> busy"
    and "\<And>x. T n x = walkSpec D fieldsetCombinator False (disabledFieldset D) (x # ancestors x)"
    and "addCombinator D (\<lambda>x st. (disabledFieldset D x, st)) fieldsetCombinator False n p st = (b, st')"
  shows "b = inDisabledFieldset D p \<and> sound D T busy st'"
proof -
  have "implements D T (insert n {}) (\<lambda>_. True) (addCombinator D (\<lambda>x st. (disabledFieldset D x, st)) fieldsetCombinator False n)
      (combSpec D fieldsetCombinator False (disabledFieldset D))"
    using assms(1,4) by (intro addCombinator_right [where Q = "\<lambda>_. True"] implements_pure)
      (auto simp: fieldsetCombinator_def chainOf_def simp del: js.simps)
  from implementsD [OF this assms(5) _ assms(2)] assms(3) show ?thesis
    by (simp add: combSpec_def inDisabledFieldset_def fieldsetWalk_spec)
      (simp add: fieldsetCombinator_def chainOf_def)
qed

definition emptyStore :: cstore where
  "emptyStore = \<lparr>entries = [], links = (\<lambda>_ _. None), dirruns = 0, positions = noPositions\<rparr>"

lemma emptyStore_sound: "sound D T busy emptyStore"
  by (simp add: sound_def emptyStore_def fwdRight_def noPositions_def recent_def)

theorem inDisabledFieldset_cached_witness:
  "case addCombinator sampleList (\<lambda>x st. (disabledFieldset sampleList x, st)) fieldsetCombinator False 0 [0, 0] emptyStore of
     (b, st') \<Rightarrow> b = inDisabledFieldset sampleList [0, 0] \<and>
       sound sampleList (\<lambda>_ x. walkSpec sampleList fieldsetCombinator False (disabledFieldset sampleList) (x # ancestors x)) {} st'"
proof -
  let ?T = "\<lambda>_ x. walkSpec sampleList fieldsetCombinator False (disabledFieldset sampleList) (x # ancestors x)"
  have html: "isHtml sampleList" by (simp add: sampleList_def)
  obtain b st' where run: "addCombinator sampleList (\<lambda>x st. (disabledFieldset sampleList x, st)) fieldsetCombinator False 0 [0, 0]
      emptyStore = (b, st')" by fastforce
  have "b = inDisabledFieldset sampleList [0, 0] \<and> sound sampleList ?T {} st'"
    by (rule inDisabledFieldset_cached [OF html emptyStore_sound _ refl run]) simp
  then show ?thesis unfolding run case_prod_conv .
qed

end
