(* ===== verification/Sizzle_Matcher.thy ===== *)
theory Sizzle_Matcher
  imports Sizzle_Combinators
begin

text \<open>
  The compilation of selectors in the selector engine of \<^verbatim>\<open>jquery.js\<close> to matchers, and their use on the elements of a page
  (\<open>matcherFromTokens\<close>, \<open>matcherFromGroupMatchers\<close>, \<open>compile\<close>), for selectors without positional pseudo
  classes. The lemmas show that a compiled selector takes the elements that the selector describes.
\<close>

section \<open>Filters of tokens\<close>

text \<open>\<open>s.replace(rtrim, "$1")\<close>: without the blanks at the ends, but an escaped blank stays.\<close>

definition trailing :: "(nat \<Rightarrow> bool) \<Rightarrow> jstring \<Rightarrow> jstring" where
  "trailing q s = rev (takeWhile q (rev s))"

definition trimSelector :: "jstring \<Rightarrow> jstring" where
  "trimSelector s =
     (let t = dropWhile white s; w = trailing white t; b = take (length t - length w) t
      in if w \<noteq> [] \<and> odd (length (trailing (\<lambda>c. c = 92) b)) then b @ [hd w] else b)"

text \<open>
  What the filters need from elsewhere: the test of the selector in \<open>:not\<close>, that of \<open>:has\<close>, and the pseudo classes
  that others have added. The numbers of nested runs are random, so their entries in the cache are their own; a
  nested selector is represented by its test.
\<close>

record extras =
  notTest :: "jstring \<Rightarrow> sizzle_error + (path \<Rightarrow> bool)"
  hasTest :: "jstring \<Rightarrow> path \<Rightarrow> bool"
  morePseudos :: "jstring \<Rightarrow> (path \<Rightarrow> bool) option"

definition simplePseudos :: "dom \<Rightarrow> (jstring \<times> (path \<Rightarrow> bool)) list" where
  "simplePseudos D =
     [(js ''target'', targetPseudo D), (js ''root'', rootPseudo D), (js ''focus'', focusPseudo D),
      (js ''enabled'', disabledPseudo D False), (js ''disabled'', disabledPseudo D True),
      (js ''checked'', checkedPseudo D), (js ''selected'', selectedPseudo D), (js ''empty'', emptyPseudo D),
      (js ''parent'', parentPseudo D), (js ''header'', headerPseudo D), (js ''input'', inputPseudo D),
      (js ''button'', buttonPseudo D), (js ''text'', textPseudo D), (js ''radio'', inputTypePseudo D (js ''radio'')),
      (js ''checkbox'', inputTypePseudo D (js ''checkbox'')), (js ''file'', inputTypePseudo D (js ''file'')),
      (js ''password'', inputTypePseudo D (js ''password'')), (js ''image'', inputTypePseudo D (js ''image'')),
      (js ''submit'', buttonTypePseudo D (js ''submit'')), (js ''reset'', buttonTypePseudo D (js ''reset''))]"

definition positionNames :: "jstring list" where
  "positionNames = [js ''first'', js ''last'', js ''eq'', js ''even'', js ''odd'', js ''lt'', js ''gt'', js ''nth'']"

definition argumentNames :: "jstring list" where
  "argumentNames = [js ''not'', js ''has'', js ''contains'', js ''lang'']"

definition knownPseudo :: "dom \<Rightarrow> extras \<Rightarrow> jstring \<Rightarrow> bool" where
  "knownPseudo D E name \<longleftrightarrow>
     map_of (simplePseudos D) name \<noteq> None \<or> name \<in> set positionNames \<or> name \<in> set argumentNames \<or> morePseudos E name \<noteq> None"

definition pseudoFilter :: "dom \<Rightarrow> extras \<Rightarrow> jstring \<Rightarrow> jstring option \<Rightarrow> sizzle_error + (path \<Rightarrow> bool)" where
  "pseudoFilter D E pseudo arg =
     (let name = (if knownPseudo D E pseudo then pseudo else lowerCase D pseudo)
      in if \<not> knownPseudo D E name then Inl (SyntaxError (js ''unsupported pseudo: '' @ pseudo))
         else case map_of (simplePseudos D) name of
             Some t \<Rightarrow> Inr t
           | None \<Rightarrow>
               if name = js ''not'' then (case arg of None \<Rightarrow> Inl MissingArgument | Some a \<Rightarrow> notTest E (trimSelector a))
               else if name = js ''has'' then Inr (\<lambda>p. case arg of None \<Rightarrow> False | Some a \<Rightarrow> hasTest E a p)
               else if name = js ''contains'' then
                 (case arg of None \<Rightarrow> Inl MissingArgument | Some a \<Rightarrow> Inr (containsPseudo D a))
               else if name = js ''lang'' then
                 (case arg of None \<Rightarrow> Inl (SyntaxError (js ''unsupported lang: undefined'')) | Some a \<Rightarrow> langPseudo D a)
               else if name \<in> set positionNames then Inl Uncovered
               else case morePseudos E name of Some t \<Rightarrow> Inr t | None \<Rightarrow> Inl Uncovered)"

definition pureTest :: "(path \<Rightarrow> bool) \<Rightarrow> smatcher" where
  "pureTest P p st = (P p, st)"

definition childTest :: "dom \<Rightarrow> jstring \<Rightarrow> jstring \<Rightarrow> int \<Rightarrow> int \<Rightarrow> smatcher" where
  "childTest D type what a b p st =
     (let (r, C) = childFilter D (dirruns st) type what a b p (positions st) in (r, st\<lparr>positions := C\<rparr>))"

text \<open>\<open>Expr.filter[type].apply(null, matches)\<close>.\<close>

definition filterOf :: "dom \<Rightarrow> extras \<Rightarrow> filt \<Rightarrow> sizzle_error + smatcher" where
  "filterOf D E f =
     (case f of
        TagF w \<Rightarrow> Inr (pureTest (tagFilter D w))
      | ClassF w \<Rightarrow> (case classRx w of None \<Rightarrow> Inl Uncovered | Some r \<Rightarrow> Inr (pureTest (classFilter D r)))
      | AttrF name op check \<Rightarrow> Inr (pureTest (attrFilter D name op check))
      | ChildF type what a b \<Rightarrow> Inr (childTest D type what a b)
      | PseudoF name arg \<Rightarrow> map_sum id pureTest (pseudoFilter D E name arg)
      | IdF w \<Rightarrow> Inr (pureTest (idFilter D w)))"

section \<open>Compilation\<close>

text \<open>
  The context of a search and \<open>outermostContext\<close>, which is \<open>true\<close> (here \<open>None\<close>) when the context is the document.
\<close>

record searchCtx =
  ctx :: path
  outermostCtx :: "path option"

text \<open>
  The first matcher of a group: the element must be reachable from the context. It has two combinators with the names
  \<open>n\<close> (for a node as context) and \<open>n + 1\<close> (for a list of nodes, which is not used here).
\<close>

definition leadMatcher :: "dom \<Rightarrow> searchCtx \<Rightarrow> rel option \<Rightarrow> nat \<Rightarrow> smatcher" where
  "leadMatcher D S leading n p st =
     (if leading = None \<and> (\<not> isHtml D \<or> Some (ctx S) \<noteq> outermostCtx S) then (True, st)
      else addCombinator D (pureTest (\<lambda>x. x = ctx S)) (relative (case leading of None \<Rightarrow> Descendant | Some r \<Rightarrow> r)) True n p st)"

fun matcherLoop :: "dom \<Rightarrow> extras \<Rightarrow> token list \<Rightarrow> smatcher list \<Rightarrow> nat \<Rightarrow> sizzle_error + smatcher list \<times> nat" where
  "matcherLoop D E [] ms n = Inr (ms, n)"
| "matcherLoop D E (Rel v r # ts) ms n =
     matcherLoop D E ts [addCombinator D (elementMatcher ms) (relative r) False n] (Suc n)"
| "matcherLoop D E (Flt v f # ts) ms n =
     (case filterOf D E f of Inl e \<Rightarrow> Inl e | Inr m \<Rightarrow> matcherLoop D E ts (ms @ [m]) n)"

fun leadingRel :: "token list \<Rightarrow> rel option" where
  "leadingRel (Rel v r # ts) = Some r"
| "leadingRel ts = None"

definition afterLead :: "token list \<Rightarrow> token list" where
  "afterLead ts = (if leadingRel ts = None then ts else tl ts)"

definition matcherFromTokens :: "dom \<Rightarrow> extras \<Rightarrow> searchCtx \<Rightarrow> token list \<Rightarrow> nat \<Rightarrow> sizzle_error + smatcher \<times> nat" where
  "matcherFromTokens D E S ts n =
     map_sum id (\<lambda>(ms, n'). (elementMatcher ms, n'))
       (matcherLoop D E (afterLead ts) [leadMatcher D S (leadingRel ts) n] (n + 2))"

text \<open>\<open>compile\<close>: the groups from the last to the first.\<close>

fun compileFrom :: "dom \<Rightarrow> extras \<Rightarrow> searchCtx \<Rightarrow> token list list \<Rightarrow> nat \<Rightarrow> sizzle_error + smatcher list \<times> nat" where
  "compileFrom D E S [] n = Inr ([], n)"
| "compileFrom D E S (g # gs) n =
     (case matcherFromTokens D E S g n of
        Inl e \<Rightarrow> Inl e
      | Inr (m, n') \<Rightarrow>
          (case compileFrom D E S gs n' of Inl e \<Rightarrow> Inl e | Inr (ms, n'') \<Rightarrow> Inr (m # ms, n'')))"

definition compile :: "dom \<Rightarrow> extras \<Rightarrow> searchCtx \<Rightarrow> token list list \<Rightarrow> nat \<Rightarrow> sizzle_error + smatcher list \<times> nat" where
  "compile D E S groups n = compileFrom D E S (rev groups) n"

text \<open>
  The matcher of all groups (\<open>superMatcher\<close>), on a list of elements: a new run, then for each element the first matcher
  that takes it.
\<close>

fun anyMatcher :: "smatcher list \<Rightarrow> smatcher" where
  "anyMatcher [] p st = (False, st)"
| "anyMatcher (m # ms) p st = (let (b, st') = m p st in if b then (True, st') else anyMatcher ms p st')"

fun matchEach :: "smatcher list \<Rightarrow> path list \<Rightarrow> cstore \<Rightarrow> path list \<times> cstore" where
  "matchEach ms [] st = ([], st)"
| "matchEach ms (p # ps) st =
     (let (b, st') = anyMatcher ms p st; (rs, st'') = matchEach ms ps st' in (if b then p # rs else rs, st''))"

definition superMatcher :: "smatcher list \<Rightarrow> path list \<Rightarrow> cstore \<Rightarrow> path list \<times> cstore" where
  "superMatcher ms elems st = matchEach ms elems (st\<lparr>dirruns := dirruns st + 1\<rparr>)"

section \<open>What a selector describes\<close>

text \<open>The meaning of a filter; a position is counted without any cache.\<close>

definition childMeans :: "dom \<Rightarrow> jstring \<Rightarrow> jstring \<Rightarrow> int \<Rightarrow> int \<Rightarrow> path \<Rightarrow> bool" where
  "childMeans D type what a b p \<longleftrightarrow>
     p \<noteq> [] \<and>
     (if take 3 type = js ''nth'' then
        (\<exists>n::nat. int (placeFrom (ofKind D (what = js ''of-type'') p) (siblingsFrom D type (tl p)) p) = a * int n + b)
      else a = 1 \<and> b = 0 \<or> simpleChild D type (what = js ''of-type'') p)"

definition filterMeans :: "dom \<Rightarrow> extras \<Rightarrow> filt \<Rightarrow> path \<Rightarrow> bool" where
  "filterMeans D E f p \<longleftrightarrow>
     (case f of
        TagF w \<Rightarrow> tagFilter D w p
      | ClassF w \<Rightarrow> (case classRx w of None \<Rightarrow> False | Some r \<Rightarrow> classFilter D r p)
      | AttrF name op check \<Rightarrow> attrFilter D name op check p
      | ChildF type what a b \<Rightarrow> childMeans D type what a b p
      | PseudoF name arg \<Rightarrow> (case pseudoFilter D E name arg of Inl e \<Rightarrow> False | Inr t \<Rightarrow> t p)
      | IdF w \<Rightarrow> idFilter D w p)"

text \<open>The element that a relation leads to: one that is an element (or, for the context, any node above).\<close>

definition reaches :: "dom \<Rightarrow> rel \<Rightarrow> bool \<Rightarrow> path \<Rightarrow> path \<Rightarrow> bool" where
  "reaches D r base p q \<longleftrightarrow>
     (let ok = (\<lambda>x. elementAt D x \<or> base \<and> r \<in> {Child, Descendant})
      in case r of
           Child \<Rightarrow> find ok (ancestors p) = Some q
         | Descendant \<Rightarrow> q \<in> set (ancestors p) \<and> ok q
         | Adjacent \<Rightarrow> find ok (preceding p) = Some q
         | Sibling \<Rightarrow> q \<in> set (preceding p) \<and> ok q)"

text \<open>A group, read from its end: filters of the element, and a relation to an element that the rest describes.\<close>

fun describes :: "dom \<Rightarrow> extras \<Rightarrow> (path \<Rightarrow> bool) \<Rightarrow> token list \<Rightarrow> path \<Rightarrow> bool" where
  "describes D E start [] p \<longleftrightarrow> start p"
| "describes D E start (Flt v f # ts) p \<longleftrightarrow> filterMeans D E f p \<and> describes D E start ts p"
| "describes D E start (Rel v r # ts) p \<longleftrightarrow> (\<exists>q. reaches D r False p q \<and> describes D E start ts q)"

definition startMeans :: "dom \<Rightarrow> searchCtx \<Rightarrow> rel option \<Rightarrow> path \<Rightarrow> bool" where
  "startMeans D S leading p \<longleftrightarrow>
     (case leading of
        None \<Rightarrow> \<not> isHtml D \<or> Some (ctx S) \<noteq> outermostCtx S \<or> ctx S \<in> set (ancestors p)
      | Some r \<Rightarrow> reaches D r True p (ctx S))"

definition groupMeans :: "dom \<Rightarrow> extras \<Rightarrow> searchCtx \<Rightarrow> token list \<Rightarrow> path \<Rightarrow> bool" where
  "groupMeans D E S ts p \<longleftrightarrow> describes D E (startMeans D S (leadingRel ts)) (rev (afterLead ts)) p"

section \<open>Lemmas: filters\<close>

definition nodeOK :: "dom \<Rightarrow> path \<Rightarrow> bool" where
  "nodeOK D p \<longleftrightarrow> inDoc (domTree D) p \<and> elementAt D p"

text \<open>A filter that does not take positions from the end from the cache.\<close>

definition safeFilter :: "dom \<Rightarrow> filt \<Rightarrow> bool" where
  "safeFilter D f \<longleftrightarrow> (case f of ChildF type what a b \<Rightarrow> \<not> cachesBackward D type what | _ \<Rightarrow> True)"

lemma pureTest_right: "implements D T N Q (pureTest P) P"
  using implements_pure by (simp add: pureTest_def [abs_def])

definition fwdRecent :: "nat \<Rightarrow> child_cache \<Rightarrow> bool" where
  "fwdRecent run C \<longleftrightarrow> (\<forall>parent type r i d. fwdCache C parent type = Some (r, i, d) \<longrightarrow> r \<le> run)"

lemma fwdRecent_cong: "fwdCache A = fwdCache B \<Longrightarrow> fwdRecent run A = fwdRecent run B"
  by (simp add: fwdRecent_def)

lemma fwdPosition_recent: "fwdRecent run C \<Longrightarrow> fwdRecent run (snd (fwdPosition D run type parent k C))"
  unfolding fwdPosition_def Let_def fwdRecent_def by (auto split: option.splits)

lemma bwdPosition_fwd: "fwdCache (snd (bwdPosition D u ofType run type forward elem C)) = fwdCache C"
  unfolding bwdPosition_def Let_def by (auto simp: seekAll_fwd split: option.split prod.split)
    (metis (no_types, lifting) seekAll_fwd snd_conv)+

lemma childFilter_cache:
  "snd (childFilter D run type what a b elem C) = C
   \<or> snd (childFilter D run type what a b elem C) = snd (fwdPosition D run type (tl elem) (hd elem) C)
   \<or> fwdCache (snd (childFilter D run type what a b elem C)) = fwdCache C"
proof (cases elem)
  case (Cons k parent)
  obtain c1 C1 where f: "fwdPosition D run type parent k C = (c1, C1)" by fastforce
  obtain c2 C2 where g: "bwdPosition D (isHtml D \<and> what \<noteq> js ''of-type'') (what = js ''of-type'') run type
      (drop (length type - 4) type \<noteq> js ''last'') (k # parent) C = (c2, C2)" by fastforce
  then have "fwdCache C2 = fwdCache C" using bwdPosition_fwd by (metis snd_conv)
  with Cons f g show ?thesis by (simp add: childFilter_def Let_def del: js.simps)
qed (simp add: childFilter_def Let_def)

lemma childFilter_recent: "fwdRecent run C \<Longrightarrow> fwdRecent run (snd (childFilter D run type what a b elem C))"
proof -
  assume r: "fwdRecent run C"
  consider "snd (childFilter D run type what a b elem C) = C"
    | "snd (childFilter D run type what a b elem C) = snd (fwdPosition D run type (tl elem) (hd elem) C)"
    | "fwdCache (snd (childFilter D run type what a b elem C)) = fwdCache C" using childFilter_cache by blast
  then show ?thesis
  proof cases
    case 1
    with r show ?thesis by simp
  next
    case 2
    with r show ?thesis by (simp add: fwdPosition_recent)
  next
    case 3
    with r show ?thesis by (simp only: fwdRecent_cong [OF 3])
  qed
qed

lemma childFilter_means:
  assumes "nodeOK D p" "fwdRight D run C" "\<not> cachesBackward D type what" "childFilter D run type what a b p C = (r, C')"
  shows "(r \<longleftrightarrow> childMeans D type what a b p) \<and> fwdRight D run C'"
proof (cases "take 3 type = js ''nth''")
  case True
  show ?thesis
  proof (cases p)
    case Nil
    have "childFilter D run type what a b [] C = (False, C)" by (simp add: childFilter_def Let_def)
    with assms Nil show ?thesis by (simp add: childMeans_def)
  next
    case (Cons k parent)
    with assms True childFilter_place [of D k parent type run C what a b] show ?thesis
      by (simp add: nodeOK_def childMeans_def)
  qed
next
  case False
  with assms show ?thesis by (cases p) (auto simp: childFilter_def childMeans_def Let_def split: if_splits)
qed

lemma childTest_right:
  assumes "\<not> cachesBackward D type what"
  shows "implements D T N (nodeOK D) (childTest D type what a b) (childMeans D type what a b)"
proof (rule implementsI)
  fix busy st p r st'
  assume h: "nodeOK D p" "sound D T busy st" "childTest D type what a b p st = (r, st')"
  obtain r' C where run: "childFilter D (dirruns st) type what a b p (positions st) = (r', C)" by fastforce
  have st': "r = r'" "st' = st\<lparr>positions := C\<rparr>" using h(3) run by (auto simp: childTest_def)
  have right: "fwdRight D (dirruns st) (positions st)" "fwdRecent (dirruns st) (positions st)"
    using h(2) by (simp_all add: sound_def recent_def fwdRecent_def)
  have c: "(r' \<longleftrightarrow> childMeans D type what a b p) \<and> fwdRight D (dirruns st) C"
    by (rule childFilter_means [OF h(1) right(1) assms run])
  have "fwdRecent (dirruns st) C" using childFilter_recent [OF right(2)] run by (metis snd_conv)
  then have "recent st'" using h(2) st'(2) by (simp add: sound_def recent_def fwdRecent_def)
  then have "sound D T busy st'" using h(2) c st'(2) by (simp add: sound_def)
  moreover have "keeps N st st'" using st'(2) by (simp add: keeps_def)
  ultimately show "(r \<longleftrightarrow> childMeans D type what a b p) \<and> sound D T busy st' \<and> keeps N st st'"
    using c st'(1) by simp
qed

lemma filterOf_right:
  assumes "filterOf D E f = Inr m" "safeFilter D f"
  shows "implements D T N (nodeOK D) m (filterMeans D E f)"
proof (cases f)
  case (ChildF type what a b)
  with assms childTest_right [of D type what T N a b] show ?thesis
    by (simp add: filterOf_def safeFilter_def filterMeans_def [abs_def])
next
  case (PseudoF name arg)
  with assms show ?thesis
    by (cases "pseudoFilter D E name arg") (auto simp: filterOf_def filterMeans_def [abs_def] pureTest_right)
next
  case (ClassF w)
  with assms show ?thesis
    by (cases "classRx w") (auto simp: filterOf_def filterMeans_def [abs_def] pureTest_right)
qed (use assms in \<open>auto simp: filterOf_def filterMeans_def [abs_def] pureTest_right\<close>)

section \<open>Lemmas: relations\<close>

lemma walkSpec_ex: "skipName c = None \<Longrightarrow> walkSpec D c base P xs \<longleftrightarrow> (\<exists>x \<in> set xs. eligible D c base x \<and> P x)"
  by (induction xs) auto

lemma combSpec_reaches: "combSpec D (relative r) base P p \<longleftrightarrow> (\<exists>q. reaches D r base p q \<and> P q)"
proof -
  have e: "eligible D (relative r) base = (\<lambda>x. elementAt D x \<or> base \<and> r \<in> {Child, Descendant})"
    by (cases r) (auto simp: eligible_def relative_def)
  have s: "skipName (relative r) = None" by (cases r) (auto simp: relative_def)
  show ?thesis
    unfolding combSpec_def walkSpec_ex [OF s] e
    by (cases r) (auto simp: relative_def chainOf_def reaches_def Let_def split: option.split)
qed

lemma describes_append:
  "describes D E start (xs @ ys) p \<longleftrightarrow> describes D E (describes D E start ys) xs p"
proof (induction xs arbitrary: p)
  case (Cons t xs)
  then show ?case by (cases t) auto
qed simp


section \<open>Lemmas: compiled selectors\<close>

text \<open>
  Matchers with the names \<open>N\<close> do what they should for every truth that is right on \<open>N\<close>.
\<close>

definition realises :: "dom \<Rightarrow> nat set \<Rightarrow> truth \<Rightarrow> smatcher list \<Rightarrow> (path \<Rightarrow> bool) list \<Rightarrow> bool" where
  "realises D N T0 ms Ps \<longleftrightarrow> (\<forall>T. (\<forall>k \<in> N. T k = T0 k) \<longrightarrow> list_all2 (implements D T N (nodeOK D)) ms Ps)"

lemma inDoc_chain: "inDoc d p \<Longrightarrow> x \<in> set (chainOf dd p) \<Longrightarrow> inDoc d x"
proof (cases dd)
  case ParentNode
  assume "inDoc d p" "x \<in> set (chainOf dd p)"
  with ParentNode show ?thesis
  proof (induction p)
    case (Cons i p)
    then show ?case using inDoc_tl [of d i p] by (auto simp: chainOf_def)
  qed (simp add: chainOf_def)
next
  case PreviousSibling
  assume p: "inDoc d p" "x \<in> set (chainOf dd p)"
  then obtain i up j where "p = i # up" "x = j # up" "j < i"
    using PreviousSibling by (cases p) (auto simp: chainOf_def preceding_def)
  with p(1) show ?thesis by (auto simp: inDoc_def split: option.splits if_splits)
qed

lemma relative_noskip [simp]: "skipName (relative r) = None"
  by (cases r) (auto simp: relative_def)

lemma realises_one:
  assumes "realises D N T0 ms Ps" "ms \<noteq> []" "n \<notin> N"
  shows "\<exists>T1. (\<forall>k \<in> N. T1 k = T0 k) \<and> realises D (insert n N) T1
    [addCombinator D (elementMatcher ms) (relative r) False n] [combSpec D (relative r) False (\<lambda>p. \<forall>P \<in> set Ps. P p)]"
proof -
  let ?P = "\<lambda>p. \<forall>P \<in> set Ps. P p" and ?c = "relative r"
  let ?T1 = "T0(n := (\<lambda>x. walkSpec D ?c False ?P (x # chainOf (dir ?c) x)))"
  have "implements D T (insert n N) (nodeOK D) (addCombinator D (elementMatcher ms) ?c False n) (combSpec D ?c False ?P)"
    if T: "\<forall>k \<in> insert n N. T k = ?T1 k" for T
  proof (rule addCombinator_right [where Q = "nodeOK D"])
    have "\<forall>k \<in> N. T k = T0 k" using T assms(3) by auto
    then show "implements D T N (nodeOK D) (elementMatcher ms) ?P"
      using assms(1,2) unfolding realises_def by (intro elementMatcher_right) auto
    show "T n x \<longleftrightarrow> walkSpec D ?c False ?P (x # chainOf (dir ?c) x)" for x using T by simp
    show "nodeOK D x" if "nodeOK D p" "x \<in> set (chainOf (dir ?c) p)" "eligible D ?c False x" for p x
      using that inDoc_chain [of "domTree D" p x] by (simp add: nodeOK_def eligible_def)
  qed (use assms(3) in auto)
  then have "realises D (insert n N) ?T1 [addCombinator D (elementMatcher ms) ?c False n] [combSpec D ?c False ?P]"
    unfolding realises_def by simp
  moreover have "\<forall>k \<in> N. ?T1 k = T0 k" using assms(3) by auto
  ultimately show ?thesis by blast
qed

lemma matcherLoop_right:
  "matcherLoop D E ts ms n = Inr (ms', n') \<Longrightarrow> list_all (\<lambda>t. case t of Flt v f \<Rightarrow> safeFilter D f | _ \<Rightarrow> True) ts \<Longrightarrow>
    realises D N T0 ms Ps \<Longrightarrow> ms \<noteq> [] \<Longrightarrow> N \<subseteq> {lo..<n} \<Longrightarrow> lo \<le> n \<Longrightarrow>
    \<exists>N' T1 Ps'. N' \<subseteq> {lo..<n'} \<and> n \<le> n' \<and> realises D N' T1 ms' Ps' \<and> ms' \<noteq> [] \<and>
      (\<forall>p. (\<forall>P \<in> set Ps'. P p) \<longleftrightarrow> describes D E (\<lambda>p. \<forall>P \<in> set Ps. P p) (rev ts) p)"
proof (induction D E ts ms n arbitrary: N T0 Ps rule: matcherLoop.induct)
  case (1 D E ms n)
  then show ?case by (intro exI [of _ N] exI [of _ T0] exI [of _ Ps]) auto
next
  case (2 D E v r ts ms n)
  let ?P = "\<lambda>p. \<forall>P \<in> set Ps. P p"
  have n: "n \<notin> N" using 2(6) by auto
  obtain T1 where T1: "realises D (insert n N) T1 [addCombinator D (elementMatcher ms) (relative r) False n]
      [combSpec D (relative r) False ?P]"
    using realises_one [OF 2(4,5) n] by blast
  have sub: "insert n N \<subseteq> {lo..<Suc n}" using 2(6,7) by auto
  obtain N' T2 Ps' where res: "N' \<subseteq> {lo..<n'}" "Suc n \<le> n'" "realises D N' T2 ms' Ps'" "ms' \<noteq> []"
    "\<And>p. (\<forall>P \<in> set Ps'. P p) \<longleftrightarrow> describes D E (combSpec D (relative r) False ?P) (rev ts) p"
    using 2(1) [OF _ _ T1 _ sub] 2(2,3,7) by auto
  have start: "combSpec D (relative r) False ?P = describes D E ?P [Rel v r]" by (auto simp: fun_eq_iff combSpec_reaches)
  have "(\<forall>P \<in> set Ps'. P p) \<longleftrightarrow> describes D E ?P (rev (Rel v r # ts)) p" for p
    using res(5) [of p] unfolding start by (simp add: describes_append)
  with res(1-4) show ?case by (intro exI [of _ N'] exI [of _ T2] exI [of _ Ps']) auto
next
  case (3 D E v f ts ms n)
  let ?P = "\<lambda>p. \<forall>P \<in> set Ps. P p"
  obtain m where m: "filterOf D E f = Inr m" using 3(2) by (auto split: sum.splits)
  have "realises D N T0 (ms @ [m]) (Ps @ [filterMeans D E f])"
    using 3(3,4) filterOf_right [OF m] unfolding realises_def by (auto intro!: list_all2_appendI)
  moreover have "matcherLoop D E ts (ms @ [m]) n = Inr (ms', n')" using 3(2) m by simp
  ultimately obtain N' T2 Ps' where res: "N' \<subseteq> {lo..<n'}" "n \<le> n'" "realises D N' T2 ms' Ps'" "ms' \<noteq> []"
    "\<And>p. (\<forall>P \<in> set Ps'. P p) \<longleftrightarrow> describes D E (\<lambda>p. \<forall>P \<in> set (Ps @ [filterMeans D E f]). P p) (rev ts) p"
    using 3(1) [OF m, of N T0 "Ps @ [filterMeans D E f]"] 3(3,6,7) by auto
  have start: "(\<lambda>p. \<forall>P \<in> set (Ps @ [filterMeans D E f]). P p) = describes D E ?P [Flt v f]" by (auto simp: fun_eq_iff)
  have "(\<forall>P \<in> set Ps'. P p) \<longleftrightarrow> describes D E ?P (rev (Flt v f # ts)) p" for p
    using res(5) [of p] unfolding start by (simp add: describes_append)
  with res(1-4) show ?case by (intro exI [of _ N'] exI [of _ T2] exI [of _ Ps']) auto
qed

lemma lead_right: "\<exists>T0. realises D {n} T0 [leadMatcher D S leading n] [startMeans D S leading]"
proof (cases "leading = None \<and> (\<not> isHtml D \<or> Some (ctx S) \<noteq> outermostCtx S)")
  case True
  then have "leadMatcher D S leading n = (\<lambda>p st. (True, st))" "startMeans D S leading = (\<lambda>_. True)"
    by (auto simp: leadMatcher_def fun_eq_iff startMeans_def)
  then show ?thesis using implements_pure [of D _ _ _ "\<lambda>_. True"] by (simp add: realises_def)
next
  case False
  let ?c = "relative (case leading of None \<Rightarrow> Descendant | Some r \<Rightarrow> r)" and ?P = "\<lambda>x. x = ctx S"
  let ?T0 = "\<lambda>_ x. walkSpec D ?c True ?P (x # chainOf (dir ?c) x)"
  have lead: "leadMatcher D S leading n = addCombinator D (pureTest ?P) ?c True n"
    using False by (auto simp: leadMatcher_def fun_eq_iff)
  have "combSpec D ?c True ?P = startMeans D S leading"
    using False by (cases leading) (auto simp: fun_eq_iff combSpec_reaches startMeans_def reaches_def)
  moreover have "implements D T (insert n {}) (nodeOK D) (addCombinator D (pureTest ?P) ?c True n) (combSpec D ?c True ?P)"
    if "T n = ?T0 n" for T
    by (rule addCombinator_right [where Q = "\<lambda>_. True"]) (use that pureTest_right in auto)
  ultimately show ?thesis unfolding realises_def lead by (intro exI [of _ ?T0]) simp
qed

abbreviation safeTokens :: "dom \<Rightarrow> token list \<Rightarrow> bool" where
  "safeTokens D ts \<equiv> list_all (\<lambda>t. case t of Flt v f \<Rightarrow> safeFilter D f | _ \<Rightarrow> True) ts"

lemma safe_afterLead: "safeTokens D ts \<Longrightarrow> safeTokens D (afterLead ts)"
  by (cases ts rule: leadingRel.cases) (auto simp: afterLead_def)

lemma matcherFromTokens_right:
  assumes "matcherFromTokens D E S ts n = Inr (m, n')" "safeTokens D ts"
  shows "\<exists>N T0. N \<subseteq> {n..<n'} \<and> n \<le> n' \<and> realises D N T0 [m] [groupMeans D E S ts]"
proof -
  obtain ms where loop: "matcherLoop D E (afterLead ts) [leadMatcher D S (leadingRel ts) n] (n + 2) = Inr (ms, n')" "m = elementMatcher ms"
    using assms(1) by (cases "matcherLoop D E (afterLead ts) [leadMatcher D S (leadingRel ts) n] (n + 2)")
      (auto simp: matcherFromTokens_def)
  obtain T0 where "realises D {n} T0 [leadMatcher D S (leadingRel ts) n] [startMeans D S (leadingRel ts)]"
    using lead_right by blast
  from matcherLoop_right [OF loop(1) safe_afterLead [OF assms(2)] this, of n]
  obtain N' T1 Ps' where r: "N' \<subseteq> {n..<n'}" "n + 2 \<le> n'" "realises D N' T1 ms Ps'" "ms \<noteq> []"
    "\<And>p. (\<forall>P \<in> set Ps'. P p) \<longleftrightarrow> groupMeans D E S ts p"
    by (auto simp: groupMeans_def)
  have eq: "(\<lambda>p. \<forall>P \<in> set Ps'. P p) = groupMeans D E S ts" using r(5) by (simp add: fun_eq_iff)
  have "implements D T N' (nodeOK D) m (groupMeans D E S ts)" if "\<forall>k \<in> N'. T k = T1 k" for T
    using elementMatcher_right [of D T N' "nodeOK D" ms Ps'] r(3,4) that loop(2) unfolding realises_def eq by simp
  then have "realises D N' T1 [m] [groupMeans D E S ts]" by (simp add: realises_def)
  with r(1,2) show ?thesis by (intro exI [of _ N'] exI [of _ T1]) auto
qed

lemma realises_join:
  assumes "realises D N1 T1 ms1 Ps1" "realises D N2 T2 ms2 Ps2" "N1 \<inter> N2 = {}"
  shows "realises D (N1 \<union> N2) (\<lambda>k. if k \<in> N1 then T1 k else T2 k) (ms1 @ ms2) (Ps1 @ Ps2)"
  unfolding realises_def
proof (intro allI impI list_all2_appendI)
  fix T
  assume T: "\<forall>k \<in> N1 \<union> N2. T k = (if k \<in> N1 then T1 k else T2 k)"
  have "\<forall>k \<in> N1. T k = T1 k" using T by simp
  then have "list_all2 (implements D T N1 (nodeOK D)) ms1 Ps1" using assms(1) unfolding realises_def by blast
  then show "list_all2 (implements D T (N1 \<union> N2) (nodeOK D)) ms1 Ps1"
    by (rule list_all2_mono) (auto intro: implements_mono)
  have "\<forall>k \<in> N2. T k = T2 k" using T assms(3) by auto
  then have "list_all2 (implements D T N2 (nodeOK D)) ms2 Ps2" using assms(2) unfolding realises_def by blast
  then show "list_all2 (implements D T (N1 \<union> N2) (nodeOK D)) ms2 Ps2"
    by (rule list_all2_mono) (auto intro: implements_mono)
qed

lemma compileFrom_right:
  "compileFrom D E S gs n = Inr (ms, n') \<Longrightarrow> list_all (safeTokens D) gs \<Longrightarrow>
    \<exists>N T0. N \<subseteq> {n..<n'} \<and> n \<le> n' \<and> realises D N T0 ms (map (groupMeans D E S) gs)"
proof (induction D E S gs n arbitrary: ms n' rule: compileFrom.induct)
  case (1 D E S n)
  then show ?case by (intro exI [of _ "{}"]) (simp add: realises_def)
next
  case (2 D E S g gs n)
  obtain m n1 where m: "matcherFromTokens D E S g n = Inr (m, n1)" using 2(2) by (auto split: sum.splits)
  obtain ms2 where ms2: "compileFrom D E S gs n1 = Inr (ms2, n')" "ms = m # ms2"
    using 2(2) m by (auto split: sum.splits)
  obtain N1 T1 where r1: "N1 \<subseteq> {n..<n1}" "n \<le> n1" "realises D N1 T1 [m] [groupMeans D E S g]"
    using matcherFromTokens_right [OF m] 2(3) by auto
  obtain N2 T2 where r2: "N2 \<subseteq> {n1..<n'}" "n1 \<le> n'" "realises D N2 T2 ms2 (map (groupMeans D E S) gs)"
    using 2(1) [OF m refl ms2(1)] 2(3) by auto
  have "N1 \<inter> N2 = {}" using r1(1) r2(1) by fastforce
  from realises_join [OF r1(3) r2(3) this] r1 r2 ms2(2) show ?case
    by (intro exI [of _ "N1 \<union> N2"] exI [of _ "\<lambda>k. if k \<in> N1 then T1 k else T2 k"]) auto
qed

lemma anyMatcher_right:
  assumes "list_all2 (implements D T N Q) ms Ps"
  shows "implements D T N Q (anyMatcher ms) (\<lambda>p. \<exists>P \<in> set Ps. P p)"
  using assms
proof (induction ms Ps rule: list_all2_induct)
  case Nil
  then show ?case by (simp add: implements_def)
next
  case (Cons m ms P Ps)
  show ?case
  proof (rule implementsI)
    fix busy st p b st'
    assume h: "Q p" "sound D T busy st" "busy \<inter> N = {}" "anyMatcher (m # ms) p st = (b, st')"
    obtain d s1 where run: "m p st = (d, s1)" by fastforce
    note r = implementsD [OF Cons(1) run h(1,2,3)]
    show "(b \<longleftrightarrow> (\<exists>P \<in> set (P # Ps). P p)) \<and> sound D T busy st' \<and> keeps N st st'"
    proof (cases d)
      case False
      then have "anyMatcher ms p s1 = (b, st')" using h(4) run by simp
      with implementsD [OF Cons(3) this h(1) _ h(3)] r False show ?thesis by (auto intro: keeps_trans)
    qed (use h(4) run r in auto)
  qed
qed

lemma matchEach_right:
  assumes "implements D T N Q (anyMatcher ms) P"
  shows "(\<And>p. p \<in> set ps \<Longrightarrow> Q p) \<Longrightarrow> sound D T {} st \<Longrightarrow> matchEach ms ps st = (rs, st') \<Longrightarrow>
    rs = filter P ps \<and> sound D T {} st'"
proof (induction ps arbitrary: st rs st')
  case (Cons p ps)
  obtain b s1 where run: "anyMatcher ms p st = (b, s1)" by fastforce
  obtain rs2 s2 where more: "matchEach ms ps s1 = (rs2, s2)" by fastforce
  have "(b \<longleftrightarrow> P p) \<and> sound D T {} s1" using implementsD [OF assms run _ Cons.prems(2)] Cons.prems(1) by auto
  moreover from this have "rs2 = filter P ps \<and> sound D T {} s2" using Cons.IH [OF _ _ more] Cons.prems(1) by auto
  ultimately show ?case using Cons.prems(3) run more by auto
qed simp

text \<open>What is kept between the searches.\<close>

definition stored :: "cstore \<Rightarrow> bool" where
  "stored st \<longleftrightarrow> recent st \<and> (\<forall>x k j. links st x k = Some j \<longrightarrow> j < length (entries st))"

lemma stored_link: "stored st \<Longrightarrow> links st x k = Some j \<Longrightarrow> j < length (entries st)"
  unfolding stored_def by blast

lemma stored_sound:
  assumes "stored st"
  shows "sound D T {} (st\<lparr>dirruns := dirruns st + 1\<rparr>)"
proof (rule soundI)
  let ?st = "st\<lparr>dirruns := dirruns st + 1\<rparr>"
  show "j < length (entries ?st)" if "links ?st x k = Some j" for x k j using that stored_link [OF assms] by simp
  show "r = Some (T n x)" if "links ?st x k = Some j" "entries ?st ! j = (dirruns ?st, n, r)" for x k j n r
  proof -
    have "j < length (entries st)" using that(1) stored_link [OF assms] by simp
    then have "fst (entries st ! j) \<le> dirruns st" using assms by (auto simp: stored_def recent_def)
    with that(2) show ?thesis by simp
  qed
  show "fwdRight D (dirruns ?st) (positions ?st)"
    using assms unfolding stored_def recent_def fwdRight_def by fastforce
  show "recent ?st" using assms unfolding stored_def recent_def by fastforce
qed

lemma compiled_right:
  assumes "compile D E S groups n = Inr (ms, n')" "list_all (safeTokens D) groups" "stored st" "list_all (nodeOK D) elems"
    and "superMatcher ms elems st = (rs, st')"
  shows "rs = filter (\<lambda>p. \<exists>g \<in> set groups. groupMeans D E S g p) elems \<and> stored st'"
proof -
  have "list_all (safeTokens D) (rev groups)" using assms(2) by (simp add: list_all_iff)
  from compileFrom_right [OF assms(1) [unfolded compile_def] this]
  obtain N T0 where "realises D N T0 ms (map (groupMeans D E S) (rev groups))" by blast
  then have "implements D T0 N (nodeOK D) (anyMatcher ms) (\<lambda>p. \<exists>P \<in> set (map (groupMeans D E S) (rev groups)). P p)"
    unfolding realises_def by (blast intro: anyMatcher_right)
  from matchEach_right [OF this _ stored_sound [OF assms(3)] assms(5) [unfolded superMatcher_def]] assms(4)
  have "rs = filter (\<lambda>p. \<exists>P \<in> set (map (groupMeans D E S) (rev groups)). P p) elems" "sound D T0 {} st'"
    by (auto simp: list_all_iff)
  then show ?thesis by (auto simp: stored_def sound_def)
qed

text \<open>The parts for which the model has a filter: what is left out are the filters that the model does not cover.\<close>

abbreviation coveredTokens :: "dom \<Rightarrow> extras \<Rightarrow> token list \<Rightarrow> bool" where
  "coveredTokens D E ts \<equiv> list_all (\<lambda>t. case t of Flt v f \<Rightarrow> \<not> isl (filterOf D E f) | _ \<Rightarrow> True) ts"

lemma matcherLoop_returns: "coveredTokens D E ts \<Longrightarrow> \<exists>r. matcherLoop D E ts ms n = Inr r"
  by (induction D E ts ms n rule: matcherLoop.induct) (auto split: sum.splits)

lemma matcherFromTokens_returns: "coveredTokens D E ts \<Longrightarrow> \<exists>r. matcherFromTokens D E S ts n = Inr r"
proof -
  assume "coveredTokens D E ts"
  then have "coveredTokens D E (afterLead ts)" by (cases ts) (auto simp: afterLead_def)
  from matcherLoop_returns [OF this, of "[leadMatcher D S (leadingRel ts) n]" "n + 2"]
  obtain r where "matcherLoop D E (afterLead ts) [leadMatcher D S (leadingRel ts) n] (n + 2) = Inr r" by blast
  then show ?thesis unfolding matcherFromTokens_def by (cases r) simp
qed

lemma compileFrom_returns: "list_all (coveredTokens D E) gs \<Longrightarrow> \<exists>r. compileFrom D E S gs n = Inr r"
proof (induction gs arbitrary: n)
  case (Cons g gs)
  obtain m n' where m: "matcherFromTokens D E S g n = Inr (m, n')"
    using matcherFromTokens_returns [of D E g S n] Cons.prems by auto
  moreover obtain ms n'' where "compileFrom D E S gs n' = Inr (ms, n'')" using Cons by fastforce
  ultimately show ?case by simp
qed simp

lemma compile_returns:
  assumes "list_all (coveredTokens D E) groups"
  obtains ms n' where "compile D E S groups n = Inr (ms, n')"
proof -
  have "list_all (coveredTokens D E) (rev groups)" using assms by (simp add: list_all_iff)
  with compileFrom_returns [of D E "rev groups" S n] that show ?thesis unfolding compile_def by fastforce
qed

text \<open>
  C36. A selector whose parts have filters is compiled, and the compiled selector takes, of a list of elements, exactly those
  that one of its groups describes, in their order: the caches of the combinators and of the positions, with
  whatever earlier searches (with other contexts) have left in them, change nothing. (Without positions from the end that
  are taken from the cache. The tests of tags, classes, attributes and pseudo classes are the same on both sides.)
\<close>

theorem compiled_selector:
  assumes "list_all (coveredTokens D E) groups" "list_all (safeTokens D) groups" "stored st" "list_all (nodeOK D) elems"
  shows "\<exists>ms n'. compile D E S groups n = Inr (ms, n') \<and>
    fst (superMatcher ms elems st) = filter (\<lambda>p. \<exists>g \<in> set groups. groupMeans D E S g p) elems \<and>
    stored (snd (superMatcher ms elems st))"
proof -
  obtain ms n' where "compile D E S groups n = Inr (ms, n')" using compile_returns [OF assms(1)] by blast
  with compiled_right [OF this assms(2,3,4) prod.collapse [symmetric]] show ?thesis by blast
qed

definition noExtras :: extras where
  "noExtras = \<lparr>notTest = (\<lambda>_. Inl Uncovered), hasTest = (\<lambda>_ _. False), morePseudos = (\<lambda>_. None)\<rparr>"

text \<open>The selector \<^verbatim>\<open>ul > li\<close> in the document.\<close>

definition sampleGroups :: "token list list" where
  "sampleGroups = [[Flt (js ''ul'') (TagF (js ''ul'')), Rel (js '' > '') Child, Flt (js ''li'') (TagF (js ''li''))]]"

definition sampleSearch :: searchCtx where
  "sampleSearch = \<lparr>ctx = [], outermostCtx = None\<rparr>"

theorem compiled_selector_witness:
  "\<exists>ms n'. compile sampleList noExtras sampleSearch sampleGroups 0 = Inr (ms, n') \<and>
     fst (superMatcher ms [[0], [0, 0], [2, 0], [3, 0]] emptyStore) =
       filter (\<lambda>p. \<exists>g \<in> set sampleGroups. groupMeans sampleList noExtras sampleSearch g p) [[0], [0, 0], [2, 0], [3, 0]] \<and>
     stored (snd (superMatcher ms [[0], [0, 0], [2, 0], [3, 0]] emptyStore))"
proof (rule compiled_selector)
  show "list_all (coveredTokens sampleList noExtras) sampleGroups" by (simp add: sampleGroups_def filterOf_def)
  show "list_all (safeTokens sampleList) sampleGroups" by (simp add: sampleGroups_def safeFilter_def)
  show "stored emptyStore" using emptyStore_sound by (auto simp: stored_def sound_def emptyStore_def)
  show "list_all (nodeOK sampleList) [[0], [0, 0], [2, 0], [3, 0]]"
    by (simp add: nodeOK_def inDoc_def elementAt_def isElement_def nodeTypeAt_def sampleList_def)
qed

end
