(* ===== verification/Sizzle_Select.thy ===== *)
theory Sizzle_Select
  imports Sizzle_Matcher
begin

text \<open>
  The search of the selector engine of \<^verbatim>\<open>jquery.js\<close> in a page (\<open>select\<close>): the context given by an identifier at the start, the
  elements that the browser finds for a part of the selector, and the matcher for the rest. The lemmas show
  that these shortcuts change nothing: the result is what the selector describes, in document order.
\<close>

section \<open>The search\<close>

text \<open>The functions of the browser that find elements.\<close>

record finders =
  byId :: "jstring \<Rightarrow> path option"
  byTag :: "jstring \<Rightarrow> path \<Rightarrow> path list"
  byClass :: "jstring \<Rightarrow> path \<Rightarrow> path list"

text \<open>\<open>Expr.find[type](name, context)\<close>; \<open>None\<close> where there is no such function or no result.\<close>

definition findFor :: "dom \<Rightarrow> finders \<Rightarrow> filt \<Rightarrow> path \<Rightarrow> path list option" where
  "findFor D F f root =
     (case f of
        IdF w \<Rightarrow> if root = [] \<and> isHtml D then Some (case byId F (unescapeCss w) of None \<Rightarrow> [] | Some p \<Rightarrow> [p]) else None
      | TagF w \<Rightarrow> Some (byTag F (unescapeCss w) root)
      | ClassF w \<Rightarrow> if isHtml D then Some (byClass F (unescapeCss w) root) else None
      | _ \<Rightarrow> None)"

text \<open>The expressions \<open>needsContext\<close> and \<open>rsibling\<close>.\<close>

definition positionRx :: rx where
  "positionRx =
     Cat (one 58) (Cat (oneOf [js ''even'', js ''odd'', js ''eq'', js ''gt'', js ''lt'', js ''nth'', js ''first'', js ''last''])
       (Cat (Maybe (Cat (one 40) (Cat blanks (Cat (Maybe (Cat (one 45) (Sym isDigit))) (Cat (Star (Sym isDigit))
           (Cat blanks (one 41)))))))
         (Or (Sym (\<lambda>c. c \<noteq> 45)) Eos)))"

definition needsContext :: "jstring \<Rightarrow> bool" where
  "needsContext s \<longleftrightarrow>
     execAt (Cat blanks (Sym (\<lambda>c. c \<in> {62, 43, 126}))) s \<noteq> None \<or> testAnywhere positionRx s"

definition rsibling :: "jstring \<Rightarrow> bool" where
  "rsibling s \<longleftrightarrow> list_ex (\<lambda>c. c = 43 \<or> c = 126) s"

text \<open>\<open>condition && testContext(context.parentNode) || context\<close>.\<close>

definition widen :: "bool \<Rightarrow> path \<Rightarrow> path" where
  "widen cond c = (if cond \<and> c \<noteq> [] then tl c else c)"

text \<open>
  The loop that looks for a seed, from the last token back to the first relation: the elements and the tokens that
  remain. The first list has the tokens in reverse order, the second those behind.
\<close>

fun seedLoop :: "dom \<Rightarrow> finders \<Rightarrow> path \<Rightarrow> token list \<Rightarrow> token list \<Rightarrow> (path list \<times> token list) option" where
  "seedLoop D F root [] after = None"
| "seedLoop D F root (Rel v r # ts) after = None"
| "seedLoop D F root (Flt v f # ts) after =
     (case findFor D F f root of
        Some seed \<Rightarrow> Some (seed, rev ts @ after)
      | None \<Rightarrow> seedLoop D F root ts (Flt v f # after))"

definition searchIn :: "path \<Rightarrow> searchCtx" where
  "searchIn c = \<lparr>ctx = c, outermostCtx = (if c = [] then None else Some c)\<rparr>"

text \<open>The use of the compiled selector: on the seed, or on all elements of the outermost context.\<close>

definition runCompiled ::
  "dom \<Rightarrow> extras \<Rightarrow> finders \<Rightarrow> path list option \<Rightarrow> path \<Rightarrow> jstring \<Rightarrow> token list list \<Rightarrow> nat \<Rightarrow> cstore
     \<Rightarrow> sizzle_error + path list \<times> nat \<times> cstore" where
  "runCompiled D E F seed c selector groups n st =
     (case compile D E (searchIn c) groups n of
        Inl e \<Rightarrow> Inl e
      | Inr (ms, n') \<Rightarrow>
          (let elems = (case seed of Some s \<Rightarrow> s | None \<Rightarrow> byTag F [42] (widen (rsibling selector) c));
               (rs, st') = superMatcher ms elems st
           in Inr (rs, n', st')))"

text \<open>The context that an identifier at the start gives; \<open>None\<close> when there is no element with it.\<close>

definition reduceContext ::
  "dom \<Rightarrow> finders \<Rightarrow> path \<Rightarrow> jstring \<Rightarrow> token list \<Rightarrow> (path \<times> jstring \<times> token list) option" where
  "reduceContext D F c selector tokens =
     (case tokens of
        Flt v (IdF w) # Rel u r # t # ts \<Rightarrow>
          if c = [] \<and> isHtml D
          then map_option (\<lambda>p. (p, drop (length v) selector, Rel u r # t # ts)) (byId F (unescapeCss w))
          else Some (c, selector, tokens)
      | _ \<Rightarrow> Some (c, selector, tokens))"

definition siblingLead :: "token list \<Rightarrow> bool" where
  "siblingLead ts \<longleftrightarrow> leadingRel ts \<in> {Some Adjacent, Some Sibling}"

definition selectGroup ::
  "dom \<Rightarrow> extras \<Rightarrow> finders \<Rightarrow> path \<Rightarrow> jstring \<Rightarrow> token list \<Rightarrow> nat \<Rightarrow> cstore \<Rightarrow> sizzle_error + path list \<times> nat \<times> cstore" where
  "selectGroup D E F c selector tokens n st =
     (case reduceContext D F c selector tokens of
        None \<Rightarrow> Inr ([], n, st)
      | Some (c', selector', ts) \<Rightarrow>
          (case (if needsContext selector' then None else seedLoop D F (widen (siblingLead ts) c') (rev ts) []) of
             None \<Rightarrow> runCompiled D E F None c' selector' [ts] n st
           | Some (seed, rest) \<Rightarrow>
               if seed = [] \<or> toSelector rest = [] then Inr (seed, n, st)
               else runCompiled D E F (Some seed) c' (toSelector rest) [rest] n st))"

text \<open>\<open>select(selector, context)\<close> without a seed; the state is \<open>done\<close> and the caches.\<close>

definition selectFrom ::
  "dom \<Rightarrow> extras \<Rightarrow> finders \<Rightarrow> path \<Rightarrow> jstring \<Rightarrow> nat \<Rightarrow> cstore \<Rightarrow> sizzle_error + path list \<times> nat \<times> cstore" where
  "selectFrom D E F c selector n st =
     (case tokenize selector of
        Inl e \<Rightarrow> Inl e
      | Inr [tokens] \<Rightarrow> selectGroup D E F c selector tokens n st
      | Inr groups \<Rightarrow> runCompiled D E F None c selector groups n st)"

section \<open>What is assumed of the page and the browser\<close>

text \<open>
  A page: its root is not an element, only elements and the root have children, elements have names, and no two have
  the same identifier.
\<close>

definition pageOK :: "dom \<Rightarrow> bool" where
  "pageOK D \<longleftrightarrow>
     isHtml D \<and> \<not> elementAt D [] \<and>
     (\<forall>i up. inDoc (domTree D) (i # up) \<longrightarrow> up = [] \<or> elementAt D up) \<and>
     (\<forall>p. nodeOK D p \<longrightarrow> nodeNameAt (domTree D) p \<noteq> []) \<and>
     (\<forall>p q i. nodeOK D p \<longrightarrow> nodeOK D q \<longrightarrow> attrOf D p (js ''id'') = Some i \<longrightarrow> attrOf D q (js ''id'') = Some i \<longrightarrow> p = q)"

text \<open>
  The functions of the browser give the elements below a node in document order: by tag (\<open>*\<close> for all) without
  regard to case, by class, and the first one of the page with an identifier.
\<close>

definition findersOK :: "dom \<Rightarrow> finders \<Rightarrow> bool" where
  "findersOK D F \<longleftrightarrow>
     (\<forall>t root. byTag F t root = filter (\<lambda>p. t = [42] \<or> lcName D p = lowerCase D t) (descendants (domTree D) root)) \<and>
     (\<forall>w root. oneWord w \<longrightarrow> byClass F w root = filter (\<lambda>p. w \<in> set (wordsOf (classText D p))) (descendants (domTree D) root)) \<and>
     (\<forall>i. byId F i = find (\<lambda>p. attrOf D p (js ''id'') = Some i) (descendants (domTree D) []))"

text \<open>Names whose escapes mean the same in the two ways of finding elements.\<close>

definition seedOK :: "filt \<Rightarrow> bool" where
  "seedOK f \<longleftrightarrow>
     (case f of
        TagF w \<Rightarrow> w = [42] \<or> unescapeCss w \<noteq> [42]
      | ClassF w \<Rightarrow> classRx w = Some (wordRx (unescapeCss w)) \<and> oneWord (unescapeCss w)
      | _ \<Rightarrow> True)"

abbreviation seedsOK :: "token list \<Rightarrow> bool" where
  "seedsOK ts \<equiv> list_all (\<lambda>t. case t of Flt v f \<Rightarrow> seedOK f | _ \<Rightarrow> True) ts"

section \<open>Lemmas\<close>

lemma descendants_nodeOK:
  "inDoc (domTree D) c \<Longrightarrow> p \<in> set (descendants (domTree D) c) \<longleftrightarrow> nodeOK D p \<and> c \<in> set (ancestors p)"
  by (auto simp: descendants_set nodeOK_def elementAt_def)

lemma find_filter_unique:
  "(\<And>x y. x \<in> set xs \<Longrightarrow> y \<in> set xs \<Longrightarrow> P x \<Longrightarrow> P y \<Longrightarrow> x = y) \<Longrightarrow> distinct xs \<Longrightarrow>
    (case find P xs of None \<Rightarrow> [] | Some x \<Rightarrow> [x]) = filter P xs"
proof (induction xs)
  case (Cons a xs)
  show ?case
  proof (cases "P a")
    case True
    have "filter P xs = []" using Cons.prems True by (auto simp: filter_empty_conv)
    with True show ?thesis by simp
  qed (use Cons in auto)
qed simp

lemma descendants_distinct: "distinct (descendants d p)"
proof -
  have "sorted_wrt docLess xs \<Longrightarrow> distinct xs" for xs by (induction xs) auto
  then show ?thesis using descendants_sorted by blast
qed

text \<open>What the browser finds for a filter are the elements that the filter takes.\<close>

lemma findFor_right:
  assumes "pageOK D" "findersOK D F" "seedOK f" "findFor D F f root = Some seed" "inDoc (domTree D) root"
  shows "seed = filter (filterMeans D E f) (descendants (domTree D) root)"
proof (cases f)
  case (TagF w)
  have "tagFilter D w p \<longleftrightarrow> unescapeCss w = [42] \<or> lcName D p = lowerCase D (unescapeCss w)"
    if "p \<in> set (descendants (domTree D) root)" for p
  proof -
    have "unescapeCss [42] = [42]" by (simp add: unescapeCss.simps)
    then have "w = [42] \<longleftrightarrow> unescapeCss w = [42]" using assms(3) TagF by (auto simp: seedOK_def)
    moreover have "nodeOK D p" using that descendants_nodeOK [OF assms(5)] by blast
    then have "nodeNameAt (domTree D) p \<noteq> []" using assms(1) unfolding pageOK_def by blast
    ultimately show ?thesis by (auto simp: tagFilter_def)
  qed
  moreover have "seed = byTag F (unescapeCss w) root" using assms(4) TagF by (simp add: findFor_def)
  ultimately show ?thesis using assms(2) TagF unfolding findersOK_def by (simp add: filterMeans_def cong: filter_cong)
next
  case (ClassF w)
  have "seed = byClass F (unescapeCss w) root" using assms(4) ClassF by (simp add: findFor_def split: if_splits)
  with assms(2,3) ClassF show ?thesis
    unfolding findersOK_def seedOK_def by (simp add: filterMeans_def [abs_def] classFilter_def classTest_words)
next
  case (IdF w)
  let ?P = "\<lambda>p. attrOf D p (js ''id'') = Some (unescapeCss w)"
  have root: "root = []" "seed = (case byId F (unescapeCss w) of None \<Rightarrow> [] | Some p \<Rightarrow> [p])"
    using assms(4) IdF by (auto simp: findFor_def split: if_splits)
  have ids: "byId F (unescapeCss w) = find ?P (descendants (domTree D) [])"
    using assms(2) unfolding findersOK_def by blast
  have unique: "x = y" if "x \<in> set (descendants (domTree D) [])" "y \<in> set (descendants (domTree D) [])" "?P x" "?P y" for x y
    using that assms(1,5) root(1) descendants_nodeOK [of D "[]"] unfolding pageOK_def by blast
  have "(case find ?P (descendants (domTree D) []) of None \<Rightarrow> [] | Some x \<Rightarrow> [x]) = filter ?P (descendants (domTree D) [])"
    using unique descendants_distinct by (rule find_filter_unique)
  with root ids IdF show ?thesis by (simp add: filterMeans_def [abs_def] idFilter_def)
qed (use assms(4) in \<open>auto simp: findFor_def\<close>)

text \<open>What a group describes lies below what its start is about.\<close>

lemma ancestors_trans: "a \<in> set (ancestors b) \<Longrightarrow> b \<in> set (ancestors c) \<Longrightarrow> a \<in> set (ancestors c)"
  unfolding ancestors_iff by (metis append.assoc append_is_Nil_conv)

lemma preceding_ancestors: "q \<in> set (preceding p) \<Longrightarrow> ancestors q = ancestors p"
  by (cases p) (auto simp: preceding_def)

lemma reaches_ancestors: "reaches D r base p q \<Longrightarrow> set (ancestors q) \<subseteq> set (ancestors p)"
  by (cases r) (auto simp: reaches_def Let_def find_Some_iff preceding_ancestors intro: ancestors_trans
      dest!: nth_mem)

lemma describes_below:
  "describes D E start ts p \<Longrightarrow> \<exists>q. start q \<and> set (ancestors q) \<subseteq> set (ancestors p)"
proof (induction ts arbitrary: p)
  case (Cons t ts)
  show ?case
  proof (cases t)
    case (Rel v r)
    then obtain q where q: "reaches D r False p q" "describes D E start ts q" using Cons.prems by auto
    with Cons.IH [OF q(2)] reaches_ancestors [OF q(1)] show ?thesis by blast
  next
    case (Flt v f)
    with Cons show ?thesis by auto
  qed
qed auto

lemma start_below:
  assumes "startMeans D (searchIn c) leading q" "isHtml D"
  shows "c = [] \<or> widen (leading \<in> {Some Adjacent, Some Sibling}) c \<in> set (ancestors q)"
proof (cases leading)
  case None
  with assms show ?thesis by (auto simp: startMeans_def searchIn_def widen_def split: if_splits)
next
  case (Some r)
  have "tl x \<in> set (ancestors q)" if "x \<in> set (preceding q)" for x
    using that by (cases q) (auto simp: preceding_def)
  with Some assms show ?thesis
    by (cases r) (auto simp: startMeans_def searchIn_def widen_def reaches_def Let_def find_Some_iff dest!: nth_mem)
qed

text \<open>The elements that a list of groups describes in a context.\<close>

definition described :: "dom \<Rightarrow> extras \<Rightarrow> path \<Rightarrow> token list list \<Rightarrow> path \<Rightarrow> bool" where
  "described D E c groups p \<longleftrightarrow> (\<exists>g \<in> set groups. groupMeans D E (searchIn c) g p)"

lemma element_below_root: "pageOK D \<Longrightarrow> nodeOK D p \<Longrightarrow> [] \<in> set (ancestors p)"
  by (auto simp: pageOK_def nodeOK_def ancestors_iff)

lemma group_below:
  assumes "pageOK D" "nodeOK D p" "groupMeans D E (searchIn c) g p"
  shows "widen (siblingLead g) c \<in> set (ancestors p)"
proof -
  obtain q where q: "startMeans D (searchIn c) (leadingRel g) q" "set (ancestors q) \<subseteq> set (ancestors p)"
    using assms(3) describes_below unfolding groupMeans_def by blast
  have "isHtml D" using assms(1) by (simp add: pageOK_def)
  with start_below [OF q(1)] q(2) element_below_root [OF assms(1,2)] show ?thesis
    by (auto simp: siblingLead_def widen_def)
qed

lemma widen_more: "widen False c \<in> set (ancestors p) \<Longrightarrow> widen b c \<in> set (ancestors p)"
  by (cases c) (auto simp: widen_def ancestors_iff)

lemma widen_inDoc: "inDoc d c \<Longrightarrow> inDoc d (widen b c)"
  by (cases c) (auto simp: widen_def dest: inDoc_tl)

text \<open>The elements of a list in document order that are described, when the list has all of them.\<close>

definition answers :: "dom \<Rightarrow> extras \<Rightarrow> path \<Rightarrow> token list list \<Rightarrow> path list \<Rightarrow> bool" where
  "answers D E c groups rs \<longleftrightarrow> sorted_wrt docLess rs \<and> set rs = {p. nodeOK D p \<and> described D E c groups p}"

lemma answers_filter:
  assumes "inDoc (domTree D) root" "\<And>p. nodeOK D p \<Longrightarrow> described D E c groups p \<Longrightarrow> root \<in> set (ancestors p)"
    and "\<And>p. p \<in> set (descendants (domTree D) root) \<Longrightarrow> P p \<longleftrightarrow> described D E c groups p"
  shows "answers D E c groups (filter P (descendants (domTree D) root))"
  using assms descendants_nodeOK [OF assms(1)] descendants_sorted
  unfolding answers_def by (auto simp: sorted_wrt_filter)

lemma runCompiled_right:
  assumes "runCompiled D E F seed c selector groups n st = Inr (rs, n', st')" "list_all (safeTokens D) groups" "stored st"
    and "elems = (case seed of Some s \<Rightarrow> s | None \<Rightarrow> byTag F [42] (widen (rsibling selector) c))" "list_all (nodeOK D) elems"
  shows "rs = filter (described D E c groups) elems \<and> stored st'"
proof -
  obtain ms where ms: "compile D E (searchIn c) groups n = Inr (ms, n')" "superMatcher ms elems st = (rs, st')"
    using assms(1,4) by (auto simp: runCompiled_def split: sum.splits prod.splits)
  from compiled_right [OF ms(1) assms(2,3,5) ms(2)] show ?thesis by (simp add: described_def [abs_def])
qed

lemma findersOK_all: "findersOK D F \<Longrightarrow> byTag F [42] root = descendants (domTree D) root"
  by (simp add: findersOK_def)

lemma descendants_all_OK: "inDoc (domTree D) c \<Longrightarrow> list_all (nodeOK D) (descendants (domTree D) c)"
  using descendants_nodeOK by (auto simp: list_all_iff)

text \<open>Without a seed: all elements of the outermost context are tried.\<close>

lemma unseeded_right:
  assumes "pageOK D" "findersOK D F" "inDoc (domTree D) c" "stored st" "list_all (safeTokens D) groups"
    and "\<And>g. g \<in> set groups \<Longrightarrow> siblingLead g \<Longrightarrow> rsibling selector"
    and "runCompiled D E F None c selector groups n st = Inr (rs, n', st')"
  shows "answers D E c groups rs \<and> stored st'"
proof -
  let ?root = "widen (rsibling selector) c"
  have root: "inDoc (domTree D) ?root" by (rule widen_inDoc [OF assms(3)])
  have r: "rs = filter (described D E c groups) (descendants (domTree D) ?root) \<and> stored st'"
    using runCompiled_right [OF assms(7,5,4)] findersOK_all [OF assms(2)] descendants_all_OK [OF root] by simp
  have "?root \<in> set (ancestors p)" if p: "nodeOK D p" "described D E c groups p" for p
  proof -
    obtain g where g: "g \<in> set groups" "groupMeans D E (searchIn c) g p" using p(2) by (auto simp: described_def)
    have "widen (siblingLead g) c \<in> set (ancestors p)" by (rule group_below [OF assms(1) p(1) g(2)])
    then show ?thesis using assms(6) [OF g(1)] widen_more by (cases "siblingLead g") auto
  qed
  from answers_filter [OF root this] r show ?thesis by simp
qed

text \<open>A seed: a filter of the last element of the group, and the rest.\<close>

lemma seedLoop_split:
  "seedLoop D F root ts after = Some (seed, rest) \<Longrightarrow>
    \<exists>A v f B. rev ts @ after = A @ Flt v f # B @ after \<and> rest = A @ B @ after \<and> findFor D F f root = Some seed \<and>
      list_all (\<lambda>t. \<exists>v f. t = Flt v f) B"
proof (induction D F root ts after rule: seedLoop.induct)
  case (3 D F root v f ts after)
  show ?case
  proof (cases "findFor D F f root")
    case None
    with 3 obtain A v' f' B where r: "rev ts @ Flt v f # after = A @ Flt v' f' # B @ Flt v f # after" "rest = A @ B @ Flt v f # after"
      "findFor D F f' root = Some seed" "list_all (\<lambda>t. \<exists>v f. t = Flt v f) B" by auto
    then show ?thesis by (intro exI [of _ A] exI [of _ v'] exI [of _ f'] exI [of _ "B @ [Flt v f]"]) auto
  next
    case (Some s)
    with 3 show ?thesis by (intro exI [of _ "rev ts"] exI [of _ v] exI [of _ f] exI [of _ "[]"]) auto
  qed
qed simp_all

lemma describes_filters:
  "list_all (\<lambda>t. \<exists>v f. t = Flt v f) B \<Longrightarrow>
    describes D E start (rev B @ ts) p \<longleftrightarrow> (\<forall>t \<in> set B. case t of Flt v f \<Rightarrow> filterMeans D E f p | _ \<Rightarrow> True) \<and> describes D E start ts p"
  by (induction B arbitrary: ts) auto

lemma leading_split:
  assumes "list_all (\<lambda>t. \<exists>v f. t = Flt v f) B"
  shows "leadingRel (A @ Flt v f # B) = leadingRel (A @ B)"
proof (cases A)
  case Nil
  with assms show ?thesis by (cases B) auto
next
  case (Cons t ts)
  then show ?thesis by (cases t) auto
qed

lemma groupMeans_seed:
  assumes "list_all (\<lambda>t. \<exists>v f. t = Flt v f) B"
  shows "groupMeans D E S (A @ Flt v f # B) p \<longleftrightarrow> filterMeans D E f p \<and> groupMeans D E S (A @ B) p"
proof -
  note lead = leading_split [OF assms, of A v f]
  let ?start = "startMeans D S (leadingRel (A @ B))"
  have "\<exists>A'. afterLead (A @ Flt v f # B) = A' @ Flt v f # B \<and> afterLead (A @ B) = A' @ B"
    unfolding afterLead_def lead using assms by (cases A; cases B) (auto split: if_splits)
  then obtain A' where "afterLead (A @ Flt v f # B) = A' @ Flt v f # B" "afterLead (A @ B) = A' @ B" by blast
  then show ?thesis
    unfolding groupMeans_def lead using describes_filters [OF assms, of D E ?start] by auto
qed

lemma toSelector_Nil: "list_all tokenOK ts \<Longrightarrow> toSelector ts = [] \<Longrightarrow> ts = []"
  by (cases ts; cases "hd ts") auto

lemma seeded_right:
  assumes page: "pageOK D" "findersOK D F" "inDoc (domTree D) c" "stored st"
    and ts: "safeTokens D ts" "seedsOK ts" "list_all tokenOK ts"
    and loop: "seedLoop D F (widen (siblingLead ts) c) (rev ts) [] = Some (seed, rest)"
    and run: "(if seed = [] \<or> toSelector rest = [] then Inr (seed, n, st)
      else runCompiled D E F (Some seed) c (toSelector rest) [rest] n st) = Inr (rs, n', st')"
  shows "answers D E c [ts] rs \<and> stored st'"
proof -
  let ?root = "widen (siblingLead ts) c"
  have root: "inDoc (domTree D) ?root" by (rule widen_inDoc [OF page(3)])
  obtain A v f B where split: "ts = A @ Flt v f # B" "rest = A @ B" "findFor D F f ?root = Some seed"
    "list_all (\<lambda>t. \<exists>v f. t = Flt v f) B"
    using seedLoop_split [OF loop] by auto
  have "seedOK f" using ts(2) split(1) by simp
  from findFor_right [OF page(1,2) this split(3) root]
  have seed: "seed = filter (filterMeans D E f) (descendants (domTree D) ?root)" .
  have means: "described D E c [ts] p \<longleftrightarrow> filterMeans D E f p \<and> described D E c [rest] p" for p
    unfolding described_def split(1,2) using groupMeans_seed [OF split(4)] by simp
  have "rs = filter (described D E c [ts]) (descendants (domTree D) ?root) \<and> stored st'"
  proof (cases "seed = [] \<or> toSelector rest = []")
    case True
    then have res: "rs = seed" "st' = st" using run by auto
    from True show ?thesis
    proof
      assume "seed = []"
      then show ?thesis using res page(4) seed means by (auto simp: filter_empty_conv)
    next
      assume "toSelector rest = []"
      then have "rest = []" using ts(3) split(1,2) by (intro toSelector_Nil) auto
      then have lead: "leadingRel ts = None" using split by auto
      then have "?root = c" by (simp add: siblingLead_def widen_def)
      then have "described D E c [rest] p" if "p \<in> set (descendants (domTree D) ?root)" for p
        using that descendants_nodeOK [OF page(3)] \<open>rest = []\<close>
        by (auto simp: described_def groupMeans_def afterLead_def startMeans_def searchIn_def)
      then show ?thesis using res page(4) seed means by (auto intro: filter_cong)
    qed
  next
    case False
    have "list_all (nodeOK D) seed" using seed descendants_all_OK [OF root] by (auto simp: list_all_iff)
    moreover have "list_all (safeTokens D) [rest]" using ts(1) split(1,2) by simp
    ultimately have "rs = filter (described D E c [rest]) seed \<and> stored st'"
      using runCompiled_right [of D E F "Some seed" c "toSelector rest" "[rest]" n st rs n' st' seed] run False page(4) by simp
    then show ?thesis using seed means by (auto intro: filter_cong)
  qed
  moreover have "?root \<in> set (ancestors p)" if "nodeOK D p" "described D E c [ts] p" for p
    using group_below [OF page(1) that(1)] that(2) by (auto simp: described_def)
  ultimately show ?thesis using answers_filter [OF root] by simp
qed

text \<open>An identifier at the start.\<close>

lemma describes_cong:
  assumes "\<And>x. nodeOK D x \<Longrightarrow> start x \<longleftrightarrow> start' x"
  shows "nodeOK D p \<Longrightarrow> describes D E start ts p \<longleftrightarrow> describes D E start' ts p"
proof (induction ts arbitrary: p)
  case Nil
  then show ?case using assms by simp
next
  case (Cons t ts)
  show ?case
  proof (cases t)
    case (Rel v r)
    have "nodeOK D q" if "reaches D r False p q" for q
      using that Cons.prems inDoc_chain [of "domTree D" p q ParentNode] inDoc_chain [of "domTree D" p q PreviousSibling]
      by (cases r) (auto simp: reaches_def Let_def find_Some_iff nodeOK_def chainOf_def dest!: nth_mem)
    with Cons.IH Rel show ?thesis by auto
  next
    case (Flt v f)
    with Cons show ?thesis by auto
  qed
qed

lemma reaches_context:
  assumes "pageOK D" "nodeOK D x" "nodeOK D q"
  shows "reaches D r True x q \<longleftrightarrow> reaches D r False x q"
proof (cases r)
  case Child
  obtain i up where x: "x = i # up" using assms(1,2) by (cases x) (auto simp: pageOK_def nodeOK_def)
  have "up = [] \<or> elementAt D up" using assms(1,2) x unfolding pageOK_def nodeOK_def by blast
  moreover have "q \<noteq> []" using assms(1,3) by (auto simp: pageOK_def nodeOK_def)
  ultimately show ?thesis using Child x assms(1) by (auto simp: reaches_def Let_def pageOK_def)
qed (use assms(3) in \<open>auto simp: reaches_def Let_def nodeOK_def\<close>)

lemma id_start:
  assumes "pageOK D" "idFilter D w q" "nodeOK D q" "nodeOK D p"
  shows "groupMeans D E (searchIn []) (Flt v (IdF w) # Rel u r # ts) p \<longleftrightarrow> groupMeans D E (searchIn q) (Rel u r # ts) p"
proof -
  let ?a = "describes D E (startMeans D (searchIn []) None) [Rel u r, Flt v (IdF w)]"
  let ?b = "startMeans D (searchIn q) (Some r)"
  have eq: "?a x \<longleftrightarrow> ?b x" if x: "nodeOK D x" for x
  proof -
    have "y = q" if "reaches D r False x y" "idFilter D w y" for y
    proof -
      have "nodeOK D y"
        using that(1) x inDoc_chain [of "domTree D" x y ParentNode] inDoc_chain [of "domTree D" x y PreviousSibling]
        by (cases r) (auto simp: reaches_def Let_def find_Some_iff nodeOK_def chainOf_def dest!: nth_mem)
      with that(2) assms(1-3) show ?thesis unfolding pageOK_def idFilter_def by blast
    qed
    moreover have "?b x \<longleftrightarrow> reaches D r False x q"
      using reaches_context [OF assms(1) x assms(3)] by (simp add: startMeans_def searchIn_def)
    moreover have "?a x \<longleftrightarrow> (\<exists>y. reaches D r False x y \<and> idFilter D w y)"
      by (simp add: startMeans_def searchIn_def filterMeans_def)
    ultimately show ?thesis using assms(2) by blast
  qed
  from describes_cong [of D ?a ?b p E "rev ts", OF eq assms(4)] show ?thesis
    by (simp add: groupMeans_def afterLead_def describes_append)
qed

lemma byId_found:
  assumes "findersOK D F" "inDoc (domTree D) []"
  shows "byId F i = Some q \<Longrightarrow> nodeOK D q \<and> attrOf D q (js ''id'') = Some i"
    "byId F i = None \<Longrightarrow> pageOK D \<Longrightarrow> nodeOK D y \<Longrightarrow> attrOf D y (js ''id'') \<noteq> Some i"
proof -
  have f: "byId F i = find (\<lambda>p. attrOf D p (js ''id'') = Some i) (descendants (domTree D) [])"
    using assms(1) unfolding findersOK_def by blast
  show "byId F i = Some q \<Longrightarrow> nodeOK D q \<and> attrOf D q (js ''id'') = Some i"
    using f descendants_nodeOK [OF assms(2)] by (auto simp: find_Some_iff simp del: js.simps dest: nth_mem)
  show "byId F i = None \<Longrightarrow> pageOK D \<Longrightarrow> nodeOK D y \<Longrightarrow> attrOf D y (js ''id'') \<noteq> Some i"
    using f descendants_nodeOK [OF assms(2), of y] element_below_root [of D y]
    by (auto simp: find_None_iff simp del: js.simps)
qed

lemma no_id:
  assumes "pageOK D" "findersOK D F" "byId F (unescapeCss w) = None" "nodeOK D p"
  shows "\<not> groupMeans D E (searchIn []) (Flt v (IdF w) # Rel u r # ts) p"
proof
  assume "groupMeans D E (searchIn []) (Flt v (IdF w) # Rel u r # ts) p"
  moreover have "\<not> describes D E (startMeans D (searchIn []) None) [Rel u r, Flt v (IdF w)] x" if x: "nodeOK D x" for x
  proof
    assume "describes D E (startMeans D (searchIn []) None) [Rel u r, Flt v (IdF w)] x"
    then obtain y where y: "reaches D r False x y" "idFilter D w y" by (auto simp: filterMeans_def)
    then have "nodeOK D y"
      using x inDoc_chain [of "domTree D" x y ParentNode] inDoc_chain [of "domTree D" x y PreviousSibling]
      by (cases r) (auto simp: reaches_def Let_def find_Some_iff nodeOK_def chainOf_def dest!: nth_mem)
    moreover have "inDoc (domTree D) []" by (simp add: inDoc_def)
    ultimately show False using byId_found(2) [OF assms(2) _ assms(3,1)] y(2) by (simp add: idFilter_def)
  qed
  then have "describes D E (describes D E (startMeans D (searchIn []) None) [Rel u r, Flt v (IdF w)]) (rev ts) p \<longleftrightarrow>
      describes D E (\<lambda>_. False) (rev ts) p"
    by (intro describes_cong [OF _ assms(4)]) blast
  moreover have "\<not> describes D E (\<lambda>_. False) zs y" for zs y using describes_below by blast
  ultimately show False by (simp add: groupMeans_def afterLead_def describes_append)
qed

text \<open>The reduction of the context keeps what is described.\<close>

lemma reduce_right:
  assumes "pageOK D" "findersOK D F" "inDoc (domTree D) c" "selector = toSelector tokens"
  shows "reduceContext D F c selector tokens = Some (c', s', ts) \<Longrightarrow>
      inDoc (domTree D) c' \<and> s' = toSelector ts \<and> set ts \<subseteq> set tokens \<and> (answers D E c' [ts] rs \<longleftrightarrow> answers D E c [tokens] rs)"
    "reduceContext D F c selector tokens = None \<Longrightarrow> answers D E c [tokens] []"
proof -
  have root: "inDoc (domTree D) []" by (simp add: inDoc_def)
  have "(\<exists>v w u r t ts0. tokens = Flt v (IdF w) # Rel u r # t # ts0 \<and> c = [] \<and> isHtml D)
      \<or> reduceContext D F c selector tokens = Some (c, selector, tokens)"
    by (simp add: reduceContext_def split: list.split token.split filt.split)
  then consider (id) v w u r t ts0 where "tokens = Flt v (IdF w) # Rel u r # t # ts0" "c = []" "isHtml D"
    | (other) "reduceContext D F c selector tokens = Some (c, selector, tokens)" by blast
  note cases = this
  show "inDoc (domTree D) c' \<and> s' = toSelector ts \<and> set ts \<subseteq> set tokens \<and> (answers D E c' [ts] rs \<longleftrightarrow> answers D E c [tokens] rs)"
    if red: "reduceContext D F c selector tokens = Some (c', s', ts)"
    using cases
  proof cases
    case (id v w u r t ts0)
    then have q: "byId F (unescapeCss w) = Some c'" "ts = Rel u r # t # ts0" "s' = drop (length v) selector"
      using red by (auto simp: reduceContext_def)
    have ok: "nodeOK D c'" "idFilter D w c'" using byId_found(1) [OF assms(2) root q(1)] by (simp_all add: idFilter_def)
    have "described D E c [tokens] p \<longleftrightarrow> described D E c' [ts] p" if "nodeOK D p" for p
      using id_start [OF assms(1) ok(2,1) that] id(1,2) q(2) by (simp add: described_def)
    then have "{p. nodeOK D p \<and> described D E c' [ts] p} = {p. nodeOK D p \<and> described D E c [tokens] p}" by blast
    then show ?thesis using q(2,3) id(1) ok(1) assms(4) by (auto simp: answers_def nodeOK_def)
  next
    case other
    with red assms show ?thesis by simp
  qed
  show "answers D E c [tokens] []" if red: "reduceContext D F c selector tokens = None"
    using cases
  proof cases
    case (id v w u r t ts0)
    then have "byId F (unescapeCss w) = None" using red by (simp add: reduceContext_def)
    with no_id [OF assms(1,2) this] id(1,2) show ?thesis by (auto simp: answers_def described_def)
  next
    case other
    with red show ?thesis by simp
  qed
qed

lemma sibling_text: "siblingLead ts \<Longrightarrow> list_all tokenOK ts \<Longrightarrow> rsibling (toSelector ts)"
  by (cases ts rule: leadingRel.cases) (auto simp: siblingLead_def rsibling_def list_ex_iff)

lemma sibling_in_text:
  assumes "g \<in> set groups" "siblingLead g" "list_all tokenOK g" "selector = joinGroups seps groups" "length groups = Suc (length seps)"
  shows "rsibling selector"
proof -
  obtain c where c: "c \<in> set (toSelector g)" "c = 43 \<or> c = 126" using sibling_text [OF assms(2,3)] by (auto simp: rsibling_def list_ex_iff)
  obtain i where i: "i < length groups" "groups ! i = g" using assms(1) by (auto simp: in_set_conv_nth)
  then have "(([] # seps) ! i) @ toSelector g \<in> set (map2 (\<lambda>p g. p @ toSelector g) ([] # seps) groups)"
    using assms(5) by (auto simp: set_conv_nth intro!: exI [of _ i])
  with c(1) have "c \<in> set selector" unfolding assms(4) joinGroups_def set_concat by (metis UN_I Un_iff set_append)
  with c(2) show ?thesis by (auto simp: rsibling_def list_ex_iff)
qed

lemma select_right:
  assumes "pageOK D" "findersOK D F" "inDoc (domTree D) c" "stored st" "tokenize selector = Inr groups" "selector \<noteq> []"
    and "list_all (safeTokens D) groups" "list_all seedsOK groups"
    and "selectFrom D E F c selector n st = Inr (rs, n', st')"
  shows "sorted_wrt docLess rs \<and> set rs = {p. nodeOK D p \<and> described D E c groups p} \<and> stored st'"
proof -
  obtain seps where seps: "length groups = Suc (length seps)" "selector = joinGroups seps groups"
    using tokenize_text [OF assms(5,6)] by blast
  have ok: "list_all (list_all tokenOK) groups" by (rule tokenize_tokens [OF assms(5)])
  have "answers D E c groups rs \<and> stored st'"
  proof (cases "\<exists>tokens. groups = [tokens]")
    case True
    then obtain tokens where one: "groups = [tokens]" by blast
    then have sel: "selector = toSelector tokens" using seps by (simp add: joinGroups_def)
    have run: "selectGroup D E F c selector tokens n st = Inr (rs, n', st')" using assms(5,9) one by (simp add: selectFrom_def)
    show ?thesis
    proof (cases "reduceContext D F c selector tokens")
      case None
      then have "rs = []" "st' = st" using run by (simp_all add: selectGroup_def)
      with reduce_right(2) [OF assms(1,2,3) sel None] assms(4) one show ?thesis by simp
    next
      case (Some x)
      obtain c' s' ts where x: "x = (c', s', ts)" by (cases x) auto
      note red = reduce_right(1) [OF assms(1,2,3) sel Some [unfolded x], of E rs]
      have ts: "safeTokens D ts" "seedsOK ts" "list_all tokenOK ts"
        using assms(7,8) ok one red by (auto simp: list_all_iff)
      have c': "inDoc (domTree D) c'" using red by blast
      have "answers D E c' [ts] rs \<and> stored st'"
      proof (cases "if needsContext s' then None else seedLoop D F (widen (siblingLead ts) c') (rev ts) []")
        case None
        then have r: "runCompiled D E F None c' s' [ts] n st = Inr (rs, n', st')"
          using run Some x by (simp add: selectGroup_def)
        show ?thesis
          by (rule unseeded_right [OF assms(1,2) c' assms(4) _ _ r]) (use ts red sibling_text in auto)
      next
        case (Some y)
        obtain seed rest where y: "y = (seed, rest)" by fastforce
        with Some have loop: "seedLoop D F (widen (siblingLead ts) c') (rev ts) [] = Some (seed, rest)" by (simp split: if_splits)
        have r: "(if seed = [] \<or> toSelector rest = [] then Inr (seed, n, st)
            else runCompiled D E F (Some seed) c' (toSelector rest) [rest] n st) = Inr (rs, n', st')"
          using run \<open>reduceContext D F c selector tokens = Some x\<close> x Some y by (simp add: selectGroup_def)
        show ?thesis by (rule seeded_right [OF assms(1,2) c' assms(4) ts loop r])
      qed
      with red one show ?thesis by blast
    qed
  next
    case False
    then have r: "runCompiled D E F None c selector groups n st = Inr (rs, n', st')"
      using assms(5,9) by (auto simp: selectFrom_def split: list.splits)
    show ?thesis
    proof (rule unseeded_right [OF assms(1,2,3,4,7) _ r])
      fix g
      assume "g \<in> set groups" "siblingLead g"
      then show "rsibling selector" using sibling_in_text [OF _ _ _ seps(2,1)] ok by (auto simp: list_all_iff)
    qed
  qed
  then show ?thesis by (simp add: answers_def)
qed

text \<open>A search for a selector whose parts have filters returns.\<close>

lemma runCompiled_returns: "list_all (coveredTokens D E) gs \<Longrightarrow> \<exists>r. runCompiled D E F seed c s gs n st = Inr r"
  using compile_returns [of D E gs "searchIn c" n] unfolding runCompiled_def
  by (metis (no_types, lifting) case_prod_conv prod.collapse sum.case(2) Let_def)

lemma seedLoop_covered:
  "seedLoop D F root ts aft = Some (seed, rest) \<Longrightarrow> coveredTokens D E ts \<Longrightarrow> coveredTokens D E aft \<Longrightarrow> coveredTokens D E rest"
  by (induction D F root ts aft rule: seedLoop.induct) (auto simp: list_all_iff split: option.splits)

lemma reduceContext_tokens: "reduceContext D F c selector ts = Some (c', s', ts') \<Longrightarrow> set ts' \<subseteq> set ts"
  unfolding reduceContext_def by (auto split: list.splits token.splits filt.splits if_splits)

lemma selectGroup_returns:
  assumes "coveredTokens D E ts"
  shows "\<exists>r. selectGroup D E F c selector ts n st = Inr r"
proof (cases "reduceContext D F c selector ts")
  case (Some x)
  obtain c' s' ts' where x: "x = (c', s', ts')" by (cases x) auto
  have ts': "coveredTokens D E ts'" using assms reduceContext_tokens [OF Some [unfolded x]] by (auto simp: list_all_iff)
  show ?thesis
  proof (cases "if needsContext s' then None else seedLoop D F (widen (siblingLead ts') c') (rev ts') []")
    case None
    with Some x ts' runCompiled_returns [of D E "[ts']"] show ?thesis by (simp add: selectGroup_def)
  next
    case (Some y)
    obtain seed rest where y: "y = (seed, rest)" by (cases y) auto
    then have "seedLoop D F (widen (siblingLead ts') c') (rev ts') [] = Some (seed, rest)" using Some by (auto split: if_splits)
    from seedLoop_covered [OF this, of E] ts' have "coveredTokens D E rest" by (simp add: list_all_iff)
    with \<open>reduceContext D F c selector ts = Some x\<close> x Some y runCompiled_returns [of D E "[rest]"] show ?thesis
      by (simp add: selectGroup_def)
  qed
qed (simp add: selectGroup_def)

lemma selectFrom_returns:
  assumes "tokenize selector = Inr groups" "list_all (coveredTokens D E) groups"
  obtains rs n' st' where "selectFrom D E F c selector n st = Inr (rs, n', st')"
proof -
  have "\<exists>r. selectFrom D E F c selector n st = Inr r"
  proof (cases "\<exists>ts. groups = [ts]")
    case True
    then obtain ts where "groups = [ts]" by blast
    moreover from this assms(2) have "\<exists>r. selectGroup D E F c selector ts n st = Inr r" by (intro selectGroup_returns) simp
    ultimately show ?thesis using assms(1) by (simp add: selectFrom_def)
  next
    case False
    then have "selectFrom D E F c selector n st = runCompiled D E F None c selector groups n st"
      using assms(1) by (auto simp: selectFrom_def split: list.splits)
    with runCompiled_returns [OF assms(2)] show ?thesis by metis
  qed
  with that show ?thesis by (metis prod.collapse)
qed

text \<open>
  C35. A search in an HTML page returns and gives, in document order, exactly the elements that the selector describes in the
  context: the shortcuts (an identifier at the start as context, the elements that the browser finds for a tag, class or
  identifier, the wider context for siblings) and the caches change nothing. The page has unique identifiers, the
  functions of the browser do what they are documented to do, every part of the selector has a filter, no filter takes
  positions from the end from the cache, and the names mean the same in selectors and regular expressions.
\<close>

theorem select_described:
  assumes "pageOK D" "findersOK D F" "inDoc (domTree D) c" "stored st" "tokenize selector = Inr groups" "selector \<noteq> []"
    and "list_all (coveredTokens D E) groups" "list_all (safeTokens D) groups" "list_all seedsOK groups"
  shows "\<exists>rs n' st'. selectFrom D E F c selector n st = Inr (rs, n', st') \<and>
    sorted_wrt docLess rs \<and> set rs = {p. nodeOK D p \<and> described D E c groups p} \<and> stored st'"
proof -
  obtain rs n' st' where "selectFrom D E F c selector n st = Inr (rs, n', st')"
    using selectFrom_returns [OF assms(5,7)] by blast
  with select_right [OF assms(1-6,8,9) this] show ?thesis by blast
qed

text \<open>The functions of a browser that does what is documented.\<close>

definition honestFinders :: "dom \<Rightarrow> finders" where
  "honestFinders D =
     \<lparr>byId = (\<lambda>i. find (\<lambda>p. attrOf D p (js ''id'') = Some i) (descendants (domTree D) [])),
      byTag = (\<lambda>t root. filter (\<lambda>p. t = [42] \<or> lcName D p = lowerCase D t) (descendants (domTree D) root)),
      byClass = (\<lambda>w root. filter (\<lambda>p. w \<in> set (wordsOf (classText D p))) (descendants (domTree D) root))\<rparr>"

lemma honest: "findersOK D (honestFinders D)"
  by (simp add: findersOK_def honestFinders_def)

lemma sampleList_paths:
  assumes "inDoc (domTree sampleList) p"
  shows "p \<in> {[], [0], [0, 0], [1, 0], [2, 0], [3, 0]}"
proof (cases "p = []")
  case False
  have "subtree (domTree sampleList) [] = [[0], [0, 0], [1, 0], [2, 0], [3, 0]]" by code_simp
  moreover have "p \<in> set (subtree (domTree sampleList) [])"
    using assms False unfolding below_iff(1) inDoc_def by auto
  ultimately show ?thesis by simp
qed simp

lemma sampleList_page: "pageOK sampleList"
proof -
  have ids: "attrOf sampleList p (js ''id'') = None" if "inDoc (domTree sampleList) p" for p
    using sampleList_paths [OF that] by (auto simp: attrOf_def attrAt_def sampleList_def)
  have names: "nodeNameAt (domTree sampleList) p \<noteq> []" if "nodeOK sampleList p" for p
    using that sampleList_paths [of p]
    by (auto simp: nodeOK_def nodeNameAt_def elementAt_def isElement_def nodeTypeAt_def sampleList_def)
  have kids: "up = [] \<or> elementAt sampleList up" if "inDoc (domTree sampleList) (i # up)" for i up
    using sampleList_paths [OF that] by (auto simp: elementAt_def isElement_def nodeTypeAt_def sampleList_def)
  have "isHtml sampleList" "\<not> elementAt sampleList []"
    by (simp_all add: sampleList_def elementAt_def isElement_def nodeTypeAt_def)
  with ids names kids show ?thesis unfolding pageOK_def nodeOK_def by fastforce
qed

theorem select_described_witness:
  "\<exists>rs n' st'. selectFrom sampleList noExtras (honestFinders sampleList) [] (js ''ul > li'') 0 emptyStore = Inr (rs, n', st') \<and>
     sorted_wrt docLess rs \<and> set rs = {p. nodeOK sampleList p \<and> described sampleList noExtras [] sampleGroups p} \<and> stored st'"
proof (rule select_described [OF sampleList_page honest])
  show "tokenize (js ''ul > li'') = Inr sampleGroups" by code_simp
  show "inDoc (domTree sampleList) []" by (simp add: inDoc_def)
  show "stored emptyStore" by (simp add: stored_def recent_def emptyStore_def noPositions_def)
  show "js ''ul > li'' \<noteq> []" by simp
  show "list_all (coveredTokens sampleList noExtras) sampleGroups" by (simp add: sampleGroups_def filterOf_def)
  show "list_all (safeTokens sampleList) sampleGroups" by (simp add: sampleGroups_def safeFilter_def)
  show "list_all seedsOK sampleGroups"
    by (simp add: sampleGroups_def seedOK_def unescape_plain unescapeCss.simps [of "[]"])
qed

definition xmlPage :: dom where
  "xmlPage = sampleList\<lparr>isHtml := False, domTree := DNode 9 [] [] []
     [DNode 1 (js ''r'') [] [] [DNode 1 (js ''c'') [] [] [], DNode 1 (js ''a'') [] [] [], DNode 1 (js ''b'') [(js ''x'', [])] [] []]]\<rparr>"

text \<open>
  In an XML page a search can give elements outside its context: below the first child of the root, \<open>a + [x]\<close> gives
  an element that is not below it, because the search is widened to the parent and the check of the context
  is left out for XML.
\<close>

theorem xml_outside_context:
  "map_sum id fst (selectFrom xmlPage noExtras (honestFinders xmlPage) [0, 0] (js ''a + [x]'') 0 emptyStore) = Inr [[2, 0]]
   \<and> [0, 0] \<notin> set (ancestors [2, 0])"
  by code_simp

end
