(* ===== verification/Doc_Stemmer.thy ===== *)
theory Doc_Stemmer
  imports JS_Prelude
begin

text \<open>
  The stemmer of the documentation search
  (\<^verbatim>\<open>prebuilts/qemu/share/doc/qemu/_static/language_data.js\<close>, \<open>Stemmer\<close>). The
  expressions that measure a stem are regular expressions over character classes; \<open>re\<close>
  is the fragment they use, with the backtracking matcher of the language. Each step
  of the algorithm is one function from words to words, with the code's tests in
  the code's order, and \<open>stemWord\<close> runs them one after the other. The lemmas
  show that the expressions compute Porter's measure of a stem and that no step empties
  a word, changes its first character or makes it longer.
\<close>

section \<open>Regular expressions\<close>

datatype re = Chr "nat \<Rightarrow> bool" | Many "nat \<Rightarrow> bool" | Seq re re | Opt re | End

text \<open>
  What remains of the input after each way to match a prefix of it, the preferred way
  first: a repetition takes as much as it can, an optional part is taken if possible.
\<close>

fun many :: "(nat \<Rightarrow> bool) \<Rightarrow> jstring \<Rightarrow> jstring list" where
  "many p [] = [[]]"
| "many p (c # s) = (if p c then many p s @ [c # s] else [c # s])"

primrec rests :: "re \<Rightarrow> jstring \<Rightarrow> jstring list" where
  "rests (Chr p) s = (case s of c # t \<Rightarrow> if p c then [t] else [] | [] \<Rightarrow> [])"
| "rests (Many p) s = many p s"
| "rests (Seq a b) s = concat (map (rests b) (rests a s))"
| "rests (Opt a) s = rests a s @ [s]"
| "rests End s = (if s = [] then [s] else [])"

text \<open>\<open>test\<close> of an expression that is anchored at the start.\<close>

definition test :: "re \<Rightarrow> jstring \<Rightarrow> bool" where
  "test r s \<longleftrightarrow> rests r s \<noteq> []"

section \<open>The expressions of the stemmer\<close>

abbreviation vowel_set :: "nat set" where
  "vowel_set \<equiv> {97, 101, 105, 111, 117}"

definition cls_c :: "nat \<Rightarrow> bool" where
  "cls_c x \<longleftrightarrow> x \<notin> vowel_set"

definition cls_v :: "nat \<Rightarrow> bool" where
  "cls_v x \<longleftrightarrow> x \<in> vowel_set \<or> x = 121"

definition re_C :: re where
  "re_C = Seq (Chr cls_c) (Many (\<lambda>x. \<not> cls_v x))"

definition re_V :: re where
  "re_V = Seq (Chr cls_v) (Many (\<lambda>x. x \<in> vowel_set))"

definition mgr0 :: re where
  "mgr0 = Seq (Opt re_C) (Seq re_V re_C)"

definition meq1 :: re where
  "meq1 = Seq (Opt re_C) (Seq re_V (Seq re_C (Seq (Opt re_V) End)))"

definition mgr1 :: re where
  "mgr1 = Seq (Opt re_C) (Seq re_V (Seq re_C (Seq re_V re_C)))"

definition s_v :: re where
  "s_v = Seq (Opt re_C) (Chr cls_v)"

text \<open>\<^verbatim>\<open>"^" + C + v + "[^aeiouwxy]$"\<close>, used in the steps 1b and 5.\<close>

definition re_cvc :: re where
  "re_cvc = Seq re_C (Seq (Chr cls_v)
     (Seq (Chr (\<lambda>x. x \<notin> vowel_set \<and> x \<noteq> 119 \<and> x \<noteq> 120 \<and> x \<noteq> 121)) End))"

text \<open>
  \<^verbatim>\<open>/^(.+?)(a|b|...)$/\<close>: the shortest stem, of one character or more and without a
  line terminator, that leaves one of the alternatives.
\<close>

definition splitStem :: "jstring list \<Rightarrow> jstring \<Rightarrow> (jstring \<times> jstring) option" where
  "splitStem alts w =
     (case filter (\<lambda>k. drop k w \<in> set alts \<and> list_all (\<lambda>c. \<not> is_line_end c) (take k w))
             [1..<Suc (length w)] of
        k # _ \<Rightarrow> Some (take k w, drop k w)
      | [] \<Rightarrow> None)"

text \<open>\<^verbatim>\<open>w.replace(/.$/, "")\<close>\<close>

definition dropLast :: "jstring \<Rightarrow> jstring" where
  "dropLast w = (if w \<noteq> [] \<and> \<not> is_line_end (last w) then butlast w else w)"

text \<open>\<^verbatim>\<open>([^aeiouylsz])\1$\<close>\<close>

definition doubled :: "jstring \<Rightarrow> bool" where
  "doubled w \<longleftrightarrow> (case rev w of
     x # y # _ \<Rightarrow> x = y \<and> x \<notin> vowel_set \<and> x \<noteq> 121 \<and> x \<noteq> 108 \<and> x \<noteq> 115 \<and> x \<noteq> 122 | _ \<Rightarrow> False)"

section \<open>The steps\<close>

definition step1a :: "jstring \<Rightarrow> jstring" where
  "step1a w =
     (case splitStem [js ''sses'', js ''ies''] w of
        Some (stem, suffix) \<Rightarrow> stem @ take (length suffix - 2) suffix
      | None \<Rightarrow>
          (if 3 \<le> length w \<and> last w = 115 \<and> last (butlast w) \<noteq> 115 \<and>
              list_all (\<lambda>c. \<not> is_line_end c) (take (length w - 2) w)
           then butlast w else w))"

definition step1b :: "jstring \<Rightarrow> jstring" where
  "step1b w =
     (case splitStem [js ''eed''] w of
        Some (stem, _) \<Rightarrow> if test mgr0 stem then dropLast w else w
      | None \<Rightarrow>
          (case splitStem [js ''ed'', js ''ing''] w of
             Some (stem, _) \<Rightarrow>
               (if test s_v stem then
                  (if endsWith (js ''at'') stem \<or> endsWith (js ''bl'') stem \<or> endsWith (js ''iz'') stem
                   then stem @ js ''e''
                   else if doubled stem then dropLast stem
                   else if test re_cvc stem then stem @ js ''e''
                   else stem)
                else w)
           | None \<Rightarrow> w))"

definition step1c :: "jstring \<Rightarrow> jstring" where
  "step1c w =
     (case splitStem [js ''y''] w of
        Some (stem, _) \<Rightarrow> if test s_v stem then stem @ js ''i'' else w
      | None \<Rightarrow> w)"

definition step2list :: "(jstring \<times> jstring) list" where
  "step2list = [(js ''ational'', js ''ate''), (js ''tional'', js ''tion''), (js ''enci'', js ''ence''),
     (js ''anci'', js ''ance''), (js ''izer'', js ''ize''), (js ''bli'', js ''ble''), (js ''alli'', js ''al''),
     (js ''entli'', js ''ent''), (js ''eli'', js ''e''), (js ''ousli'', js ''ous''), (js ''ization'', js ''ize''),
     (js ''ation'', js ''ate''), (js ''ator'', js ''ate''), (js ''alism'', js ''al''), (js ''iveness'', js ''ive''),
     (js ''fulness'', js ''ful''), (js ''ousness'', js ''ous''), (js ''aliti'', js ''al''), (js ''iviti'', js ''ive''),
     (js ''biliti'', js ''ble''), (js ''logi'', js ''log'')]"

definition step3list :: "(jstring \<times> jstring) list" where
  "step3list = [(js ''icate'', js ''ic''), (js ''ative'', []), (js ''alize'', js ''al''), (js ''iciti'', js ''ic''),
     (js ''ical'', js ''ic''), (js ''ful'', []), (js ''ness'', [])]"

text \<open>A step driven by a table: the suffix is replaced when the stem is long enough.\<close>

definition tableStep :: "(jstring \<times> jstring) list \<Rightarrow> jstring \<Rightarrow> jstring" where
  "tableStep tab w =
     (case splitStem (map fst tab) w of
        Some (stem, suffix) \<Rightarrow>
          (if test mgr0 stem
           then stem @ (case map_of tab suffix of Some r \<Rightarrow> r | None \<Rightarrow> []) else w)
      | None \<Rightarrow> w)"

definition step2 :: "jstring \<Rightarrow> jstring" where
  "step2 = tableStep step2list"

definition step3 :: "jstring \<Rightarrow> jstring" where
  "step3 = tableStep step3list"

definition step4 :: "jstring \<Rightarrow> jstring" where
  "step4 w =
     (case splitStem (map js [''al'', ''ance'', ''ence'', ''er'', ''ic'', ''able'', ''ible'', ''ant'', ''ement'',
           ''ment'', ''ent'', ''ou'', ''ism'', ''ate'', ''iti'', ''ous'', ''ive'', ''ize'']) w of
        Some (stem, _) \<Rightarrow> if test mgr1 stem then stem else w
      | None \<Rightarrow>
          (case splitStem [js ''sion'', js ''tion''] w of
             Some (stem, suffix) \<Rightarrow>
               (if test mgr1 (stem @ take 1 suffix) then stem @ take 1 suffix else w)
           | None \<Rightarrow> w))"

definition step5 :: "jstring \<Rightarrow> jstring" where
  "step5 w =
     (let w1 = (case splitStem [js ''e''] w of
          Some (stem, _) \<Rightarrow>
            (if test mgr1 stem \<or> (test meq1 stem \<and> \<not> test re_cvc stem) then stem else w)
        | None \<Rightarrow> w)
      in if endsWith (js ''ll'') w1 \<and> test mgr1 w1 then dropLast w1 else w1)"

text \<open>An initial y is kept out of the vowels by writing it as a capital meanwhile.\<close>

definition stemWord :: "jstring \<Rightarrow> jstring" where
  "stemWord w =
     (if length w < 3 then w
      else let firstch = take 1 w;
               w0 = (if firstch = js ''y'' then js ''Y'' @ drop 1 w else w);
               w1 = step5 (step4 (step3 (step2 (step1c (step1b (step1a w0))))))
           in if firstch = js ''y'' then js ''y'' @ drop 1 w1 else w1)"

section \<open>Lemmas: splitting off a suffix\<close>

lemma splitStem_Some:
  assumes "splitStem alts w = Some (stem, suffix)"
  shows "w = stem @ suffix" "suffix \<in> set alts" "stem \<noteq> []" "list_all (\<lambda>c. \<not> is_line_end c) stem"
proof -
  let ?P = "\<lambda>k. drop k w \<in> set alts \<and> list_all (\<lambda>c. \<not> is_line_end c) (take k w)"
  from assms obtain k ks where ks: "filter ?P [1..<Suc (length w)] = k # ks"
    and st: "stem = take k w" "suffix = drop k w"
    unfolding splitStem_def by (auto split: list.splits)
  then have "k \<in> set (filter ?P [1..<Suc (length w)])" by simp
  then have "?P k" "1 \<le> k" "k \<le> length w" by auto
  with st show "w = stem @ suffix" "suffix \<in> set alts" "stem \<noteq> []" "list_all (\<lambda>c. \<not> is_line_end c) stem"
    by auto
qed

section \<open>Lemmas: the contract of a step\<close>

text \<open>
  What every step promises its caller: a word stays a word, it keeps its first character,
  and it does not grow.
\<close>

definition tame :: "(jstring \<Rightarrow> jstring) \<Rightarrow> bool" where
  "tame f \<longleftrightarrow> (\<forall>w. w \<noteq> [] \<longrightarrow> f w \<noteq> [] \<and> hd (f w) = hd w \<and> length (f w) \<le> length w)"

lemma tameI:
  "(\<And>w. w \<noteq> [] \<Longrightarrow> f w \<noteq> [] \<and> hd (f w) = hd w \<and> length (f w) \<le> length w) \<Longrightarrow> tame f"
  by (simp add: tame_def)

lemma tameD:
  "tame f \<Longrightarrow> w \<noteq> [] \<Longrightarrow> f w \<noteq> []" "tame f \<Longrightarrow> w \<noteq> [] \<Longrightarrow> hd (f w) = hd w"
  "tame f \<Longrightarrow> w \<noteq> [] \<Longrightarrow> length (f w) \<le> length w"
  by (auto simp: tame_def)

lemma tame_comp: "tame f \<Longrightarrow> tame g \<Longrightarrow> tame (\<lambda>w. g (f w))"
  unfolding tame_def by (metis le_trans)

text \<open>A stem with something appended that is no longer than what was cut off.\<close>

lemma stem_extend:
  assumes "splitStem alts w = Some (stem, suffix)" "length r \<le> length suffix"
  shows "stem @ r \<noteq> [] \<and> hd (stem @ r) = hd w \<and> length (stem @ r) \<le> length w"
  using splitStem_Some [OF assms(1)] assms(2) by auto

lemma dropLast_tame:
  "2 \<le> length w \<Longrightarrow> dropLast w \<noteq> [] \<and> hd (dropLast w) = hd w \<and> length (dropLast w) \<le> length w"
  by (cases w rule: rev_cases) (auto simp: dropLast_def hd_append)

lemma doubled_length: "doubled w \<Longrightarrow> 2 \<le> length w"
proof -
  assume "doubled w"
  then obtain x y zs where "rev w = x # y # zs" by (auto simp: doubled_def split: list.splits)
  then have "length (rev w) = Suc (Suc (length zs))" by simp
  then show ?thesis by simp
qed

lemma last_not_Cons: "w \<noteq> [] \<Longrightarrow> hd (butlast (c # w)) = c"
  by simp

lemma tame_step1a: "tame step1a"
proof (rule tameI)
  fix w :: jstring assume w: "w \<noteq> []"
  show "step1a w \<noteq> [] \<and> hd (step1a w) = hd w \<and> length (step1a w) \<le> length w"
  proof (cases "splitStem [js ''sses'', js ''ies''] w")
    case None
    with w show ?thesis by (cases w rule: rev_cases) (auto simp: step1a_def hd_append)
  next
    case (Some p)
    then obtain stem suffix where p: "splitStem [js ''sses'', js ''ies''] w = Some (stem, suffix)"
      by (cases p) auto
    then show ?thesis
      using stem_extend [OF p, of "take (length suffix - 2) suffix"]
      by (simp add: step1a_def del: js.simps)
  qed
qed

lemma tame_step1b: "tame step1b"
proof (rule tameI)
  fix w :: jstring assume w: "w \<noteq> []"
  show "step1b w \<noteq> [] \<and> hd (step1b w) = hd w \<and> length (step1b w) \<le> length w"
  proof (cases "splitStem [js ''eed''] w")
    case (Some p)
    then obtain stem suffix where p: "splitStem [js ''eed''] w = Some (stem, suffix)"
      by (cases p) auto
    then have "2 \<le> length w" using splitStem_Some [OF p] by auto
    with w p show ?thesis using dropLast_tame [of w] by (simp add: step1b_def del: js.simps)
  next
    case none: None
    show ?thesis
    proof (cases "splitStem [js ''ed'', js ''ing''] w")
      case None
      with none w show ?thesis by (simp add: step1b_def del: js.simps)
    next
      case (Some p)
      then obtain stem suffix where p: "splitStem [js ''ed'', js ''ing''] w = Some (stem, suffix)"
        by (cases p) auto
      have len: "2 \<le> length suffix" using splitStem_Some(2) [OF p] by auto
      have stem: "length stem \<le> length w" "hd stem = hd w" "stem \<noteq> []"
        using splitStem_Some [OF p] by auto
      have "doubled stem \<Longrightarrow> dropLast stem \<noteq> [] \<and> hd (dropLast stem) = hd w \<and>
          length (dropLast stem) \<le> length w"
        using dropLast_tame [of stem] doubled_length [of stem] stem by simp
      moreover have "stem @ js ''e'' \<noteq> [] \<and> hd (stem @ js ''e'') = hd w \<and> length (stem @ js ''e'') \<le> length w"
        using stem_extend [OF p, of "js ''e''"] len by simp
      ultimately show ?thesis using none p w stem by (simp add: step1b_def del: js.simps)
    qed
  qed
qed

lemma tame_step1c: "tame step1c"
proof (rule tameI)
  fix w :: jstring assume w: "w \<noteq> []"
  show "step1c w \<noteq> [] \<and> hd (step1c w) = hd w \<and> length (step1c w) \<le> length w"
  proof (cases "splitStem [js ''y''] w")
    case (Some p)
    then obtain stem suffix where p: "splitStem [js ''y''] w = Some (stem, suffix)" by (cases p) auto
    moreover have "length (js ''i'') \<le> length suffix" using splitStem_Some(2) [OF p] by auto
    ultimately show ?thesis
      using w stem_extend [OF p, of "js ''i''"] by (simp add: step1c_def del: js.simps)
  qed (use w in \<open>simp add: step1c_def\<close>)
qed

lemma tame_tableStep:
  assumes "\<And>a b. map_of tab a = Some b \<Longrightarrow> length b \<le> length a"
  shows "tame (tableStep tab)"
proof (rule tameI)
  fix w :: jstring assume w: "w \<noteq> []"
  show "tableStep tab w \<noteq> [] \<and> hd (tableStep tab w) = hd w \<and> length (tableStep tab w) \<le> length w"
  proof (cases "splitStem (map fst tab) w")
    case (Some p)
    then obtain stem suffix where p: "splitStem (map fst tab) w = Some (stem, suffix)"
      by (cases p) auto
    show ?thesis
    proof (cases "map_of tab suffix")
      case None
      with p w show ?thesis using stem_extend [OF p, of "[]"] by (simp add: tableStep_def)
    next
      case (Some r)
      with p w show ?thesis using stem_extend [OF p, of r] assms by (simp add: tableStep_def)
    qed
  qed (use w in \<open>simp add: tableStep_def\<close>)
qed

lemma tame_step2: "tame step2"
  unfolding step2_def by (rule tame_tableStep) (auto simp: step2list_def split: if_splits)

lemma tame_step3: "tame step3"
  unfolding step3_def by (rule tame_tableStep) (auto simp: step3list_def split: if_splits)

lemma tame_step4: "tame step4"
proof (rule tameI)
  fix w :: jstring assume w: "w \<noteq> []"
  let ?alts = "map js [''al'', ''ance'', ''ence'', ''er'', ''ic'', ''able'', ''ible'', ''ant'', ''ement'',
    ''ment'', ''ent'', ''ou'', ''ism'', ''ate'', ''iti'', ''ous'', ''ive'', ''ize'']"
  show "step4 w \<noteq> [] \<and> hd (step4 w) = hd w \<and> length (step4 w) \<le> length w"
  proof (cases "splitStem ?alts w")
    case (Some p)
    then obtain stem suffix where p: "splitStem ?alts w = Some (stem, suffix)" by (cases p) auto
    then show ?thesis
      unfolding step4_def p using w stem_extend [OF p, of "[]"] by (simp del: js.simps list.map)
  next
    case none: None
    show ?thesis
    proof (cases "splitStem [js ''sion'', js ''tion''] w")
      case None
      with none w show ?thesis unfolding step4_def none by (simp del: js.simps)
    next
      case (Some p)
      then obtain stem suffix where p: "splitStem [js ''sion'', js ''tion''] w = Some (stem, suffix)"
        by (cases p) auto
      show ?thesis
        unfolding step4_def none using w stem_extend [OF p, of "take 1 suffix"]
        by (simp add: p del: js.simps)
    qed
  qed
qed

lemma tame_step5: "tame step5"
proof -
  let ?first = "\<lambda>w. case splitStem [js ''e''] w of
      Some (stem, _) \<Rightarrow>
        (if test mgr1 stem \<or> (test meq1 stem \<and> \<not> test re_cvc stem) then stem else w)
    | None \<Rightarrow> w"
  let ?second = "\<lambda>w. if endsWith (js ''ll'') w \<and> test mgr1 w then dropLast w else w"
  have "tame ?first"
  proof (rule tameI)
    fix w :: jstring assume w: "w \<noteq> []"
    show "?first w \<noteq> [] \<and> hd (?first w) = hd w \<and> length (?first w) \<le> length w"
    proof (cases "splitStem [js ''e''] w")
      case (Some p)
      then obtain stem suffix where p: "splitStem [js ''e''] w = Some (stem, suffix)"
        by (cases p) auto
      with w stem_extend [OF p, of "[]"] show ?thesis by (simp del: js.simps)
    qed (use w in simp)
  qed
  moreover have "tame ?second"
  proof (rule tameI)
    fix w :: jstring assume w: "w \<noteq> []"
    have "endsWith (js ''ll'') w \<Longrightarrow> 2 \<le> length w" by (simp add: endsWith_def)
    with w dropLast_tame [of w]
    show "?second w \<noteq> [] \<and> hd (?second w) = hd w \<and> length (?second w) \<le> length w" by simp
  qed
  ultimately have "tame (\<lambda>w. ?second (?first w))" by (rule tame_comp)
  then show ?thesis unfolding step5_def [abs_def] Let_def .
qed

definition allSteps :: "jstring \<Rightarrow> jstring" where
  "allSteps w = step5 (step4 (step3 (step2 (step1c (step1b (step1a w))))))"

lemma tame_allSteps: "tame allSteps"
  unfolding allSteps_def [abs_def]
  using tame_comp [OF tame_comp [OF tame_comp [OF tame_comp [OF tame_comp [OF tame_comp
    [OF tame_step1a tame_step1b] tame_step1c] tame_step2] tame_step3] tame_step4] tame_step5] .

lemma stemWord_alt:
  "stemWord w =
     (if length w < 3 then w
      else if hd w = 121 then 121 # drop 1 (allSteps (89 # tl w)) else allSteps w)"
  by (cases w) (auto simp: stemWord_def allSteps_def Let_def)

lemma tame_stemWord: "tame stemWord"
proof (rule tameI)
  fix w :: jstring assume w: "w \<noteq> []"
  show "stemWord w \<noteq> [] \<and> hd (stemWord w) = hd w \<and> length (stemWord w) \<le> length w"
    using w tameD [OF tame_allSteps, of w] tameD(1,3) [OF tame_allSteps, of "89 # tl w"]
    by (cases w) (auto simp: stemWord_alt)
qed

section \<open>Lemmas: Porter's measure\<close>

text \<open>
  The specification of the expressions. A letter other than a, e, i, o, u is a consonant,
  except that a y after a consonant is a vowel. A word is \<open>[C](VC)\<^sup>m[V]\<close> for
  runs of consonants and of vowels, and its measure is \<open>m\<close>: how often a vowel is
  followed by a consonant.
\<close>

definition consonant :: "bool \<Rightarrow> nat \<Rightarrow> bool" where
  "consonant prev c \<longleftrightarrow> c \<notin> vowel_set \<and> (c = 121 \<longrightarrow> \<not> prev)"

fun measureFrom :: "bool \<Rightarrow> jstring \<Rightarrow> nat" where
  "measureFrom prev [] = 0"
| "measureFrom prev (c # s) =
     (if \<not> prev \<and> consonant prev c then 1 else 0) + measureFrom (consonant prev c) s"

definition measureOf :: "jstring \<Rightarrow> nat" where
  "measureOf s = (case s of [] \<Rightarrow> 0 | c # t \<Rightarrow> measureFrom (consonant False c) t)"

lemma in_many: "r \<in> set (many p s) \<longleftrightarrow> (\<exists>u. s = u @ r \<and> list_all p u)"
proof (induction s)
  case (Cons c s)
  have "(\<exists>u. c # s = u @ r \<and> list_all p u) \<longleftrightarrow> r = c # s \<or> p c \<and> (\<exists>u. s = u @ r \<and> list_all p u)"
    (is "?L \<longleftrightarrow> ?R")
  proof
    assume ?L
    then obtain u where "c # s = u @ r" "list_all p u" by blast
    then show ?R by (cases u) auto
  next
    assume ?R
    then show ?L
    proof
      assume "p c \<and> (\<exists>u. s = u @ r \<and> list_all p u)"
      then obtain u where "p c" "s = u @ r" "list_all p u" by blast
      then show ?L by (intro exI [of _ "c # u"]) simp
    qed auto
  qed
  with Cons show ?case by auto
qed simp

lemma in_re_C:
  "r \<in> set (rests re_C t) \<longleftrightarrow>
   (\<exists>c cs. t = c # cs @ r \<and> cls_c c \<and> list_all (\<lambda>x. \<not> cls_v x) cs)"
  by (cases t) (auto simp: re_C_def in_many)

lemma in_re_V:
  "r \<in> set (rests re_V t) \<longleftrightarrow>
   (\<exists>x vs. t = x # vs @ r \<and> cls_v x \<and> list_all (\<lambda>x. x \<in> vowel_set) vs)"
  by (cases t) (auto simp: re_V_def in_many)

lemma measure_consonants:
  "list_all (\<lambda>x. \<not> cls_v x) cs \<Longrightarrow> measureFrom True (cs @ r) = measureFrom True r"
  by (induction cs) (auto simp: consonant_def cls_v_def)

lemma measure_vowels:
  "list_all (\<lambda>x. x \<in> vowel_set) vs \<Longrightarrow> measureFrom False (vs @ r) = measureFrom False r"
  by (induction vs) (auto simp: consonant_def)

lemma measure_C: "r \<in> set (rests re_C t) \<Longrightarrow> measureFrom False t = Suc (measureFrom True r)"
  by (auto simp: in_re_C cls_c_def consonant_def measure_consonants)

lemma measure_V: "r \<in> set (rests re_V t) \<Longrightarrow> measureFrom True t = measureFrom False r"
  by (auto simp: in_re_V consonant_def cls_v_def measure_vowels)

lemma measure_at_vowel: "cls_v x \<Longrightarrow> measureFrom True (x # t) = measureFrom False t"
proof -
  assume "cls_v x"
  then have "consonant True x = False" by (auto simp: consonant_def cls_v_def)
  then show ?thesis by simp
qed

text \<open>The runs at the head of a word, as long as possible.\<close>

lemma consonant_run:
  obtains cs r where "t = cs @ r" "list_all (\<lambda>x. \<not> cls_v x) cs" "r = [] \<or> cls_v (hd r)"
proof
  show "t = takeWhile (\<lambda>x. \<not> cls_v x) t @ dropWhile (\<lambda>x. \<not> cls_v x) t" by simp
  show "list_all (\<lambda>x. \<not> cls_v x) (takeWhile (\<lambda>x. \<not> cls_v x) t)"
    by (auto simp: list_all_iff dest: set_takeWhileD)
  show "dropWhile (\<lambda>x. \<not> cls_v x) t = [] \<or> cls_v (hd (dropWhile (\<lambda>x. \<not> cls_v x) t))"
    using hd_dropWhile by blast
qed

lemma vowel_run:
  obtains vs r where "t = vs @ r" "list_all (\<lambda>x. x \<in> vowel_set) vs" "r = [] \<or> hd r \<notin> vowel_set"
proof
  show "t = takeWhile (\<lambda>x. x \<in> vowel_set) t @ dropWhile (\<lambda>x. x \<in> vowel_set) t" by simp
  show "list_all (\<lambda>x. x \<in> vowel_set) (takeWhile (\<lambda>x. x \<in> vowel_set) t)"
    by (auto simp: list_all_iff dest: set_takeWhileD)
  show "dropWhile (\<lambda>x. x \<in> vowel_set) t = [] \<or> hd (dropWhile (\<lambda>x. x \<in> vowel_set) t) \<notin> vowel_set"
    using hd_dropWhile by blast
qed

text \<open>
  One round from a vowel on: either vowels only are left, or a consonant run follows
  that ends before the next vowel.
\<close>

lemma round_from_vowel:
  assumes "cls_v x"
  shows "(measureFrom False t = 0 \<and> list_all (\<lambda>x. x \<in> vowel_set) t) \<or>
    (\<exists>r1 r. r1 \<in> set (rests re_V (x # t)) \<and> r \<in> set (rests re_C r1) \<and> (r = [] \<or> cls_v (hd r)) \<and>
       measureFrom False t = Suc (measureFrom True r))"
proof -
  obtain vs r1 where t: "t = vs @ r1" "list_all (\<lambda>x. x \<in> vowel_set) vs" "r1 = [] \<or> hd r1 \<notin> vowel_set"
    by (rule vowel_run)
  show ?thesis
  proof (cases r1)
    case Nil
    with t show ?thesis using measure_vowels [of vs "[]"] by simp
  next
    case (Cons c u)
    obtain cs r where u: "u = cs @ r" "list_all (\<lambda>x. \<not> cls_v x) cs" "r = [] \<or> cls_v (hd r)"
      by (rule consonant_run)
    have "r1 \<in> set (rests re_V (x # t))" using assms t by (auto simp: in_re_V)
    moreover have r: "r \<in> set (rests re_C r1)"
      using Cons t(3) u by (auto simp: in_re_C cls_c_def)
    moreover have "measureFrom False t = Suc (measureFrom True r)"
      using measure_vowels [OF t(2), of r1] measure_C [OF r] t(1) by simp
    ultimately show ?thesis using u(3) by blast
  qed
qed

text \<open>
  Where the stem may begin: at the start, or after an initial consonant run. Both have the
  measure of the word, and the longest such run leaves a vowel in front or nothing.
\<close>

definition starts :: "jstring \<Rightarrow> jstring list" where
  "starts s = rests (Opt re_C) s"

lemma measure_start:
  assumes "s = [] \<or> hd s \<noteq> 121" "r \<in> set (starts s)"
  shows "measureFrom True r = measureOf s"
proof -
  have "measureFrom True s = measureOf s"
    using assms(1) by (cases s) (auto simp: measureOf_def consonant_def)
  moreover have "measureFrom True s = measureFrom True r" if "r \<in> set (rests re_C s)"
    using that assms(1) by (auto simp: in_re_C cls_c_def consonant_def measure_consonants)
  ultimately show ?thesis using assms(2) by (auto simp: starts_def)
qed

lemma start_exists:
  obtains r where "r \<in> set (starts s)" "r = [] \<or> cls_v (hd r)"
proof -
  obtain cs r where s: "s = cs @ r" "list_all (\<lambda>x. \<not> cls_v x) cs" "r = [] \<or> cls_v (hd r)"
    by (rule consonant_run)
  have "r \<in> set (starts s)"
  proof (cases cs)
    case (Cons c cs')
    with s have "r \<in> set (rests re_C s)" by (auto simp: in_re_C cls_c_def cls_v_def)
    then show ?thesis by (simp add: starts_def)
  qed (use s in \<open>simp add: starts_def\<close>)
  with s(3) that show thesis by blast
qed

lemma test_Seq: "test (Seq a b) s \<longleftrightarrow> (\<exists>r \<in> set (rests a s). test b r)"
  by (auto simp: test_def)

lemma test_rest: "test a s \<longleftrightarrow> (\<exists>r. r \<in> set (rests a s))"
  by (auto simp: test_def ex_in_conv)

lemma test_Opt_End: "test (Seq (Opt a) End) s \<longleftrightarrow> s = [] \<or> [] \<in> set (rests a s)"
  unfolding test_Seq by (auto simp: test_def)

lemma test_mgr0_iff:
  "test mgr0 s \<longleftrightarrow> (\<exists>r0 \<in> set (starts s). \<exists>r1 \<in> set (rests re_V r0). \<exists>r2. r2 \<in> set (rests re_C r1))"
  unfolding mgr0_def test_Seq test_rest [of re_C] starts_def ..

lemma test_mgr1_iff:
  "test mgr1 s \<longleftrightarrow> (\<exists>r0 \<in> set (starts s). \<exists>r1 \<in> set (rests re_V r0). \<exists>r2 \<in> set (rests re_C r1).
     \<exists>r3 \<in> set (rests re_V r2). \<exists>r4. r4 \<in> set (rests re_C r3))"
  unfolding mgr1_def test_Seq test_rest [of re_C] starts_def ..

lemma test_meq1_iff:
  "test meq1 s \<longleftrightarrow> (\<exists>r0 \<in> set (starts s). \<exists>r1 \<in> set (rests re_V r0). \<exists>r2 \<in> set (rests re_C r1).
     r2 = [] \<or> [] \<in> set (rests re_V r2))"
  unfolding meq1_def test_Seq [of "Opt re_C"] test_Seq [of re_V] test_Seq [of re_C] test_Opt_End
    starts_def ..

lemma mgr0_measure:
  assumes "s = [] \<or> hd s \<noteq> 121"
  shows "test mgr0 s \<longleftrightarrow> 0 < measureOf s"
proof
  assume "test mgr0 s"
  then obtain r0 r1 r2 where r: "r0 \<in> set (starts s)" "r1 \<in> set (rests re_V r0)" "r2 \<in> set (rests re_C r1)"
    unfolding test_mgr0_iff by blast
  then show "0 < measureOf s"
    using measure_start [OF assms r(1)] measure_V [OF r(2)] measure_C [OF r(3)] by simp
next
  assume pos: "0 < measureOf s"
  obtain r0 where r0: "r0 \<in> set (starts s)" "r0 = [] \<or> cls_v (hd r0)" by (rule start_exists)
  with pos measure_start [OF assms r0(1)] obtain x t where x: "r0 = x # t" "cls_v x"
    by (cases r0) auto
  then have "measureFrom False t = measureOf s"
    using measure_start [OF assms r0(1)] measure_at_vowel [OF x(2), of t] by simp
  with pos obtain r1 r2 where "r1 \<in> set (rests re_V r0)" "r2 \<in> set (rests re_C r1)"
    using round_from_vowel [OF x(2), of t] unfolding x(1) by auto
  with r0(1) show "test mgr0 s" unfolding test_mgr0_iff by blast
qed

text \<open>The first round of a word with a positive measure, and what is left of the measure.\<close>

lemma first_round:
  assumes "s = [] \<or> hd s \<noteq> 121" "0 < measureOf s"
  obtains r0 r1 r2 where "r0 \<in> set (starts s)" "r1 \<in> set (rests re_V r0)" "r2 \<in> set (rests re_C r1)"
    "r2 = [] \<or> cls_v (hd r2)" "measureOf s = Suc (measureFrom True r2)"
proof -
  obtain r0 where r0: "r0 \<in> set (starts s)" "r0 = [] \<or> cls_v (hd r0)" by (rule start_exists)
  with assms(2) measure_start [OF assms(1) r0(1)] obtain x t where x: "r0 = x # t" "cls_v x"
    by (cases r0) auto
  then have m: "measureFrom False t = measureOf s"
    using measure_start [OF assms(1) r0(1)] measure_at_vowel [OF x(2), of t] by simp
  with assms(2) round_from_vowel [OF x(2), of t] obtain r1 r2 where
    "r1 \<in> set (rests re_V r0)" "r2 \<in> set (rests re_C r1)" "r2 = [] \<or> cls_v (hd r2)"
    "measureFrom False t = Suc (measureFrom True r2)"
    unfolding x(1) by auto
  with that r0(1) m show thesis by simp
qed

lemma mgr1_measure:
  assumes "s = [] \<or> hd s \<noteq> 121"
  shows "test mgr1 s \<longleftrightarrow> 1 < measureOf s"
proof
  assume "test mgr1 s"
  then obtain r0 r1 r2 r3 r4 where r: "r0 \<in> set (starts s)" "r1 \<in> set (rests re_V r0)"
    "r2 \<in> set (rests re_C r1)" "r3 \<in> set (rests re_V r2)" "r4 \<in> set (rests re_C r3)"
    unfolding test_mgr1_iff by blast
  then show "1 < measureOf s"
    using measure_start [OF assms r(1)] measure_V [OF r(2)] measure_C [OF r(3)]
      measure_V [OF r(4)] measure_C [OF r(5)] by simp
next
  assume m: "1 < measureOf s"
  then obtain r0 r1 r2 where r: "r0 \<in> set (starts s)" "r1 \<in> set (rests re_V r0)"
    "r2 \<in> set (rests re_C r1)" "r2 = [] \<or> cls_v (hd r2)" "measureOf s = Suc (measureFrom True r2)"
    using first_round [OF assms] by auto
  with m obtain x t where x: "r2 = x # t" "cls_v x" by (cases r2) auto
  have "0 < measureFrom False t" using m r(5) x measure_at_vowel [OF x(2), of t] by simp
  then obtain r3 r4 where "r3 \<in> set (rests re_V r2)" "r4 \<in> set (rests re_C r3)"
    using round_from_vowel [OF x(2), of t] unfolding x(1) by auto
  with r(1-3) show "test mgr1 s" unfolding test_mgr1_iff by blast
qed

lemma meq1_measure:
  assumes "s = [] \<or> hd s \<noteq> 121"
  shows "test meq1 s \<longleftrightarrow> measureOf s = 1"
proof
  assume "test meq1 s"
  then obtain r0 r1 r2 where r: "r0 \<in> set (starts s)" "r1 \<in> set (rests re_V r0)"
    "r2 \<in> set (rests re_C r1)" "r2 = [] \<or> [] \<in> set (rests re_V r2)"
    unfolding test_meq1_iff by blast
  from r(4) have "measureFrom True r2 = 0" using measure_V [of "[]" r2] by auto
  then show "measureOf s = 1"
    using measure_start [OF assms r(1)] measure_V [OF r(2)] measure_C [OF r(3)] by simp
next
  assume m: "measureOf s = 1"
  then obtain r0 r1 r2 where r: "r0 \<in> set (starts s)" "r1 \<in> set (rests re_V r0)"
    "r2 \<in> set (rests re_C r1)" "r2 = [] \<or> cls_v (hd r2)" "measureOf s = Suc (measureFrom True r2)"
    using first_round [OF assms] by auto
  have "r2 = [] \<or> [] \<in> set (rests re_V r2)"
  proof (cases r2)
    case (Cons x t)
    with r(4) have x: "cls_v x" by simp
    have "measureFrom False t = 0" using m r(5) Cons measure_at_vowel [OF x, of t] by simp
    with round_from_vowel [OF x, of t] have "list_all (\<lambda>x. x \<in> vowel_set) t" by auto
    with x Cons show ?thesis by (auto simp: in_re_V)
  qed simp
  with r(1-3) show "test meq1 s" unfolding test_meq1_iff by blast
qed

section \<open>Properties\<close>

text \<open>
  The regular expressions of the stemmer compute Porter's measure: on a stem that does
  not begin with a \<open>y\<close> (the stemmer writes a leading \<open>y\<close> as a capital first) the tests
  \<open>mgr0\<close>, \<open>meq1\<close> and \<open>mgr1\<close>, with all the backtracking the engine may do, say that the
  number of vowel-consonant changes is positive, is one, and is greater than one.
\<close>

theorem measure_tests:
  assumes "s = [] \<or> hd s \<noteq> 121"
  shows "(test mgr0 s \<longleftrightarrow> 0 < measureOf s) \<and> (test meq1 s \<longleftrightarrow> measureOf s = 1) \<and>
    (test mgr1 s \<longleftrightarrow> 1 < measureOf s)"
  using mgr0_measure [OF assms] meq1_measure [OF assms] mgr1_measure [OF assms] by blast

theorem measure_tests_witness:
  "\<not> test mgr1 (js ''trouble'') \<and> test meq1 (js ''trouble'') \<and> test mgr1 (js ''private'')"
  using measure_tests [of "js ''trouble''"] measure_tests [of "js ''private''"]
  by (simp add: measureOf_def consonant_def)

text \<open>
  C13. Stemming shortens and never loses a word: the stem of a word is not empty,
  begins with the word's first character (a leading \<open>y\<close>, which is a capital inside
  the steps, included) and is not longer than the word.
\<close>

theorem stem_of_word:
  assumes "w \<noteq> []"
  shows "stemWord w \<noteq> [] \<and> hd (stemWord w) = hd w \<and> length (stemWord w) \<le> length w"
  using tameD [OF tame_stemWord assms] by blast

theorem stem_of_word_witness:
  "stemWord (js ''yearly'') \<noteq> [] \<and> hd (stemWord (js ''yearly'')) = hd (js ''yearly'') \<and>
   length (stemWord (js ''yearly'')) \<le> length (js ''yearly'')"
  by (rule stem_of_word) simp

end
