(* ===== verification/Doc_Splitter.thy ===== *)
theory Doc_Splitter
  imports JS_Prelude
begin

text \<open>
  The query splitter of the documentation search
  (\<^verbatim>\<open>prebuilts/qemu/share/doc/qemu/_static/language_data.js\<close>): the list of stop words,
  the table of the characters that separate words (\<open>splitChars\<close>) and the
  loop over the query (\<open>splitQuery\<close>). The lemmas show that the loop returns
  the maximal runs of characters that are not separators.
\<close>

section \<open>Tables\<close>

definition stopwords :: "jstring list" where
  "stopwords = map js
    [''a'', ''and'', ''are'', ''as'', ''at'', ''be'', ''but'', ''by'', ''for'', ''if'', ''in'',
     ''into'', ''is'', ''it'', ''near'', ''no'', ''not'', ''of'', ''on'', ''or'', ''such'',
     ''that'', ''the'', ''their'', ''then'', ''there'', ''these'', ''they'', ''this'', ''to'',
     ''was'', ''will'', ''with'']"

definition splitSingles :: "nat list" where
  "splitSingles =
    [96, 180, 187, 191, 215, 247, 749, 885, 903, 907, 909, 930, 1014, 1648, 1748, 1809, 2416,
     2473, 2481, 2526, 2601, 2609, 2612, 2615, 2653, 2702, 2706, 2729, 2737, 2740, 2857, 2865,
     2868, 2910, 2928, 2948, 2961, 2971, 2973, 3085, 3089, 3113, 3124, 3213, 3217, 3241, 3252,
     3295, 3341, 3345, 3369, 3506, 3516, 3633, 3715, 3721, 3736, 3744, 3748, 3750, 3756, 3761,
     3781, 3912, 4239, 4347, 4681, 4695, 4697, 4745, 4785, 4799, 4801, 4823, 4881, 5760, 5901,
     5997, 6313, 7405, 8024, 8026, 8028, 8030, 8117, 8125, 8133, 8181, 8468, 8485, 8487, 8489,
     8494, 8527, 11311, 11359, 11687, 11695, 11703, 11711, 11719, 11727, 11735, 12448, 12539,
     43010, 43014, 43019, 43587, 43696, 43713, 64286, 64297, 64311, 64317, 64319, 64322, 64325,
     65141]"

definition splitRanges :: "(nat \<times> nat) list" where
  "splitRanges =
    [(0, 47), (58, 64), (91, 94), (123, 169), (171, 177), (182, 184), (706, 709), (722, 735),
     (741, 747), (751, 879), (888, 889), (894, 901), (1154, 1161), (1318, 1328), (1367, 1368),
     (1370, 1376), (1416, 1487), (1515, 1519), (1523, 1568), (1611, 1631), (1642, 1645),
     (1750, 1764), (1767, 1773), (1789, 1790), (1792, 1807), (1840, 1868), (1958, 1968),
     (1970, 1983), (2027, 2035), (2038, 2041), (2043, 2047), (2070, 2073), (2075, 2083),
     (2085, 2087), (2089, 2307), (2362, 2364), (2366, 2383), (2385, 2391), (2402, 2405),
     (2419, 2424), (2432, 2436), (2445, 2446), (2449, 2450), (2483, 2485), (2490, 2492),
     (2494, 2509), (2511, 2523), (2530, 2533), (2546, 2547), (2554, 2564), (2571, 2574),
     (2577, 2578), (2618, 2648), (2655, 2661), (2672, 2673), (2677, 2692), (2746, 2748),
     (2750, 2767), (2769, 2783), (2786, 2789), (2800, 2820), (2829, 2830), (2833, 2834),
     (2874, 2876), (2878, 2907), (2914, 2917), (2930, 2946), (2955, 2957), (2966, 2968),
     (2976, 2978), (2981, 2983), (2987, 2989), (3002, 3023), (3025, 3045), (3059, 3076),
     (3130, 3132), (3134, 3159), (3162, 3167), (3170, 3173), (3184, 3191), (3199, 3204),
     (3258, 3260), (3262, 3293), (3298, 3301), (3312, 3332), (3386, 3388), (3390, 3423),
     (3426, 3429), (3446, 3449), (3456, 3460), (3479, 3481), (3518, 3519), (3527, 3584),
     (3636, 3647), (3655, 3663), (3674, 3712), (3717, 3718), (3723, 3724), (3726, 3731),
     (3752, 3753), (3764, 3772), (3774, 3775), (3783, 3791), (3802, 3803), (3806, 3839),
     (3841, 3871), (3892, 3903), (3949, 3975), (3980, 4095), (4139, 4158), (4170, 4175),
     (4182, 4185), (4190, 4192), (4194, 4196), (4199, 4205), (4209, 4212), (4226, 4237),
     (4250, 4255), (4294, 4303), (4349, 4351), (4686, 4687), (4702, 4703), (4750, 4751),
     (4790, 4791), (4806, 4807), (4886, 4887), (4955, 4968), (4989, 4991), (5008, 5023),
     (5109, 5120), (5741, 5742), (5787, 5791), (5867, 5869), (5873, 5887), (5906, 5919),
     (5938, 5951), (5970, 5983), (6001, 6015), (6068, 6102), (6104, 6107), (6109, 6111),
     (6122, 6127), (6138, 6159), (6170, 6175), (6264, 6271), (6315, 6319), (6390, 6399),
     (6429, 6469), (6510, 6511), (6517, 6527), (6572, 6592), (6600, 6607), (6619, 6655),
     (6679, 6687), (6741, 6783), (6794, 6799), (6810, 6822), (6824, 6916), (6964, 6980),
     (6988, 6991), (7002, 7042), (7073, 7085), (7098, 7167), (7204, 7231), (7242, 7244),
     (7294, 7400), (7410, 7423), (7616, 7679), (7958, 7959), (7966, 7967), (8006, 8007),
     (8014, 8015), (8062, 8063), (8127, 8129), (8141, 8143), (8148, 8149), (8156, 8159),
     (8173, 8177), (8189, 8303), (8306, 8307), (8314, 8318), (8330, 8335), (8341, 8449),
     (8451, 8454), (8456, 8457), (8470, 8472), (8478, 8483), (8506, 8507), (8512, 8516),
     (8522, 8525), (8586, 9311), (9372, 9449), (9472, 10101), (10132, 11263), (11493, 11498),
     (11503, 11516), (11518, 11519), (11558, 11567), (11622, 11630), (11632, 11647),
     (11671, 11679), (11743, 11822), (11824, 12292), (12296, 12320), (12330, 12336),
     (12342, 12343), (12349, 12352), (12439, 12444), (12544, 12548), (12590, 12592),
     (12687, 12689), (12694, 12703), (12728, 12783), (12800, 12831), (12842, 12880),
     (12896, 12927), (12938, 12976), (12992, 13311), (19894, 19967), (40908, 40959),
     (42125, 42191), (42238, 42239), (42509, 42511), (42540, 42559), (42592, 42593),
     (42607, 42622), (42648, 42655), (42736, 42774), (42784, 42785), (42889, 42890),
     (42893, 43002), (43043, 43055), (43062, 43071), (43124, 43137), (43188, 43215),
     (43226, 43249), (43256, 43258), (43260, 43263), (43302, 43311), (43335, 43359),
     (43389, 43395), (43443, 43470), (43482, 43519), (43561, 43583), (43596, 43599),
     (43610, 43615), (43639, 43641), (43643, 43647), (43698, 43700), (43703, 43704),
     (43710, 43711), (43715, 43738), (43742, 43967), (44003, 44015), (44026, 44031),
     (55204, 55215), (55239, 55242), (55292, 55295), (57344, 63743), (64046, 64047),
     (64110, 64111), (64218, 64255), (64263, 64274), (64280, 64284), (64434, 64466),
     (64830, 64847), (64912, 64913), (64968, 65007), (65020, 65135), (65277, 65295),
     (65306, 65312), (65339, 65344), (65371, 65381), (65471, 65473), (65480, 65481),
     (65488, 65489), (65496, 65497)]"

text \<open>
  The table is an object with the value \<open>true\<close> at every code of a single
  and at every code of a range; reading it at another code gives \<open>undefined\<close>.
\<close>

definition splitChars :: "nat \<Rightarrow> bool" where
  "splitChars c \<longleftrightarrow> c \<in> set splitSingles \<or> list_ex (\<lambda>(start, end'). start \<le> c \<and> c \<le> end') splitRanges"

section \<open>The loop\<close>

text \<open>
  The loop from index \<open>i\<close> on, where the rest of the query is still to be read;
  \<open>start\<close> is the index at which the current word began (\<open>None\<close> for \<open>-1\<close>).
\<close>

fun splitLoop :: "jstring \<Rightarrow> nat \<Rightarrow> nat option \<Rightarrow> jstring \<Rightarrow> jstring list" where
  "splitLoop query i start [] = (case start of Some b \<Rightarrow> [drop b query] | None \<Rightarrow> [])"
| "splitLoop query i start (c # rest) =
     (if splitChars c then
        (case start of
           Some b \<Rightarrow> slice b i query # splitLoop query (Suc i) None rest
         | None \<Rightarrow> splitLoop query (Suc i) None rest)
      else splitLoop query (Suc i) (case start of None \<Rightarrow> Some i | Some b \<Rightarrow> Some b) rest)"

definition splitQuery :: "jstring \<Rightarrow> jstring list" where
  "splitQuery query = splitLoop query 0 None query"

section \<open>Lemmas\<close>

text \<open>
  The specification: cut the text at every separator, and keep the pieces that are not
  empty, which are the maximal runs of characters that are not separators.
\<close>

fun fields :: "('a \<Rightarrow> bool) \<Rightarrow> 'a list \<Rightarrow> 'a list list" where
  "fields sep [] = [[]]"
| "fields sep (c # s) =
     (if sep c then [] # fields sep s
      else case fields sep s of w # ws \<Rightarrow> (c # w) # ws | [] \<Rightarrow> [[c]])"

definition runs :: "('a \<Rightarrow> bool) \<Rightarrow> 'a list \<Rightarrow> 'a list list" where
  "runs sep s = filter (\<lambda>w. w \<noteq> []) (fields sep s)"

lemma fields_not_Nil [simp]: "fields sep s \<noteq> []"
  by (cases s) (auto split: list.splits)

lemma fields_word:
  "list_all (\<lambda>c. \<not> sep c) w \<Longrightarrow>
   fields sep (w @ s) = (w @ hd (fields sep s)) # tl (fields sep s)"
  by (induction w) (auto split: list.splits)

lemma runs_Nil [simp]: "runs sep [] = []"
  by (simp add: runs_def)

lemma runs_skip: "sep c \<Longrightarrow> runs sep (c # s) = runs sep s"
  by (simp add: runs_def)

lemma runs_word:
  assumes "w \<noteq> []" "list_all (\<lambda>c. \<not> sep c) w" "s = [] \<or> sep (hd s)"
  shows "runs sep (w @ s) = w # runs sep s"
proof -
  have "hd (fields sep s) = []" using assms(3) by (cases s) auto
  with assms(1) show ?thesis
    using fields_word [OF assms(2), of s] by (cases "fields sep s") (auto simp: runs_def)
qed

lemma fields_free: "w \<in> set (fields sep s) \<Longrightarrow> list_all (\<lambda>c. \<not> sep c) w"
  by (induction s arbitrary: w) (auto split: list.splits if_splits)

lemma runs_in: "w \<in> set (runs sep s) \<Longrightarrow> w \<noteq> [] \<and> list_all (\<lambda>c. \<not> sep c) w"
  by (auto simp: runs_def fields_free)

lemma concat_fields: "concat (fields sep s) = filter (\<lambda>c. \<not> sep c) s"
proof (induction s)
  case (Cons c s)
  then show ?case by (cases "fields sep s") auto
qed simp

lemma concat_runs: "concat (runs sep s) = filter (\<lambda>c. \<not> sep c) s"
proof -
  have "concat (filter (\<lambda>w. w \<noteq> []) ws) = concat ws" for ws :: "'a list list"
    by (induction ws) auto
  then show ?thesis by (simp add: runs_def concat_fields)
qed

lemma splitLoop_runs:
  assumes "query = pre @ rest" "i = length pre"
    and "case start of None \<Rightarrow> True | Some b \<Rightarrow> b < i \<and> list_all (\<lambda>c. \<not> splitChars c) (drop b pre)"
  shows "splitLoop query i start rest =
    runs splitChars ((case start of None \<Rightarrow> [] | Some b \<Rightarrow> drop b pre) @ rest)"
  using assms
proof (induction query i start rest arbitrary: pre rule: splitLoop.induct)
  case (1 query i start)
  then show ?case
    using runs_word [of "drop (the start) pre" splitChars "[]"]
    by (cases start) auto
next
  case (2 query i start c rest)
  let ?p = "\<lambda>c. \<not> splitChars c"
  have q: "query = (pre @ [c]) @ rest" "Suc i = length (pre @ [c])" using "2.prems" by auto
  show ?case
  proof (cases "splitChars c")
    case sep: True
    show ?thesis
    proof (cases start)
      case None
      with "2.IH"(1) [OF sep None q] sep show ?thesis by (simp add: runs_skip)
    next
      case (Some b)
      then have w: "drop b pre \<noteq> []" "list_all ?p (drop b pre)" using "2.prems" by auto
      have "slice b i query = drop b pre" using "2.prems" Some by (simp add: slice_def)
      with Some sep w "2.IH"(2) [OF sep Some q] show ?thesis
        using runs_word [of "drop b pre" splitChars "c # rest"] by (simp add: runs_skip)
    qed
  next
    case word: False
    show ?thesis
    proof (cases start)
      case None
      with "2.IH"(3) [OF word q] "2.prems" word show ?thesis by simp
    next
      case (Some b)
      with "2.IH"(3) [OF word q] "2.prems" word show ?thesis by simp
    qed
  qed
qed

lemma splitQuery_runs: "splitQuery q = runs splitChars q"
  using splitLoop_runs [of q "[]" q 0 None] by (simp add: splitQuery_def)

lemma splitChars_blank: "splitChars 32"
  by (simp add: splitChars_def splitRanges_def)

lemma splitQuery_join:
  "\<forall>w \<in> set ws. w \<noteq> [] \<and> (\<forall>c \<in> set w. \<not> splitChars c) \<Longrightarrow> splitQuery (join [32] ws) = ws"
proof (induction ws rule: induct_list012)
  case (2 w)
  then show ?case
    using runs_word [of w splitChars "[]"] by (simp add: splitQuery_runs list_all_iff)
next
  case (3 w v ws)
  then have "runs splitChars (w @ 32 # join [32] (v # ws)) =
      w # runs splitChars (32 # join [32] (v # ws))"
    by (intro runs_word) (auto simp: list_all_iff splitChars_blank)
  with 3 show ?case by (simp add: splitQuery_runs runs_skip splitChars_blank)
qed (simp add: splitQuery_def)

section \<open>Properties\<close>

text \<open>
  C14. The splitter returns the maximal runs of characters that are not separators, in
  order: it cuts the query at every separator and keeps the pieces that are not empty.
  No character that is not a separator is lost, and no word is empty or holds
  a separator.
\<close>

theorem splitQuery_words:
  "splitQuery q = filter (\<lambda>w. w \<noteq> []) (fields splitChars q) \<and>
   concat (splitQuery q) = filter (\<lambda>c. \<not> splitChars c) q \<and>
   list_all (\<lambda>w. w \<noteq> [] \<and> list_all (\<lambda>c. \<not> splitChars c) w) (splitQuery q)"
  by (auto simp: splitQuery_runs concat_runs runs_in list_all_iff simp flip: runs_def
      dest: runs_in [unfolded list_all_iff])

text \<open>
  Splitting undoes joining: a list of words without separators, joined by blanks, is
  the list of words the splitter returns.
\<close>

theorem splitQuery_roundtrip:
  assumes "\<forall>w \<in> set ws. w \<noteq> [] \<and> (\<forall>c \<in> set w. \<not> splitChars c)"
  shows "splitQuery (join [32] ws) = ws"
  using assms by (rule splitQuery_join)

theorem splitQuery_roundtrip_witness:
  "splitQuery (join [32] [js ''ab'', js ''c1'']) = [js ''ab'', js ''c1'']"
  by (rule splitQuery_roundtrip) (simp add: splitChars_def splitSingles_def splitRanges_def)

end
