(* ===== verification/Doc_Search.thy ===== *)
theory Doc_Search
  imports Doc_Stemmer Doc_Splitter Doc_Tools JS_Sort "HOL-Library.List_Lexorder"
begin

text \<open>
  The search of the manual
  (\<^verbatim>\<open>prebuilts/qemu/share/doc/qemu/_static/searchtools.js\<close>): the analysis of the query,
  the search for object names (\<open>performObjectSearch\<close>) and for words
  (\<open>performTermsSearch\<close>), the order of the results, their links and summaries.
  The generated index is a record; a document number has a name, a file and a title. Objects
  of the program that serve as tables hold their own properties only: looking up a
  name that every object inherits (\<open>inheritedNames\<close>) is outside the model. The conversion to
  lower case is the argument \<open>lc\<close>.
\<close>

section \<open>The index and the scores\<close>

record obj_row =
  odoc :: nat
  otyp :: nat
  oprio :: nat
  oanchor :: jstring
  oname :: jstring

text \<open>The rows of a prefix, or the older form: a table from the name to the rest of the row.\<close>

datatype obj_table = Rows "obj_row list" | Named "(jstring \<times> obj_row) list"

text \<open>The documents of a word: a number, or an array of numbers.\<close>

datatype entry = Doc nat | Docs "nat list"

record index =
  docnames :: "nat \<Rightarrow> jstring"
  filenames :: "nat \<Rightarrow> jstring"
  titles :: "nat \<Rightarrow> jstring"
  objects :: "(jstring \<times> obj_table) list"
  objnames :: "nat \<Rightarrow> jstring \<times> jstring \<times> jstring"
  terms :: "(jstring \<times> entry) list"
  titleterms :: "(jstring \<times> entry) list"

record scorer =
  objNameMatch :: int
  objPartialMatch :: int
  objPrio :: "nat \<rightharpoonup> int"
  objPrioDefault :: int
  title_score :: int
  partialTitle :: int
  term_score :: int
  partialTerm :: int

definition Scorer :: scorer where
  "Scorer = \<lparr>objNameMatch = 11, objPartialMatch = 6, objPrio = [0 \<mapsto> 15, 1 \<mapsto> 5, 2 \<mapsto> -5],
     objPrioDefault = 0, title_score = 15, partialTitle = 7, term_score = 5, partialTerm = 2\<rparr>"

record item =
  idoc :: jstring
  ititle :: jstring
  ianchor :: jstring
  idescr :: "jstring option"
  iscore :: int
  ifile :: jstring

section \<open>The words of the query\<close>

record query_terms =
  searchterms :: "jstring list"
  excluded :: "jstring list"
  hlterms :: "jstring list"
  objectterms :: "jstring list"

definition pushNew :: "'a \<Rightarrow> 'a list \<Rightarrow> 'a list" where
  "pushNew x xs = (if x \<in> set xs then xs else xs @ [x])"

text \<open>The stem of a word, or the word itself when the stem is shorter than three characters.\<close>

definition searchWord :: "(jstring \<Rightarrow> jstring) \<Rightarrow> jstring \<Rightarrow> jstring" where
  "searchWord lc w = (if length (stemWord (lc w)) < 3 \<and> length w \<ge> 3 then w else stemWord (lc w))"

text \<open>One round of the loop over the words.\<close>

definition addWord :: "(jstring \<Rightarrow> jstring) \<Rightarrow> jstring \<Rightarrow> query_terms \<Rightarrow> query_terms" where
  "addWord lc w q0 =
     (let q = (if w \<noteq> [] then q0\<lparr>objectterms := objectterms q0 @ [lc w]\<rparr> else q0)
      in if lc w \<in> set stopwords \<or> w = [] then q
         else let word = searchWord lc w in
              if word \<noteq> [] \<and> hd word = 45
              then q\<lparr>excluded := pushNew (drop 1 word) (excluded q)\<rparr>
              else q\<lparr>hlterms := hlterms q @ [lc w], searchterms := pushNew word (searchterms q)\<rparr>)"

definition queryTerms :: "(jstring \<Rightarrow> jstring) \<Rightarrow> (jstring \<Rightarrow> jstring list) \<Rightarrow> jstring \<Rightarrow> query_terms" where
  "queryTerms lc split query =
     fold (addWord lc) (split query) \<lparr>searchterms = [], excluded = [], hlterms = [], objectterms = []\<rparr>"

text \<open>The splitter that is used when the language brings none.\<close>

definition defaultSplit :: "jstring \<Rightarrow> jstring list" where
  "defaultSplit query = splitSpaces False query"

section \<open>Object names\<close>

definition objRows :: "obj_table \<Rightarrow> obj_row list" where
  "objRows t = (case t of Rows rs \<Rightarrow> rs | Named es \<Rightarrow> map (\<lambda>(name, m). m\<lparr>oname := name\<rparr>) es)"

definition fullName :: "jstring \<Rightarrow> obj_row \<Rightarrow> jstring" where
  "fullName prefix r = (if prefix \<noteq> [] then prefix @ [46] else []) @ oname r"

definition nameScore :: "jstring \<Rightarrow> jstring \<Rightarrow> int" where
  "nameScore object fullnameLower =
     (let part = last (splitOn 46 fullnameLower)
      in if fullnameLower = object \<or> part = object then objNameMatch Scorer
         else if occurs_in object part then objPartialMatch Scorer
         else 0)"

definition prioScore :: "nat \<Rightarrow> int" where
  "prioScore p = (case objPrio Scorer p of Some s \<Rightarrow> s | None \<Rightarrow> objPrioDefault Scorer)"

definition haystack :: "(jstring \<Rightarrow> jstring) \<Rightarrow> index \<Rightarrow> jstring \<Rightarrow> obj_row \<Rightarrow> jstring" where
  "haystack lc idx prefix r =
     lc (join [32] [prefix, oname r, snd (snd (objnames idx (otyp r))), titles idx (odoc r)])"

definition anchorOf :: "index \<Rightarrow> jstring \<Rightarrow> obj_row \<Rightarrow> jstring" where
  "anchorOf idx prefix r =
     (if oanchor r = [] then fullName prefix r
      else if oanchor r = [45] then fst (snd (objnames idx (otyp r))) @ [45] @ fullName prefix r
      else oanchor r)"

definition objectMatch ::
  "(jstring \<Rightarrow> jstring) \<Rightarrow> (jstring \<Rightarrow> jstring) \<Rightarrow> index \<Rightarrow> jstring \<Rightarrow> jstring list \<Rightarrow> jstring \<Rightarrow> obj_row \<Rightarrow> item option"
where
  "objectMatch lc tr idx object otherterms prefix r =
     (if occurs_in object (lc (fullName prefix r)) \<and>
         (otherterms = [] \<or> list_all (\<lambda>t. occurs_in t (haystack lc idx prefix r)) otherterms)
      then Some \<lparr>idoc = docnames idx (odoc r), ititle = fullName prefix r,
             ianchor = [35] @ anchorOf idx prefix r,
             idescr = Some (snd (snd (objnames idx (otyp r))) @ tr (js '', in '') @ titles idx (odoc r)),
             iscore = nameScore object (lc (fullName prefix r)) + prioScore (oprio r),
             ifile = filenames idx (odoc r)\<rparr>
      else None)"

text \<open>The results, and the index in which the tables of the older form have become rows.\<close>

definition rowsIndex :: "index \<Rightarrow> index" where
  "rowsIndex idx = idx\<lparr>objects := map (\<lambda>(p, t). (p, Rows (objRows t))) (objects idx)\<rparr>"

definition performObjectSearch ::
  "(jstring \<Rightarrow> jstring) \<Rightarrow> (jstring \<Rightarrow> jstring) \<Rightarrow> index \<Rightarrow> jstring \<Rightarrow> jstring list \<Rightarrow> item list \<times> index"
where
  "performObjectSearch lc tr idx object otherterms =
     (concat (map (\<lambda>(prefix, t). List.map_filter (objectMatch lc tr idx object otherterms prefix) (objRows t))
        (objects idx)), rowsIndex idx)"

section \<open>Words\<close>

text \<open>The characters that have a meaning in a regular expression.\<close>

definition reSpecial :: "nat \<Rightarrow> bool" where
  "reSpecial c \<longleftrightarrow> c \<in> {46, 42, 43, 45, 63, 94, 36, 123, 125, 40, 41, 124, 91, 93, 92}"

definition escapeRegExp :: "jstring \<Rightarrow> jstring" where
  "escapeRegExp s = concat (map (\<lambda>c. if reSpecial c then [92, c] else [c]) s)"

text \<open>
  What a pattern without operators matches: an escaped special character and an ordinary
  character stand for themselves; \<open>None\<close> for a pattern with operators.
\<close>

fun reLiteral :: "jstring \<Rightarrow> jstring option" where
  "reLiteral [] = Some []"
| "reLiteral [c] = (if reSpecial c then None else Some [c])"
| "reLiteral (c # d # s) =
     (if c = 92 then (if reSpecial d then map_option ((#) d) (reLiteral s) else None)
      else if reSpecial c then None
      else map_option ((#) c) (reLiteral (d # s)))"

text \<open>\<open>w.match(pattern)\<close> for such a pattern.\<close>

definition matchWord :: "jstring \<Rightarrow> jstring \<Rightarrow> bool" where
  "matchWord w pattern = (case reLiteral pattern of Some p \<Rightarrow> occurs_in p w | None \<Rightarrow> False)"

text \<open>\<open>!terms[word]\<close>: no entry, or the document number 0.\<close>

definition falsyEntry :: "entry option \<Rightarrow> bool" where
  "falsyEntry e \<longleftrightarrow> e = None \<or> e = Some (Doc 0)"

definition entryFiles :: "entry \<Rightarrow> nat list" where
  "entryFiles e = (case e of Doc n \<Rightarrow> [n] | Docs ns \<Rightarrow> ns)"

text \<open>The list \<open>_o\<close>: what the tables have for a word, each with its score.\<close>

definition partials :: "(jstring \<times> entry) list \<Rightarrow> jstring \<Rightarrow> int \<Rightarrow> (entry option \<times> int) list" where
  "partials table word score =
     map (\<lambda>(w, e). (Some e, score))
       (filter (\<lambda>(w, e). matchWord w (escapeRegExp word) \<and> falsyEntry (map_of table word)) table)"

definition candidates :: "index \<Rightarrow> jstring \<Rightarrow> (entry option \<times> int) list" where
  "candidates idx word =
     [(map_of (terms idx) word, term_score Scorer), (map_of (titleterms idx) word, title_score Scorer)] @
     (if length word > 2
      then partials (terms idx) word (partialTerm Scorer) @
           partials (titleterms idx) word (partialTitle Scorer)
      else [])"

text \<open>The files of a word, with repetitions, and the scores its occurrences set.\<close>

definition hits :: "(entry option \<times> int) list \<Rightarrow> (nat \<times> int) list" where
  "hits os = concat (map (\<lambda>(e, sc). case e of None \<Rightarrow> [] | Some e \<Rightarrow> map (\<lambda>f. (f, sc)) (entryFiles e)) os)"

type_synonym score_map = "nat \<Rightarrow> jstring \<Rightarrow> int option"

type_synonym file_map = "(nat \<times> jstring list) list"

definition setScores :: "jstring \<Rightarrow> (nat \<times> int) list \<Rightarrow> score_map \<Rightarrow> score_map" where
  "setScores word hs sm = fold (\<lambda>(f, sc) m. m(f := (m f)(word \<mapsto> sc))) hs sm"

text \<open>
  The mapping of the files to their words, in the order of the numbers, in which a loop over
  the properties visits them. A word that a file already has starts the list anew.
\<close>

fun putWord :: "jstring \<Rightarrow> nat \<Rightarrow> file_map \<Rightarrow> file_map" where
  "putWord word f [] = [(f, [word])]"
| "putWord word f ((g, ws) # m) =
     (if f < g then (f, [word]) # (g, ws) # m
      else if f = g then (g, if word \<notin> set ws then ws @ [word] else [word]) # m
      else (g, ws) # putWord word f m)"

fun termsLoop :: "index \<Rightarrow> jstring list \<Rightarrow> file_map \<times> score_map \<Rightarrow> file_map \<times> score_map" where
  "termsLoop idx [] s = s"
| "termsLoop idx (word # ws) (fm, sm) =
     (if list_all (\<lambda>(e, sc). e = None) (candidates idx word) then (fm, sm)
      else termsLoop idx ws
        (fold (putWord word) (map fst (hits (candidates idx word))) fm,
         setScores word (hits (candidates idx word)) sm))"

text \<open>
  The test for an excluded word. The file is a property name, a string: it equals a number
  by conversion, and an array when the array has that one element; it is never an
  element of an array of numbers, which \<open>$u.contains\<close> compares strictly.
\<close>

definition excludes :: "entry option \<Rightarrow> nat \<Rightarrow> bool" where
  "excludes e file \<longleftrightarrow> e = Some (Doc file) \<or> e = Some (Docs [file])"

definition filteredTermCount :: "jstring list \<Rightarrow> nat" where
  "filteredTermCount sts = length (filter (\<lambda>t. length t > 2) sts)"

definition fileScore :: "score_map \<Rightarrow> nat \<Rightarrow> jstring list \<Rightarrow> int" where
  "fileScore sm file ws = Max (set (List.map_filter (sm file) ws))"

definition fileResult ::
  "index \<Rightarrow> jstring list \<Rightarrow> jstring list \<Rightarrow> score_map \<Rightarrow> nat \<times> jstring list \<Rightarrow> item option" where
  "fileResult idx sts exs sm p =
     (case p of (file, ws) \<Rightarrow>
        if length ws \<noteq> length sts \<and> length ws \<noteq> filteredTermCount sts then None
        else if list_ex (\<lambda>x. excludes (map_of (terms idx) x) file \<or>
                             excludes (map_of (titleterms idx) x) file) exs then None
        else Some \<lparr>idoc = docnames idx file, ititle = titles idx file, ianchor = [], idescr = None,
               iscore = fileScore sm file ws, ifile = filenames idx file\<rparr>)"

definition performTermsSearch :: "index \<Rightarrow> jstring list \<Rightarrow> jstring list \<Rightarrow> item list" where
  "performTermsSearch idx sts exs =
     (case termsLoop idx sts ([], \<lambda>_ _. None) of
        (fm, sm) \<Rightarrow> List.map_filter (fileResult idx sts exs sm) fm)"

section \<open>The order of the results\<close>

definition compareItems :: "(jstring \<Rightarrow> jstring) \<Rightarrow> item \<Rightarrow> item \<Rightarrow> int" where
  "compareItems lc a b =
     (if iscore a > iscore b then 1
      else if iscore a < iscore b then -1
      else if lc (ititle a) > lc (ititle b) then -1
      else if lc (ititle a) < lc (ititle b) then 1
      else 0)"

section \<open>Links and summaries\<close>

record doc_options =
  URL_ROOT :: jstring
  BUILDER :: jstring
  FILE_SUFFIX :: jstring
  LINK_SUFFIX :: jstring
  HAS_SOURCE :: bool

definition dirName :: "jstring \<Rightarrow> jstring" where
  "dirName doc =
     (let dirname = doc @ [47]
      in if endsWith (js ''/index/'') dirname then take (length dirname - 6) dirname
         else if dirname = js ''index/'' then []
         else dirname)"

definition requestUrl :: "doc_options \<Rightarrow> item \<Rightarrow> jstring" where
  "requestUrl opts it =
     (if BUILDER opts = js ''dirhtml'' then URL_ROOT opts @ dirName (idoc it)
      else URL_ROOT opts @ idoc it @ FILE_SUFFIX opts)"

definition linkUrl :: "doc_options \<Rightarrow> item \<Rightarrow> jstring" where
  "linkUrl opts it =
     (if BUILDER opts = js ''dirhtml'' then requestUrl opts it else idoc it @ LINK_SUFFIX opts)"

definition highlightString :: "jstring list \<Rightarrow> jstring option" where
  "highlightString hls = map_option ((@) (js ''?highlight='')) (encodeURIComponent (join [32] hls))"

definition itemHref :: "doc_options \<Rightarrow> jstring \<Rightarrow> item \<Rightarrow> jstring" where
  "itemHref opts hl it = linkUrl opts it @ hl @ ianchor it"

text \<open>\<open>$.trim\<close> and the excerpt around the last keyword that occurs in the text.\<close>

definition trim :: "jstring \<Rightarrow> jstring" where
  "trim s = rev (dropWhile is_js_space (rev (dropWhile is_js_space s)))"

definition summaryStart :: "(jstring \<Rightarrow> jstring) \<Rightarrow> jstring \<Rightarrow> jstring list \<Rightarrow> nat" where
  "summaryStart lc txt keywords =
     fold (\<lambda>k start. if indexOf (lc k) (lc txt) > -1 then nat (indexOf (lc k) (lc txt)) else start)
       keywords 0 - 120"

definition excerpt :: "(jstring \<Rightarrow> jstring) \<Rightarrow> jstring \<Rightarrow> jstring list \<Rightarrow> jstring" where
  "excerpt lc txt keywords =
     (let start = summaryStart lc txt keywords
      in (if start > 0 then js ''...'' else []) @ trim (substr start 240 txt) @
         (if start + 240 \<noteq> length txt then js ''...'' else []))"

text \<open>The paragraph with the excerpt, in which the words are highlighted one after the other.\<close>

definition makeSearchSummary ::
  "(jstring \<Rightarrow> jstring) \<Rightarrow> (jstring \<Rightarrow> jstring) \<Rightarrow> jstring \<Rightarrow> jstring list \<Rightarrow> jstring list \<Rightarrow> node list option" where
  "makeSearchSummary lc htmlToText htmlText keywords hlwords =
     (let txt = htmlToText htmlText
      in if txt = [] then None
         else Some (fold (\<lambda>w. highlightText lc w (js ''highlighted'')) hlwords
                [Element (js ''p'') [js ''context''] [TextNode (excerpt lc txt keywords)]]))"

section \<open>The results of a query\<close>

text \<open>The searches for each object term, which hand the index on.\<close>

fun objectLoop ::
  "(jstring \<Rightarrow> jstring) \<Rightarrow> (jstring \<Rightarrow> jstring) \<Rightarrow> jstring list \<Rightarrow> jstring list \<Rightarrow> index \<Rightarrow> item list \<times> index"
where
  "objectLoop lc tr prior [] idx = ([], idx)"
| "objectLoop lc tr prior (t # ts) idx =
     (case performObjectSearch lc tr idx t (prior @ ts) of
        (rs, idx') \<Rightarrow>
          (case objectLoop lc tr (prior @ [t]) ts idx' of (rs', idx'') \<Rightarrow> (rs @ rs', idx'')))"

definition queryResults ::
  "(jstring \<Rightarrow> jstring) \<Rightarrow> (jstring \<Rightarrow> jstring) \<Rightarrow> index \<Rightarrow> query_terms \<Rightarrow> item list \<times> index" where
  "queryResults lc tr idx q =
     (case objectLoop lc tr [] (objectterms q) idx of
        (rs, idx') \<Rightarrow>
          (sortBy (compareItems lc) (rs @ performTermsSearch idx' (searchterms q) (excluded q)), idx'))"

section \<open>Lemmas: words\<close>

lemma reLiteral_escape: "reLiteral (escapeRegExp w) = Some w"
proof (induction w)
  case (Cons c w)
  have "reLiteral (c # escapeRegExp w) = Some (c # w)" if "\<not> reSpecial c"
    using that Cons by (cases "escapeRegExp w") (auto simp: reSpecial_def)
  with Cons show ?case by (auto simp: escapeRegExp_def)
qed (simp add: escapeRegExp_def)

lemma matchWord_escape: "matchWord w (escapeRegExp word) \<longleftrightarrow> occurs_in word w"
  by (simp add: matchWord_def reLiteral_escape)

abbreviation keysSorted :: "file_map \<Rightarrow> bool" where
  "keysSorted fm \<equiv> sorted_wrt (<) (map fst fm)"

lemma putWord_keys: "fst ` set (putWord w f fm) = insert f (fst ` set fm)"
  by (induction w f fm rule: putWord.induct) auto

lemma putWord_sorted: "keysSorted fm \<Longrightarrow> keysSorted (putWord w f fm)"
proof (induction w f fm rule: putWord.induct)
  case (2 word f g ws m)
  have "\<forall>x \<in> fst ` set (putWord word f m). g < x" if "g < f"
    using that "2.prems" unfolding putWord_keys by auto
  with 2 show ?case by (force simp: image_iff)
qed simp

lemma map_of_sorted_above: "keysSorted ((g, ws) # m) \<Longrightarrow> f \<le> g \<Longrightarrow> map_of m f = None"
  by (force simp: map_of_eq_None_iff)

lemma putWord_map_of:
  "keysSorted fm \<Longrightarrow> map_of (putWord w f fm) =
     (map_of fm)(f \<mapsto> (case map_of fm f of None \<Rightarrow> [w] | Some ws \<Rightarrow> if w \<notin> set ws then ws @ [w] else [w]))"
proof (induction w f fm rule: putWord.induct)
  case (2 word f g ws m)
  then show ?case
    using map_of_sorted_above [of g ws m f] by (auto simp: fun_eq_iff)
qed (simp add: fun_eq_iff)

lemma fold_putWord_sorted: "keysSorted fm \<Longrightarrow> keysSorted (fold (putWord w) fs fm)"
  by (induction fs arbitrary: fm) (auto simp: putWord_sorted)

text \<open>A word that is new to every file of the map, with files that are listed once.\<close>

lemma fold_putWord_map_of:
  assumes "keysSorted fm" "distinct fs" "\<forall>f \<in> set fs. \<forall>ws. map_of fm f = Some ws \<longrightarrow> w \<notin> set ws"
  shows "map_of (fold (putWord w) fs fm) f =
    (if f \<in> set fs then Some ((case map_of fm f of None \<Rightarrow> [] | Some ws \<Rightarrow> ws) @ [w]) else map_of fm f)"
  using assms
proof (induction fs arbitrary: fm)
  case (Cons g fs)
  have "map_of (fold (putWord w) fs (putWord w g fm)) f =
      (if f \<in> set fs then Some ((case map_of (putWord w g fm) f of None \<Rightarrow> [] | Some ws \<Rightarrow> ws) @ [w])
       else map_of (putWord w g fm) f)"
    using Cons.prems by (intro Cons.IH) (auto simp: putWord_sorted putWord_map_of)
  with Cons.prems show ?case by (auto simp: putWord_map_of split: option.splits)
qed simp

definition filesOf :: "index \<Rightarrow> jstring \<Rightarrow> nat list" where
  "filesOf idx w = map fst (hits (candidates idx w))"

definition found :: "index \<Rightarrow> jstring \<Rightarrow> bool" where
  "found idx w \<longleftrightarrow> \<not> list_all (\<lambda>(e, sc). e = None) (candidates idx w)"

lemma not_found_files: "\<not> found idx w \<Longrightarrow> filesOf idx w = []"
  by (auto simp: found_def filesOf_def hits_def list_all_iff concat_eq_Nil_conv)

lemma setScores_eq:
  "distinct (map fst hs) \<Longrightarrow>
   setScores w hs sm f v = (if v = w \<and> f \<in> fst ` set hs then map_of hs f else sm f v)"
  unfolding setScores_def
proof (induction hs arbitrary: sm)
  case (Cons h hs)
  then show ?case by (cases h) (auto simp: map_of_eq_None_iff image_iff)
qed simp

definition clean :: "index \<Rightarrow> jstring list \<Rightarrow> bool" where
  "clean idx ws \<longleftrightarrow> list_all (\<lambda>w. distinct (filesOf idx w)) ws"

text \<open>
  What the loop has computed: every file has the words it was found for, in the order of the
  query, and the score of each.
\<close>

definition termsState :: "index \<Rightarrow> jstring list \<Rightarrow> file_map \<times> score_map \<Rightarrow> bool" where
  "termsState idx seen s \<longleftrightarrow>
     (case s of (fm, sm) \<Rightarrow>
        keysSorted fm \<and>
        (\<forall>f. map_of fm f =
           (let ws = filter (\<lambda>w. f \<in> set (filesOf idx w)) seen in if ws = [] then None else Some ws)) \<and>
        (\<forall>f w. sm f w = (if w \<in> set seen then map_of (hits (candidates idx w)) f else None)))"

lemma termsState_step:
  assumes "termsState idx seen (fm, sm)" "w \<notin> set seen" "distinct (filesOf idx w)"
  shows "termsState idx (seen @ [w])
    (fold (putWord w) (filesOf idx w) fm, setScores w (hits (candidates idx w)) sm)"
proof -
  have fm: "keysSorted fm" "\<And>f. map_of fm f =
      (let ws = filter (\<lambda>w. f \<in> set (filesOf idx w)) seen in if ws = [] then None else Some ws)"
    and sm: "\<And>f v. sm f v = (if v \<in> set seen then map_of (hits (candidates idx v)) f else None)"
    using assms(1) by (auto simp: termsState_def)
  have new: "\<forall>f \<in> set (filesOf idx w). \<forall>ws. map_of fm f = Some ws \<longrightarrow> w \<notin> set ws"
    using assms(2) by (auto simp: fm(2) Let_def split: if_splits)
  have "map_of (fold (putWord w) (filesOf idx w) fm) f =
      (let ws = filter (\<lambda>v. f \<in> set (filesOf idx v)) (seen @ [w]) in if ws = [] then None else Some ws)" for f
    unfolding fold_putWord_map_of [OF fm(1) assms(3) new] fm(2) by (auto simp: Let_def)
  moreover have "setScores w (hits (candidates idx w)) sm f v =
      (if v \<in> set (seen @ [w]) then map_of (hits (candidates idx v)) f else None)" for f v
    using assms(2) map_of_eq_None_iff [of "hits (candidates idx w)" f]
    by (auto simp: sm setScores_eq [OF assms(3) [unfolded filesOf_def]])
  ultimately show ?thesis by (simp add: termsState_def fold_putWord_sorted fm(1))
qed

lemma termsLoop_state:
  assumes "termsState idx seen s" "distinct (seen @ ws)" "clean idx ws"
  shows "termsState idx (seen @ takeWhile (found idx) ws) (termsLoop idx ws s)"
  using assms
proof (induction idx ws s arbitrary: seen rule: termsLoop.induct)
  case (2 idx word ws fm sm)
  show ?case
  proof (cases "found idx word")
    case True
    have "termsState idx (seen @ [word])
        (fold (putWord word) (filesOf idx word) fm, setScores word (hits (candidates idx word)) sm)"
      using "2.prems" by (intro termsState_step) (auto simp: clean_def)
    then show ?thesis
      using True "2.IH" [of "seen @ [word]"] "2.prems" by (simp add: found_def filesOf_def clean_def)
  qed (use "2.prems" in \<open>simp add: found_def\<close>)
qed simp

text \<open>
  The specification of the search: one result for every document that has all the words,
  in the order of the document numbers, with the best score any of the words has in it.
\<close>

definition docItem :: "index \<Rightarrow> jstring list \<Rightarrow> nat \<Rightarrow> item" where
  "docItem idx sts f =
     \<lparr>idoc = docnames idx f, ititle = titles idx f, ianchor = [], idescr = None,
      iscore = Max {sc. \<exists>w \<in> set sts. (f, sc) \<in> set (hits (candidates idx w))},
      ifile = filenames idx f\<rparr>"

definition matching :: "index \<Rightarrow> jstring list \<Rightarrow> nat set" where
  "matching idx sts = {f. \<forall>w \<in> set sts. f \<in> set (filesOf idx w)}"

lemma map_filter_map:
  "(\<And>x. x \<in> set xs \<Longrightarrow> f x = (if P x then Some (g x) else None)) \<Longrightarrow>
   List.map_filter f xs = map g (filter P xs)"
  by (induction xs) (auto simp: List.map_filter_simps)

lemma set_map_filter: "set (List.map_filter f xs) = {y. \<exists>x \<in> set xs. f x = Some y}"
  by (induction xs) (auto simp: List.map_filter_simps split: option.splits)

lemma length_filter_all: "length (filter P xs) = length xs \<longleftrightarrow> (\<forall>x \<in> set xs. P x)"
proof (induction xs)
  case (Cons x xs)
  moreover have "length (filter P xs) \<noteq> Suc (length xs)"
    by (metis Suc_n_not_le_n length_filter_le)
  ultimately show ?case by simp
qed simp

lemma sorted_keys_unique:
  "sorted_wrt (<) xs \<Longrightarrow> set xs = A \<Longrightarrow> xs = sorted_list_of_set A" for xs :: "nat list"
  using sorted_list_of_set.idem_if_sorted_distinct [of xs]
  by (simp add: strict_sorted_iff)

lemma terms_words_all:
  assumes "length (filter P (takeWhile F sts)) = length sts"
  shows "takeWhile F sts = sts" "\<forall>w \<in> set sts. P w"
proof -
  have "length (takeWhile F sts) = length sts"
    using assms length_filter_le [of P "takeWhile F sts"] length_takeWhile_le [of F sts] by linarith
  then show all: "takeWhile F sts = sts"
    by (metis append_eq_conv_conj takeWhile_eq_take take_all_iff order_refl)
  then show "\<forall>w \<in> set sts. P w" using assms length_filter_all by metis
qed

text \<open>What the final state says of a file in the map, and of a file that has all the words.\<close>

lemma termsState_words:
  assumes "termsState idx seen (fm, sm)" "(f, ws) \<in> set fm"
  shows "ws = filter (\<lambda>w. f \<in> set (filesOf idx w)) seen"
proof -
  have "distinct (map fst fm)" using assms(1) by (simp add: termsState_def strict_sorted_iff)
  then have "map_of fm f = Some ws" using assms(2) by (rule map_of_is_SomeI)
  then show ?thesis using assms(1) by (auto simp: termsState_def Let_def split: if_splits)
qed

lemma termsState_all:
  assumes "termsState idx sts (fm, sm)" "f \<in> matching idx sts" "sts \<noteq> []"
  shows "(f, sts) \<in> set fm"
proof -
  have "filter (\<lambda>w. f \<in> set (filesOf idx w)) sts = sts"
    using assms(2) by (simp add: matching_def filter_id_conv)
  then have "map_of fm f = Some sts" using assms(1,3) by (simp add: termsState_def)
  then show ?thesis by (rule map_of_SomeD)
qed

lemma matching_found: "f \<in> matching idx sts \<Longrightarrow> takeWhile (found idx) sts = sts"
  using not_found_files by (fastforce simp: matching_def takeWhile_eq_all_conv)

lemma fileResult_item:
  assumes "termsState idx (takeWhile (found idx) sts) (fm, sm)" "clean idx sts" "p \<in> set fm"
    "filteredTermCount sts = length sts"
  shows "fileResult idx sts [] sm p =
    (if length (snd p) = length sts then Some (docItem idx sts (fst p)) else None)"
proof (cases "length (snd p) = length sts")
  case True
  obtain f v where p: "p = (f, v)" by fastforce
  have v: "v = filter (\<lambda>w. f \<in> set (filesOf idx w)) (takeWhile (found idx) sts)"
    using termsState_words [OF assms(1)] assms(3) p by blast
  have "length (filter (\<lambda>w. f \<in> set (filesOf idx w)) (takeWhile (found idx) sts)) = length sts"
    using True p v by simp
  note all = terms_words_all [OF this]
  have "v = sts" unfolding v all(1) using all(2) by (simp add: filter_id_conv)
  moreover have "sm f w = Some sc \<longleftrightarrow> (f, sc) \<in> set (hits (candidates idx w))" if "w \<in> set sts" for w sc
    using assms(1,2) that all(1)
    by (auto simp: termsState_def clean_def list_all_iff filesOf_def)
  then have "set (List.map_filter (sm f) sts) = {sc. \<exists>w \<in> set sts. (f, sc) \<in> set (hits (candidates idx w))}"
    by (auto simp: set_map_filter)
  ultimately show ?thesis using True by (simp add: p fileResult_def docItem_def fileScore_def)
next
  case False
  then show ?thesis using assms(4) by (cases p) (simp add: fileResult_def)
qed

lemma performTermsSearch_spec:
  assumes "distinct sts" "clean idx sts" "sts \<noteq> []" "\<forall>w \<in> set sts. 2 < length w"
  shows "performTermsSearch idx sts [] = map (docItem idx sts) (sorted_list_of_set (matching idx sts))"
proof -
  obtain fm sm where l: "termsLoop idx sts ([], \<lambda>_ _. None) = (fm, sm)" by fastforce
  have "termsState idx [] ([], \<lambda>_ _. None)" by (simp add: termsState_def)
  from termsLoop_state [OF this, of sts] assms(1,2) l
  have st: "termsState idx (takeWhile (found idx) sts) (fm, sm)" by simp
  have cnt: "filteredTermCount sts = length sts"
    using assms(4) by (auto simp: filteredTermCount_def length_filter_all)
  let ?keys = "map fst (filter (\<lambda>p. length (snd p) = length sts) fm)"
  have "sorted_wrt (<) ?keys"
    using st by (simp add: termsState_def sorted_wrt_map sorted_wrt_filter)
  moreover have "f \<in> set ?keys \<longleftrightarrow> f \<in> matching idx sts" for f
  proof
    assume "f \<in> set ?keys"
    then obtain v where v: "(f, v) \<in> set fm" "length v = length sts" by auto
    with termsState_words [OF st v(1)]
    have "length (filter (\<lambda>w. f \<in> set (filesOf idx w)) (takeWhile (found idx) sts)) = length sts" by simp
    from terms_words_all(2) [OF this] show "f \<in> matching idx sts" by (simp add: matching_def)
  next
    assume f: "f \<in> matching idx sts"
    then have "(f, sts) \<in> set fm" using termsState_all [of idx sts fm sm f] st assms(3) by (simp add: matching_found)
    then show "f \<in> set ?keys" by force
  qed
  ultimately have "?keys = sorted_list_of_set (matching idx sts)"
    by (intro sorted_keys_unique) auto
  moreover have "performTermsSearch idx sts [] = map (docItem idx sts) ?keys"
    using map_filter_map [of fm, OF fileResult_item [OF st assms(2) _ cnt]]
    by (simp add: performTermsSearch_def l comp_def)
  ultimately show ?thesis by simp
qed

section \<open>Lemmas: the order of the results\<close>

interpretation ci: comparator "compareItems lc"
  by unfold_locales (auto simp: compareItems_def split: if_splits)

lemma compareItems_le:
  "compareItems lc a b \<le> 0 \<longleftrightarrow>
   iscore a < iscore b \<or> iscore a = iscore b \<and> lc (ititle b) \<le> lc (ititle a)"
  by (auto simp: compareItems_def)

text \<open>Results are taken from the end: best score first, equal scores alphabetically.\<close>

lemma display_order:
  "sorted_wrt (\<lambda>a b. iscore a > iscore b \<or> iscore a = iscore b \<and> lc (ititle a) \<le> lc (ititle b))
     (rev (sortBy (compareItems lc) xs))"
  using ci.sorted_sortBy [of lc xs]
  by (auto simp: sorted_wrt_rev compareItems_le elim!: sorted_wrt_mono_rel [rotated])

section \<open>Lemmas: the words of the query\<close>

text \<open>
  What the program relies on of the conversion to lower case: a word does not vanish, and
  neither a leading hyphen nor white space appears that was not there.
\<close>

definition lowerOk :: "(jstring \<Rightarrow> jstring) \<Rightarrow> bool" where
  "lowerOk lc \<longleftrightarrow> (\<forall>w. w \<noteq> [] \<longrightarrow> lc w \<noteq> [] \<and> (hd (lc w) = 45 \<longrightarrow> hd w = 45) \<and>
     ((\<exists>c \<in> set (lc w). is_js_space c) \<longrightarrow> (\<exists>c \<in> set w. is_js_space c)))"

text \<open>White space lies inside the ranges of separators.\<close>

lemma splitChars_range:
  "(a, b) \<in> set splitRanges \<Longrightarrow> a \<le> c \<Longrightarrow> c \<le> b \<Longrightarrow> splitChars c"
  by (auto simp: splitChars_def list_ex_iff)

lemma space_ranges:
  "{(0, 47), (123, 169), (8189, 8303), (11824, 12292), (65277, 65295)} \<subseteq> set splitRanges"
  by (simp add: splitRanges_def)

lemma splitChars_space: "is_js_space c \<Longrightarrow> splitChars c"
proof -
  assume "is_js_space c"
  then consider "c \<le> 47" | "123 \<le> c" "c \<le> 169" | "c = 5760" | "8189 \<le> c" "c \<le> 8303"
    | "11824 \<le> c" "c \<le> 12292" | "65277 \<le> c" "c \<le> 65295"
    by (auto simp: is_js_space_def)
  then show "splitChars c"
  proof cases
    case 3
    then show ?thesis by (simp add: splitChars_def splitSingles_def)
  qed (use space_ranges in \<open>auto intro: splitChars_range\<close>)
qed

lemma splitChars_hyphen: "splitChars 45"
  by (simp add: splitChars_def splitRanges_def)

definition isWord :: "jstring \<Rightarrow> bool" where
  "isWord w \<longleftrightarrow> w \<noteq> [] \<and> (\<forall>c \<in> set w. \<not> splitChars c)"

lemma splitQuery_isWord: "w \<in> set (splitQuery q) \<Longrightarrow> isWord w"
  using runs_in [of w splitChars q] by (simp add: splitQuery_runs isWord_def list_all_iff)

lemma searchWord_first:
  assumes "lowerOk lc" "isWord w"
  shows "searchWord lc w \<noteq> [] \<and> hd (searchWord lc w) \<noteq> 45"
proof -
  have w: "w \<noteq> []" "hd w \<noteq> 45"
    using assms(2) splitChars_hyphen by (auto simp: isWord_def dest: hd_in_set)
  then have "lc w \<noteq> []" "hd (lc w) \<noteq> 45" using assms(1) by (auto simp: lowerOk_def)
  with w tameD(1,2) [OF tame_stemWord] show ?thesis by (auto simp: searchWord_def)
qed

abbreviation searched :: "(jstring \<Rightarrow> jstring) \<Rightarrow> jstring \<Rightarrow> bool" where
  "searched lc w \<equiv> lc w \<notin> set stopwords"

lemma addWord_word:
  assumes "lowerOk lc" "isWord w"
  shows "addWord lc w q = q\<lparr>objectterms := objectterms q @ [lc w],
      hlterms := hlterms q @ (if searched lc w then [lc w] else []),
      searchterms := (if searched lc w then pushNew (searchWord lc w) (searchterms q) else searchterms q)\<rparr>"
  using searchWord_first [OF assms] assms(2)
  by (simp add: addWord_def Let_def isWord_def)

lemma pushNew_set [simp]: "set (pushNew x xs) = insert x (set xs)"
  by (auto simp: pushNew_def)

lemma pushNew_distinct: "distinct xs \<Longrightarrow> distinct (pushNew x xs)"
  by (auto simp: pushNew_def)

lemma fold_addWord:
  assumes "lowerOk lc" "\<forall>w \<in> set ws. isWord w" "distinct (searchterms q)"
  shows "excluded (fold (addWord lc) ws q) = excluded q \<and>
    objectterms (fold (addWord lc) ws q) = objectterms q @ map lc ws \<and>
    hlterms (fold (addWord lc) ws q) = hlterms q @ map lc (filter (searched lc) ws) \<and>
    distinct (searchterms (fold (addWord lc) ws q)) \<and>
    set (searchterms (fold (addWord lc) ws q)) =
      set (searchterms q) \<union> searchWord lc ` set (filter (searched lc) ws)"
  using assms(2,3)
proof (induction ws arbitrary: q)
  case (Cons w ws)
  then show ?case using Cons.IH [of "addWord lc w q"]
    by (auto simp: addWord_word [OF assms(1)] pushNew_distinct)
qed simp

lemma queryTerms_words:
  assumes "lowerOk lc" "q = queryTerms lc splitQuery query" "ws = splitQuery query"
  shows "excluded q = [] \<and> objectterms q = map lc ws \<and>
    hlterms q = map lc (filter (searched lc) ws) \<and> distinct (searchterms q) \<and>
    set (searchterms q) = searchWord lc ` set (filter (searched lc) ws)"
  using fold_addWord [OF assms(1), of ws] splitQuery_isWord
  by (auto simp: queryTerms_def assms(2,3))

section \<open>Lemmas: links and summaries\<close>

lemma highlightTerms_link:
  assumes "highlightString hls = Some hl" "hls \<noteq> []" "unitString (join [32] hls)"
    and "\<forall>w \<in> set hls. w \<noteq> [] \<and> (\<forall>c \<in> set w. \<not> is_js_space c)"
  shows "highlightTerms hl = Inr hls"
proof -
  obtain e where e: "encodeURIComponent (join [32] hls) = Some e" "hl = js ''?highlight='' @ e"
    using assms(1) by (auto simp: highlightString_def)
  let ?kv = "(js ''highlight'', join [32] hls)"
  have "paramText ?kv = Some (js ''highlight='' @ e)"
    using e(1) by (simp add: paramText_def uriUnescaped_def)
  moreover have "goodParam ?kv"
    using assms(3) by (simp add: goodParam_def unitString_def inheritedNames_def)
  ultimately have "list_all2 (\<lambda>kv p. paramText kv = Some p \<and> goodParam kv) [?kv] [js ''highlight='' @ e]"
    by (simp del: js.simps)
  from getQueryParameters_params [OF this] obtain r where
    r: "getQueryParameters (63 # js ''highlight='' @ e) = Inr r"
    "map_of r (js ''highlight'') = Some [Some (join [32] hls)]"
    by (auto simp: valuesOf_def simp del: js.simps)
  moreover have "hl = 63 # js ''highlight='' @ e" using e(2) by simp
  ultimately show ?thesis
    using splitSpaces_join [OF assms(2,4), of False] by (simp add: highlightTerms_def del: js.simps)
qed

lemma summaryStart_last:
  assumes "occurs_in (lc k) (lc txt)" "\<forall>k' \<in> set ks2. \<not> occurs_in (lc k') (lc txt)"
  shows "summaryStart lc txt (ks1 @ k # ks2) = nat (indexOf (lc k) (lc txt)) - 120"
proof -
  have "fold (\<lambda>k start. if indexOf (lc k) (lc txt) > -1 then nat (indexOf (lc k) (lc txt)) else start) ks2 n = n"
    for n using assms(2) by (induction ks2) (auto simp: occurs_in_def)
  then show ?thesis using assms(1) by (simp add: summaryStart_def occurs_in_def)
qed

lemma occurs_in_window:
  assumes "occurs_in p s" "length p \<le> 120"
  shows "occurs_in p (substr (nat (indexOf p s) - 120) 240 s)"
proof -
  obtain k where k: "indexOf p s = int k" "startsWith p (drop k s)"
    using assms(1) by (cases rule: indexOf_cases [of p s]) (auto simp: occurs_in_def)
  then obtain v where v: "drop k s = p @ v" by (auto simp: startsWith_iff)
  define t where "t = take (k - (k - 120)) (drop (k - 120) s)"
  have "drop (k - 120) s = t @ p @ v"
    using v append_take_drop_id [of "k - (k - 120)" "drop (k - 120) s"] by (simp add: t_def)
  moreover have "length t + length p \<le> 240" using assms(2) by (simp add: t_def)
  ultimately have "take 240 (drop (k - 120) s) = t @ p @ take (240 - length t - length p) v"
    by simp
  then show ?thesis using k(1) by (auto simp: occurs_in_iff substr_def)
qed

section \<open>Lemmas: repeated searches\<close>

lemma objRows_Rows [simp]: "objRows (Rows rs) = rs"
  by (simp add: objRows_def)

lemma rowsIndex_rowsIndex [simp]: "rowsIndex (rowsIndex idx) = rowsIndex idx"
  by (simp add: rowsIndex_def comp_def case_prod_beta)

lemma objectMatch_rowsIndex [simp]: "objectMatch lc tr (rowsIndex idx) = objectMatch lc tr idx"
  by (simp add: fun_eq_iff objectMatch_def rowsIndex_def haystack_def anchorOf_def)

lemma performObjectSearch_rowsIndex:
  "performObjectSearch lc tr (rowsIndex idx) t others =
     (fst (performObjectSearch lc tr idx t others), rowsIndex idx)"
proof -
  have "map (\<lambda>(p, tb). List.map_filter (objectMatch lc tr idx t others p) (objRows tb)) (objects (rowsIndex idx)) =
      map (\<lambda>(p, tb). List.map_filter (objectMatch lc tr idx t others p) (objRows tb)) (objects idx)"
    by (auto simp: rowsIndex_def)
  then show ?thesis by (simp add: performObjectSearch_def)
qed

lemma performObjectSearch_index: "snd (performObjectSearch lc tr idx t others) = rowsIndex idx"
  by (simp add: performObjectSearch_def)

lemma objectLoop_rowsIndex:
  "objectLoop lc tr prior ts (rowsIndex idx) = (fst (objectLoop lc tr prior ts idx), rowsIndex idx)"
proof (induction ts arbitrary: prior)
  case (Cons t ts)
  obtain rs where "performObjectSearch lc tr idx t (prior @ ts) = (rs, rowsIndex idx)"
    by (metis performObjectSearch_index prod.collapse)
  then show ?case
    using Cons [of "prior @ [t]"] by (simp add: performObjectSearch_rowsIndex split: prod.splits)
qed simp

lemma objectLoop_index:
  "snd (objectLoop lc tr prior ts idx) = (if ts = [] then idx else rowsIndex idx)"
proof (cases ts)
  case (Cons t ts')
  obtain rs where "performObjectSearch lc tr idx t (prior @ ts') = (rs, rowsIndex idx)"
    by (metis performObjectSearch_index prod.collapse)
  then show ?thesis
    using objectLoop_rowsIndex [of lc tr "prior @ [t]" ts' idx] Cons by (simp split: prod.splits)
qed simp

lemma performTermsSearch_rowsIndex: "performTermsSearch (rowsIndex idx) = performTermsSearch idx"
proof -
  have c: "candidates (rowsIndex i) = candidates i" for i
    by (simp add: fun_eq_iff candidates_def rowsIndex_def)
  have "termsLoop (rowsIndex idx) ws s = termsLoop idx ws s" for ws s
    by (induction idx ws s rule: termsLoop.induct) (simp_all add: c)
  moreover have "fileResult (rowsIndex idx) = fileResult idx"
    by (simp add: fun_eq_iff fileResult_def rowsIndex_def)
  ultimately show ?thesis by (intro ext) (simp add: performTermsSearch_def)
qed

section \<open>Sample inputs\<close>

text \<open>An index of three documents, and a conversion of the letters A to Z.\<close>

definition asciiLower :: "jstring \<Rightarrow> jstring" where
  "asciiLower = map (\<lambda>c. if 65 \<le> c \<and> c \<le> 90 then c + 32 else c)"

definition sampleIndex :: index where
  "sampleIndex = \<lparr>docnames = (\<lambda>n. js ''doc'' @ dec n), filenames = (\<lambda>n. js ''doc'' @ dec n @ js ''.rst''),
     titles = (\<lambda>n. js ''Title '' @ dec n), objects = [], objnames = (\<lambda>_. ([], [], [])),
     terms = [(js ''vm'', Docs [0, 2]), (js ''virtio'', Doc 2), (js ''block'', Docs [1, 2])],
     titleterms = [(js ''disk'', Doc 1), (js ''block'', Doc 1)]\<rparr>"

lemma sample_terms:
  "queryTerms asciiLower splitQuery (js ''VM'') =
     \<lparr>searchterms = [js ''vm''], excluded = [], hlterms = [js ''vm''], objectterms = [js ''vm'']\<rparr>"
proof -
  have "splitQuery (js ''VM'') = [js ''VM'']"
    using splitQuery_join [of "[js ''VM'']"]
    by (simp add: splitChars_def splitSingles_def splitRanges_def)
  then show ?thesis
    by (simp add: queryTerms_def addWord_def searchWord_def asciiLower_def stemWord_def stopwords_def pushNew_def Let_def)
qed

lemma sample_link: "highlightString [js ''vm''] = Some (js ''?highlight=vm'')"
  by (simp add: highlightString_def uriUnescaped_def)

lemma sample_candidates:
  "hits (candidates sampleIndex (js ''block'')) = [(1, 5), (2, 5), (1, 15)]"
  "hits (candidates sampleIndex (js ''disk'')) = [(1, 15)]"
  "hits (candidates sampleIndex (js ''virtio'')) = [(2, 5)]"
  "hits (candidates sampleIndex (js ''vir'')) = [(2, 2)]"
  by (simp_all add: candidates_def hits_def sampleIndex_def Scorer_def partials_def matchWord_escape
      falsyEntry_def entryFiles_def occurs_in_def indexOf_def)

section \<open>Properties\<close>

text \<open>
  C15. The search for words finds what it should: for different words of more than two
  characters, each of which the index lists at most once for a document, the results are
  exactly the documents that have all the words (in their text or title, a part of a longer
  word counting when the word itself is not in the index), each once, in the order of
  their numbers, with the best score that any of the words has in the document.
\<close>

theorem terms_search_complete:
  assumes "distinct sts" "sts \<noteq> []"
    and "\<forall>w \<in> set sts. 2 < length w \<and> distinct (filesOf idx w)"
  shows "performTermsSearch idx sts [] =
    map (docItem idx sts) (sorted_list_of_set {f. \<forall>w \<in> set sts. f \<in> set (filesOf idx w)})"
  using performTermsSearch_spec [of sts idx] assms by (simp add: clean_def list_all_iff matching_def)

theorem terms_search_complete_witness:
  "performTermsSearch sampleIndex [js ''virtio'', js ''vir''] [] =
     map (docItem sampleIndex [js ''virtio'', js ''vir''])
       (sorted_list_of_set {f. \<forall>w \<in> set [js ''virtio'', js ''vir'']. f \<in> set (filesOf sampleIndex w)})"
  by (rule terms_search_complete) (simp, simp, simp add: filesOf_def sample_candidates del: js.simps, simp)

text \<open>
  Without that condition documents get lost: a document that has the second word both in
  its text and in its title loses the first word when it is met again, and is no
  result of the query, although it has both words and is a result of the same two words
  in the other order.
\<close>

theorem terms_search_loses_document:
  "1 \<in> set (filesOf sampleIndex (js ''disk'')) \<and> 1 \<in> set (filesOf sampleIndex (js ''block'')) \<and>
   performTermsSearch sampleIndex [js ''disk'', js ''block''] [] = [] \<and>
   map iscore (performTermsSearch sampleIndex [js ''block'', js ''disk''] []) = [15]"
proof -
  have c: "\<not> list_all (\<lambda>(e, sc). e = None) (candidates sampleIndex (js ''block''))"
    "\<not> list_all (\<lambda>(e, sc). e = None) (candidates sampleIndex (js ''disk''))"
    by (simp_all add: candidates_def sampleIndex_def)
  show ?thesis
    by (simp add: filesOf_def performTermsSearch_def sample_candidates c fileResult_def filteredTermCount_def
        List.map_filter_simps setScores_def fileScore_def del: js.simps) simp
qed

text \<open>
  The words of a query: with the shipped splitter no word is ever excluded, a leading
  hyphen being a separator; all words, in lower case, are object terms; the words that are
  not stop words are the words to highlight, and their stems (or the words themselves where
  the stem is too short) are the search terms, without repetitions.
\<close>

theorem query_words:
  assumes "lowerOk lc"
  shows "excluded (queryTerms lc splitQuery q) = [] \<and>
    objectterms (queryTerms lc splitQuery q) = map lc (splitQuery q) \<and>
    hlterms (queryTerms lc splitQuery q) = map lc (filter (\<lambda>w. lc w \<notin> set stopwords) (splitQuery q)) \<and>
    distinct (searchterms (queryTerms lc splitQuery q)) \<and>
    set (searchterms (queryTerms lc splitQuery q)) =
      searchWord lc ` {w \<in> set (splitQuery q). lc w \<notin> set stopwords}"
  using queryTerms_words [OF assms refl refl, of q] by (simp add: Collect_conj_eq)

lemma lowerOk_ascii: "lowerOk asciiLower"
proof -
  let ?low = "\<lambda>c::nat. if 65 \<le> c \<and> c \<le> 90 then c + 32 else c"
  have low: "?low c = 45 \<longleftrightarrow> c = 45" "is_js_space (?low c) \<longleftrightarrow> is_js_space c" for c
    by (cases "65 \<le> c \<and> c \<le> 90"; auto simp: is_js_space_def)+
  show ?thesis unfolding lowerOk_def asciiLower_def
  proof (intro allI impI conjI)
    fix w :: jstring assume w: "w \<noteq> []"
    then show "map ?low w \<noteq> []" by simp
    show "hd w = 45" if "hd (map ?low w) = 45" using that w low(1) by (simp add: hd_map)
    show "\<exists>c \<in> set w. is_js_space c" if "\<exists>c \<in> set (map ?low w). is_js_space c"
      using that low(2) unfolding set_map by blast
  qed
qed

theorem query_words_witness:
  "excluded (queryTerms asciiLower splitQuery (js ''-VM'')) = []"
  using query_words [OF lowerOk_ascii, of "js ''-VM''"] by blast

text \<open>
  C16. The link of a result carries the words to the page: what the opened page reads from
  the query string of the link as words to highlight is the list of the words of the search.
\<close>

theorem highlight_link_roundtrip:
  assumes "lowerOk lc" "ws = hlterms (queryTerms lc splitQuery q)" "ws \<noteq> []"
    and "highlightString ws = Some hl" "\<forall>w \<in> set ws. \<forall>c \<in> set w. c < 65536"
  shows "highlightTerms hl = Inr ws"
proof (rule highlightTerms_link [OF assms(4,3)])
  have "c < 65536" if "c \<in> set (join [32] vs)" "\<forall>w \<in> set vs. \<forall>c \<in> set w. c < 65536"
    for c :: nat and vs
    using that by (induction vs rule: induct_list012) auto
  then show "unitString (join [32] ws)" using assms(5) by (auto simp: unitString_def)
  show "\<forall>w \<in> set ws. w \<noteq> [] \<and> (\<forall>c \<in> set w. \<not> is_js_space c)"
  proof
    fix w assume "w \<in> set ws"
    then obtain v where v: "w = lc v" "isWord v"
      using queryTerms_words [OF assms(1) refl refl, of q] splitQuery_isWord by (auto simp: assms(2))
    then show "w \<noteq> [] \<and> (\<forall>c \<in> set w. \<not> is_js_space c)"
      using assms(1) splitChars_space by (auto simp: isWord_def lowerOk_def)
  qed
qed

theorem highlight_link_roundtrip_witness:
  "highlightTerms (js ''?highlight=vm'') = Inr [js ''vm'']"
  by (rule highlight_link_roundtrip [OF lowerOk_ascii, of _ "js ''VM''"])
    (simp_all add: sample_terms sample_link del: js.simps, simp)

text \<open>
  A summary shows a keyword: when a keyword of at most 120 characters is the last one
  that occurs in the text of a page, the part of the text that the summary shows holds it, and
  the summary has at most 246 characters.
\<close>

theorem summary_shows_keyword:
  assumes "occurs_in (map f k) (map f txt)" "\<forall>k' \<in> set ks2. \<not> occurs_in (map f k') (map f txt)"
    and "length k \<le> 120"
  shows "occurs_in (map f k) (map f (substr (summaryStart (map f) txt (ks1 @ k # ks2)) 240 txt)) \<and>
    length (excerpt (map f) txt (ks1 @ k # ks2)) \<le> 246"
proof
  show "occurs_in (map f k) (map f (substr (summaryStart (map f) txt (ks1 @ k # ks2)) 240 txt))"
    using occurs_in_window [OF assms(1)] assms(3)
    unfolding summaryStart_last [of "map f", OF assms(1,2)] by (simp add: substr_def take_map drop_map)
  have "length (trim s) \<le> length s" for s
    by (metis length_dropWhile_le length_rev le_trans trim_def)
  from this [of "substr (summaryStart (map f) txt (ks1 @ k # ks2)) 240 txt"]
  have "length (trim (substr (summaryStart (map f) txt (ks1 @ k # ks2)) 240 txt)) \<le> 240"
    by (simp add: substr_def)
  then show "length (excerpt (map f) txt (ks1 @ k # ks2)) \<le> 246"
    unfolding excerpt_def Let_def by (simp del: One_nat_def split: if_split) auto
qed

theorem summary_shows_keyword_witness:
  "occurs_in (map id (js ''b'')) (map id (substr (summaryStart (map id) (js ''abc'') ([] @ js ''b'' # [])) 240 (js ''abc'')))"
  by (rule conjunct1 [OF summary_shows_keyword]) (simp_all add: occurs_in_def indexOf_def)

text \<open>
  A search can be repeated: the first search turns the tables of the index into rows, and
  the same query on the changed index gives the same results and changes nothing more.
\<close>

theorem repeated_search:
  "queryResults lc tr (snd (queryResults lc tr idx q)) q =
     (fst (queryResults lc tr idx q), snd (queryResults lc tr idx q))"
  using objectLoop_index [of lc tr "[]" "objectterms q" idx] objectLoop_rowsIndex [of lc tr "[]" "objectterms q" idx]
  by (cases "objectLoop lc tr [] (objectterms q) idx")
    (auto simp: queryResults_def performTermsSearch_rowsIndex split: if_splits)

end
