(* ===== verification/Doc_Session.thy ===== *)
theory Doc_Session
  imports Doc_Search
begin

text \<open>
  The search page over time (\<^verbatim>\<open>searchtools.js\<close>, the state of the object \<open>Search\<close>): the
  index that arrives at some moment (\<open>setIndex\<close>), the query that waits for it
  (\<open>deferQuery\<close>, \<open>performSearch\<close>), the animated title (\<open>startPulse\<close>, \<open>stopPulse\<close>) and
  the display of the results one by one (\<open>displayNextItem\<close>). A step is a call of the page or
  the firing of a timer or a request. What the page shows is the list of outputs.
\<close>

section \<open>State\<close>

text \<open>The functions of the browser and the settings of the page.\<close>

record page_env =
  lower :: "jstring \<Rightarrow> jstring"
  catalogue :: documentation
  docOpts :: doc_options
  htmlText :: "jstring \<Rightarrow> jstring"
  response :: "jstring \<Rightarrow> jstring option"

text \<open>A translated message in a concatenation; \<open>undefined\<close> is written out.\<close>

definition translate :: "page_env \<Rightarrow> jstring \<Rightarrow> jstring" where
  "translate env s = (case gettext (catalogue env) s of Some t \<Rightarrow> t | None \<Rightarrow> js ''undefined'')"

datatype page_output =
    Heading jstring
  | Progress jstring
  | Dots nat
  | Ran jstring
  | Shown jstring jstring "jstring option" "node list option"
  | Status jstring
  | Raised jserror

text \<open>The variables that the function \<open>displayNextItem\<close> of one query closes over.\<close>

record display =
  results :: "item list"
  resultCount :: nat
  highlightstring :: jstring
  keywords_of :: "jstring list"
  hlwords :: "jstring list"

record search =
  s_index :: "index option"
  queued_query :: "jstring option option"
  pulse_status :: int
  pulse_timers :: nat
  displays :: "display list"
  out :: "page_output list"

definition initSearch :: search where
  "initSearch = \<lparr>s_index = None, queued_query = None, pulse_status = -1, pulse_timers = 0,
     displays = [], out = []\<rparr>"

definition say :: "page_output \<Rightarrow> search \<Rightarrow> search" where
  "say o' s = s\<lparr>out := out s @ [o']\<rparr>"

section \<open>Operations\<close>

definition hasIndex :: "search \<Rightarrow> bool" where
  "hasIndex s \<longleftrightarrow> s_index s \<noteq> None"

definition deferQuery :: "jstring option \<Rightarrow> search \<Rightarrow> search" where
  "deferQuery query s = s\<lparr>queued_query := Some query\<rparr>"

definition stopPulse :: "search \<Rightarrow> search" where
  "stopPulse s = s\<lparr>pulse_status := 0\<rparr>"

text \<open>The inner function \<open>pulse\<close>: count, show the dots, and set the timer for the next time.\<close>

definition pulse :: "search \<Rightarrow> search" where
  "pulse s =
     (let n = (pulse_status s + 1) mod 4;
          s' = say (Dots (nat n)) (s\<lparr>pulse_status := n\<rparr>)
      in if n > -1 then s'\<lparr>pulse_timers := pulse_timers s' + 1\<rparr> else s')"

definition startPulse :: "search \<Rightarrow> search" where
  "startPulse s = (if pulse_status s \<ge> 0 then s else pulse s)"

definition noMatch :: jstring where
  "noMatch = js ''Your search did not match any documents. Please make sure that all words are spelled correctly and that you've selected enough categories.''"

definition statusText :: "page_env \<Rightarrow> nat \<Rightarrow> jstring" where
  "statusText env n =
     (if n = 0 then translate env noMatch
      else replaceFirst (js ''%s'') (dec n)
             (translate env (js ''Search finished, found %s page(s) matching the search query.'')))"

text \<open>The summary of an item without a description, when the page has its source.\<close>

definition itemSummary :: "page_env \<Rightarrow> display \<Rightarrow> item \<Rightarrow> node list option" where
  "itemSummary env d it =
     (if (case idescr it of Some t \<Rightarrow> t \<noteq> [] | None \<Rightarrow> False) \<or> \<not> HAS_SOURCE (docOpts env) then None
      else case response env (requestUrl (docOpts env) it) of
             Some data \<Rightarrow>
               if data \<noteq> [] then makeSearchSummary (lower env) (htmlText env) data (keywords_of d) (hlwords d)
               else None
           | None \<Rightarrow> None)"

definition shownItem :: "page_env \<Rightarrow> display \<Rightarrow> item \<Rightarrow> page_output" where
  "shownItem env d it =
     Shown (itemHref (docOpts env) (highlightstring d) it) (ititle it)
       (case idescr it of Some t \<Rightarrow> if t \<noteq> [] then Some t else None | None \<Rightarrow> None) (itemSummary env d it)"

text \<open>
  One call of \<open>displayNextItem\<close>, the request for the summary included: it shows the last
  item and sets a timer for the next call, or it ends the search.
\<close>

definition displayNextItem :: "page_env \<Rightarrow> display \<Rightarrow> search \<Rightarrow> search" where
  "displayNextItem env d s =
     (if results d \<noteq> [] then
        let s' = say (shownItem env d (last (results d))) s
        in s'\<lparr>displays := displays s' @ [d\<lparr>results := butlast (results d)\<rparr>]\<rparr>
      else say (Status (statusText env (resultCount d)))
             (say (Heading (translate env (js ''Search Results''))) (stopPulse s)))"

text \<open>A query is a string, or \<open>undefined\<close> (\<open>None\<close>), which has no words to split.\<close>

definition query :: "page_env \<Rightarrow> jstring option \<Rightarrow> search \<Rightarrow> search" where
  "query env qo s =
     (case (s_index s, qo) of
        (None, _) \<Rightarrow> say (Raised TypeError) s
      | (Some idx, None) \<Rightarrow> say (Raised TypeError) s
      | (Some idx, Some q) \<Rightarrow>
          let qt = queryTerms (lower env) splitQuery q in
          case highlightString (hlterms qt) of
            None \<Rightarrow> say (Raised URIError) s
          | Some hl \<Rightarrow>
              (case queryResults (lower env) (translate env) idx qt of
                 (rs, idx') \<Rightarrow>
                   displayNextItem env
                     \<lparr>results = rs, resultCount = length rs, highlightstring = hl,
                      keywords_of = searchterms qt, hlwords = hlterms qt\<rparr>
                     (say (Ran q) (say (Progress []) (s\<lparr>s_index := Some idx'\<rparr>)))))"

definition setIndex :: "page_env \<Rightarrow> index \<Rightarrow> search \<Rightarrow> search" where
  "setIndex env idx s =
     (let s' = s\<lparr>s_index := Some idx\<rparr> in
      case queued_query s of
        None \<Rightarrow> s'
      | Some q \<Rightarrow> query env q (s'\<lparr>queued_query := None\<rparr>))"

text \<open>The elements of the page that a search creates, and its animated title.\<close>

definition prepareSearch :: "page_env \<Rightarrow> search \<Rightarrow> search" where
  "prepareSearch env s =
     startPulse (say (Progress (translate env (js ''Preparing search...'')))
       (say (Heading (translate env (js ''Searching''))) s))"

definition performSearch :: "page_env \<Rightarrow> jstring option \<Rightarrow> search \<Rightarrow> search" where
  "performSearch env q s =
     (let s' = prepareSearch env s
      in if hasIndex s' then query env q s' else deferQuery q s')"

text \<open>\<open>init\<close>: the query of the URL; a parameter without a value is passed on as \<open>undefined\<close>.\<close>

definition initPage :: "page_env \<Rightarrow> jstring \<Rightarrow> search \<Rightarrow> search" where
  "initPage env location s =
     (case getQueryParameters location of
        Inl e \<Rightarrow> say (Raised e) s
      | Inr params \<Rightarrow>
          (case map_of params (js ''q'') of
             Some (v # _) \<Rightarrow> performSearch env v s
           | _ \<Rightarrow> s))"

section \<open>Steps\<close>

text \<open>A timer of the title, or the timer of a display, which is its next call.\<close>

definition pulseTimer :: "search \<Rightarrow> search" where
  "pulseTimer s = pulse (s\<lparr>pulse_timers := pulse_timers s - 1\<rparr>)"

inductive page_step :: "page_env \<Rightarrow> search \<Rightarrow> search \<Rightarrow> bool" for env where
  search: "page_step env s (performSearch env q s)"
| index_loaded: "page_step env s (setIndex env idx s)"
| pulse_fires: "0 < pulse_timers s \<Longrightarrow> page_step env s (pulseTimer s)"
| display_fires: "displays s = xs @ d # ys \<Longrightarrow>
    page_step env s (displayNextItem env d (s\<lparr>displays := xs @ ys\<rparr>))"

inductive_cases page_stepE: "page_step env s t"

section \<open>Lemmas: the title\<close>

lemma say_simps [simp]:
  "s_index (say o' s) = s_index s" "queued_query (say o' s) = queued_query s"
  "pulse_status (say o' s) = pulse_status s" "pulse_timers (say o' s) = pulse_timers s"
  "displays (say o' s) = displays s" "out (say o' s) = out s @ [o']"
  by (simp_all add: say_def)

lemma stopPulse_simps [simp]:
  "s_index (stopPulse s) = s_index s" "queued_query (stopPulse s) = queued_query s"
  "pulse_status (stopPulse s) = 0" "pulse_timers (stopPulse s) = pulse_timers s"
  "displays (stopPulse s) = displays s" "out (stopPulse s) = out s"
  by (simp_all add: stopPulse_def)

text \<open>Before the first search nothing waits; from then on one timer is always set.\<close>

definition idle :: "search \<Rightarrow> bool" where
  "idle s \<longleftrightarrow> pulse_status s = -1 \<and> pulse_timers s = 0 \<and> queued_query s = None \<and> displays s = [] \<and>
     (\<forall>t. Status t \<notin> set (out s))"

definition pulsing :: "search \<Rightarrow> bool" where
  "pulsing s \<longleftrightarrow> 0 \<le> pulse_status s \<and> pulse_status s < 4 \<and> pulse_timers s = 1"

definition pulse_inv :: "search \<Rightarrow> bool" where
  "pulse_inv s \<longleftrightarrow> idle s \<or> pulsing s"

lemma displayNextItem_pulsing: "pulsing s \<Longrightarrow> pulsing (displayNextItem env d s)"
  by (auto simp: pulsing_def displayNextItem_def Let_def)

lemma query_pulsing: "pulsing s \<Longrightarrow> pulsing (query env q s)"
  by (auto simp: query_def Let_def split: option.splits prod.splits intro!: displayNextItem_pulsing)
    (auto simp: pulsing_def)

lemma pulse_pulsing: "pulse_timers s = 0 \<Longrightarrow> pulsing (pulse s)"
  by (simp add: pulse_def pulsing_def Let_def)

lemma startPulse_pulsing: "pulse_inv s \<Longrightarrow> pulsing (startPulse s)"
  by (auto simp: pulse_inv_def startPulse_def idle_def pulsing_def pulse_def Let_def)

lemma prepareSearch_pulsing: "pulse_inv s \<Longrightarrow> pulsing (prepareSearch env s)"
  unfolding prepareSearch_def
  by (rule startPulse_pulsing) (auto simp: pulse_inv_def idle_def pulsing_def)

lemma performSearch_pulsing: "pulse_inv s \<Longrightarrow> pulsing (performSearch env q s)"
  using query_pulsing [OF prepareSearch_pulsing, of s env q] prepareSearch_pulsing [of s env]
  by (simp add: performSearch_def Let_def deferQuery_def) (simp add: pulsing_def)

lemma setIndex_inv: "pulse_inv s \<Longrightarrow> pulse_inv (setIndex env idx s)"
proof (cases "queued_query s")
  case (Some q)
  moreover assume "pulse_inv s"
  ultimately have "pulsing s" by (auto simp: pulse_inv_def idle_def)
  then have "pulsing (s\<lparr>s_index := Some idx, queued_query := None\<rparr>)" by (simp add: pulsing_def)
  from query_pulsing [OF this] Some show ?thesis by (simp add: pulse_inv_def setIndex_def Let_def)
qed (auto simp: pulse_inv_def idle_def pulsing_def setIndex_def)

lemma page_step_inv: "pulse_inv s \<Longrightarrow> page_step env s t \<Longrightarrow> pulse_inv t"
proof (erule page_stepE)
  assume "pulse_inv s"
  fix q assume "t = performSearch env q s"
  with \<open>pulse_inv s\<close> show ?thesis by (simp add: pulse_inv_def performSearch_pulsing)
next
  assume "pulse_inv s"
  fix idx assume "t = setIndex env idx s"
  with \<open>pulse_inv s\<close> show ?thesis by (simp add: setIndex_inv)
next
  assume "pulse_inv s" "t = pulseTimer s" "0 < pulse_timers s"
  then show ?thesis
    by (auto simp: pulse_inv_def idle_def pulsing_def pulseTimer_def intro!: disjI2 pulse_pulsing)
      (auto simp: pulse_def Let_def)
next
  assume "pulse_inv s"
  fix xs d ys assume d: "displays s = xs @ d # ys" "t = displayNextItem env d (s\<lparr>displays := xs @ ys\<rparr>)"
  then have "pulsing (s\<lparr>displays := xs @ ys\<rparr>)"
    using \<open>pulse_inv s\<close> by (auto simp: pulse_inv_def idle_def pulsing_def)
  from displayNextItem_pulsing [OF this] d(2) show ?thesis by (simp add: pulse_inv_def)
qed

lemma initSearch_inv: "pulse_inv initSearch"
  by (simp add: pulse_inv_def idle_def initSearch_def)

interpretation pu: invariant_machine "\<lambda>s. s = initSearch" "page_step env" pulse_inv
  by unfold_locales (auto simp: initSearch_inv intro: page_step_inv)

section \<open>Lemmas: queries\<close>

text \<open>The queries that were executed, in their order.\<close>

definition ranQueries :: "search \<Rightarrow> jstring list" where
  "ranQueries s = concat (map (\<lambda>o'. case o' of Ran q \<Rightarrow> [q] | _ \<Rightarrow> []) (out s))"

definition runnable :: "page_env \<Rightarrow> jstring \<Rightarrow> bool" where
  "runnable env q \<longleftrightarrow> highlightString (hlterms (queryTerms (lower env) splitQuery q)) \<noteq> None"

lemma ranQueries_update [simp]:
  "ranQueries (s\<lparr>queued_query := x\<rparr>) = ranQueries s" "ranQueries (s\<lparr>s_index := y\<rparr>) = ranQueries s"
  by (simp_all add: ranQueries_def)

lemma displayNextItem_simps [simp]:
  "ranQueries (displayNextItem env d s) = ranQueries s"
  "s_index (displayNextItem env d s) = s_index s"
  "queued_query (displayNextItem env d s) = queued_query s"
  by (auto simp: displayNextItem_def ranQueries_def Let_def shownItem_def)

lemma startPulse_simps [simp]:
  "ranQueries (startPulse s) = ranQueries s" "s_index (startPulse s) = s_index s"
  "queued_query (startPulse s) = queued_query s" "displays (startPulse s) = displays s"
  by (auto simp: startPulse_def pulse_def ranQueries_def Let_def)

lemma prepareSearch_simps [simp]:
  "ranQueries (prepareSearch env s) = ranQueries s" "s_index (prepareSearch env s) = s_index s"
  "queued_query (prepareSearch env s) = queued_query s" "displays (prepareSearch env s) = displays s"
  by (simp_all add: prepareSearch_def) (simp add: ranQueries_def)

lemma query_runs:
  assumes "s_index s = Some idx" "runnable env q"
  shows "ranQueries (query env (Some q) s) = ranQueries s @ [q]" "hasIndex (query env (Some q) s)"
    "queued_query (query env (Some q) s) = queued_query s"
  using assms
  by (auto simp: query_def runnable_def Let_def hasIndex_def split: prod.splits)
    (simp_all add: ranQueries_def)

lemma performSearch_deferred:
  "\<not> hasIndex s \<Longrightarrow> ranQueries (performSearch env q s) = ranQueries s \<and>
     \<not> hasIndex (performSearch env q s) \<and> queued_query (performSearch env q s) = Some q"
  by (simp add: performSearch_def hasIndex_def deferQuery_def Let_def)

lemma performSearch_runs:
  assumes "hasIndex s" "runnable env q"
  shows "ranQueries (performSearch env (Some q) s) = ranQueries s @ [q]"
    "hasIndex (performSearch env (Some q) s)"
proof -
  obtain idx where "s_index (prepareSearch env s) = Some idx" using assms(1) by (auto simp: hasIndex_def)
  from query_runs [OF this assms(2)] assms(1)
  show "ranQueries (performSearch env (Some q) s) = ranQueries s @ [q]"
    "hasIndex (performSearch env (Some q) s)"
    by (simp_all add: performSearch_def hasIndex_def Let_def)
qed

definition searches :: "page_env \<Rightarrow> jstring list \<Rightarrow> search \<Rightarrow> search" where
  "searches env qs s = fold (\<lambda>q. performSearch env (Some q)) qs s"

lemma searches_deferred:
  "qs \<noteq> [] \<Longrightarrow> \<not> hasIndex s \<Longrightarrow> ranQueries (searches env qs s) = ranQueries s \<and>
     \<not> hasIndex (searches env qs s) \<and> queued_query (searches env qs s) = Some (Some (last qs))"
proof (induction qs arbitrary: s rule: list_nonempty_induct)
  case (single x)
  then show ?case by (simp add: searches_def performSearch_deferred)
next
  case (cons x xs)
  then show ?case using performSearch_deferred [of s env "Some x"] by (simp add: searches_def)
qed

lemma searches_run:
  "hasIndex s \<Longrightarrow> \<forall>q \<in> set qs. runnable env q \<Longrightarrow> ranQueries (searches env qs s) = ranQueries s @ qs"
proof (induction qs arbitrary: s)
  case (Cons q qs)
  then show ?case using performSearch_runs [of s env q] by (simp add: searches_def)
qed (simp add: searches_def)

section \<open>Lemmas: the display\<close>

text \<open>The timer of the only display fires as often as said.\<close>

primrec fireDisplay :: "page_env \<Rightarrow> nat \<Rightarrow> search \<Rightarrow> search" where
  "fireDisplay env 0 s = s"
| "fireDisplay env (Suc n) s =
     fireDisplay env n
       (case displays s of d # ds \<Rightarrow> displayNextItem env d (s\<lparr>displays := ds\<rparr>) | [] \<Rightarrow> s)"

lemma shownItem_results [simp]: "shownItem env (d\<lparr>results := rs\<rparr>) = shownItem env d"
  by (auto simp: fun_eq_iff shownItem_def itemSummary_def split: option.splits)

lemma fireDisplay_all:
  "displays s = [d] \<Longrightarrow>
   displays (fireDisplay env (Suc (length (results d))) s) = [] \<and>
   out (fireDisplay env (Suc (length (results d))) s) =
     out s @ map (shownItem env d) (rev (results d)) @
     [Heading (translate env (js ''Search Results'')), Status (statusText env (resultCount d))]"
proof (induction "length (results d)" arbitrary: s d)
  case 0
  then show ?case by (simp add: displayNextItem_def)
next
  case (Suc n)
  let ?d = "d\<lparr>results := butlast (results d)\<rparr>"
  let ?s = "displayNextItem env d (s\<lparr>displays := []\<rparr>)"
  have ne: "results d \<noteq> []" using Suc.hyps(2) by auto
  then have d: "displays ?s = [?d]" "out ?s = out s @ [shownItem env d (last (results d))]"
    by (simp_all add: displayNextItem_def Let_def)
  have n: "n = length (results ?d)" "length (results ?d) = n" using Suc.hyps(2) by auto
  have r: "rev (results d) = last (results d) # rev (butlast (results d))"
    using ne by (metis append_butlast_last_id rev_eq_Cons_iff rev_rev_ident)
  have "fireDisplay env (Suc (Suc n)) s = fireDisplay env (Suc n) ?s" using Suc.prems by simp
  then show ?case
    using Suc.hyps(1) [OF n(1) d(1)] unfolding n(2) Suc.hyps(2) [symmetric] r
    by (simp add: d(2) del: fireDisplay.simps js.simps)
qed

lemma query_shows:
  assumes "s_index s = Some idx" "displays s = []"
    and "highlightString (hlterms (queryTerms (lower env) splitQuery q)) = Some hl"
    and "fst (queryResults (lower env) (translate env) idx (queryTerms (lower env) splitQuery q)) = rs"
  shows "\<exists>d. highlightstring d = hl \<and>
    displays (fireDisplay env (length rs) (query env (Some q) s)) = [] \<and>
    out (fireDisplay env (length rs) (query env (Some q) s)) =
      out s @ [Progress [], Ran q] @ map (shownItem env d) (rev rs) @
      [Heading (translate env (js ''Search Results'')), Status (statusText env (length rs))]"
proof -
  let ?qt = "queryTerms (lower env) splitQuery q"
  obtain idx' where r: "queryResults (lower env) (translate env) idx ?qt = (rs, idx')"
    using assms(4) by (metis prod.collapse)
  let ?d = "\<lparr>results = rs, resultCount = length rs, highlightstring = hl,
    keywords_of = searchterms ?qt, hlwords = hlterms ?qt\<rparr>"
  let ?s = "say (Ran q) (say (Progress []) (s\<lparr>s_index := Some idx'\<rparr>))"
  have q: "query env (Some q) s = displayNextItem env ?d ?s"
    using assms(1,3) r by (simp add: query_def Let_def)
  have "?s\<lparr>displays := []\<rparr> = ?s" using assms(2) by (simp add: say_def)
  then have "fireDisplay env (length rs) (query env (Some q) s) =
      fireDisplay env (Suc (length (results ?d))) (?s\<lparr>displays := [?d]\<rparr>)"
    unfolding q by simp
  then show ?thesis
    using fireDisplay_all [of "?s\<lparr>displays := [?d]\<rparr>" ?d env]
    by (intro exI [of _ ?d]) (simp del: js.simps fireDisplay.simps)
qed

section \<open>Sample inputs\<close>

text \<open>A page in English.\<close>

definition samplePage :: page_env where
  "samplePage = \<lparr>lower = asciiLower, catalogue = initDocumentation,
     docOpts = \<lparr>URL_ROOT = [], BUILDER = js ''html'', FILE_SUFFIX = js ''.html'',
       LINK_SUFFIX = js ''.html'', HAS_SOURCE = False\<rparr>,
     htmlText = id, response = (\<lambda>_. None)\<rparr>"

section \<open>Properties\<close>

text \<open>
  C17. A search shows its results completely and in order: on a page that has its index and
  shows nothing else, the search and the timers it sets show every result of the query
  exactly once, by falling score and, for equal scores, alphabetically by title, each with
  the highlight string in its link, and end with the number of the results.
\<close>

theorem search_shows_all_results:
  assumes "s_index s = Some idx" "displays s = []"
    and "highlightString (hlterms (queryTerms (lower env) splitQuery q)) = Some hl"
    and "fst (queryResults (lower env) (translate env) idx (queryTerms (lower env) splitQuery q)) = rs"
  shows "\<exists>d items. highlightstring d = hl \<and> mset items = mset rs \<and>
    sorted_wrt (\<lambda>a b. iscore a > iscore b \<or> iscore a = iscore b \<and>
      lower env (ititle a) \<le> lower env (ititle b)) items \<and>
    displays (fireDisplay env (length rs) (performSearch env (Some q) s)) = [] \<and>
    out (fireDisplay env (length rs) (performSearch env (Some q) s)) =
      out (prepareSearch env s) @ [Progress [], Ran q] @ map (shownItem env d) items @
      [Heading (translate env (js ''Search Results'')), Status (statusText env (length items))]"
proof -
  have s: "s_index (prepareSearch env s) = Some idx" "displays (prepareSearch env s) = []"
    using assms(1,2) by simp_all
  have "sorted_wrt (\<lambda>a b. iscore a > iscore b \<or> iscore a = iscore b \<and>
      lower env (ititle a) \<le> lower env (ititle b)) (rev rs)"
    using display_order [of "lower env"] assms(4)
    by (auto simp: queryResults_def split: prod.splits)
  moreover have "performSearch env (Some q) s = query env (Some q) (prepareSearch env s)"
    using assms(1) by (simp add: performSearch_def hasIndex_def Let_def)
  moreover obtain d where "highlightstring d = hl"
    "displays (fireDisplay env (length rs) (query env (Some q) (prepareSearch env s))) = []"
    "out (fireDisplay env (length rs) (query env (Some q) (prepareSearch env s))) =
      out (prepareSearch env s) @ [Progress [], Ran q] @ map (shownItem env d) (rev rs) @
      [Heading (translate env (js ''Search Results'')), Status (statusText env (length rs))]"
    using query_shows [OF s assms(3,4)] by blast
  ultimately show ?thesis
    by (intro exI [of _ d] exI [of _ "rev rs"]) (simp del: js.simps)
qed

theorem search_shows_all_results_witness:
  "\<exists>d items. highlightstring d = js ''?highlight=vm'' \<and>
    mset items = mset (fst (queryResults asciiLower (translate samplePage) sampleIndex
      (queryTerms asciiLower splitQuery (js ''VM'')))) \<and>
    out (fireDisplay samplePage (length (fst (queryResults asciiLower (translate samplePage) sampleIndex
        (queryTerms asciiLower splitQuery (js ''VM'')))))
      (performSearch samplePage (Some (js ''VM'')) (initSearch\<lparr>s_index := Some sampleIndex\<rparr>))) =
    out (prepareSearch samplePage (initSearch\<lparr>s_index := Some sampleIndex\<rparr>)) @
      [Progress [], Ran (js ''VM'')] @ map (shownItem samplePage d) items @
      [Heading (translate samplePage (js ''Search Results'')), Status (statusText samplePage (length items))]"
proof -
  have l: "lower samplePage = asciiLower" by (simp add: samplePage_def)
  have "highlightString (hlterms (queryTerms (lower samplePage) splitQuery (js ''VM''))) = Some (js ''?highlight=vm'')"
    by (simp add: l sample_terms sample_link del: js.simps)
  moreover have "s_index (initSearch\<lparr>s_index := Some sampleIndex\<rparr>) = Some sampleIndex"
    "displays (initSearch\<lparr>s_index := Some sampleIndex\<rparr>) = []"
    by (simp_all add: initSearch_def)
  ultimately show ?thesis
    using search_shows_all_results [OF _ _ _ refl,
        of "initSearch\<lparr>s_index := Some sampleIndex\<rparr>" sampleIndex samplePage "js ''VM''" "js ''?highlight=vm''"]
    unfolding l by blast
qed

text \<open>
  C18. Searches before the index has arrived: only the last of them is executed, when the
  index arrives, and every later search is executed at once and once, in order. (A
  search whose words hold a broken surrogate pair cannot be written into a link and raises an
  error instead.)
\<close>

theorem deferred_search_runs_once:
  assumes "qs \<noteq> []" "runnable env (last qs)" "\<forall>q \<in> set rs. runnable env q"
  shows "ranQueries (searches env rs (setIndex env idx (searches env qs initSearch))) = last qs # rs"
proof -
  let ?s = "searches env qs initSearch"
  have s: "ranQueries ?s = []" "queued_query ?s = Some (Some (last qs))"
    using searches_deferred [OF assms(1), of initSearch env]
    by (auto simp: hasIndex_def initSearch_def ranQueries_def)
  have "setIndex env idx ?s = query env (Some (last qs)) (?s\<lparr>s_index := Some idx, queued_query := None\<rparr>)"
    by (simp add: setIndex_def s(2) Let_def)
  moreover have "s_index (?s\<lparr>s_index := Some idx, queued_query := None\<rparr>) = Some idx" by simp
  ultimately have "ranQueries (setIndex env idx ?s) = [last qs]" "hasIndex (setIndex env idx ?s)"
    using query_runs(1,2) [of _ idx env "last qs"] assms(2) s(1) by auto
  then show ?thesis using searches_run assms(3) by simp
qed

theorem deferred_search_runs_once_witness:
  "ranQueries (searches samplePage [js ''VM'']
     (setIndex samplePage sampleIndex (searches samplePage [[], js ''VM''] initSearch))) = [js ''VM'', js ''VM'']"
proof -
  have "runnable samplePage (js ''VM'')"
    using sample_terms sample_link by (simp add: runnable_def samplePage_def del: js.simps)
  then show ?thesis
    using deferred_search_runs_once [of "[[], js ''VM'']" samplePage "[js ''VM'']" sampleIndex]
    by (simp del: js.simps)
qed

text \<open>
  C19. The title never stops pulsing: from the first search on, whatever happens in whatever
  order, exactly one timer of the title is set, also when the search has finished and
  its status is shown; \<open>stopPulse\<close> does not stop it.
\<close>

theorem pulse_never_stops:
  assumes "reach (\<lambda>s. s = initSearch) (page_step env) s"
  shows "pulse_timers s = (if pulse_status s = -1 then 0 else 1) \<and> pulse_status s < 4 \<and>
    (\<forall>t. Status t \<in> set (out s) \<longrightarrow> pulse_timers s = 1 \<and> pulse_timers (stopPulse s) = 1)"
  using pu.reach_inv [OF assms] by (auto simp: pulse_inv_def idle_def pulsing_def)

theorem pulse_never_stops_witness:
  "pulse_timers (performSearch samplePage (Some (js ''VM'')) initSearch) =
     (if pulse_status (performSearch samplePage (Some (js ''VM'')) initSearch) = -1 then 0 else 1)"
proof -
  have "reach (\<lambda>s. s = initSearch) (page_step samplePage) initSearch" by (rule reach_init) simp
  then have "reach (\<lambda>s. s = initSearch) (page_step samplePage)
      (performSearch samplePage (Some (js ''VM'')) initSearch)"
    by (rule reach_step) (rule page_step.search)
  from pulse_never_stops [OF this] show ?thesis by blast
qed

end
