(* ===== verification/Shell_Words.thy ===== *)
theory Shell_Words
  imports JS_Prelude
begin

text \<open>
  How a POSIX shell splits a line into the words of a simple command: the reference
  against which the command lines that the extension sends to a terminal are judged.
  \<open>sh_lex\<close> follows the quoting rules of the shell grammar: a backslash quotes the next
  character, single quotes quote everything up to the next single quote, double quotes
  leave the backslash, the dollar sign and the backquote active. A line is
  in the fragment only when no unquoted character of it is active (an operator, an
  expansion, a pattern, a comment or a history reference); outside the fragment
  the result is \<open>None\<close>, so a \<open>Some\<close> says that the shell runs exactly these words.
\<close>

datatype sh_mode = Plain | SingleQuoted | DoubleQuoted

text \<open>The unquoted characters a shell gives a meaning of its own, blanks and quotes apart.\<close>

definition sh_active :: "nat \<Rightarrow> bool" where
  "sh_active c \<longleftrightarrow> c = 10 \<or> c \<in> set (js ''!#$&()*;<>?[]`{|}~'')"

definition sh_blank :: "nat \<Rightarrow> bool" where
  "sh_blank c \<longleftrightarrow> c = 32 \<or> c = 9"

text \<open>
  \<open>cur\<close> is the word being read, \<open>None\<close> between words: an empty pair of quotes is
  a word, a run of blanks is not.
\<close>

fun sh_lex :: "sh_mode \<Rightarrow> jstring option \<Rightarrow> jstring \<Rightarrow> jstring list option" where
  "sh_lex Plain cur [] = Some (case cur of None \<Rightarrow> [] | Some w \<Rightarrow> [w])"
| "sh_lex SingleQuoted cur [] = None"
| "sh_lex DoubleQuoted cur [] = None"
| "sh_lex Plain cur (c # s) =
     (let w = (case cur of None \<Rightarrow> [] | Some w \<Rightarrow> w) in
      if sh_blank c then
        (case cur of None \<Rightarrow> sh_lex Plain None s
         | Some w \<Rightarrow> map_option (\<lambda>ws. w # ws) (sh_lex Plain None s))
      else if c = 39 then sh_lex SingleQuoted (Some w) s
      else if c = 34 then sh_lex DoubleQuoted (Some w) s
      else if c = 92 then
        (case s of [] \<Rightarrow> None
         | d # s' \<Rightarrow> if d = 10 then sh_lex Plain cur s' else sh_lex Plain (Some (w @ [d])) s')
      else if sh_active c then None
      else sh_lex Plain (Some (w @ [c])) s)"
| "sh_lex SingleQuoted cur (c # s) =
     (let w = (case cur of None \<Rightarrow> [] | Some w \<Rightarrow> w) in
      if c = 39 then sh_lex Plain (Some w) s else sh_lex SingleQuoted (Some (w @ [c])) s)"
| "sh_lex DoubleQuoted cur (c # s) =
     (let w = (case cur of None \<Rightarrow> [] | Some w \<Rightarrow> w) in
      if c = 34 then sh_lex Plain (Some w) s
      else if c = 92 then
        (case s of [] \<Rightarrow> None
         | d # s' \<Rightarrow> if d = 10 then sh_lex DoubleQuoted (Some w) s'
             else if d = 36 \<or> d = 96 \<or> d = 34 \<or> d = 92 then sh_lex DoubleQuoted (Some (w @ [d])) s'
             else sh_lex DoubleQuoted (Some (w @ [c, d])) s')
      else if c = 36 \<or> c = 96 \<or> c = 33 then None
      else sh_lex DoubleQuoted (Some (w @ [c])) s)"

definition sh_words :: "jstring \<Rightarrow> jstring list option" where
  "sh_words s = sh_lex Plain None s"

text \<open>Characters an unquoted word may hold: none of them ends the word or is active.\<close>

definition sh_safe :: "nat \<Rightarrow> bool" where
  "sh_safe c \<longleftrightarrow> \<not> sh_blank c \<and> c \<noteq> 39 \<and> c \<noteq> 34 \<and> c \<noteq> 92 \<and> \<not> sh_active c"

lemma sh_lex_safe:
  "\<forall>c \<in> set a. sh_safe c \<Longrightarrow> sh_lex Plain (Some w) (a @ s) = sh_lex Plain (Some (w @ a)) s"
  by (induction a arbitrary: w) (auto simp: sh_safe_def)

lemma sh_lex_safe_word:
  "a \<noteq> [] \<Longrightarrow> \<forall>c \<in> set a. sh_safe c \<Longrightarrow> sh_lex Plain None (a @ s) = sh_lex Plain (Some a) s"
  by (cases a) (auto simp: sh_safe_def sh_lex_safe)

lemma sh_lex_Some_Nil [simp]: "sh_lex Plain (Some w) [] = Some [w]"
  by simp

lemma sh_lex_blank [simp]:
  "sh_lex Plain (Some w) (32 # s) = map_option (\<lambda>ws. w # ws) (sh_lex Plain None s)"
  by (simp add: sh_blank_def)

text \<open>
  Two lines in the fragment, one after the other with a blank between them: the words
  of the first, then those of the second.
\<close>

lemma sh_lex_append:
  assumes "sh_lex Plain None rest = Some ws"
  shows "sh_lex md cur raw = Some us \<Longrightarrow>
     sh_lex md cur (raw @ 32 # rest) = Some (us @ ws)"
proof (induction md cur raw arbitrary: us rule: sh_lex.induct)
  case (1 cur)
  then show ?case
    using assms by (cases cur) (auto simp: sh_blank_def)
next
  case (4 cur c s)
  consider "sh_blank c" | "\<not> sh_blank c" "c = 39" | "\<not> sh_blank c" "c = 34"
    | "\<not> sh_blank c" "c = 92" | "\<not> sh_blank c" "c \<notin> {39, 34, 92}" by blast
  then show ?case
  proof cases
    case 1
    with "4.prems" "4.IH"(1,2) show ?thesis by (cases cur) auto
  next
    case 2
    with "4.prems" "4.IH"(3) [OF refl] show ?thesis by simp
  next
    case 3
    with "4.prems" "4.IH"(4) [OF refl] show ?thesis by simp
  next
    case 4: 4
    show ?thesis
    proof (cases s)
      case Nil
      with 4 "4.prems" show ?thesis by simp
    next
      case (Cons d t)
      with 4 "4.prems" "4.IH"(5,6) [OF refl _ _ _ _ Cons] show ?thesis
        by (cases "d = 10") simp_all
    qed
  next
    case 5
    with "4.prems" "4.IH"(7) [OF refl] show ?thesis by (cases "sh_active c") simp_all
  qed
next
  case (5 cur c s)
  then show ?case by (cases "c = 39") simp_all
next
  case (6 cur c s)
  show ?case
  proof (cases "c = 92")
    case True
    show ?thesis
    proof (cases s)
      case Nil
      with True "6.prems" show ?thesis by simp
    next
      case (Cons d t)
      with True "6.prems" "6.IH"(2-4) [OF refl _ _ Cons] show ?thesis
        by (cases "d = 10"; cases "d = 36 \<or> d = 96 \<or> d = 34 \<or> d = 92") simp_all
    qed
  next
    case False
    with "6.prems" "6.IH"(1,5) [OF refl] show ?thesis
      by (cases "c = 34"; cases "c = 36 \<or> c = 96 \<or> c = 33") simp_all
  qed
qed auto

lemma sh_words_append:
  "sh_words a = Some us \<Longrightarrow> sh_words b = Some ws \<Longrightarrow> sh_words (a @ 32 # b) = Some (us @ ws)"
  unfolding sh_words_def by (rule sh_lex_append)

lemma sh_words_safe: "a \<noteq> [] \<Longrightarrow> \<forall>c \<in> set a. sh_safe c \<Longrightarrow> sh_words a = Some [a]"
  using sh_lex_safe_word [of a "[]"] by (simp add: sh_words_def)

lemma sh_words_Nil [simp]: "sh_words [] = Some []"
  by (simp add: sh_words_def)

lemma sh_words_blank [simp]: "sh_words (32 # s) = sh_words s"
  by (simp add: sh_words_def sh_blank_def)

text \<open>
  The contract of a quoting function: whatever follows it, the quoted form of a word is
  read as that word. From it, a command line of quoted words separated by single blanks
  is read as the words.
\<close>

locale shell_quoter =
  fixes quote :: "jstring \<Rightarrow> jstring"
  assumes quote_reads: "sh_lex Plain None (quote a @ s) = sh_lex Plain (Some a) s"
begin

lemma quoted_word: "sh_words (quote a) = Some [a]"
  using quote_reads [of a "[]"] by (simp add: sh_words_def)

lemma lex_joined: "sh_lex Plain None (join [32] (map quote ws)) = Some ws"
proof (induction ws rule: induct_list012)
  case (3 w v ws)
  then show ?case by (simp add: quote_reads del: sh_lex.simps)
qed (use quoted_word in \<open>auto simp: sh_words_def\<close>)

lemma words_joined: "sh_words (join [32] (map quote ws)) = Some ws"
  by (simp add: sh_words_def lex_joined)

text \<open>A raw prefix that is itself in the fragment keeps its words in front of the others.\<close>

lemma lex_raw_prefix:
  "sh_words raw = Some us \<Longrightarrow>
   sh_words (raw @ 32 # join [32] (map quote ws)) = Some (us @ ws)"
  using words_joined by (rule sh_words_append [rotated])

end

end
