(* ===== verification/Launcher.thy ===== *)
theory Launcher
  imports Shell_Words
begin

text \<open>
  The launcher, \<^verbatim>\<open>start-kernel.sh\<close>: its options, the checks on the kernel
  directory, the QEMU command line it assembles, the terminals it opens and the
  debugger it starts. A run is a function from the system it finds (\<open>sysenv\<close>: the
  commands it calls and the variables it inherits) and its arguments to the commands it
  performs, in order. \<open>sourced\<close> tells the two ways to start the script apart: in
  a sourced script \<^verbatim>\<open>return 0\<close> ends the run, in an executed one it is an error
  after which the script goes on. Unquoted expansions are split at blanks as the shell
  splits them (\<open>ifs_words\<close>); the terminal and debugger names are compared
  as the single words they are meant to be.
\<close>

section \<open>Options\<close>

datatype opt = OKernel | OInitrd | ORootfs | ODtb | OWith | OAppend | OShare | OTerminal
  | OQemuDir | OQemuExtra

record config =
  KERNEL :: jstring
  INITRD :: jstring
  ROOTFS :: jstring
  DTB :: jstring
  DEBUGGER :: jstring
  CMDLINE :: jstring
  SHARE_FOLDER :: jstring
  TERMINAL :: jstring
  QEMU_DIR :: jstring
  QEMU_EXTRA_PARAM :: jstring

text \<open>The branches of the \<^verbatim>\<open>case\<close>, in order.\<close>

definition allOpts :: "opt list" where
  "allOpts = [OKernel, OInitrd, ORootfs, ODtb, OWith, OAppend, OShare, OTerminal, OQemuDir, OQemuExtra]"

fun optName :: "opt \<Rightarrow> jstring" where
  "optName OKernel = js ''kernel''"
| "optName OInitrd = js ''initrd''"
| "optName ORootfs = js ''rootfs''"
| "optName ODtb = js ''dtb''"
| "optName OWith = js ''with''"
| "optName OAppend = js ''append''"
| "optName OShare = js ''share''"
| "optName OTerminal = js ''terminal''"
| "optName OQemuDir = js ''qemu-dir''"
| "optName OQemuExtra = js ''qemu-extra''"

fun setOpt :: "opt \<Rightarrow> jstring \<Rightarrow> config \<Rightarrow> config" where
  "setOpt OKernel v c = c\<lparr>KERNEL := v\<rparr>"
| "setOpt OInitrd v c = c\<lparr>INITRD := v\<rparr>"
| "setOpt ORootfs v c = c\<lparr>ROOTFS := v\<rparr>"
| "setOpt ODtb v c = c\<lparr>DTB := v\<rparr>"
| "setOpt OWith v c = c\<lparr>DEBUGGER := v\<rparr>"
| "setOpt OAppend v c = c\<lparr>CMDLINE := v\<rparr>"
| "setOpt OShare v c = c\<lparr>SHARE_FOLDER := v\<rparr>"
| "setOpt OTerminal v c = c\<lparr>TERMINAL := v\<rparr>"
| "setOpt OQemuDir v c = c\<lparr>QEMU_DIR := v\<rparr>"
| "setOpt OQemuExtra v c = c\<lparr>QEMU_EXTRA_PARAM := v\<rparr>"

definition optMatch :: "jstring \<Rightarrow> opt \<Rightarrow> bool" where
  "optMatch i o' \<longleftrightarrow> startsWith (js ''-'' @ optName o' @ [61]) i \<or>
     startsWith (js ''--'' @ optName o' @ [61]) i"

text \<open>\<^verbatim>\<open>${i#*=}\<close>: drop the shortest prefix that ends in an equals sign.\<close>

definition afterEq :: "jstring \<Rightarrow> jstring" where
  "afterEq i = (if 61 \<in> set i then tl (dropWhile (\<lambda>c. c \<noteq> 61) i) else i)"

definition parseArg :: "jstring \<Rightarrow> config \<Rightarrow> config option" where
  "parseArg i c =
     (case find (optMatch i) allOpts of Some o' \<Rightarrow> Some (setOpt o' (afterEq i) c) | None \<Rightarrow> None)"

section \<open>The system\<close>

record sysenv =
  hasTmux :: bool
  realpath :: "jstring list \<Rightarrow> jstring"
  isDir :: "jstring \<Rightarrow> bool"
  cdPwd :: "jstring list \<Rightarrow> jstring"
  androidOut :: "jstring \<Rightarrow> jstring"
  machine :: jstring
  random :: nat
  workDir :: jstring
  ambient :: "jstring \<Rightarrow> jstring"

datatype cmd =
    Echo jstring
  | ReturnOutsideFunction
  | GnomeTerminal jstring jstring
  | XfceTerminal jstring jstring
  | BashC jstring
  | ExitShell
  | Tmux "jstring list"
  | Gdb jstring "jstring list"
  | Ddd jstring jstring "jstring list"
  | Killall jstring

definition defaults :: "sysenv \<Rightarrow> config" where
  "defaults sy =
     \<lparr>KERNEL = [],
      INITRD = realpath sy [js ''./prebuilts/rootfs/initrd_aarch64.cpio.gz''],
      ROOTFS = ambient sy (js ''ROOTFS''),
      DTB = ambient sy (js ''DTB''),
      DEBUGGER = js ''gdb'',
      CMDLINE = [],
      SHARE_FOLDER = realpath sy [js ''./host-share''],
      TERMINAL = (if hasTmux sy then js ''tmux'' else js ''gnome''),
      QEMU_DIR = ambient sy (js ''QEMU_DIR''),
      QEMU_EXTRA_PARAM = []\<rparr>"

text \<open>
  The loop over the arguments: what it prints, the configuration, and whether the script
  has returned.
\<close>

fun parseArgs :: "bool \<Rightarrow> config \<Rightarrow> jstring list \<Rightarrow> cmd list \<times> config \<times> bool" where
  "parseArgs sourced c [] = ([], c, False)"
| "parseArgs sourced c (i # is) =
     (case parseArg i c of
        Some c' \<Rightarrow> parseArgs sourced c' is
      | None \<Rightarrow>
          (let msg = Echo (js ''Invalid argument: '' @ afterEq i @ js '', please check your input.'') in
           if sourced then ([msg], c, True)
           else case parseArgs sourced c is of
                  (ms, c', stopped) \<Rightarrow> (msg # ReturnOutsideFunction # ms, c', stopped)))"

section \<open>Derived settings\<close>

definition ifs_words :: "jstring \<Rightarrow> jstring list" where
  "ifs_words s = filter (\<lambda>w. w \<noteq> []) (splitOn 32 (map (\<lambda>c. if c = 9 \<or> c = 10 then 32 else c) s))"

record kernel_paths =
  KERNEL_OUT :: jstring
  KERNEL_SOURCE :: jstring
  KERNEL_IMAGE :: jstring
  KERNEL_VMLINUX :: jstring
  KERNEL_SCRIPTS :: jstring
  RELOC_SECTIONS :: jstring

definition kernelPaths :: "sysenv \<Rightarrow> config \<Rightarrow> kernel_paths" where
  "kernelPaths sy c =
     (let dir = cdPwd sy (ifs_words (KERNEL c)) in
      if isDir sy (KERNEL c @ js ''/common'') then
        (let out = dir @ js ''/out/'' @ androidOut sy (dir @ js ''/out/'') in
         \<lparr>KERNEL_OUT = out,
          KERNEL_SOURCE = dir @ js ''/common'',
          KERNEL_IMAGE = out @ js ''/dist/Image'',
          KERNEL_VMLINUX = out @ js ''/common/vmlinux'',
          KERNEL_SCRIPTS = out @ js ''/common/vmlinux-gdb.py'',
          RELOC_SECTIONS = js ''-s .head.text 0x40200000 -s .text 0x40210000 -s .init.text 0x42870000''\<rparr>)
      else
        \<lparr>KERNEL_OUT = dir,
         KERNEL_SOURCE = dir,
         KERNEL_IMAGE = dir @ js ''/arch/arm64/boot/Image'',
         KERNEL_VMLINUX = dir @ js ''/vmlinux'',
         KERNEL_SCRIPTS = dir @ js ''/vmlinux-gdb.py'',
         RELOC_SECTIONS = js ''-s .head.text 0x40200000 -s .text 0x40210000 -s .init.text 0x418b0000''\<rparr>)"

definition onArm :: "sysenv \<Rightarrow> bool" where
  "onArm sy \<longleftrightarrow> machine sy = js ''aarch64''"

definition qemuExec :: "sysenv \<Rightarrow> config \<Rightarrow> jstring" where
  "qemuExec sy c =
     (if QEMU_DIR c = []
      then (if onArm sy then js ''/usr/bin'' else realpath sy [js ''./prebuilts/qemu/bin''])
      else QEMU_DIR c) @ js ''/qemu-system-aarch64''"

definition gdbDir :: "sysenv \<Rightarrow> jstring" where
  "gdbDir sy = cdPwd sy [js ''./prebuilts/gdb'']"

definition gdbExec :: "sysenv \<Rightarrow> jstring" where
  "gdbExec sy = (if onArm sy then js ''gdb''
     else gdbDir sy @ js ''/usr/local/bin/aarch64-linux-gnu-gdb'')"

definition gdbData :: "sysenv \<Rightarrow> jstring" where
  "gdbData sy = (if onArm sy then js ''/usr/share/gdb''
     else gdbDir sy @ js ''/usr/local/share/gdb'')"

definition rootfsParam :: "sysenv \<Rightarrow> config \<Rightarrow> jstring" where
  "rootfsParam sy c =
     (if ROOTFS c \<noteq> []
      then js ''-drive if=none,file='' @ realpath sy (ifs_words (ROOTFS c)) @ js '',format='' @
        (if endsWith (js ''.qcow2'') (ROOTFS c) then js ''qcow2'' else js ''raw'') @
        js '',id=hd0 -device virtio-blk-device,drive=hd0''
      else js ''-initrd '' @ realpath sy (ifs_words (INITRD c)))"

definition rootfsBootargs :: "config \<Rightarrow> jstring" where
  "rootfsBootargs c =
     (if ROOTFS c \<noteq> []
      then js ''root='' @ (if endsWith (js ''.qcow2'') (ROOTFS c) then js ''/dev/vda1'' else js ''/dev/vda'') @
        js '' rw''
      else [])"

definition dtbParam :: "sysenv \<Rightarrow> config \<Rightarrow> jstring" where
  "dtbParam sy c = (if DTB c \<noteq> [] then js ''-dtb '' @ realpath sy (ifs_words (DTB c)) else [])"

definition shareParam :: "sysenv \<Rightarrow> config \<Rightarrow> jstring" where
  "shareParam sy c = js ''-fsdev local,security_model=mapped,id=fsdev0,path='' @
     realpath sy (ifs_words (SHARE_FOLDER c)) @
     js '' -device virtio-9p-pci,id=fs0,fsdev=fsdev0,mount_tag=hostshare''"

definition debugPort :: "sysenv \<Rightarrow> config \<Rightarrow> nat" where
  "debugPort sy c = (if startsWith (js ''cli'') (TERMINAL c) then 12880 else 10000 + random sy mod 10000)"

text \<open>
  The assembled command, piece by piece; the second component of a pair is the
  number of blanks the source leaves after it. The seventh piece expands
  \<^verbatim>\<open>DTB_PRAM\<close>, a variable that the script never sets.
\<close>

definition bootArgs :: "config \<Rightarrow> jstring" where
  "bootArgs c = rootfsBootargs c @ [32] @ CMDLINE c @ js '' earlycon=pl011,0x9000000 nokaslr''"

definition qemuPieces :: "sysenv \<Rightarrow> config \<Rightarrow> (jstring \<times> nat) list" where
  "qemuPieces sy c =
     [(qemuExec sy c, 17),
      (js '' -machine virt,gic_version=3'', 11),
      (js '' -cpu cortex-a72'', 23),
      (js '' -m 1024'', 31),
      (js '' -smp 8'', 32),
      (js '' -kernel '' @ KERNEL_IMAGE (kernelPaths sy c), 15),
      (js '' '' @ ambient sy (js ''DTB_PRAM''), 27),
      (js '' '' @ rootfsParam sy c, 23),
      (js '' '' @ shareParam sy c, 24),
      (js '' -netdev user,id=net0'', 18),
      (js '' -device virtio-net-device,netdev=net0'', 1),
      (js '' '' @ QEMU_EXTRA_PARAM c, 19),
      (js '' -serial mon:stdio'', 21),
      (js '' -display none'', 25),
      (js '' -gdb tcp::'' @ dec (debugPort sy c), 15),
      (js '' -S -append '' @ [39] @ bootArgs c @ [39], 0)]"

definition qemuCmd :: "sysenv \<Rightarrow> config \<Rightarrow> jstring" where
  "qemuCmd sy c = concat (map (\<lambda>(p, n). p @ replicate n 32) (qemuPieces sy c))"

section \<open>The run\<close>

text \<open>\<^verbatim>\<open>return 0\<close> at the top level of the script.\<close>

definition ret :: "bool \<Rightarrow> cmd list \<Rightarrow> cmd list" where
  "ret sourced rest = (if sourced then [] else ReturnOutsideFunction # rest)"

definition announcements :: "sysenv \<Rightarrow> config \<Rightarrow> cmd list" where
  "announcements sy c =
     [Echo (js ''Using QEMU: '' @ qemuExec sy c),
      Echo (if onArm sy then js ''Using system default gdb.'' else js ''Using prebuilt gdb.''),
      Echo (if ROOTFS c \<noteq> [] then js ''Using rootfs image: '' @ realpath sy (ifs_words (ROOTFS c))
            else js ''Using initrd image: '' @ realpath sy (ifs_words (INITRD c))),
      Echo (if DTB c \<noteq> [] then js ''Using dtb: '' @ realpath sy (ifs_words (DTB c))
            else js ''Using qemu default dtb.'')]"

definition gdbScript :: "sysenv \<Rightarrow> config \<Rightarrow> jstring list" where
  "gdbScript sy c =
     (let k = kernelPaths sy c in
      [js ''add-auto-load-safe-path '' @ KERNEL_SCRIPTS k,
       js ''set confirm off'',
       js ''file '' @ KERNEL_VMLINUX k,
       js ''add-symbol-file '' @ KERNEL_VMLINUX k @ [32] @ RELOC_SECTIONS k,
       js ''target remote localhost:'' @ dec (debugPort sy c),
       js ''b * 0x40200000 thread 1''])"

definition startDebugger :: "sysenv \<Rightarrow> config \<Rightarrow> cmd list" where
  "startDebugger sy c =
     (if DEBUGGER c = js ''gdb'' then
        [Gdb (KERNEL_SOURCE (kernelPaths sy c))
           (ifs_words (gdbExec sy) @ [js ''-data-directory''] @ ifs_words (gdbData sy) @
            concat (map (\<lambda>x. [js ''-ex'', x])
              (gdbScript sy c @ [js ''tui enable'', js ''continue''])) @
            [js ''-quiet''])]
      else if DEBUGGER c = js ''ddd'' then
        [Ddd (KERNEL_SOURCE (kernelPaths sy c)) (gdbExec sy) (gdbScript sy c @ [js ''continue''])]
      else []) @
     [Killall (js ''qemu-system-aarch64''), Tmux [js ''kill-session'', js ''-t'', js ''lightbox'']]"

text \<open>The command of a pane, with \<^verbatim>\<open>${PARAMS/tmux/mode}\<close>: the first occurrence is replaced.\<close>

definition paneCommand :: "jstring list \<Rightarrow> jstring \<Rightarrow> jstring" where
  "paneCommand argv mode =
     js ''source ./start-kernel.sh '' @ replaceFirst (js ''tmux'') mode (join [32] argv) @
     js '' --terminal='' @ mode"

definition sendKeys :: "jstring \<Rightarrow> cmd" where
  "sendKeys line = Tmux [js ''send-keys'', js ''-t'', js ''lightbox'', line, js ''C-m'']"

definition tmuxSession :: "sysenv \<Rightarrow> jstring list \<Rightarrow> cmd list" where
  "tmuxSession sy argv =
     [Tmux [js ''kill-session'', js ''-t'', js ''lightbox''],
      Tmux [js ''new-session'', js ''-d'', js ''-s'', js ''lightbox'', js ''bash'', js '';'',
        js ''pipe-pane'', js ''-o'', js ''cat > ./qemu.log''],
      sendKeys (js ''cd '' @ workDir sy),
      sendKeys (paneCommand argv (js ''cli-qemu'')),
      Tmux [js ''split-window'', js ''-h'', js ''bash''],
      sendKeys (js ''cd '' @ workDir sy),
      sendKeys (paneCommand argv (js ''cli-gdb'')),
      Tmux [js ''attach-session'', js ''-d'', js ''-t'', js ''lightbox''],
      Tmux [js ''kill-session'', js ''-t'', js ''lightbox'']]"

definition invalidTerminal :: "jstring \<Rightarrow> jstring" where
  "invalidTerminal t = js ''Invalid param: --terminal='' @ [34] @ t @ [34] @ js '', please use '' @
     [34] @ js ''tmux'' @ [34] @ js '', '' @ [34] @ js ''gnome'' @ [34] @ js '', '' @
     [34] @ js ''xfce4'' @ [34] @ js '', '' @ [34] @ js ''cli-qemu'' @ [34] @ js '', '' @
     [34] @ js ''cli-gdb'' @ [34]"

definition startTerminal :: "bool \<Rightarrow> sysenv \<Rightarrow> jstring list \<Rightarrow> config \<Rightarrow> cmd list" where
  "startTerminal sourced sy argv c =
     (let title = ambient sy (js ''QEMU_TITLE''); t = TERMINAL c in
      if t = js ''gnome'' then GnomeTerminal title (qemuCmd sy c) # startDebugger sy c
      else if t = js ''xfce4'' then
        XfceTerminal title (js ''bash -c '' @ [34] @ qemuCmd sy c @ [34]) # startDebugger sy c
      else if t = js ''cli-qemu'' then
        [Echo (js ''QEMU start, waiting for GDB connection...''), BashC (qemuCmd sy c), ExitShell]
      else if t = js ''cli-gdb'' then Echo (js ''Try to connect QEMU...'') # startDebugger sy c
      else if t = js ''tmux'' then tmuxSession sy argv @ ret sourced (startDebugger sy c)
      else Echo (invalidTerminal t) # ret sourced (startDebugger sy c))"

definition runConfigured :: "bool \<Rightarrow> sysenv \<Rightarrow> jstring list \<Rightarrow> config \<Rightarrow> cmd list" where
  "runConfigured sourced sy argv c =
     (let run = announcements sy c @ startTerminal sourced sy argv c;
          dirCheck = (if \<not> isDir sy (KERNEL c)
            then Echo (js ''ERROR: Directory not found: --kernel=<path>'') # ret sourced run
            else run)
      in if KERNEL c = []
         then Echo (js ''Please pass the kernel path: --kernel=<path>'') # ret sourced dirCheck
         else dirCheck)"

definition launch :: "bool \<Rightarrow> sysenv \<Rightarrow> jstring list \<Rightarrow> cmd list" where
  "launch sourced sy argv =
     (case parseArgs sourced (defaults sy) argv of
        (ms, c, stopped) \<Rightarrow> ms @ (if stopped then [] else runConfigured sourced sy argv c))"

section \<open>Lemmas: options\<close>

definition argOf :: "opt \<Rightarrow> jstring \<Rightarrow> jstring" where
  "argOf o' v = js ''--'' @ optName o' @ [61] @ v"

fun getOpt :: "opt \<Rightarrow> config \<Rightarrow> jstring" where
  "getOpt OKernel c = KERNEL c"
| "getOpt OInitrd c = INITRD c"
| "getOpt ORootfs c = ROOTFS c"
| "getOpt ODtb c = DTB c"
| "getOpt OWith c = DEBUGGER c"
| "getOpt OAppend c = CMDLINE c"
| "getOpt OShare c = SHARE_FOLDER c"
| "getOpt OTerminal c = TERMINAL c"
| "getOpt OQemuDir c = QEMU_DIR c"
| "getOpt OQemuExtra c = QEMU_EXTRA_PARAM c"

lemma getOpt_setOpt: "getOpt o' (setOpt p v c) = (if o' = p then v else getOpt o' c)"
  by (cases o'; cases p) auto

lemma optName_no_eq: "61 \<notin> set (optName o')"
  by (cases o') auto

lemma dropWhile_eq: "61 \<notin> set a \<Longrightarrow> dropWhile (\<lambda>c. c \<noteq> 61) (a @ 61 # v) = 61 # (v :: jstring)"
  by (induction a) auto

lemma afterEq_argOf: "afterEq (argOf o' v) = v"
  using dropWhile_eq [of "js ''--'' @ optName o'" v] optName_no_eq [of o']
  by (simp add: afterEq_def argOf_def)

lemma find_argOf: "find (optMatch (argOf o' v)) allOpts = Some o'"
  by (cases o') (simp_all add: optMatch_def argOf_def allOpts_def)

lemma parseArg_argOf [simp]: "parseArg (argOf o' v) c = Some (setOpt o' v c)"
  by (simp add: parseArg_def find_argOf afterEq_argOf)

lemma parseArgs_valid:
  "parseArgs sourced c (map (\<lambda>(o', v). argOf o' v) ovs @ is) =
     parseArgs sourced (fold (\<lambda>(o', v). setOpt o' v) ovs c) is"
  by (induction ovs arbitrary: c) auto

lemma getOpt_fold:
  "getOpt o' (fold (\<lambda>(p, v). setOpt p v) ovs c) =
     (case map_of (rev ovs) o' of Some v \<Rightarrow> v | None \<Rightarrow> getOpt o' c)"
  by (induction ovs arbitrary: c)
    (auto simp: getOpt_setOpt map_add_def split: option.splits)

definition printArgs :: "config \<Rightarrow> jstring list" where
  "printArgs c = map (\<lambda>o'. argOf o' (getOpt o' c)) allOpts"

lemma parse_printArgs: "parseArgs sourced d (printArgs c) = ([], c, False)"
  by (simp add: printArgs_def allOpts_def)

section \<open>Lemmas: nothing starts after an error\<close>

text \<open>The options of the usage text, written with one or two dashes, and the kernel that a list of arguments asks for.\<close>

definition documentedOptions :: "jstring list" where
  "documentedOptions = map js [''kernel'', ''initrd'', ''rootfs'', ''dtb'', ''with'', ''append'', ''share'', ''terminal'',
     ''qemu-dir'', ''qemu-extra'']"

definition writtenAs :: "jstring \<Rightarrow> jstring \<Rightarrow> bool" where
  "writtenAs n i \<longleftrightarrow> startsWith (js ''-'' @ n @ [61]) i \<or> startsWith (js ''--'' @ n @ [61]) i"

definition validArg :: "jstring \<Rightarrow> bool" where
  "validArg i \<longleftrightarrow> list_ex (\<lambda>n. writtenAs n i) documentedOptions"

definition kernelFrom :: "jstring \<Rightarrow> jstring list \<Rightarrow> jstring" where
  "kernelFrom k argv = fold (\<lambda>i k. if writtenAs (js ''kernel'') i then afterEq i else k) argv k"

lemma documented_names: "documentedOptions = map optName allOpts"
  by (simp add: documentedOptions_def allOpts_def)

lemma optMatch_written: "optMatch i o' \<longleftrightarrow> writtenAs (optName o') i"
  by (simp add: optMatch_def writtenAs_def)

lemma parseArg_valid: "parseArg i c = None \<longleftrightarrow> \<not> validArg i"
proof -
  have "parseArg i c = None \<longleftrightarrow> find (optMatch i) allOpts = None" by (simp add: parseArg_def split: option.split)
  also have "\<dots> \<longleftrightarrow> \<not> validArg i"
    by (auto simp: find_None_iff validArg_def documented_names optMatch_written list_ex_iff)
  finally show ?thesis .
qed

lemma parseArg_kernel:
  assumes "parseArg i c = Some c'"
  shows "KERNEL c' = (if writtenAs (js ''kernel'') i then afterEq i else KERNEL c)"
proof -
  obtain p where p: "find (optMatch i) allOpts = Some p" "c' = setOpt p (afterEq i) c"
    using assms by (auto simp: parseArg_def split: option.splits)
  have "p = OKernel \<longleftrightarrow> optMatch i OKernel"
    using p(1) by (auto simp: allOpts_def find_Some_iff split: if_splits)
  moreover have "KERNEL (setOpt p v c) = (if p = OKernel then v else KERNEL c)" for v by (cases p) auto
  moreover have "optMatch i OKernel \<longleftrightarrow> writtenAs (js ''kernel'') i" by (simp add: optMatch_written)
  ultimately show ?thesis using p(2) by (simp del: js.simps)
qed

lemma parseArgs_all_valid:
  "list_all validArg argv \<Longrightarrow> \<exists>c'. parseArgs sourced c argv = ([], c', False) \<and> KERNEL c' = kernelFrom (KERNEL c) argv"
proof (induction argv arbitrary: c)
  case (Cons i argv)
  then obtain c1 where c1: "parseArg i c = Some c1" using parseArg_valid [of i c] by auto
  with Cons.IH [of c1] Cons.prems parseArg_kernel [OF c1] show ?case by (auto simp: kernelFrom_def)
qed (simp add: kernelFrom_def)

lemma parseArgs_first_invalid:
  "find (\<lambda>i. \<not> validArg i) argv = Some i \<Longrightarrow>
    \<exists>c'. parseArgs True c argv = ([Echo (js ''Invalid argument: '' @ afterEq i @ js '', please check your input.'')], c', True)"
proof (induction argv arbitrary: c)
  case (Cons j argv)
  show ?case
  proof (cases "validArg j")
    case True
    then obtain c1 where "parseArg j c = Some c1" using parseArg_valid [of j c] by auto
    with Cons True show ?thesis by (simp del: js.simps)
  next
    case False
    with Cons.prems parseArg_valid [of j c] show ?thesis by (simp add: Let_def del: js.simps)
  qed
qed simp

section \<open>Lemmas: the emulator's command line\<close>

lemma sh_words_blanks [simp]: "sh_words (replicate n 32 @ s) = sh_words s"
  by (induction n) auto

lemma sh_words_padded:
  assumes "sh_words p = Some us" "sh_words rest = Some vs"
  shows "sh_words (p @ replicate n 32 @ 32 # rest) = Some (us @ vs)"
proof (cases n)
  case 0
  with assms show ?thesis by (simp add: sh_words_append)
next
  case (Suc m)
  have "sh_words (replicate m 32 @ 32 # rest) = Some vs" using assms(2) by simp
  with assms(1) Suc show ?thesis by (simp add: sh_words_append)
qed

text \<open>Pieces that begin with a blank are words of their own.\<close>

lemma sh_words_end_blanks:
  assumes "sh_words p = Some us"
  shows "sh_words (p @ replicate n 32) = Some us"
proof (cases n)
  case (Suc m)
  have "sh_words (replicate m 32) = Some []" using sh_words_blanks [of m "[]"] by simp
  with assms Suc show ?thesis
    using sh_words_append [of p us "replicate m 32" "[]"] by simp
qed (use assms in simp)

lemma sh_words_pieces:
  assumes "list_all2 (\<lambda>(p, n) ws. sh_words p = Some ws) ps wss"
    and "list_all (\<lambda>(p, n). \<exists>q. p = 32 # q) (tl ps)"
  shows "sh_words (concat (map (\<lambda>(p, n). p @ replicate n 32) ps)) = Some (concat wss)"
  using assms
proof (induction ps wss rule: list_all2_induct)
  case (Cons pn ps ws wss)
  obtain p n where pn: "pn = (p, n)" by fastforce
  have IH: "sh_words (concat (map (\<lambda>(p, n). p @ replicate n 32) ps)) = Some (concat wss)"
    using Cons.IH Cons.prems by (cases ps) auto
  show ?case
  proof (cases ps)
    case Nil
    with Cons.hyps pn IH show ?thesis by (simp add: sh_words_end_blanks)
  next
    case (Cons qm ps')
    obtain q m where qm: "qm = (32 # q, m)" using Cons.prems Cons by fastforce
    let ?rest = "q @ replicate m 32 @ concat (map (\<lambda>(p, n). p @ replicate n 32) ps')"
    have "sh_words ?rest = Some (concat wss)" using IH Cons qm by simp
    with Cons.hyps(1) pn Cons qm show ?thesis
      using sh_words_padded [of p ws ?rest "concat wss" n] by simp
  qed
qed simp

definition plain :: "jstring \<Rightarrow> bool" where
  "plain s \<longleftrightarrow> s \<noteq> [] \<and> list_all sh_safe s"

lemma sh_safe_code [simp]:
  "sh_safe c \<longleftrightarrow> c \<notin> {10, 32, 9, 39, 34, 92, 33, 35, 36, 38, 40, 41, 42, 59, 60, 62, 63, 91, 93,
     96, 123, 124, 125, 126}"
  by (auto simp: sh_safe_def sh_active_def sh_blank_def)

lemma sh_words_plain: "plain s \<Longrightarrow> sh_words s = Some [s]"
  by (rule sh_words_safe) (auto simp: plain_def list_all_iff)

lemma sh_words_two: "plain a \<Longrightarrow> plain b \<Longrightarrow> sh_words (32 # a @ 32 # b) = Some [a, b]"
  using sh_words_append [OF sh_words_plain sh_words_plain] by simp

lemma plain_append [simp]: "plain a \<Longrightarrow> list_all sh_safe b \<Longrightarrow> plain (a @ b)"
  by (simp add: plain_def)

lemma dec_digits: "list_all (\<lambda>c. 48 \<le> c \<and> c \<le> 57) (dec n)"
  by (induction n rule: dec.induct) (subst dec.simps, auto)

lemma dec_safe: "list_all sh_safe (dec n)"
  using dec_digits [of n] by (auto simp: list_all_iff)

lemma debugPort_bounds: "10000 \<le> debugPort sy c \<and> debugPort sy c < 20000"
  by (simp add: debugPort_def)

lemma sh_words_single_quoted:
  "39 \<notin> set a \<Longrightarrow> sh_words (39 # a @ [39]) = Some [a]"
proof -
  have "39 \<notin> set a \<Longrightarrow> sh_lex SingleQuoted (Some w) (a @ [39]) = Some [w @ a]" for w
    by (induction a arbitrary: w) auto
  then show "39 \<notin> set a \<Longrightarrow> sh_words (39 # a @ [39]) = Some [a]"
    by (simp add: sh_words_def sh_blank_def)
qed

definition rootfsWords :: "sysenv \<Rightarrow> config \<Rightarrow> jstring list" where
  "rootfsWords sy c =
     (if ROOTFS c \<noteq> []
      then [js ''-drive'', js ''if=none,file='' @ realpath sy (ifs_words (ROOTFS c)) @ js '',format='' @
          (if endsWith (js ''.qcow2'') (ROOTFS c) then js ''qcow2'' else js ''raw'') @ js '',id=hd0'',
        js ''-device'', js ''virtio-blk-device,drive=hd0'']
      else [js ''-initrd'', realpath sy (ifs_words (INITRD c))])"

definition shareWords :: "sysenv \<Rightarrow> config \<Rightarrow> jstring list" where
  "shareWords sy c =
     [js ''-fsdev'', js ''local,security_model=mapped,id=fsdev0,path='' @ realpath sy (ifs_words (SHARE_FOLDER c)),
      js ''-device'', js ''virtio-9p-pci,id=fs0,fsdev=fsdev0,mount_tag=hostshare'']"

lemma plain_js [simp]: "plain (c # s) \<longleftrightarrow> sh_safe c \<and> list_all sh_safe s"
  by (simp add: plain_def)

lemma sh_words_four:
  assumes "plain a" "plain b" "plain c" "plain d"
  shows "sh_words (a @ 32 # b @ 32 # c @ 32 # d) = Some [a, b, c, d]"
proof -
  have "sh_words (c @ 32 # d) = Some [c, d]"
    using sh_words_append [OF sh_words_plain sh_words_plain] assms by fastforce
  then have "sh_words (b @ 32 # c @ 32 # d) = Some [b, c, d]"
    using sh_words_append [OF sh_words_plain] assms by fastforce
  then show ?thesis using sh_words_append [OF sh_words_plain] assms by fastforce
qed

lemma sh_words_rootfs:
  assumes "plain (realpath sy (ifs_words (if ROOTFS c \<noteq> [] then ROOTFS c else INITRD c)))"
  shows "sh_words (rootfsParam sy c) = Some (rootfsWords sy c)"
proof (cases "ROOTFS c = []")
  case True
  then show ?thesis
    using sh_words_append [OF sh_words_plain sh_words_plain [of "realpath sy (ifs_words (INITRD c))"], of "js ''-initrd''"] assms
    by (simp add: rootfsParam_def rootfsWords_def)
next
  case False
  let ?f = "js ''if=none,file='' @ realpath sy (ifs_words (ROOTFS c)) @ js '',format='' @
    (if endsWith (js ''.qcow2'') (ROOTFS c) then js ''qcow2'' else js ''raw'') @ js '',id=hd0''"
  have "plain ?f" using assms False by (simp add: plain_def)
  then show ?thesis
    using False sh_words_four [of "js ''-drive''" ?f "js ''-device''" "js ''virtio-blk-device,drive=hd0''"]
    by (simp add: rootfsParam_def rootfsWords_def)
qed

lemma sh_words_share:
  assumes "plain (realpath sy (ifs_words (SHARE_FOLDER c)))"
  shows "sh_words (shareParam sy c) = Some (shareWords sy c)"
proof -
  let ?f = "js ''local,security_model=mapped,id=fsdev0,path='' @ realpath sy (ifs_words (SHARE_FOLDER c))"
  have "plain ?f" using assms by (simp add: plain_def)
  then show ?thesis
    using sh_words_four [of "js ''-fsdev''" ?f "js ''-device''"
        "js ''virtio-9p-pci,id=fs0,fsdev=fsdev0,mount_tag=hostshare''"]
    by (simp add: shareParam_def shareWords_def)
qed

text \<open>The words QEMU gets, as the script means them, the device tree included.\<close>

definition dtbWords :: "sysenv \<Rightarrow> config \<Rightarrow> jstring list" where
  "dtbWords sy c = (if DTB c \<noteq> [] then [js ''-dtb'', realpath sy (ifs_words (DTB c))] else [])"

definition qemuWords :: "sysenv \<Rightarrow> config \<Rightarrow> jstring list \<Rightarrow> jstring list list" where
  "qemuWords sy c extra =
     [[qemuExec sy c], [js ''-machine'', js ''virt,gic_version=3''], [js ''-cpu'', js ''cortex-a72''],
      [js ''-m'', js ''1024''], [js ''-smp'', js ''8''],
      [js ''-kernel'', KERNEL_IMAGE (kernelPaths sy c)], dtbWords sy c,
      rootfsWords sy c, shareWords sy c,
      [js ''-netdev'', js ''user,id=net0''], [js ''-device'', js ''virtio-net-device,netdev=net0''],
      extra, [js ''-serial'', js ''mon:stdio''], [js ''-display'', js ''none''],
      [js ''-gdb'', js ''tcp::'' @ dec (debugPort sy c)], [js ''-S'', js ''-append'', bootArgs c]]"

lemma sh_words_pair: "plain a \<Longrightarrow> plain b \<Longrightarrow> sh_words (a @ 32 # b) = Some [a, b]"
  using sh_words_append [OF sh_words_plain sh_words_plain] by fastforce

lemma sh_words_append_option:
  assumes "39 \<notin> set a"
  shows "sh_words (js '' -S -append '' @ 39 # a @ [39]) = Some [js ''-S'', js ''-append'', a]"
  using sh_words_append [OF sh_words_pair sh_words_single_quoted [OF assms], of "js ''-S''" "js ''-append''"]
  by simp

lemma qemuCmd_words:
  assumes "plain (qemuExec sy c)" "plain (KERNEL_IMAGE (kernelPaths sy c))"
    "ambient sy (js ''DTB_PRAM'') = []" "DTB c = []"
    "plain (realpath sy (ifs_words (if ROOTFS c \<noteq> [] then ROOTFS c else INITRD c)))"
    "plain (realpath sy (ifs_words (SHARE_FOLDER c)))"
    "sh_words (QEMU_EXTRA_PARAM c) = Some extra" "39 \<notin> set (bootArgs c)"
  shows "sh_words (qemuCmd sy c) = Some (concat (qemuWords sy c extra))"
  unfolding qemuCmd_def
proof (rule sh_words_pieces)
  note pair = sh_words_pair [of "js ''-machine''" "js ''virt,gic_version=3''"]
    sh_words_pair [of "js ''-cpu''" "js ''cortex-a72''"] sh_words_pair [of "js ''-m''" "js ''1024''"]
    sh_words_pair [of "js ''-smp''" "js ''8''"]
    sh_words_pair [of "js ''-kernel''", OF _ assms(2)]
    sh_words_pair [of "js ''-netdev''" "js ''user,id=net0''"]
    sh_words_pair [of "js ''-device''" "js ''virtio-net-device,netdev=net0''"]
    sh_words_pair [of "js ''-serial''" "js ''mon:stdio''"]
    sh_words_pair [of "js ''-display''" "js ''none''"]
    sh_words_pair [of "js ''-gdb''" "js ''tcp::'' @ dec (debugPort sy c)"]
  show "list_all2 (\<lambda>(p, n) ws. sh_words p = Some ws) (qemuPieces sy c) (qemuWords sy c extra)"
    using pair sh_words_append_option [OF assms(8)] sh_words_rootfs [OF assms(5)]
      sh_words_share [OF assms(6)] sh_words_plain [OF assms(1)] assms(3,4,7)
    by (simp add: qemuPieces_def qemuWords_def dtbWords_def dec_safe)
  show "list_all (\<lambda>(p, n). \<exists>q. p = 32 # q) (tl (qemuPieces sy c))"
    by (simp add: qemuPieces_def)
qed

section \<open>Lemmas: the two panes\<close>

lemma replaceFirst_absent: "\<not> occurs_in p s \<Longrightarrow> replaceFirst p r s = s"
  by (cases rule: indexOf_cases [of p s]) (auto simp: replaceFirst_def occurs_in_def)

lemma sh_words_join:
  "list_all plain ws \<Longrightarrow> sh_words (join [32] ws) = Some ws"
proof (induction ws rule: induct_list012)
  case (3 w v ws)
  then show ?case by (simp add: sh_words_append [OF sh_words_plain])
qed (auto simp: sh_words_plain)

lemma paneCommand_words:
  assumes "list_all plain argv" "argv \<noteq> []" "plain mode"
    and "\<not> occurs_in (js ''tmux'') (join [32] argv)"
  shows "sh_words (paneCommand argv mode) =
    Some ([js ''source'', js ''./start-kernel.sh''] @ argv @ [argOf OTerminal mode])"
proof -
  let ?ws = "[js ''source'', js ''./start-kernel.sh''] @ argv @ [argOf OTerminal mode]"
  have "join [32] (argv @ [w]) = join [32] argv @ 32 # w" for w :: jstring
    using assms(2) by (induction argv rule: induct_list012) auto
  then have "paneCommand argv mode = join [32] ?ws"
    using assms(2,4) by (simp add: paneCommand_def replaceFirst_absent argOf_def join_Cons)
  moreover have "list_all plain ?ws" using assms(1,3) by (simp add: argOf_def plain_def)
  ultimately show ?thesis by (simp only: sh_words_join)
qed

lemma plain_modes: "plain (js ''cli-qemu'')" "plain (js ''cli-gdb'')"
  by (simp_all add: plain_def)

lemma parseArgs_append:
  "parseArgs True c argv = ([], c', False) \<Longrightarrow>
   parseArgs True c (argv @ [argOf o' v]) = ([], setOpt o' v c', False)"
  by (induction argv arbitrary: c) (auto simp: Let_def split: option.splits)

lemma defaults_random [simp]: "defaults (sy\<lparr>random := r\<rparr>) = defaults sy"
  by (simp add: defaults_def)

lemma launch_cli_qemu:
  assumes "parseArgs True (defaults sy) argv = ([], c, False)" "KERNEL c \<noteq> []" "isDir sy (KERNEL c)"
  shows "BashC (qemuCmd (sy\<lparr>random := r\<rparr>) (c\<lparr>TERMINAL := js ''cli-qemu''\<rparr>))
    \<in> set (launch True (sy\<lparr>random := r\<rparr>) (argv @ [argOf OTerminal (js ''cli-qemu'')]))"
  using assms parseArgs_append [OF assms(1), of OTerminal "js ''cli-qemu''"]
  by (simp add: launch_def runConfigured_def startTerminal_def Let_def)

lemma dec_12880: "dec 12880 = js ''12880''"
  by (simp add: dec.simps)

lemma qemu_port_cli:
  "(js '' -gdb tcp::12880'', 15) \<in> set (qemuPieces sy (c\<lparr>TERMINAL := js ''cli-qemu''\<rparr>))"
proof -
  have "debugPort sy (c\<lparr>TERMINAL := js ''cli-qemu''\<rparr>) = 12880" by (simp add: debugPort_def)
  then have "(js '' -gdb tcp::'' @ dec 12880, 15) \<in> set (qemuPieces sy (c\<lparr>TERMINAL := js ''cli-qemu''\<rparr>))"
    by (simp add: qemuPieces_def del: js.simps)
  then show ?thesis unfolding dec_12880 by simp
qed

lemma startDebugger_gdb:
  assumes "DEBUGGER c = js ''gdb''"
  shows "\<exists>dir words. Gdb dir words \<in> set (startDebugger sy c) \<and> set (gdbScript sy c) \<subseteq> set words"
proof -
  let ?words = "ifs_words (gdbExec sy) @ [js ''-data-directory''] @ ifs_words (gdbData sy) @
    concat (map (\<lambda>x. [js ''-ex'', x]) (gdbScript sy c @ [js ''tui enable'', js ''continue''])) @
    [js ''-quiet'']"
  have "Gdb (KERNEL_SOURCE (kernelPaths sy c)) ?words \<in> set (startDebugger sy c)"
    using assms by (simp add: startDebugger_def del: js.simps)
  moreover have "set (gdbScript sy c) \<subseteq> set ?words" by (auto simp del: js.simps)
  ultimately show ?thesis by blast
qed

lemma launch_cli_gdb:
  assumes "parseArgs True (defaults sy) argv = ([], c, False)" "KERNEL c \<noteq> []" "isDir sy (KERNEL c)"
    "DEBUGGER c = js ''gdb''"
  shows "\<exists>dir words. Gdb dir words \<in>
      set (launch True (sy\<lparr>random := r\<rparr>) (argv @ [argOf OTerminal (js ''cli-gdb'')])) \<and>
    js ''target remote localhost:12880'' \<in> set words"
proof -
  let ?sy = "sy\<lparr>random := r\<rparr>" and ?c = "c\<lparr>TERMINAL := js ''cli-gdb''\<rparr>"
  have port: "debugPort ?sy ?c = 12880" by (simp add: debugPort_def)
  have "js ''target remote localhost:'' @ dec 12880 \<in> set (gdbScript ?sy ?c)"
    by (simp add: gdbScript_def Let_def port del: js.simps)
  then have line: "js ''target remote localhost:12880'' \<in> set (gdbScript ?sy ?c)"
    unfolding dec_12880 by simp
  have "launch True ?sy (argv @ [argOf OTerminal (js ''cli-gdb'')]) =
      announcements ?sy ?c @ Echo (js ''Try to connect QEMU...'') # startDebugger ?sy ?c"
    using assms(1-3) parseArgs_append [OF assms(1), of OTerminal "js ''cli-gdb''"]
    by (simp add: launch_def runConfigured_def startTerminal_def Let_def)
  moreover obtain dir words where "Gdb dir words \<in> set (startDebugger ?sy ?c)"
      "set (gdbScript ?sy ?c) \<subseteq> set words"
    using startDebugger_gdb [of ?c ?sy] assms(4) by auto
  ultimately show ?thesis using line by auto
qed

lemma qemuCmd_dtb: "qemuCmd sy (c\<lparr>DTB := d\<rparr>) = qemuCmd sy c"
  by (simp add: qemuCmd_def qemuPieces_def qemuExec_def kernelPaths_def rootfsParam_def
      shareParam_def debugPort_def bootArgs_def rootfsBootargs_def Let_def del: js.simps)

end
