(* ===== verification/Extension_Config.thy ===== *)
theory Extension_Config
  imports Shell_Words
begin

text \<open>
  The configuration side of the VSCode extension
  (\<^verbatim>\<open>scripts/vscode/src/extension.ts\<close>): the button
  configuration and how it is read (\<open>getConfig\<close>), the expansion of
  \<^verbatim>\<open>${workspaceFolder}\<close>, \<^verbatim>\<open>${fileDirname}\<close> and
  \<^verbatim>\<open>${env:VAR}\<close> (\<open>expandVars\<close>) and the quoting of an argument for the
  shell of the terminal (\<open>quoteArg\<close>). The lemmas show that the expansion of a
  template is the concatenation of the values of its parts, what each pass does to a
  replacement text with dollar signs in it, and that \<open>quoteArg\<close> meets the contract
  of a shell quoter.
\<close>

section \<open>Data\<close>

datatype ButtonId = Run | Debug

record ButtonConfig =
  script :: "jstring option"
  cwd :: "jstring option"
  args :: "jstring list option"
  floatingWindow :: "bool option"
  autoClose :: "bool option"

text \<open>The empty object literal.\<close>

definition emptyConfig :: ButtonConfig where
  "emptyConfig = \<lparr>script = None, cwd = None, args = None, floatingWindow = None, autoClose = None\<rparr>"

definition LABEL :: "ButtonId \<Rightarrow> jstring" where
  "LABEL i = (case i of Run \<Rightarrow> js ''Run'' | Debug \<Rightarrow> js ''Debug'')"

text \<open>The key of a button, as it is spliced into setting and context names.\<close>

definition idName :: "ButtonId \<Rightarrow> jstring" where
  "idName i = (case i of Run \<Rightarrow> js ''run'' | Debug \<Rightarrow> js ''debug'')"

text \<open>
  What the editor's configuration holds for a button: nothing, a string or an object.
  The configuration is a parameter of the operations that read it.
\<close>

datatype RawSetting = Absent | RawString jstring | RawObject ButtonConfig

type_synonym settings = "ButtonId \<Rightarrow> RawSetting"

definition getConfig :: "settings \<Rightarrow> ButtonId \<Rightarrow> ButtonConfig" where
  "getConfig st i =
     (case st i of
        RawString raw \<Rightarrow> if raw \<noteq> [] then emptyConfig\<lparr>script := Some raw\<rparr> else emptyConfig
      | RawObject raw \<Rightarrow> raw
      | Absent \<Rightarrow> emptyConfig)"

text \<open>A string property is truthy when it is present and not empty.\<close>

definition truthy :: "jstring option \<Rightarrow> bool" where
  "truthy x \<longleftrightarrow> (case x of None \<Rightarrow> False | Some s \<Rightarrow> s \<noteq> [])"

section \<open>Variable expansion\<close>

text \<open>
  What \<open>expandVars\<close> reads of the editor and of the process: the workspace folders
  (\<open>None\<close> for no workspace), the file of the active editor, the environment, the
  working directory, and \<open>path.dirname\<close>, which depends on the platform.
\<close>

record host =
  workspaceFolders :: "jstring list option"
  activeTextEditor :: "jstring option"
  env :: "jstring \<Rightarrow> jstring option"
  processCwd :: jstring
  dirname :: "jstring \<Rightarrow> jstring"

definition firstFolder :: "host \<Rightarrow> jstring option" where
  "firstFolder h = (case workspaceFolders h of Some (f # _) \<Rightarrow> Some f | _ \<Rightarrow> None)"

definition folderOf :: "host \<Rightarrow> jstring" where
  "folderOf h =
     (case firstFolder h of Some f \<Rightarrow> f
      | None \<Rightarrow> (case env h (js ''HOME'') of Some d \<Rightarrow> d | None \<Rightarrow> processCwd h))"

definition fileDirnameOf :: "host \<Rightarrow> jstring" where
  "fileDirnameOf h =
     (case activeTextEditor h of
        Some f \<Rightarrow> if f \<noteq> [] then dirname h f else folderOf h
      | None \<Rightarrow> folderOf h)"

text \<open>
  The third expression, \<^verbatim>\<open>/\$\{env:([^}]+)\}/\<close>: the literal, then
  a longest run of characters other than the closing brace, not empty, then the brace.
\<close>

definition matchEnv :: "jstring \<Rightarrow> nat option" where
  "matchEnv s =
     (let p = js ''${env:''; k = takeWhile (\<lambda>c. c \<noteq> 125) (drop (length p) s);
          rest = dropWhile (\<lambda>c. c \<noteq> 125) (drop (length p) s)
      in if startsWith p s \<and> k \<noteq> [] \<and> rest \<noteq> [] then Some (length p + length k + 1) else None)"

definition envKey :: "jstring \<Rightarrow> jstring" where
  "envKey mtch = butlast (drop (length (js ''${env:'')) mtch)"

definition replaceWorkspaceFolder :: "jstring \<Rightarrow> jstring \<Rightarrow> jstring" where
  "replaceWorkspaceFolder folder s =
     replaceAll (lit (js ''${workspaceFolder}''))
       (\<lambda>pre mtch post. getSubstitution pre mtch post folder) [] s"

definition replaceFileDirname :: "jstring \<Rightarrow> jstring \<Rightarrow> jstring" where
  "replaceFileDirname dir s =
     replaceAll (lit (js ''${fileDirname}''))
       (\<lambda>pre mtch post. getSubstitution pre mtch post dir) [] s"

definition replaceEnv :: "(jstring \<Rightarrow> jstring option) \<Rightarrow> jstring \<Rightarrow> jstring" where
  "replaceEnv e s =
     replaceAll matchEnv
       (\<lambda>pre mtch post. case e (envKey mtch) of Some v \<Rightarrow> v | None \<Rightarrow> []) [] s"

definition expandVars :: "host \<Rightarrow> jstring \<Rightarrow> jstring" where
  "expandVars h input =
     (let folder = folderOf h; fileDirname = fileDirnameOf h
      in replaceEnv (env h)
           (replaceFileDirname fileDirname (replaceWorkspaceFolder folder input)))"

section \<open>Quoting\<close>

text \<open>The class of the test of \<open>quoteArg\<close>: white space, or one of the listed characters.\<close>

definition quoteNeeded :: "nat \<Rightarrow> bool" where
  "quoteNeeded c \<longleftrightarrow> is_js_space c \<or> c \<in> {34, 39, 36, 96, 92, 33, 42, 63, 40, 41, 123, 125,
     91, 93, 60, 62, 124, 38, 59, 35, 126}"

definition quoteArg :: "jstring \<Rightarrow> jstring" where
  "quoteArg arg =
     (if arg = [] \<or> list_ex quoteNeeded arg
      then [39] @ concat (map (\<lambda>c. if c = 39 then [39, 92, 39, 39] else [c]) arg) @ [39]
      else arg)"

section \<open>Lemmas: quoting\<close>

lemma not_quoteNeeded_safe: "\<not> quoteNeeded c \<Longrightarrow> sh_safe c"
  by (auto simp: quoteNeeded_def sh_safe_def sh_active_def sh_blank_def is_js_space_def)

lemma sh_lex_escaped:
  "sh_lex SingleQuoted (Some w)
     (concat (map (\<lambda>c. if c = 39 then [39, 92, 39, 39] else [c]) a) @ 39 # s) =
   sh_lex Plain (Some (w @ a)) s"
  by (induction a arbitrary: w) (auto simp: sh_blank_def)

lemma quoteArg_reads: "sh_lex Plain None (quoteArg a @ s) = sh_lex Plain (Some a) s"
proof (cases "a = [] \<or> list_ex quoteNeeded a")
  case True
  then show ?thesis
    using sh_lex_escaped [of "[]" a s] by (simp add: quoteArg_def sh_blank_def)
next
  case False
  then have "\<forall>c \<in> set a. sh_safe c"
    by (auto simp: list_ex_iff intro: not_quoteNeeded_safe)
  with False show ?thesis by (simp add: quoteArg_def sh_lex_safe_word)
qed

interpretation qa: shell_quoter quoteArg
  by unfold_locales (rule quoteArg_reads)

section \<open>Lemmas: expansion\<close>

text \<open>
  A template, as a user writes it: literal text and references. \<open>render\<close> is its
  concrete text, \<open>meaning\<close> the text it stands for.
\<close>

datatype part = Lit jstring | WorkspaceFolder | FileDirname | Env jstring

fun render :: "part \<Rightarrow> jstring" where
  "render (Lit t) = t"
| "render WorkspaceFolder = js ''${workspaceFolder}''"
| "render FileDirname = js ''${fileDirname}''"
| "render (Env k) = js ''${env:'' @ k @ [125]"

fun meaning :: "host \<Rightarrow> part \<Rightarrow> jstring" where
  "meaning h (Lit t) = t"
| "meaning h WorkspaceFolder = folderOf h"
| "meaning h FileDirname = fileDirnameOf h"
| "meaning h (Env k) = (case env h k of Some v \<Rightarrow> v | None \<Rightarrow> [])"

text \<open>No part holds a dollar sign of its own, and a variable name ends at its brace.\<close>

fun plainPart :: "part \<Rightarrow> bool" where
  "plainPart (Lit t) = (36 \<notin> set t)"
| "plainPart WorkspaceFolder = True"
| "plainPart FileDirname = True"
| "plainPart (Env k) = (k \<noteq> [] \<and> 36 \<notin> set k \<and> 125 \<notin> set k)"

text \<open>A part after the first pass, after the second, and what is left for the third.\<close>

fun pass1 :: "jstring \<Rightarrow> part \<Rightarrow> part" where
  "pass1 f WorkspaceFolder = Lit f"
| "pass1 f x = x"

fun pass2 :: "jstring \<Rightarrow> part \<Rightarrow> part" where
  "pass2 d FileDirname = Lit d"
| "pass2 d x = x"

abbreviation renderAll :: "part list \<Rightarrow> jstring" where
  "renderAll ps \<equiv> concat (map render ps)"

lemma skip_tail:
  assumes "p \<noteq> []" "hd p = 36" "36 \<notin> set t" "lit p (36 # t @ s) = None"
  shows "replaceAll (lit p) r pre (36 # t @ s) = 36 # t @ replaceAll (lit p) r (pre @ 36 # t) s"
  using assms replaceAll_lit_skip [of p t r "pre @ [36]" s] by simp

lemma replaceWS_parts:
  assumes "36 \<notin> set f" "list_all plainPart ps"
  shows "replaceAll (lit (js ''${workspaceFolder}''))
      (\<lambda>pre mtch post. getSubstitution pre mtch post f) pre (renderAll ps) =
    renderAll (map (pass1 f) ps)"
  using assms(2)
proof (induction ps arbitrary: pre)
  case (Cons x ps)
  let ?m = "lit (js ''${workspaceFolder}'')" and ?r = "\<lambda>pre mtch post. getSubstitution pre mtch post f"
  show ?case
  proof (cases x)
    case (Lit t)
    with Cons show ?thesis
      using replaceAll_lit_skip [of "js ''${workspaceFolder}''" t ?r pre] by simp
  next
    case WorkspaceFolder
    with Cons assms(1) show ?thesis
      using replaceAll_match [of ?m "js ''${workspaceFolder}''" "renderAll ps" ?r pre]
      by (simp add: getSubstitution_plain lit_match)
  next
    case FileDirname
    with Cons show ?thesis
      using skip_tail [of "js ''${workspaceFolder}''" "js ''{fileDirname}''" "renderAll ps" ?r pre]
      by (simp add: lit_mismatch)
  next
    case (Env k)
    with Cons show ?thesis
      using skip_tail [of "js ''${workspaceFolder}''" "js ''{env:'' @ k @ [125]" "renderAll ps" ?r pre]
      by (simp add: lit_mismatch)
  qed
qed simp

lemma replaceFD_parts:
  assumes "36 \<notin> set d" "list_all plainPart ps" "WorkspaceFolder \<notin> set ps"
  shows "replaceAll (lit (js ''${fileDirname}''))
      (\<lambda>pre mtch post. getSubstitution pre mtch post d) pre (renderAll ps) =
    renderAll (map (pass2 d) ps)"
  using assms(2,3)
proof (induction ps arbitrary: pre)
  case (Cons x ps)
  let ?m = "lit (js ''${fileDirname}'')" and ?r = "\<lambda>pre mtch post. getSubstitution pre mtch post d"
  show ?case
  proof (cases x)
    case (Lit t)
    with Cons show ?thesis
      using replaceAll_lit_skip [of "js ''${fileDirname}''" t ?r pre] by simp
  next
    case WorkspaceFolder
    with Cons.prems show ?thesis by simp
  next
    case FileDirname
    with Cons assms(1) show ?thesis
      using replaceAll_match [of ?m "js ''${fileDirname}''" "renderAll ps" ?r pre]
      by (simp add: getSubstitution_plain lit_match)
  next
    case (Env k)
    with Cons show ?thesis
      using skip_tail [of "js ''${fileDirname}''" "js ''{env:'' @ k @ [125]" "renderAll ps" ?r pre]
      by (simp add: lit_mismatch)
  qed
qed simp

lemma takeWhile_stop: "c \<notin> set k \<Longrightarrow> takeWhile (\<lambda>x. x \<noteq> c) (k @ c # s) = k"
  by (induction k) auto

lemma dropWhile_stop: "c \<notin> set k \<Longrightarrow> dropWhile (\<lambda>x. x \<noteq> c) (k @ c # s) = c # s"
  by (induction k) auto

lemma matchEnv_ref:
  "k \<noteq> [] \<Longrightarrow> 125 \<notin> set k \<Longrightarrow>
   matchEnv (js ''${env:'' @ k @ 125 # s) = Some (length (js ''${env:'' @ k @ [125]))"
  by (simp add: matchEnv_def takeWhile_stop dropWhile_stop Let_def)

lemma matchEnv_no_dollar: "c \<noteq> 36 \<Longrightarrow> matchEnv (c # s) = None"
  by (simp add: matchEnv_def)

lemma replaceAll_env_skip:
  assumes "36 \<notin> set a"
  shows "replaceAll matchEnv r pre (a @ s) = a @ replaceAll matchEnv r (pre @ a) s"
proof (rule replaceAll_skip)
  fix u v assume "a = u @ v" "v \<noteq> []"
  with assms show "matchEnv (v @ s) = None"
    by (cases v) (auto intro!: matchEnv_no_dollar)
qed

lemma envKey_ref: "envKey (js ''${env:'' @ k @ [125]) = k"
  by (simp add: envKey_def butlast_append)

text \<open>The text a part stands for once the first two passes have run.\<close>

lemma replaceEnv_parts:
  assumes "list_all plainPart ps" "WorkspaceFolder \<notin> set ps" "FileDirname \<notin> set ps"
  shows "replaceAll matchEnv
      (\<lambda>pre mtch post. case env h (envKey mtch) of Some v \<Rightarrow> v | None \<Rightarrow> []) pre (renderAll ps) =
    concat (map (meaning h) ps)"
  using assms
proof (induction ps arbitrary: pre)
  case (Cons x ps)
  let ?r = "\<lambda>pre mtch post. case env h (envKey mtch) of Some v \<Rightarrow> v | None \<Rightarrow> []"
  show ?case
  proof (cases x)
    case (Lit t)
    with Cons show ?thesis using replaceAll_env_skip [of t ?r pre] by simp
  next
    case (Env k)
    let ?e = "js ''${env:'' @ k @ [125]"
    from Env Cons.prems have "matchEnv (?e @ renderAll ps) = Some (length ?e)"
      using matchEnv_ref [of k "renderAll ps"] by simp
    then have "replaceAll matchEnv ?r pre (?e @ renderAll ps) =
        ?r pre ?e (renderAll ps) @ replaceAll matchEnv ?r (pre @ ?e) (renderAll ps)"
      by (rule replaceAll_match) simp
    moreover have "replaceAll matchEnv ?r (pre @ ?e) (renderAll ps) = concat (map (meaning h) ps)"
      using Cons.prems by (intro Cons.IH) auto
    ultimately show ?thesis using Env unfolding envKey_ref by simp
  qed (use Cons.prems in auto)
qed simp

lemma passes_plain:
  "36 \<notin> set f \<Longrightarrow> plainPart x \<Longrightarrow> plainPart (pass1 f x)"
  "36 \<notin> set f \<Longrightarrow> plainPart x \<Longrightarrow> plainPart (pass2 f x)"
  by (cases x; simp)+

lemma passes_gone:
  "WorkspaceFolder \<notin> pass1 f ` A" "FileDirname \<notin> pass2 d ` A"
  "WorkspaceFolder \<notin> A \<Longrightarrow> WorkspaceFolder \<notin> pass2 d ` A"
  by (auto elim: pass1.elims pass2.elims) (metis pass1.elims part.distinct pass2.elims)+

lemma meaning_passes: "meaning h (pass2 (fileDirnameOf h) (pass1 (folderOf h) x)) = meaning h x"
  by (cases x) auto

lemma expandVars_parts:
  assumes "36 \<notin> set (folderOf h)" "36 \<notin> set (fileDirnameOf h)" "list_all plainPart ps"
  shows "expandVars h (renderAll ps) = concat (map (meaning h) ps)"
proof -
  let ?ps1 = "map (pass1 (folderOf h)) ps"
  let ?ps2 = "map (pass2 (fileDirnameOf h)) ?ps1"
  have p1: "list_all plainPart ?ps1" and p2: "list_all plainPart ?ps2"
    using assms by (auto simp: list_all_iff intro: passes_plain)
  have "replaceWorkspaceFolder (folderOf h) (renderAll ps) = renderAll ?ps1"
    unfolding replaceWorkspaceFolder_def using assms(1,3) by (rule replaceWS_parts)
  moreover have "replaceFileDirname (fileDirnameOf h) (renderAll ?ps1) = renderAll ?ps2"
    unfolding replaceFileDirname_def using assms(2) p1
    by (rule replaceFD_parts) (simp add: passes_gone(1))
  moreover have "replaceEnv (env h) (renderAll ?ps2) = concat (map (meaning h) ?ps2)"
    unfolding replaceEnv_def using p2
    by (rule replaceEnv_parts) (simp_all only: set_map passes_gone not_False_eq_True)
  ultimately show ?thesis
    by (simp add: expandVars_def Let_def comp_def meaning_passes)
qed

lemma expandVars_no_dollar:
  "36 \<notin> set s \<Longrightarrow> expandVars h s = s"
proof -
  assume s: "36 \<notin> set s"
  then have "replaceWorkspaceFolder (folderOf h) s = s" "replaceFileDirname (fileDirnameOf h) s = s"
    by (simp_all add: replaceWorkspaceFolder_def replaceFileDirname_def replaceAll_lit_absent)
  moreover have "replaceEnv (env h) s = s"
    using replaceAll_env_skip [OF s, of _ "[]" "[]"] by (simp add: replaceEnv_def)
  ultimately show ?thesis by (simp add: expandVars_def Let_def)
qed

end
