(* ===== verification/Extension_Sync.thy ===== *)
theory Extension_Sync
  imports Extension_Config
begin

text \<open>
  The context keys that show and hide the buttons (\<open>syncContext\<close> and
  \<open>activate\<close> of \<^verbatim>\<open>scripts/vscode/src/extension.ts\<close>). \<open>syncContext\<close> is
  asynchronous: it handles the first button at once and each further one after an
  \<open>await\<close>, and a change of the configuration may start another run of it in
  between. A state holds the settings, the context keys and the rest of every run
  that is suspended; the step relation interleaves them in any order. The invariant
  shows that the keys agree with the settings as soon as no run is pending, and the
  measure that the pending runs come to an end.
\<close>

record sync_state =
  setts :: settings
  ctx :: "ButtonId \<Rightarrow> bool"
  tasks :: "ButtonId list list"

definition enabled :: "settings \<Rightarrow> ButtonId \<Rightarrow> bool" where
  "enabled st i \<longleftrightarrow> truthy (script (getConfig st i))"

text \<open>One iteration of the loop: read the configuration and call \<open>setContext\<close>.\<close>

definition syncOne :: "ButtonId \<Rightarrow> sync_state \<Rightarrow> sync_state" where
  "syncOne i s = s\<lparr>ctx := (ctx s)(i := enabled (setts s) i)\<rparr>"

text \<open>A call of \<open>syncContext\<close>: the first iteration, then the suspended rest.\<close>

definition syncContext :: "sync_state \<Rightarrow> sync_state" where
  "syncContext s =
     (case [Run, Debug] of
        i # rest \<Rightarrow> (syncOne i s)\<lparr>tasks := tasks s @ [rest]\<rparr>
      | [] \<Rightarrow> s)"

text \<open>The keys are unset before the extension is activated.\<close>

definition activate :: "settings \<Rightarrow> sync_state" where
  "activate st = syncContext \<lparr>setts = st, ctx = (\<lambda>_. False), tasks = []\<rparr>"

text \<open>The listener of \<open>onDidChangeConfiguration\<close>.\<close>

definition onDidChangeConfiguration :: "bool \<Rightarrow> sync_state \<Rightarrow> sync_state" where
  "onDidChangeConfiguration affectsLightbox s = (if affectsLightbox then syncContext s else s)"

text \<open>The suspended runs go on: the next iteration of one of them, or its end.\<close>

inductive resume_step :: "sync_state \<Rightarrow> sync_state \<Rightarrow> bool" where
  resume: "tasks s = xs @ (i # is) # ys \<Longrightarrow>
     resume_step s ((syncOne i s)\<lparr>tasks := xs @ is # ys\<rparr>)"
| finish: "tasks s = xs @ [] # ys \<Longrightarrow> resume_step s (s\<lparr>tasks := xs @ ys\<rparr>)"

inductive sync_step :: "sync_state \<Rightarrow> sync_state \<Rightarrow> bool" where
  changed: "sync_step s (onDidChangeConfiguration True (s\<lparr>setts := st'\<rparr>))"
| unrelated: "sync_step s (onDidChangeConfiguration False s)"
| goes_on: "resume_step s t \<Longrightarrow> sync_step s t"

lemmas resumed = goes_on [OF resume]
lemmas finished = goes_on [OF finish]

inductive_cases sync_stepE: "sync_step s t"

definition quiescent :: "sync_state \<Rightarrow> bool" where
  "quiescent s \<longleftrightarrow> tasks s = []"

text \<open>A key is up to date, or some suspended run has it still to do.\<close>

definition sync_inv :: "sync_state \<Rightarrow> bool" where
  "sync_inv s \<longleftrightarrow> (\<forall>i. ctx s i = enabled (setts s) i \<or> (\<exists>t \<in> set (tasks s). i \<in> set t))"

lemma syncContext_simps [simp]:
  "setts (syncContext s) = setts s"
  "ctx (syncContext s) = (ctx s)(Run := enabled (setts s) Run)"
  "tasks (syncContext s) = tasks s @ [[Debug]]"
  by (simp_all add: syncContext_def syncOne_def)

lemma sync_inv_syncContext: "sync_inv (syncContext s)"
  unfolding sync_inv_def
proof
  fix i show "ctx (syncContext s) i = enabled (setts (syncContext s)) i \<or>
      (\<exists>t \<in> set (tasks (syncContext s)). i \<in> set t)"
    by (cases i) auto
qed

lemma sync_inv_resume: "resume_step s t \<Longrightarrow> sync_inv s \<Longrightarrow> sync_inv t"
  by (induction rule: resume_step.induct) (fastforce simp: sync_inv_def syncOne_def)+

lemma sync_inv_step: "sync_step s t \<Longrightarrow> sync_inv s \<Longrightarrow> sync_inv t"
proof (induction rule: sync_step.induct)
  case (changed s st')
  then show ?case by (simp add: onDidChangeConfiguration_def sync_inv_syncContext)
qed (simp_all add: onDidChangeConfiguration_def sync_inv_resume)

interpretation sy: invariant_machine "\<lambda>s. \<exists>st. s = activate st" sync_step sync_inv
  by unfold_locales (auto simp: activate_def sync_inv_syncContext intro: sync_inv_step)

section \<open>The end of the runs\<close>

text \<open>A suspended run has at most one button left, so it is over after two more steps.\<close>

definition tasksOK :: "sync_state \<Rightarrow> bool" where
  "tasksOK s \<longleftrightarrow> (\<forall>t \<in> set (tasks s). length t \<le> 1)"

lemma tasksOK_resume: "resume_step s t \<Longrightarrow> tasksOK s \<Longrightarrow> tasksOK t"
  by (induction rule: resume_step.induct) (auto simp: tasksOK_def syncOne_def)

lemma tasksOK_step: "sync_step s t \<Longrightarrow> tasksOK s \<Longrightarrow> tasksOK t"
proof (induction rule: sync_step.induct)
  case (goes_on s t)
  then show ?case by (rule tasksOK_resume)
qed (auto simp: onDidChangeConfiguration_def tasksOK_def)

lemma tasksOK_activate: "tasksOK (activate st)"
  by (simp add: activate_def tasksOK_def)

interpretation st: invariant_machine "\<lambda>s. \<exists>st. s = activate st" sync_step tasksOK
  by unfold_locales (auto simp: tasksOK_activate intro: tasksOK_step)

definition pending :: "sync_state \<Rightarrow> nat" where
  "pending s = sum_list (map (\<lambda>t. Suc (length t)) (tasks s))"

lemma pending_bound: "tasksOK s \<Longrightarrow> pending s \<le> 2 * length (tasks s)"
proof -
  have "sum_list (map (\<lambda>t. Suc (length t)) ts) \<le> 2 * length ts" if "\<forall>t \<in> set ts. length t \<le> 1" for ts :: "'a list list"
    using that by (induction ts) auto
  then show "tasksOK s \<Longrightarrow> pending s \<le> 2 * length (tasks s)" by (simp add: pending_def tasksOK_def)
qed

lemma resume_pending: "resume_step s t \<Longrightarrow> pending s = Suc (pending t) \<and> setts t = setts s"
  by (induction rule: resume_step.induct) (auto simp: pending_def syncOne_def)

lemma resume_run:
  "(resume_step ^^ n) s t \<Longrightarrow> sync_inv s \<Longrightarrow> pending s = n + pending t \<and> setts t = setts s \<and> sync_inv t"
proof (induction n arbitrary: s)
  case (Suc n)
  then obtain u where u: "resume_step s u" "(resume_step ^^ n) u t" by (metis relpowp_Suc_D2)
  with Suc.IH [OF u(2) sync_inv_resume [OF u(1) Suc.prems(2)]] resume_pending [OF u(1)] show ?case by simp
qed simp

lemma resume_stuck: "(\<forall>u. \<not> resume_step s u) \<longleftrightarrow> quiescent s"
proof
  assume stuck: "\<forall>u. \<not> resume_step s u"
  show "quiescent s"
  proof (rule ccontr)
    assume "\<not> quiescent s"
    then obtain t ts where "tasks s = [] @ t # ts" by (cases "tasks s") (auto simp: quiescent_def)
    then show False using stuck resume [of s "[]" _ _ ts] finish [of s "[]" ts] by (cases t) blast+
  qed
next
  assume "quiescent s"
  then show "\<forall>u. \<not> resume_step s u" by (auto simp: quiescent_def elim: resume_step.cases)
qed

end
