(* ===== verification/Extension_Run.thy ===== *)
theory Extension_Run
  imports Extension_Config
begin

text \<open>
  What a click on a button does (\<open>runButton\<close> of
  \<^verbatim>\<open>scripts/vscode/src/extension.ts\<close>): the command line it builds, the terminal
  it opens, the delayed move into a window of its own, and the three listeners that close
  the terminal when the command has finished. The editor is an explicit world: the
  terminals that are open, the closures of the runs that are still listening
  (\<open>session\<close>), the timers and warnings that are pending and the calls
  made to the editor, oldest first. An \<open>event\<close> is anything that enters the
  extension: a click, the user's answer, a timer, or an event of some terminal.
  The lemmas show that the shell reads back exactly the configured words, that listeners
  are never left behind, and that a terminal is closed only after a command
  has started and ended in it, and then once.
\<close>

section \<open>The command line\<close>

definition isPath :: "jstring \<Rightarrow> bool" where
  "isPath s \<longleftrightarrow> list_ex (\<lambda>c. c = 92 \<or> c = 47) s \<or> endsWith (js ''.sh'') s"

definition scriptToken :: "jstring \<Rightarrow> jstring" where
  "scriptToken scriptExpanded =
     (if isPath scriptExpanded then quoteArg scriptExpanded else scriptExpanded)"

definition commandLine :: "host \<Rightarrow> ButtonConfig \<Rightarrow> jstring \<Rightarrow> jstring" where
  "commandLine h cfg scr =
     join [32] (scriptToken (expandVars h scr) #
       map (\<lambda>a. quoteArg (expandVars h a)) (case args cfg of None \<Rightarrow> [] | Some as \<Rightarrow> as))"

definition terminalCwd :: "host \<Rightarrow> ButtonConfig \<Rightarrow> jstring option" where
  "terminalCwd h cfg =
     (case cwd cfg of
        Some d \<Rightarrow> if d \<noteq> [] then Some (expandVars h d) else firstFolder h
      | None \<Rightarrow> firstFolder h)"

definition warningText :: "ButtonId \<Rightarrow> jstring" where
  "warningText i = js ''Lightbox '' @ LABEL i @ js '' is not configured. Set '' @ [34] @
     js ''lightbox.'' @ idName i @ js ''.script'' @ [34] @ js '' in settings.''"

section \<open>The world\<close>

datatype listener = OnStart | OnEnd | OnClose

datatype effect =
    ShowWarning jstring
  | OpenSettings jstring
  | CreateTerminal nat jstring "jstring option"
  | ShowTerminal nat
  | SendText nat jstring bool
  | SetTimeout nat
  | Subscribe nat listener
  | ExecCommand jstring
  | DisposeSub nat listener
  | DisposeTerminal nat

text \<open>The variables a run with \<open>autoClose\<close> keeps alive in its closures.\<close>

record session =
  sterm :: nat
  started :: bool
  subs :: "listener list"

record world =
  nextTerm :: nat
  alive :: "nat list"
  sessions :: "session list"
  timers :: nat
  warnings :: "ButtonId list"
  trace :: "effect list"

definition emit :: "effect list \<Rightarrow> world \<Rightarrow> world" where
  "emit es w = w\<lparr>trace := trace w @ es\<rparr>"

definition initWorld :: world where
  "initWorld = \<lparr>nextTerm = 0, alive = [], sessions = [], timers = 0, warnings = [], trace = []\<rparr>"

section \<open>Operations\<close>

text \<open>An option of the configuration that is on unless it is \<open>false\<close>.\<close>

definition notFalse :: "bool option \<Rightarrow> bool" where
  "notFalse x \<longleftrightarrow> x \<noteq> Some False"

definition openTerminal :: "ButtonId \<Rightarrow> jstring option \<Rightarrow> jstring \<Rightarrow> world \<Rightarrow> world" where
  "openTerminal i dir line w =
     (let t = nextTerm w in
      emit [CreateTerminal t (js ''Lightbox '' @ LABEL i) dir, ShowTerminal t, SendText t line True]
        (w\<lparr>nextTerm := Suc t, alive := alive w @ [t]\<rparr>))"

definition floatTerminal :: "world \<Rightarrow> world" where
  "floatTerminal w = emit [SetTimeout 150] (w\<lparr>timers := Suc (timers w)\<rparr>)"

definition watchTerminal :: "nat \<Rightarrow> world \<Rightarrow> world" where
  "watchTerminal t w =
     emit [Subscribe t OnStart, Subscribe t OnEnd, Subscribe t OnClose]
       (w\<lparr>sessions := sessions w @ [\<lparr>sterm = t, started = False, subs = [OnStart, OnEnd, OnClose]\<rparr>]\<rparr>)"

definition runButton :: "host \<Rightarrow> settings \<Rightarrow> ButtonId \<Rightarrow> world \<Rightarrow> world" where
  "runButton h st i w =
     (let cfg = getConfig st i in
      case script cfg of
        Some (c # cs) \<Rightarrow>
          (let t = nextTerm w;
               w1 = openTerminal i (terminalCwd h cfg) (commandLine h cfg (c # cs)) w;
               w2 = (if notFalse (floatingWindow cfg) then floatTerminal w1 else w1)
           in if notFalse (autoClose cfg) then watchTerminal t w2 else w2)
      | _ \<Rightarrow> emit [ShowWarning (warningText i)] (w\<lparr>warnings := warnings w @ [i]\<rparr>))"

text \<open>The rest of the handler once the user has answered the warning.\<close>

definition warningAnswered :: "ButtonId \<Rightarrow> bool \<Rightarrow> world \<Rightarrow> world" where
  "warningAnswered i openSettings w =
     (if i \<in> set (warnings w)
      then emit (if openSettings then [OpenSettings (js ''lightbox.'' @ idName i)] else [])
             (w\<lparr>warnings := remove1 i (warnings w)\<rparr>)
      else w)"

text \<open>The callback of the timer; \<open>ok\<close> says whether the first command was accepted.\<close>

definition timerFired :: "bool \<Rightarrow> world \<Rightarrow> world" where
  "timerFired ok w =
     (if timers w = 0 then w
      else emit (ExecCommand (js ''workbench.action.terminal.moveIntoNewWindow'') #
             (if ok then [] else [ExecCommand (js ''workbench.action.terminal.moveToNewWindow'')]))
             (w\<lparr>timers := timers w - 1\<rparr>))"

text \<open>\<open>cleanup\<close>: pop and dispose until the array is empty.\<close>

function cleanup :: "nat \<Rightarrow> listener list \<Rightarrow> effect list" where
  "cleanup t ls = (if ls = [] then [] else DisposeSub t (last ls) # cleanup t (butlast ls))"
  by pat_completeness auto
termination
  by (relation "measure (\<lambda>(t, ls). length ls)") auto

declare cleanup.simps [simp del]

text \<open>The three listeners of one run, each active while it is subscribed.\<close>

definition onStarted :: "nat \<Rightarrow> session \<Rightarrow> session" where
  "onStarted t s = (if OnStart \<in> set (subs s) \<and> sterm s = t then s\<lparr>started := True\<rparr> else s)"

definition onEnded :: "nat \<Rightarrow> session \<Rightarrow> session \<times> effect list" where
  "onEnded t s =
     (if OnEnd \<notin> set (subs s) \<or> sterm s \<noteq> t \<or> \<not> started s then (s, [])
      else (s\<lparr>subs := []\<rparr>, cleanup t (subs s) @ [DisposeTerminal t]))"

definition onClosed :: "nat \<Rightarrow> session \<Rightarrow> session \<times> effect list" where
  "onClosed t s =
     (if OnClose \<in> set (subs s) \<and> sterm s = t then (s\<lparr>subs := []\<rparr>, cleanup t (subs s))
      else (s, []))"

text \<open>An event of the editor reaches the listeners of every run, in the order of the runs.\<close>

definition broadcast :: "(session \<Rightarrow> session \<times> effect list) \<Rightarrow> world \<Rightarrow> world" where
  "broadcast f w =
     (let es = concat (map (\<lambda>s. snd (f s)) (sessions w)) in
      emit es (w\<lparr>sessions := map (\<lambda>s. fst (f s)) (sessions w),
                 alive := filter (\<lambda>t. DisposeTerminal t \<notin> set es) (alive w)\<rparr>))"

datatype event =
    Click host settings ButtonId
  | Answered ButtonId bool
  | TimerFired bool
  | ExecutionStarted nat
  | ExecutionEnded nat
  | TerminalClosed nat

fun handle :: "event \<Rightarrow> world \<Rightarrow> world" where
  "handle (Click h st i) w = runButton h st i w"
| "handle (Answered i b) w = warningAnswered i b w"
| "handle (TimerFired ok) w = timerFired ok w"
| "handle (ExecutionStarted t) w = w\<lparr>sessions := map (onStarted t) (sessions w)\<rparr>"
| "handle (ExecutionEnded t) w = broadcast (onEnded t) w"
| "handle (TerminalClosed t) w =
     broadcast (onClosed t) (w\<lparr>alive := filter (\<lambda>u. u \<noteq> t) (alive w)\<rparr>)"

primrec runEvents :: "event list \<Rightarrow> world \<Rightarrow> world" where
  "runEvents [] w = w"
| "runEvents (e # es) w = runEvents es (handle e w)"

lemma runEvents_append [simp]: "runEvents (es @ fs) w = runEvents fs (runEvents es w)"
  by (induction es arbitrary: w) auto

section \<open>Lemmas: the command line\<close>

lemma quoted_args:
  "map (\<lambda>a. quoteArg (expandVars h a)) as = map quoteArg (map (expandVars h) as)"
  by simp

lemma commandLine_path:
  assumes "isPath (expandVars h scr)"
  shows "sh_words (commandLine h cfg scr) =
    Some (expandVars h scr # map (expandVars h) (case args cfg of None \<Rightarrow> [] | Some as \<Rightarrow> as))"
proof -
  have "commandLine h cfg scr = join [32] (map quoteArg
      (expandVars h scr # map (expandVars h) (case args cfg of None \<Rightarrow> [] | Some as \<Rightarrow> as)))"
    using assms by (simp add: commandLine_def scriptToken_def comp_def)
  then show ?thesis by (simp only: qa.words_joined)
qed

lemma commandLine_raw:
  assumes "\<not> isPath (expandVars h scr)" and "sh_words (expandVars h scr) = Some ws"
  shows "sh_words (commandLine h cfg scr) =
    Some (ws @ map (expandVars h) (case args cfg of None \<Rightarrow> [] | Some as \<Rightarrow> as))"
proof -
  let ?as = "map (expandVars h) (case args cfg of None \<Rightarrow> [] | Some as \<Rightarrow> as)"
  have line: "commandLine h cfg scr = join [32] (expandVars h scr # map quoteArg ?as)"
    using assms(1) by (simp add: commandLine_def scriptToken_def comp_def)
  show ?thesis
  proof (cases "?as = []")
    case True
    with line assms(2) show ?thesis by simp
  next
    case False
    then have "commandLine h cfg scr = expandVars h scr @ 32 # join [32] (map quoteArg ?as)"
      unfolding line by (simp add: join_Cons)
    with assms(2) show ?thesis by (simp only: qa.lex_raw_prefix)
  qed
qed

text \<open>Everything a click makes the editor do, branch by branch.\<close>

definition clickEffects :: "host \<Rightarrow> ButtonConfig \<Rightarrow> ButtonId \<Rightarrow> nat \<Rightarrow> effect list" where
  "clickEffects h cfg i t =
     (if truthy (script cfg)
      then [CreateTerminal t (js ''Lightbox '' @ LABEL i) (terminalCwd h cfg), ShowTerminal t,
            SendText t (commandLine h cfg (the (script cfg))) True] @
           (if notFalse (floatingWindow cfg) then [SetTimeout 150] else []) @
           (if notFalse (autoClose cfg)
            then [Subscribe t OnStart, Subscribe t OnEnd, Subscribe t OnClose] else [])
      else [ShowWarning (warningText i)])"

lemma emit_trace [simp]: "trace (emit es w) = trace w @ es"
  by (simp add: emit_def)

lemma runButton_trace:
  "trace (runButton h st i w) = trace w @ clickEffects h (getConfig st i) i (nextTerm w)"
  by (auto simp: runButton_def clickEffects_def openTerminal_def floatTerminal_def
      watchTerminal_def Let_def truthy_def split: option.splits list.splits)

text \<open>The one line a click on a configured button sends.\<close>

definition opensWith :: "effect list \<Rightarrow> nat \<Rightarrow> jstring \<Rightarrow> jstring option \<Rightarrow> jstring \<Rightarrow> bool" where
  "opensWith es t name dir line \<longleftrightarrow>
     take 3 es = [CreateTerminal t name dir, ShowTerminal t, SendText t line True] \<and>
     list_all (\<lambda>e. case e of SendText _ _ _ \<Rightarrow> False | CreateTerminal _ _ _ \<Rightarrow> False | _ \<Rightarrow> True)
       (drop 3 es)"

lemma clickEffects_opens:
  "script cfg = Some scr \<Longrightarrow> scr \<noteq> [] \<Longrightarrow>
   opensWith (clickEffects h cfg i t) t (js ''Lightbox '' @ LABEL i) (terminalCwd h cfg)
     (commandLine h cfg scr)"
  by (simp add: opensWith_def clickEffects_def truthy_def)

section \<open>Lemmas: the life of a terminal\<close>

lemma cleanup_rev: "cleanup t ls = map (DisposeSub t) (rev ls)"
  by (induction ls rule: rev_induct) (simp_all add: cleanup.simps)

lemma emit_simps [simp]:
  "nextTerm (emit es w) = nextTerm w" "alive (emit es w) = alive w"
  "sessions (emit es w) = sessions w" "timers (emit es w) = timers w"
  "warnings (emit es w) = warnings w"
  by (simp_all add: emit_def)

lemma onStarted_simps [simp]:
  "sterm (onStarted t s) = sterm s" "subs (onStarted t s) = subs s"
  by (simp_all add: onStarted_def)

lemma onEnded_simps [simp]:
  "sterm (fst (onEnded t s)) = sterm s" "started (fst (onEnded t s)) = started s"
  by (simp_all add: onEnded_def)

lemma onClosed_simps [simp]:
  "sterm (fst (onClosed t s)) = sterm s" "started (fst (onClosed t s)) = started s"
  by (simp_all add: onClosed_def)

text \<open>How many times the extension has disposed of a terminal.\<close>

definition disposals :: "nat \<Rightarrow> effect list \<Rightarrow> nat" where
  "disposals t es = count_list es (DisposeTerminal t)"

lemma disposals_simps [simp]:
  "disposals t [] = 0" "disposals t (es @ fs) = disposals t es + disposals t fs"
  "disposals t (e # es) = (if e = DisposeTerminal t then 1 else 0) + disposals t es"
  by (simp_all add: disposals_def)

lemma disposals_cleanup [simp]: "disposals t (cleanup u ls) = 0"
  by (auto simp: cleanup_rev disposals_def count_list_0_iff)

lemma disposals_onEnded:
  "disposals u (snd (onEnded t s)) =
     (if sterm s = u \<and> u = t \<and> started s \<and> OnEnd \<in> set (subs s) then 1 else 0)"
  by (auto simp: onEnded_def)

lemma disposals_onClosed [simp]: "disposals u (snd (onClosed t s)) = 0"
  by (auto simp: onClosed_def)

lemma disposals_in_concat:
  "0 < disposals u (concat (map f ss)) \<Longrightarrow> \<exists>s \<in> set ss. 0 < disposals u (f s)"
  by (induction ss) auto

text \<open>
  The invariant: terminals are numbered in order, each run has a terminal of its own,
  a run either listens to all three events or to none, and a terminal has been disposed
  of at most once, and never while its run still listens.
\<close>

definition wellFormed :: "session \<Rightarrow> bool" where
  "wellFormed s \<longleftrightarrow> subs s = [] \<or> subs s = [OnStart, OnEnd, OnClose]"

definition run_inv :: "world \<Rightarrow> bool" where
  "run_inv w \<longleftrightarrow>
     distinct (map sterm (sessions w)) \<and>
     (\<forall>s \<in> set (sessions w). sterm s < nextTerm w \<and> wellFormed s) \<and>
     (\<forall>t. disposals t (trace w) \<le> 1) \<and>
     (\<forall>t. disposals t (trace w) = 1 \<longrightarrow>
        (\<exists>s \<in> set (sessions w). sterm s = t \<and> subs s = [] \<and> started s))"

lemma run_inv_init: "run_inv initWorld"
  by (simp add: run_inv_def initWorld_def)

lemma runButton_sessions:
  "sessions (runButton h st i w) = sessions w \<or>
   sessions (runButton h st i w) = sessions w @
     [\<lparr>sterm = nextTerm w, started = False, subs = [OnStart, OnEnd, OnClose]\<rparr>] \<and>
     nextTerm (runButton h st i w) = Suc (nextTerm w)"
  by (auto simp: runButton_def openTerminal_def floatTerminal_def watchTerminal_def Let_def
      split: option.splits list.splits)

lemma runButton_frame:
  "nextTerm w \<le> nextTerm (runButton h st i w)"
  "disposals t (trace (runButton h st i w)) = disposals t (trace w)"
  by (auto simp: runButton_def openTerminal_def floatTerminal_def watchTerminal_def Let_def
      split: option.splits list.splits)

lemma runButton_alive:
  "truthy (script (getConfig st i)) \<Longrightarrow>
   alive (runButton h st i w) = alive w @ [nextTerm w] \<and>
   warnings (runButton h st i w) = warnings w"
  by (auto simp: runButton_def openTerminal_def floatTerminal_def watchTerminal_def Let_def
      truthy_def split: option.splits list.splits)

lemma run_inv_keep:
  assumes "run_inv w" "sessions w' = sessions w" "nextTerm w \<le> nextTerm w'"
    and "\<And>t. disposals t (trace w') = disposals t (trace w)"
  shows "run_inv w'"
  using assms unfolding run_inv_def by force

lemma run_inv_click: "run_inv w \<Longrightarrow> run_inv (runButton h st i w)"
proof -
  assume inv: "run_inv w"
  let ?w = "runButton h st i w"
  from runButton_sessions [of h st i w] show "run_inv ?w"
  proof (elim disjE conjE)
    assume "sessions ?w = sessions w"
    with inv show ?thesis by (rule run_inv_keep) (simp_all add: runButton_frame)
  next
    assume "sessions ?w = sessions w @
      [\<lparr>sterm = nextTerm w, started = False, subs = [OnStart, OnEnd, OnClose]\<rparr>]"
      "nextTerm ?w = Suc (nextTerm w)"
    with inv show ?thesis
      by (fastforce simp: run_inv_def runButton_frame wellFormed_def)
  qed
qed

lemma run_inv_started:
  assumes "run_inv w"
  shows "run_inv (w\<lparr>sessions := map (onStarted t) (sessions w)\<rparr>)"
proof -
  have "onStarted t s = s" if "subs s = []" for s
    using that by (simp add: onStarted_def)
  with assms show ?thesis
    by (fastforce simp: run_inv_def wellFormed_def comp_def)
qed

lemma wellFormed_handlers:
  "wellFormed s \<Longrightarrow> wellFormed (fst (onEnded t s))"
  "wellFormed s \<Longrightarrow> wellFormed (fst (onClosed t s))"
  by (auto simp: wellFormed_def onEnded_def onClosed_def)

lemma idle_handlers:
  "subs s = [] \<Longrightarrow> onEnded t s = (s, [])" "subs s = [] \<Longrightarrow> onClosed t s = (s, [])"
  by (simp_all add: onEnded_def onClosed_def)

text \<open>One run at most answers the end of a command, since the terminals are distinct.\<close>

lemma disposals_ended:
  assumes "distinct (map sterm ss)"
  shows "disposals u (concat (map (\<lambda>s. snd (onEnded t s)) ss)) =
    (if \<exists>s \<in> set ss. sterm s = u \<and> u = t \<and> started s \<and> OnEnd \<in> set (subs s) then 1 else 0)"
  using assms
proof (induction ss)
  case (Cons s ss)
  then show ?case
    by (auto simp: disposals_onEnded comp_def)
qed simp

lemma disposals_closed: "disposals u (concat (map (\<lambda>s. snd (onClosed t s)) ss)) = 0"
  by (induction ss) auto

lemma run_inv_ended: "run_inv w \<Longrightarrow> run_inv (broadcast (onEnded t) w)"
proof -
  assume inv: "run_inv w"
  let ?ss = "sessions w" and ?w = "broadcast (onEnded t) w"
  have ss: "sessions ?w = map (\<lambda>s. fst (onEnded t s)) ?ss" and nt: "nextTerm ?w = nextTerm w"
    and tr: "trace ?w = trace w @ concat (map (\<lambda>s. snd (onEnded t s)) ?ss)"
    by (simp_all add: broadcast_def Let_def)
  from inv have dst: "distinct (map sterm ?ss)" by (simp add: run_inv_def)
  have count: "disposals u (trace ?w) = disposals u (trace w) +
      (if \<exists>s \<in> set ?ss. sterm s = u \<and> u = t \<and> started s \<and> OnEnd \<in> set (subs s) then 1 else 0)" for u
    by (simp add: tr disposals_ended [OF dst])
  have alone: "s = s'" if "s \<in> set ?ss" "s' \<in> set ?ss" "sterm s = sterm s'" for s s'
    using that dst by (auto simp: distinct_map inj_on_def)
  have once: "disposals u (trace w) = 0"
    if "s \<in> set ?ss" "sterm s = u" "OnEnd \<in> set (subs s)" for s u
    using inv that alone unfolding run_inv_def
    by (metis One_nat_def empty_iff empty_set le_Suc_eq le_zero_eq)
  have settled: "\<exists>s \<in> set (sessions ?w). sterm s = u \<and> subs s = [] \<and> started s"
    if one: "disposals u (trace ?w) = 1" for u
  proof (cases "\<exists>s \<in> set ?ss. sterm s = u \<and> u = t \<and> started s \<and> OnEnd \<in> set (subs s)")
    case True
    then obtain s where "s \<in> set ?ss" "sterm s = u" "u = t" "started s" "OnEnd \<in> set (subs s)"
      by blast
    then show ?thesis
      by (intro bexI [of _ "fst (onEnded t s)"]) (auto simp: ss onEnded_def)
  next
    case False
    with one count [of u] have "disposals u (trace w) = 1" by (simp only: if_False add_0_right)
    then obtain s where "s \<in> set ?ss" "sterm s = u" "subs s = []" "started s"
      using inv by (auto simp: run_inv_def)
    then show ?thesis by (force simp: ss idle_handlers)
  qed
  have le: "disposals u (trace ?w) \<le> 1" for u
    using inv once [of _ u] by (auto simp: count run_inv_def)
  show ?thesis
    using inv le settled by (auto simp: run_inv_def ss nt comp_def intro: wellFormed_handlers)
qed

lemma run_inv_closed:
  "run_inv w \<Longrightarrow> run_inv (broadcast (onClosed t) (w\<lparr>alive := ls\<rparr>))"
proof -
  assume inv: "run_inv w"
  let ?w = "broadcast (onClosed t) (w\<lparr>alive := ls\<rparr>)"
  have "\<exists>s \<in> set (sessions ?w). sterm s = u \<and> subs s = [] \<and> started s"
    if "disposals u (trace w) = 1" for u
  proof -
    from inv that obtain s where "s \<in> set (sessions w)" "sterm s = u" "subs s = []" "started s"
      by (auto simp: run_inv_def)
    then show ?thesis by (force simp: broadcast_def Let_def idle_handlers)
  qed
  with inv show ?thesis
    by (auto simp: run_inv_def broadcast_def Let_def disposals_closed comp_def
        intro: wellFormed_handlers)
qed

lemma run_inv_handle: "run_inv w \<Longrightarrow> run_inv (handle e w)"
proof (cases e)
  case (Answered i b)
  assume "run_inv w"
  then show ?thesis unfolding Answered
    by (rule run_inv_keep) (simp_all add: warningAnswered_def)
next
  case (TimerFired ok)
  assume "run_inv w"
  then show ?thesis unfolding TimerFired
    by (rule run_inv_keep) (simp_all add: timerFired_def)
qed (auto intro: run_inv_click run_inv_started run_inv_ended run_inv_closed)

interpretation rb: invariant_machine "\<lambda>w. w = initWorld" "\<lambda>w w'. \<exists>e. w' = handle e w" run_inv
  by unfold_locales (auto intro: run_inv_init run_inv_handle)

lemma runEvents_inv: "run_inv w \<Longrightarrow> run_inv (runEvents es w)"
  by (induction es arbitrary: w) (auto intro: run_inv_handle)

text \<open>The one run an event of its terminal reaches, and what that run then does.\<close>

lemma run_inv_alone:
  assumes "run_inv w" "s \<in> set (sessions w)" "r \<in> set (sessions w)" "r \<noteq> s"
  shows "sterm r \<noteq> sterm s"
  using assms by (auto simp: run_inv_def distinct_map inj_on_def)

lemma run_inv_single:
  assumes "run_inv w" "s \<in> set (sessions w)"
    and "\<And>r. sterm r \<noteq> sterm s \<Longrightarrow> g r = []"
  shows "concat (map g (sessions w)) = g s"
  using assms run_inv_alone [OF assms(1,2)]
  by (intro concat_map_single) (auto simp: run_inv_def distinct_map)

lemma ended_other: "sterm r \<noteq> t \<Longrightarrow> onEnded t r = (r, [])"
  by (simp add: onEnded_def)

lemma closed_other: "sterm r \<noteq> t \<Longrightarrow> onClosed t r = (r, [])"
  by (simp add: onClosed_def)

lemma listening: "run_inv w \<Longrightarrow> s \<in> set (sessions w) \<Longrightarrow> subs s \<noteq> [] \<Longrightarrow> subs s = [OnStart, OnEnd, OnClose]"
  by (auto simp: run_inv_def wellFormed_def)

lemma ended_effects:
  assumes "run_inv w" "s \<in> set (sessions w)" "subs s \<noteq> []" "started s"
  defines "w' \<equiv> broadcast (onEnded (sterm s)) w"
  shows "trace w' = trace w @ [DisposeSub (sterm s) OnClose, DisposeSub (sterm s) OnEnd,
      DisposeSub (sterm s) OnStart, DisposeTerminal (sterm s)]"
    and "sterm s \<notin> set (alive w')"
    and "sessions w' = map (\<lambda>r. if r = s then r\<lparr>subs := []\<rparr> else r) (sessions w)"
proof -
  let ?t = "sterm s"
  note here = listening [OF assms(1-3)]
  have ev: "concat (map (\<lambda>r. snd (onEnded ?t r)) (sessions w)) = snd (onEnded ?t s)"
    using assms(1,2) by (rule run_inv_single) (simp add: ended_other)
  have own: "snd (onEnded ?t s) = [DisposeSub ?t OnClose, DisposeSub ?t OnEnd,
      DisposeSub ?t OnStart, DisposeTerminal ?t]"
    using here assms(4) by (simp add: onEnded_def cleanup_rev)
  show "trace w' = trace w @ [DisposeSub ?t OnClose, DisposeSub ?t OnEnd,
      DisposeSub ?t OnStart, DisposeTerminal ?t]" "?t \<notin> set (alive w')"
    by (simp_all add: w'_def broadcast_def ev own)
  show "sessions w' = map (\<lambda>r. if r = s then r\<lparr>subs := []\<rparr> else r) (sessions w)"
    using here assms(4) run_inv_alone [OF assms(1,2)]
    by (auto simp: w'_def broadcast_def Let_def ended_other onEnded_def)
qed

lemma closed_effects:
  assumes "run_inv w" "s \<in> set (sessions w)" "subs s \<noteq> []"
  shows "trace (broadcast (onClosed (sterm s)) (w\<lparr>alive := ls\<rparr>)) = trace w @
    [DisposeSub (sterm s) OnClose, DisposeSub (sterm s) OnEnd, DisposeSub (sterm s) OnStart]"
proof -
  have "concat (map (\<lambda>r. snd (onClosed (sterm s) r)) (sessions w)) = snd (onClosed (sterm s) s)"
    using assms(1,2) by (rule run_inv_single) (simp add: closed_other)
  then show ?thesis
    using listening [OF assms] by (simp add: broadcast_def onClosed_def cleanup_rev)
qed

section \<open>Lemmas: history\<close>

text \<open>
  What the events so far say about a run: it began with a click that asked for
  \<open>autoClose\<close> and gave it terminal \<open>t\<close>, and a command started in \<open>t\<close> later.
\<close>

definition clickedAt :: "event list \<Rightarrow> nat \<Rightarrow> nat \<Rightarrow> bool" where
  "clickedAt es i t \<longleftrightarrow> i < length es \<and>
     (\<exists>h st b. es ! i = Click h st b \<and> notFalse (autoClose (getConfig st b)) \<and>
        nextTerm (runEvents (take i es) initWorld) = t)"

definition hist_inv :: "event list \<Rightarrow> world \<Rightarrow> bool" where
  "hist_inv es w \<longleftrightarrow>
     (\<forall>s \<in> set (sessions w). \<exists>i. clickedAt es i (sterm s) \<and>
        (started s \<longrightarrow> (\<exists>j < length es. i < j \<and> es ! j = ExecutionStarted (sterm s)))) \<and>
     (\<forall>t. disposals t (trace w) > 0 \<longrightarrow>
        (\<exists>i j k. clickedAt es i t \<and> i < j \<and> j < k \<and> k < length es \<and>
           es ! j = ExecutionStarted t \<and> es ! k = ExecutionEnded t))"

lemma clickedAt_snoc: "clickedAt es i t \<Longrightarrow> clickedAt (es @ [e]) i t"
  by (auto simp: clickedAt_def nth_append)

lemma hist_session_snoc:
  assumes "\<exists>i. clickedAt es i t \<and>
    (b \<longrightarrow> (\<exists>j < length es. i < j \<and> es ! j = ExecutionStarted t))"
  shows "\<exists>i. clickedAt (es @ [e]) i t \<and>
    (b \<longrightarrow> (\<exists>j < length (es @ [e]). i < j \<and> (es @ [e]) ! j = ExecutionStarted t))"
proof -
  from assms obtain i where i: "clickedAt es i t"
    "b \<longrightarrow> (\<exists>j < length es. i < j \<and> es ! j = ExecutionStarted t)" by blast
  have "b \<longrightarrow> (\<exists>j < length (es @ [e]). i < j \<and> (es @ [e]) ! j = ExecutionStarted t)"
    using i(2) nth_append_left [of _ es "[e]"] by (metis length_append_singleton less_SucI)
  with i(1) show ?thesis by (blast intro: clickedAt_snoc)
qed

lemma hist_disposal_snoc:
  assumes "\<exists>i j k. clickedAt es i t \<and> i < j \<and> j < k \<and> k < length es \<and>
    es ! j = ExecutionStarted t \<and> es ! k = ExecutionEnded t"
  shows "\<exists>i j k. clickedAt (es @ [e]) i t \<and> i < j \<and> j < k \<and> k < length (es @ [e]) \<and>
    (es @ [e]) ! j = ExecutionStarted t \<and> (es @ [e]) ! k = ExecutionEnded t"
proof -
  from assms obtain i j k where "clickedAt es i t" "i < j" "j < k" "k < length es"
    "es ! j = ExecutionStarted t" "es ! k = ExecutionEnded t" by blast
  then show ?thesis
    by (intro exI [of _ i] exI [of _ j] exI [of _ k]) (simp add: nth_append clickedAt_snoc)
qed

lemma hist_inv_sessions:
  assumes "hist_inv es w"
    and "\<And>s'. s' \<in> set (sessions w') \<Longrightarrow>
      \<exists>s \<in> set (sessions w). sterm s' = sterm s \<and> (started s' \<longrightarrow> started s)"
    and "\<And>t. disposals t (trace w') = disposals t (trace w)"
  shows "hist_inv (es @ [e]) w'"
  unfolding hist_inv_def
proof (intro conjI ballI allI impI)
  fix s' assume "s' \<in> set (sessions w')"
  then obtain s where s: "s \<in> set (sessions w)" "sterm s' = sterm s" "started s' \<longrightarrow> started s"
    using assms(2) by blast
  from assms(1) s(1) obtain i where "clickedAt es i (sterm s)"
      "started s \<longrightarrow> (\<exists>j < length es. i < j \<and> es ! j = ExecutionStarted (sterm s))"
    unfolding hist_inv_def by blast
  with s(2,3) have "\<exists>i. clickedAt es i (sterm s') \<and>
      (started s' \<longrightarrow> (\<exists>j < length es. i < j \<and> es ! j = ExecutionStarted (sterm s')))"
    by (intro exI [of _ i]) simp
  then show "\<exists>i. clickedAt (es @ [e]) i (sterm s') \<and>
      (started s' \<longrightarrow>
        (\<exists>j < length (es @ [e]). i < j \<and> (es @ [e]) ! j = ExecutionStarted (sterm s')))"
    by (rule hist_session_snoc)
next
  fix t assume "0 < disposals t (trace w')"
  with assms(1,3) have "\<exists>i j k. clickedAt es i t \<and> i < j \<and> j < k \<and> k < length es \<and>
      es ! j = ExecutionStarted t \<and> es ! k = ExecutionEnded t"
    unfolding hist_inv_def by simp
  then show "\<exists>i j k. clickedAt (es @ [e]) i t \<and> i < j \<and> j < k \<and> k < length (es @ [e]) \<and>
      (es @ [e]) ! j = ExecutionStarted t \<and> (es @ [e]) ! k = ExecutionEnded t"
    by (rule hist_disposal_snoc)
qed

lemma runButton_new_session:
  "sessions (runButton h st i w) \<noteq> sessions w \<Longrightarrow> notFalse (autoClose (getConfig st i))"
  by (auto simp: runButton_def openTerminal_def floatTerminal_def Let_def
      split: option.splits list.splits if_splits)

lemma hist_inv_click:
  assumes hist: "hist_inv es (runEvents es initWorld)"
  shows "hist_inv (es @ [Click h st b]) (handle (Click h st b) (runEvents es initWorld))"
proof -
  let ?w = "runEvents es initWorld" and ?e = "Click h st b"
  let ?s = "\<lparr>sterm = nextTerm ?w, started = False, subs = [OnStart, OnEnd, OnClose]\<rparr>"
  show ?thesis
  proof (cases "sessions (runButton h st b ?w) = sessions ?w")
    case True
    with hist show ?thesis by (intro hist_inv_sessions) (auto simp: runButton_frame)
  next
    case False
    then have new: "sessions (runButton h st b ?w) = sessions ?w @ [?s]"
      and auto_close: "notFalse (autoClose (getConfig st b))"
      using runButton_sessions [of h st b ?w] runButton_new_session [of h st b ?w] by auto
    then have "clickedAt (es @ [?e]) (length es) (nextTerm ?w)"
      by (auto simp: clickedAt_def)
    moreover have "hist_inv (es @ [?e]) ?w"
      using hist by (rule hist_inv_sessions) auto
    ultimately show ?thesis
      by (auto simp: hist_inv_def new runButton_frame)
  qed
qed

lemma hist_inv_started:
  assumes hist: "hist_inv es w"
  shows "hist_inv (es @ [ExecutionStarted t]) (handle (ExecutionStarted t) w)"
proof -
  let ?e = "ExecutionStarted t"
  have snoc: "hist_inv (es @ [?e]) w"
    using hist by (rule hist_inv_sessions) auto
  have here: "\<exists>i. clickedAt (es @ [?e]) i t \<and>
      (\<exists>j < length (es @ [?e]). i < j \<and> (es @ [?e]) ! j = ExecutionStarted t)"
    if "s \<in> set (sessions w)" "sterm s = t" for s
  proof -
    from hist that obtain i where "clickedAt es i t" by (auto simp: hist_inv_def)
    moreover from this have "i < length es" by (simp add: clickedAt_def)
    ultimately show ?thesis
      by (intro exI [of _ i] conjI exI [of _ "length es"]) (auto intro: clickedAt_snoc)
  qed
  show ?thesis
    using snoc here by (fastforce simp: hist_inv_def onStarted_def split: if_splits)
qed

lemma hist_inv_ended:
  assumes hist: "hist_inv es w"
  shows "hist_inv (es @ [ExecutionEnded t]) (handle (ExecutionEnded t) w)"
proof -
  let ?e = "ExecutionEnded t" and ?new = "concat (map (\<lambda>s. snd (onEnded t s)) (sessions w))"
  have snoc: "hist_inv (es @ [?e]) (w\<lparr>sessions := map (\<lambda>s. fst (onEnded t s)) (sessions w)\<rparr>)"
    using hist by (rule hist_inv_sessions) (auto simp: comp_def)
  have "\<exists>i j k. clickedAt (es @ [?e]) i u \<and> i < j \<and> j < k \<and> k < length (es @ [?e]) \<and>
      (es @ [?e]) ! j = ExecutionStarted u \<and> (es @ [?e]) ! k = ExecutionEnded u"
    if "0 < disposals u ?new" for u
  proof -
    from that obtain s where s: "s \<in> set (sessions w)" "0 < disposals u (snd (onEnded t s))"
      by (auto dest: disposals_in_concat)
    then have u: "sterm s = u" "u = t" "started s" by (auto simp: disposals_onEnded split: if_splits)
    with hist s(1) obtain i j where "clickedAt es i u" "i < j" "j < length es"
        "es ! j = ExecutionStarted u"
      unfolding hist_inv_def by blast
    with u(2) show ?thesis
      by (intro exI [of _ i] exI [of _ j] exI [of _ "length es"])
        (auto simp: nth_append intro: clickedAt_snoc)
  qed
  with snoc show ?thesis by (auto simp: hist_inv_def broadcast_def Let_def)
qed

lemma hist_inv_runEvents: "hist_inv es (runEvents es initWorld)"
proof (induction es rule: rev_induct)
  case Nil
  then show ?case by (simp add: hist_inv_def initWorld_def)
next
  case (snoc e es)
  let ?w = "runEvents es initWorld"
  have "hist_inv (es @ [e]) (handle e ?w)"
  proof (cases e)
    case (Click h st b)
    with snoc show ?thesis by (simp only: hist_inv_click)
  next
    case (ExecutionStarted t)
    with snoc show ?thesis by (simp only: hist_inv_started)
  next
    case (ExecutionEnded t)
    with snoc show ?thesis by (simp only: hist_inv_ended)
  next
    case (TerminalClosed t)
    from snoc show ?thesis unfolding TerminalClosed
    proof (rule hist_inv_sessions)
      fix s' assume "s' \<in> set (sessions (handle (TerminalClosed t) ?w))"
      then obtain s where "s \<in> set (sessions ?w)" "s' = fst (onClosed t s)"
        by (auto simp: broadcast_def Let_def)
      then show "\<exists>s \<in> set (sessions ?w). sterm s' = sterm s \<and> (started s' \<longrightarrow> started s)"
        by auto
    qed (simp add: broadcast_def Let_def disposals_closed)
  qed (use snoc in \<open>auto intro!: hist_inv_sessions
         simp: warningAnswered_def timerFired_def\<close>)
  then show ?case by simp
qed

end
