(* ===== verification/Spec2Isabelle.thy ===== *)
theory Spec2Isabelle
  imports Underscore_Timing Underscore_Functions Underscore_Exports Underscore_Template Theme_Nav
    JQuery_Deferred JQuery_Classes JQuery_Core JQuery_Queue JQuery_Param JQuery_Dispatch
    Sizzle_Select Doc_Session Launcher Extension_Sync Extension_Run
begin

text \<open>
  A verification of the program parts of the lightbox repository.

  \<^bold>\<open>The program.\<close> Lightbox starts a Linux kernel in an emulator under a debugger. Its own code is
  a VS Code extension with two buttons (\<^verbatim>\<open>src/scripts/vscode/src/extension.ts\<close>) and the
  launcher \<^verbatim>\<open>src/start-kernel.sh\<close>, which a button (or a user) runs. The repository ships the
  manual of the emulator, whose scripts, under
  \<^verbatim>\<open>src/prebuilts/qemu/share/doc/qemu/_static/\<close>, implement its search, its highlighting, its
  menu and its helpers, over two vendored libraries. The extension turns its settings into one shell line; the launcher
  parses options, assembles the command line of the emulator and starts terminals, a tmux
  session or a debugger; the manual's search splits and stems a query, looks it up in the generated
  index, orders and shows the results, and hands the words on to the page it links to.

  \<^bold>\<open>Theories, in the order of their imports.\<close>

  \<^item> \<open>JS_Prelude\<close>: strings as lists of code units, the string library the sources use,
    replacement, and the locales \<open>invariant_machine\<close> of a state machine with an invariant and
    \<open>event_simulation\<close> of a refinement.
  \<^item> \<open>Shell_Words\<close>: how a POSIX shell splits a line into words, and the locale \<open>shell_quoter\<close> of a
    function that quotes words for it.
  \<^item> \<open>Extension_Config\<close>: \<open>getConfig\<close>, \<open>expandVars\<close>, \<open>quoteArg\<close>, which interprets \<open>shell_quoter\<close>.
  \<^item> \<open>Extension_Run\<close>: \<open>runButton\<close> as a function on a record \<open>world\<close> (the open terminals, one
    session per run with its three listeners, the warnings, the trace of effects) and the
    events of the editor; it interprets \<open>invariant_machine\<close>.
  \<^item> \<open>Extension_Sync\<close>: \<open>activate\<close> and \<open>syncContext\<close>, an asynchronous loop, as a step relation in
    which every suspended call may be resumed at any time; it interprets \<open>invariant_machine\<close>.
  \<^item> \<open>Launcher\<close>: \<open>start-kernel.sh\<close> from the defaults to the debugger, as the list of the commands
    a run issues, for a sourced and for an executed script.
  \<^item> \<open>Doc_Stemmer\<close> and \<open>Doc_Splitter\<close> (\<^verbatim>\<open>language_data.js\<close>): the Porter stemmer with its regular
    expressions as a backtracking matcher, and the splitter with its tables.
  \<^item> \<open>URI_Component\<close> and \<open>Doc_Tools\<close> (\<^verbatim>\<open>doctools.js\<close>): URL parameters, highlighting in the
    document tree, translations, toggles, keys, URLs and the browser test.
  \<^item> \<open>Doc_Search\<close> and \<open>Doc_Session\<close> (\<^verbatim>\<open>searchtools.js\<close>): the search itself, and the search page
    over time; the locale \<open>comparator\<close> is the contract of \<open>sort\<close>, interpreted by the
    comparison of results, and the pulsing title interprets \<open>invariant_machine\<close>.
  \<^item> \<open>Underscore_Values\<close>, \<open>Underscore_Collections\<close> and \<open>Underscore_Arrays\<close> (\<^verbatim>\<open>underscore.js\<close>): values with a heap of
    arrays and objects, the type tests, the deep comparison \<open>isEqual\<close>, paths; the loops over
    collections, searching, sorting and grouping; slices, sets, ranges and escaping.
  \<^item> \<open>Underscore_Functions\<close> and \<open>Underscore_Timing\<close>: the functions that make functions, with the state of their
    closures; \<open>throttle\<close> and \<open>debounce\<close> as state machines over calls, timers and times, with
    the locale \<open>owing_machine\<close> of a machine that owes an answer.
  \<^item> \<open>Underscore_Objects\<close>, \<open>Underscore_Exports\<close> and \<open>Underscore_Template\<close>: objects as lists of properties, the
    functions that copy and select them, iteratees and chaining; the exported names and
    \<open>mixin\<close>; the compiler of templates.
  \<^item> \<open>Theme_Nav\<close> (\<^verbatim>\<open>js/theme.js\<close>): the menu as a tree with marked items, the navigation object
    with its handlers and pending frames, and the animation polyfill.
  \<^item> \<open>JQuery_Callbacks\<close> and \<open>JQuery_Deferred\<close> (\<^verbatim>\<open>jquery.js\<close>): callback lists, with callbacks that may change
    the list while it fires, and the deferred objects and \<open>when\<close> built on them; the locale \<open>announcement_list\<close>
    is what the deferred objects rely on, interpreted by the lists with the options \<open>once memory\<close>.
  \<^item> \<open>JQuery_Extend\<close> and \<open>JQuery_Core\<close>: \<open>extend\<close> on a heap of objects; \<open>each\<close>, \<open>map\<close>, \<open>grep\<close>, \<open>merge\<close> and
    the methods of matched sets.
  \<^item> \<open>JQuery_Classes\<close> and \<open>JQuery_Param\<close>: class names in the text of the attribute; query strings.
  \<^item> \<open>JQuery_Data\<close> and \<open>JQuery_Queue\<close>: the data store, which interprets the locale \<open>keyed_store\<close> of what its
    clients rely on; the queues of animations, which interpret the locale \<open>event_simulation\<close> of the prelude.
  \<^item> \<open>JS_Regex\<close>: regular expressions with groups, matched as the language does, by backtracking.
  \<^item> \<open>Sizzle_Dom\<close>: the document as a tree and its nodes as paths; the order of the page and \<open>uniqueSort\<close>.
  \<^item> \<open>Sizzle_Tokenizer\<close>: the expressions of the selector engine of \<^verbatim>\<open>jquery.js\<close>, escapes, and \<open>tokenize\<close>.
  \<^item> \<open>Sizzle_Filters\<close> and \<open>Sizzle_Pseudos\<close>: tag, class, attribute, position and pseudo class filters, the positions with
    their caches.
  \<^item> \<open>Sizzle_Combinators\<close>, \<open>Sizzle_Matcher\<close> and \<open>Sizzle_Select\<close>: \<open>addCombinator\<close> with the results it keeps on the nodes, the
    compiler, the matcher of a list of elements, and \<open>select\<close> with its shortcuts; what a selector means is
    defined apart (\<open>describes\<close>, \<open>groupMeans\<close>), without caches.
  \<^item> \<open>JQuery_Events\<close>, \<open>JQuery_Registry\<close> and \<open>JQuery_Dispatch\<close>: \<open>on\<close>, \<open>one\<close>, \<open>off\<close> and the registry of event handlers (\<open>jQuery.event.add\<close>
    and \<open>remove\<close>, with the private data of the elements and the listeners of the browser as a record \<open>registry\<close>); the log of bindings
    it implements (it interprets \<open>event_simulation\<close>); the handlers of an event and their calls
    (\<open>jQuery.event.handlers\<close>, \<open>dispatch\<close>, \<open>trigger\<close>), with functions of the program that may change the registry while they run.

  \<^bold>\<open>What is shown.\<close> For the extension: a click sends one line that the shell reads as the
  expanded script and arguments, word by word; a terminal is closed only after a command has
  run in it, and its listeners with it; the buttons shown are the buttons configured,
  whatever the interleaving, and the synchronisation comes to rest within a bound. For the launcher:
  options round trip, errors of a sourced run start nothing, the emulator gets the
  intended words, the panes of a session meet on one port; and where the script does not do what
  it means to. For the manual: the stemmer's expressions compute Porter's measure, the splitter
  returns maximal runs, the word search returns exactly the matching documents under a
  condition (and loses documents without it), results are shown completely and in order, a
  deferred query runs once, links carry the words, URL parameters round trip, highlighting changes
  no text and is undone outside drawings.
  For the libraries of the manual: the deep comparison is an equivalence on values without cycles;
  the binary search agrees with the linear one; the set operations are those of sets; wrapped functions run as
  often as they should; a throttled function keeps its distance and answers every call, a debounced one
  runs once in each burst; the functions on objects take each property from where they should; templates keep their text; the menu
  marks exactly the entry of the address and stops following after a click on a link; callback lists, deferred objects
  and animation queues implement their specifications (a value announced once, a promise, a
  first-in first-out runner); a deep copy is complete and shares nothing; class names are
  edited as a list; query strings are read back. For the selector engine: the tokens cover the
  text, a written selector is read back, nodes are sorted in the order of the page, positions from the start and class names are found as
  they should, a compiled selector takes what it describes whatever the caches hold, and a search returns exactly
  the described elements; and where positions from the end go wrong. The functions of the browser that find elements and that compare nodes are
  records with the hypotheses \<open>findersOK\<close> and \<open>standardBrowser\<close>; selectors inside \<open>:not\<close> and \<open>:has\<close> are given by their tests (\<open>extras\<close>).
  For events: the registry holds exactly the bindings that were made and not removed, delegated ones first, and the browser
  listens where there are handlers; an event calls the handlers it should, in their order, up to the first stop; an
  event fired by the program goes up the page and then runs the method of its element; and where handlers of \<open>focus\<close>
  escape their removal.

  \<^bold>\<open>Parameters, bounds and fuel.\<close> The editor, the file system, the network, the conversion to lower
  case and the generated index are arguments of the definitions; what a property needs of
  them is a hypothesis of its statement, and its witness gives an instance. Almost
  every function of the model is total: the recursions that are not structural have a termination
  proof, and nothing uses fuel. The loop that fires a callback list and the copying loop of \<open>extend\<close>
  may run for ever in the source; they are partial functions whose value \<open>None\<close> is a run that does not
  end, and the properties state that they return. Numbers are unbounded where the source has
  small counters or array lengths, which stay far below the precision of a JavaScript number.

  \<^bold>\<open>Not modelled.\<close> The prebuilt binaries, the kernel patches and the debugger scripts are not
  code of this program. The generated manual's page effects (styles, permanent links, the sizes of
  drawings, requests) and the manipulation, styles, requests and animations of its vendored DOM library
  are browser input and output; of its events the native ones, their properties and what the controllers of \<open>focus\<close> and
  \<open>click\<close> do when they are called are arguments; of its selector engine the native functions, the feature tests and the
  positional compilation are left out. Looking up a name
  that every JavaScript object inherits in one of the search tables is excluded.

  \<^bold>\<open>Plan.\<close> Next are the handlers of \<open>then\<close> with their values, the positional
  compilation of selectors (\<open>setMatcher\<close>), and the relation between the search page and the collection functions it calls.
\<close>

section \<open>Sample inputs\<close>

text \<open>The concrete inputs at which the witnesses apply the properties.\<close>

definition sampleHost :: host where
  "sampleHost = \<lparr>workspaceFolders = Some [js ''/home/me/my project''],
     activeTextEditor = Some (js ''/home/me/notes/a.c''),
     env = (\<lambda>k. if k = js ''KDIR'' then Some (js ''/src/linux'') else None),
     processCwd = js ''/'',
     dirname = (\<lambda>f. take (length f - length (takeWhile (\<lambda>c. c \<noteq> 47) (rev f)) - 1) f)\<rparr>"

definition sampleSettings :: settings where
  "sampleSettings i =
     (case i of
        Run \<Rightarrow> RawString (js ''make -C build'')
      | Debug \<Rightarrow> RawObject \<lparr>script = Some (js ''${workspaceFolder}/it's run.sh''),
          cwd = Some (js ''${fileDirname}''),
          args = Some [js ''--kernel=${env:KDIR}'', js ''a  b'', []],
          floatingWindow = None, autoClose = None\<rparr>)"

definition sampleSystem :: sysenv where
  "sampleSystem = \<lparr>hasTmux = True, realpath = (\<lambda>ws. case ws of w # _ \<Rightarrow> js ''/box/'' @ w | [] \<Rightarrow> js ''/box''),
     isDir = (\<lambda>d. d = js ''/src/linux''), cdPwd = (\<lambda>ws. case ws of w # _ \<Rightarrow> w | [] \<Rightarrow> js ''/''),
     androidOut = (\<lambda>d. []), machine = js ''x86_64'', random = 4711, workDir = js ''/box'',
     ambient = (\<lambda>v. [])\<rparr>"

definition sampleConfig :: config where
  "sampleConfig = (defaults sampleSystem)\<lparr>KERNEL := js ''/src/linux'', ROOTFS := js ''debian.qcow2'',
     CMDLINE := js ''quiet debug''\<rparr>"

lemma sample_clicked:
  "sessions (runButton sampleHost sampleSettings Run initWorld) =
     [\<lparr>sterm = 0, started = False, subs = [OnStart, OnEnd, OnClose]\<rparr>]"
  by (simp add: sampleSettings_def getConfig_def emptyConfig_def runButton_def openTerminal_def
      floatTerminal_def watchTerminal_def initWorld_def notFalse_def emit_def Let_def)

section \<open>The extension\<close>

text \<open>
  C1. A click on a configured button opens one terminal and sends it one line. When the
  configured script is a path, a POSIX shell reads that line as the script with its
  variables expanded, as one word whatever characters it holds, followed by
  the arguments, each expanded and each one word.
\<close>

theorem click_path_command:
  assumes "script (getConfig st i) = Some scr" "scr \<noteq> []" "isPath (expandVars h scr)"
  shows "\<exists>es line. trace (runButton h st i w) = trace w @ es \<and>
    opensWith es (nextTerm w) (js ''Lightbox '' @ LABEL i) (terminalCwd h (getConfig st i)) line \<and>
    sh_words line = Some (expandVars h scr # map (expandVars h)
      (case args (getConfig st i) of None \<Rightarrow> [] | Some as \<Rightarrow> as))"
  using runButton_trace clickEffects_opens [OF assms(1,2)] commandLine_path [OF assms(3)]
  by blast

theorem click_path_command_witness:
  "\<exists>es line. trace (runButton sampleHost sampleSettings Debug initWorld) = trace initWorld @ es \<and>
    opensWith es (nextTerm initWorld) (js ''Lightbox '' @ LABEL Debug)
      (terminalCwd sampleHost (getConfig sampleSettings Debug)) line \<and>
    sh_words line = Some (expandVars sampleHost (js ''${workspaceFolder}/it's run.sh'') #
      map (expandVars sampleHost)
        (case args (getConfig sampleSettings Debug) of None \<Rightarrow> [] | Some as \<Rightarrow> as))"
proof (rule click_path_command)
  show "script (getConfig sampleSettings Debug) = Some (js ''${workspaceFolder}/it's run.sh'')"
    by (simp add: sampleSettings_def getConfig_def)
  show "js ''${workspaceFolder}/it's run.sh'' \<noteq> []" by simp
  show "isPath (expandVars sampleHost (js ''${workspaceFolder}/it's run.sh''))"
    by code_simp
qed

text \<open>
  When the configured script is a command without a slash, and it is a simple
  command (nothing in it is active for the shell), the line is read as the words
  of the command followed by the arguments, each expanded and each one word.
\<close>

theorem click_raw_command:
  assumes "script (getConfig st i) = Some scr" "scr \<noteq> []" "\<not> isPath (expandVars h scr)"
    and "sh_words (expandVars h scr) = Some ws"
  shows "\<exists>es line. trace (runButton h st i w) = trace w @ es \<and>
    opensWith es (nextTerm w) (js ''Lightbox '' @ LABEL i) (terminalCwd h (getConfig st i)) line \<and>
    sh_words line = Some (ws @ map (expandVars h)
      (case args (getConfig st i) of None \<Rightarrow> [] | Some as \<Rightarrow> as))"
  using runButton_trace clickEffects_opens [OF assms(1,2)] commandLine_raw [OF assms(3,4)]
  by blast

theorem click_raw_command_witness:
  "\<exists>es line. trace (runButton sampleHost sampleSettings Run initWorld) = trace initWorld @ es \<and>
    opensWith es (nextTerm initWorld) (js ''Lightbox '' @ LABEL Run)
      (terminalCwd sampleHost (getConfig sampleSettings Run)) line \<and>
    sh_words line = Some ([js ''make'', js ''-C'', js ''build''] @ map (expandVars sampleHost)
      (case args (getConfig sampleSettings Run) of None \<Rightarrow> [] | Some as \<Rightarrow> as))"
proof (rule click_raw_command)
  show "script (getConfig sampleSettings Run) = Some (js ''make -C build'')"
    by (simp add: sampleSettings_def getConfig_def)
  show "js ''make -C build'' \<noteq> []" by simp
  show "\<not> isPath (expandVars sampleHost (js ''make -C build''))"
    by (simp add: expandVars_no_dollar isPath_def endsWith_def)
  show "sh_words (expandVars sampleHost (js ''make -C build'')) =
      Some [js ''make'', js ''-C'', js ''build'']"
    by (simp add: expandVars_no_dollar) (code_simp)
qed

text \<open>
  C2. Quoting and the shell's own splitting are inverse: any list of words, empty words and
  words with blanks, quotes, dollar signs or operators included, comes back from the
  line of their quoted forms.
\<close>

theorem quoteArg_roundtrip: "sh_words (join [32] (map quoteArg ws)) = Some ws"
  by (rule qa.words_joined)

text \<open>
  C3. Expansion is compositional: a template of literal text and references stands for
  the concatenation of the texts its parts stand for (the first workspace folder or its
  fallbacks, the directory of the active file, the variable's value or the empty
  text), when neither the literals nor the folder names hold a dollar sign.
\<close>

theorem expandVars_template:
  assumes "36 \<notin> set (folderOf h)" "36 \<notin> set (fileDirnameOf h)" "list_all plainPart ps"
  shows "expandVars h (concat (map render ps)) = concat (map (meaning h) ps)"
  using assms by (rule expandVars_parts)

theorem expandVars_template_witness:
  "expandVars sampleHost (concat (map render
     [Lit (js ''--d=''), WorkspaceFolder, Lit (js ''/x''), FileDirname, Env (js ''KDIR''), Env (js ''NO'')])) =
   concat (map (meaning sampleHost)
     [Lit (js ''--d=''), WorkspaceFolder, Lit (js ''/x''), FileDirname, Env (js ''KDIR''), Env (js ''NO'')])"
  by (rule expandVars_template) code_simp+

text \<open>
  A folder name is inserted as a replacement pattern, not as text: the reference
  \<^verbatim>\<open>${workspaceFolder}\<close> alone becomes the name with the dollar patterns of the
  language expanded in it, so the folder \<^verbatim>\<open>/w$$x\<close> is turned into \<^verbatim>\<open>/w$x\<close>.
\<close>

theorem workspaceFolder_is_pattern:
  "replaceWorkspaceFolder f (js ''${workspaceFolder}'') =
     getSubstitution [] (js ''${workspaceFolder}'') [] f \<and>
   replaceWorkspaceFolder (js ''/w$$x'') (js ''${workspaceFolder}'') = js ''/w$x''"
proof
  show one: "replaceWorkspaceFolder f (js ''${workspaceFolder}'') =
      getSubstitution [] (js ''${workspaceFolder}'') [] f" for f
    using replaceAll_match [of "lit (js ''${workspaceFolder}'')" "js ''${workspaceFolder}''" "[]"
        "\<lambda>pre mtch post. getSubstitution pre mtch post f" "[]"] lit_self [of _ "[]"]
    by (simp add: replaceWorkspaceFolder_def)
  show "replaceWorkspaceFolder (js ''/w$$x'') (js ''${workspaceFolder}'') = js ''/w$x''"
    unfolding one by simp
qed

text \<open>
  C4. The extension closes a terminal only after a command has started and then ended
  in it: whatever the order of clicks and editor events, a disposed terminal was opened
  by a click with \<open>autoClose\<close> on, after which a command started in it, after which a
  command ended in it. And it is disposed of once.
\<close>

theorem terminal_disposed_only_after_run:
  assumes "DisposeTerminal t \<in> set (trace (runEvents es initWorld))"
  shows "disposals t (trace (runEvents es initWorld)) = 1 \<and>
    (\<exists>i j k. clickedAt es i t \<and> i < j \<and> j < k \<and> k < length es \<and>
       es ! j = ExecutionStarted t \<and> es ! k = ExecutionEnded t)"
proof -
  let ?w = "runEvents es initWorld"
  have pos: "0 < disposals t (trace ?w)"
    using assms by (metis count_list_0_iff disposals_def gr0I)
  moreover have "disposals t (trace ?w) \<le> 1"
    using runEvents_inv [OF run_inv_init] by (auto simp: run_inv_def)
  ultimately show ?thesis
    using hist_inv_runEvents [of es] by (auto simp: hist_inv_def)
qed

theorem terminal_disposed_only_after_run_witness:
  "disposals 0 (trace (runEvents [Click sampleHost sampleSettings Run, ExecutionStarted 0,
      ExecutionEnded 0] initWorld)) = 1 \<and>
   (\<exists>i j k. clickedAt [Click sampleHost sampleSettings Run, ExecutionStarted 0, ExecutionEnded 0] i 0 \<and>
      i < j \<and> j < k \<and> k < length [Click sampleHost sampleSettings Run, ExecutionStarted 0, ExecutionEnded 0] \<and>
      [Click sampleHost sampleSettings Run, ExecutionStarted 0, ExecutionEnded 0] ! j = ExecutionStarted 0 \<and>
      [Click sampleHost sampleSettings Run, ExecutionStarted 0, ExecutionEnded 0] ! k = ExecutionEnded 0)"
  by (rule terminal_disposed_only_after_run)
    (simp add: sample_clicked onStarted_def onEnded_def broadcast_def Let_def)

text \<open>
  When the command of a run that still listens ends, exactly its own terminal is
  disposed of: the terminal is no longer open, all three listeners are disposed of, last
  subscribed first, the run listens to nothing any more, and every other run is
  left as it is. A run whose terminal is closed by the user disposes of its listeners
  only.
\<close>

theorem command_end_cleans_up:
  assumes "s \<in> set (sessions (runEvents es initWorld))" "subs s \<noteq> []" "started s"
    and "w = runEvents es initWorld"
  shows "trace (handle (ExecutionEnded (sterm s)) w) = trace w @
      [DisposeSub (sterm s) OnClose, DisposeSub (sterm s) OnEnd, DisposeSub (sterm s) OnStart,
       DisposeTerminal (sterm s)] \<and>
    sterm s \<notin> set (alive (handle (ExecutionEnded (sterm s)) w)) \<and>
    sessions (handle (ExecutionEnded (sterm s)) w) =
      map (\<lambda>r. if r = s then r\<lparr>subs := []\<rparr> else r) (sessions w) \<and>
    trace (handle (TerminalClosed (sterm s)) w) = trace w @
      [DisposeSub (sterm s) OnClose, DisposeSub (sterm s) OnEnd, DisposeSub (sterm s) OnStart]"
proof -
  have "run_inv w" unfolding assms(4) by (rule runEvents_inv [OF run_inv_init])
  then show ?thesis using assms(1-3) unfolding assms(4) [symmetric]
    by (simp add: ended_effects closed_effects)
qed

theorem command_end_cleans_up_witness:
  "trace (handle (ExecutionEnded 0) (runEvents [Click sampleHost sampleSettings Run, ExecutionStarted 0] initWorld)) =
     trace (runEvents [Click sampleHost sampleSettings Run, ExecutionStarted 0] initWorld) @
     [DisposeSub 0 OnClose, DisposeSub 0 OnEnd, DisposeSub 0 OnStart, DisposeTerminal 0]"
  using command_end_cleans_up [of "\<lparr>sterm = 0, started = True, subs = [OnStart, OnEnd, OnClose]\<rparr>"
      "[Click sampleHost sampleSettings Run, ExecutionStarted 0]"
      "runEvents [Click sampleHost sampleSettings Run, ExecutionStarted 0] initWorld"]
  by (simp add: sample_clicked onStarted_def)

text \<open>
  C5. The buttons shown are the buttons configured: after any sequence of configuration
  changes and resumptions of the synchronisation, in any order, as soon as no run of it is
  pending the context key of each button says whether its script is set.
\<close>

theorem context_keys_consistent:
  assumes "reach (\<lambda>s. \<exists>st. s = activate st) sync_step s" "quiescent s"
  shows "ctx s i \<longleftrightarrow> truthy (script (getConfig (setts s) i))"
  using sy.reach_inv [OF assms(1)] assms(2)
  by (simp add: sync_inv_def quiescent_def enabled_def)

theorem context_keys_consistent_witness:
  "ctx ((syncOne Debug (activate sampleSettings))\<lparr>tasks := []\<rparr>) Debug \<longleftrightarrow>
   truthy (script (getConfig (setts ((syncOne Debug (activate sampleSettings))\<lparr>tasks := []\<rparr>)) Debug))"
proof (rule context_keys_consistent)
  let ?s0 = "activate sampleSettings"
  let ?s1 = "(syncOne Debug ?s0)\<lparr>tasks := [] @ [] # []\<rparr>"
  have "reach (\<lambda>s. \<exists>st. s = activate st) sync_step ?s0" by (rule reach_init) blast
  moreover have "sync_step ?s0 ?s1" by (rule resumed) (simp add: activate_def)
  moreover have "sync_step ?s1 (?s1\<lparr>tasks := [] @ []\<rparr>)" by (rule finished) simp
  ultimately have "reach (\<lambda>s. \<exists>st. s = activate st) sync_step (?s1\<lparr>tasks := [] @ []\<rparr>)"
    by (blast intro: reach_step)
  then show "reach (\<lambda>s. \<exists>st. s = activate st) sync_step ((syncOne Debug ?s0)\<lparr>tasks := []\<rparr>)"
    by simp
  show "quiescent ((syncOne Debug ?s0)\<lparr>tasks := []\<rparr>)" by (simp add: quiescent_def)
qed

text \<open>
  C6. The synchronisation comes to rest with the right result: when no further change of the settings comes in between, the suspended
  runs, resumed in any order, take together at most two steps each, and where no step is left the context key of each
  button says whether its script is set.
\<close>

theorem context_sync_terminates:
  assumes "reach (\<lambda>s. \<exists>st. s = activate st) sync_step s" "(resume_step ^^ n) s t"
  shows "n \<le> 2 * length (tasks s) \<and>
    ((\<forall>u. \<not> resume_step t u) \<longrightarrow> (\<forall>i. ctx t i \<longleftrightarrow> truthy (script (getConfig (setts s) i))))"
proof -
  have t: "pending s = n + pending t" "setts t = setts s" "sync_inv t"
    using resume_run [OF assms(2) sy.reach_inv [OF assms(1)]] by simp_all
  moreover have "pending s \<le> 2 * length (tasks s)" by (rule pending_bound [OF st.reach_inv [OF assms(1)]])
  moreover have "\<forall>i. ctx t i \<longleftrightarrow> truthy (script (getConfig (setts s) i))" if "\<forall>u. \<not> resume_step t u"
    using that t by (simp add: resume_stuck sync_inv_def quiescent_def enabled_def)
  ultimately show ?thesis by simp
qed

theorem context_sync_terminates_witness:
  "2 \<le> 2 * length (tasks (activate sampleSettings)) \<and>
   (\<forall>i. ctx ((syncOne Debug (activate sampleSettings))\<lparr>tasks := []\<rparr>) i \<longleftrightarrow>
     truthy (script (getConfig (setts (activate sampleSettings)) i)))"
proof -
  let ?s0 = "activate sampleSettings"
  let ?s1 = "(syncOne Debug ?s0)\<lparr>tasks := [] @ [] # []\<rparr>"
  have r: "reach (\<lambda>s. \<exists>st. s = activate st) sync_step ?s0" by (rule reach_init) blast
  have "resume_step ?s0 ?s1" by (rule resume) (simp add: activate_def)
  moreover have "resume_step ?s1 (?s1\<lparr>tasks := [] @ []\<rparr>)" by (rule finish) simp
  ultimately have n: "(resume_step ^^ 2) ?s0 ((syncOne Debug ?s0)\<lparr>tasks := []\<rparr>)"
    by (auto simp: numeral_2_eq_2 intro!: relcomppI)
  have "\<forall>u. \<not> resume_step ((syncOne Debug ?s0)\<lparr>tasks := []\<rparr>) u" by (simp add: resume_step.simps)
  with context_sync_terminates [OF r n] show ?thesis by blast
qed

text \<open>
  C7. A button that is shown does what it says: once the synchronisation is at rest,
  a click on a button whose context key is set opens a terminal and shows no warning.
\<close>

theorem visible_button_runs:
  assumes "reach (\<lambda>s. \<exists>st. s = activate st) sync_step s" "quiescent s" "ctx s i"
  shows "alive (runButton h (setts s) i w) = alive w @ [nextTerm w] \<and>
    warnings (runButton h (setts s) i w) = warnings w"
proof -
  have "truthy (script (getConfig (setts s) i))"
    using sy.reach_inv [OF assms(1)] assms(2,3)
    by (simp add: sync_inv_def quiescent_def enabled_def)
  then show ?thesis by (rule runButton_alive)
qed

theorem visible_button_runs_witness:
  "alive (runButton sampleHost (setts ((syncOne Debug (activate sampleSettings))\<lparr>tasks := []\<rparr>)) Debug initWorld) =
     alive initWorld @ [nextTerm initWorld] \<and>
   warnings (runButton sampleHost (setts ((syncOne Debug (activate sampleSettings))\<lparr>tasks := []\<rparr>)) Debug initWorld) =
     warnings initWorld"
proof (rule visible_button_runs)
  let ?s0 = "activate sampleSettings"
  let ?s1 = "(syncOne Debug ?s0)\<lparr>tasks := [] @ [] # []\<rparr>"
  have "reach (\<lambda>s. \<exists>st. s = activate st) sync_step ?s0" by (rule reach_init) blast
  moreover have "sync_step ?s0 ?s1" by (rule resumed) (simp add: activate_def)
  moreover have "sync_step ?s1 (?s1\<lparr>tasks := [] @ []\<rparr>)" by (rule finished) simp
  ultimately have "reach (\<lambda>s. \<exists>st. s = activate st) sync_step (?s1\<lparr>tasks := [] @ []\<rparr>)"
    by (blast intro: reach_step)
  then show "reach (\<lambda>s. \<exists>st. s = activate st) sync_step ((syncOne Debug ?s0)\<lparr>tasks := []\<rparr>)"
    by simp
  show "quiescent ((syncOne Debug ?s0)\<lparr>tasks := []\<rparr>)" by (simp add: quiescent_def)
  show "ctx ((syncOne Debug ?s0)\<lparr>tasks := []\<rparr>) Debug"
    by (simp add: syncOne_def activate_def enabled_def sampleSettings_def getConfig_def truthy_def)
qed

section \<open>The launcher\<close>

text \<open>
  C8. The options of the launcher: a list of valid options is accepted without a
  message, in any order; each setting is then the value of its last option, or what it was
  before when it has none; and printing a configuration as options and parsing it
  again gives the configuration back.
\<close>

theorem launcher_options:
  "\<exists>c'. parseArgs sourced c (map (\<lambda>(o', v). argOf o' v) ovs) = ([], c', False) \<and>
     (\<forall>o'. getOpt o' c' = (case map_of (rev ovs) o' of Some v \<Rightarrow> v | None \<Rightarrow> getOpt o' c)) \<and>
     parseArgs sourced d (printArgs c') = ([], c', False)"
  using parseArgs_valid [of sourced c ovs "[]"]
  by (intro exI [of _ "fold (\<lambda>(o', v). setOpt o' v) ovs c"])
    (simp add: getOpt_fold parse_printArgs)

text \<open>
  C9. A sourced run stops at its first error: with an argument that is none of the documented options, without a kernel, or with a
  kernel that is not a directory, the message for that error is all that it does: it opens no terminal, starts no
  emulator and no debugger and kills nothing.
\<close>

theorem launcher_rejects:
  assumes "\<not> list_all validArg argv \<or> kernelFrom [] argv = [] \<or> \<not> isDir sy (kernelFrom [] argv)"
  shows "launch True sy argv =
    [Echo (case find (\<lambda>i. \<not> validArg i) argv of
       Some i \<Rightarrow> js ''Invalid argument: '' @ afterEq i @ js '', please check your input.''
     | None \<Rightarrow> if kernelFrom [] argv = [] then js ''Please pass the kernel path: --kernel=<path>''
         else js ''ERROR: Directory not found: --kernel=<path>'')]"
proof (cases "find (\<lambda>i. \<not> validArg i) argv")
  case None
  then have valid: "list_all validArg argv" by (auto simp: find_None_iff list_all_iff)
  then obtain c where "parseArgs True (defaults sy) argv = ([], c, False)" "KERNEL c = kernelFrom [] argv"
    using parseArgs_all_valid [of argv True "defaults sy"] by (auto simp: defaults_def)
  with assms None valid show ?thesis by (auto simp: launch_def runConfigured_def ret_def Let_def simp del: js.simps)
next
  case (Some i)
  from parseArgs_first_invalid [OF this, of "defaults sy"] Some show ?thesis by (auto simp: launch_def simp del: js.simps)
qed

theorem launcher_rejects_witness:
  "launch True sampleSystem [js ''--kernel=/src/linux'', js ''--bogus''] =
    [Echo (case find (\<lambda>i. \<not> validArg i) [js ''--kernel=/src/linux'', js ''--bogus''] of
       Some i \<Rightarrow> js ''Invalid argument: '' @ afterEq i @ js '', please check your input.''
     | None \<Rightarrow> if kernelFrom [] [js ''--kernel=/src/linux'', js ''--bogus''] = [] then js ''Please pass the kernel path: --kernel=<path>''
         else js ''ERROR: Directory not found: --kernel=<path>'')]"
  by (rule launcher_rejects) code_simp

text \<open>
  C10. Executed instead of sourced, the script does not stop at its own error messages: started without arguments on a machine with
  tmux it prints that the kernel path is missing, fails to return, prints that the directory does not exist, fails to return, announces
  what it uses, replaces a running session by a new one with its two panes and attaches to it, fails to
  return once more, starts the debugger and ends by killing every emulator.
\<close>

theorem executed_launcher_goes_on:
  assumes "hasTmux sy" "\<not> isDir sy []"
  shows "\<exists>words. launch False sy [] =
    [Echo (js ''Please pass the kernel path: --kernel=<path>''), ReturnOutsideFunction,
     Echo (js ''ERROR: Directory not found: --kernel=<path>''), ReturnOutsideFunction] @ announcements sy (defaults sy) @
    [Tmux [js ''kill-session'', js ''-t'', js ''lightbox''],
     Tmux [js ''new-session'', js ''-d'', js ''-s'', js ''lightbox'', js ''bash'', js '';'', js ''pipe-pane'', js ''-o'', js ''cat > ./qemu.log''],
     Tmux [js ''send-keys'', js ''-t'', js ''lightbox'', js ''cd '' @ workDir sy, js ''C-m''],
     Tmux [js ''send-keys'', js ''-t'', js ''lightbox'', js ''source ./start-kernel.sh  --terminal=cli-qemu'', js ''C-m''],
     Tmux [js ''split-window'', js ''-h'', js ''bash''],
     Tmux [js ''send-keys'', js ''-t'', js ''lightbox'', js ''cd '' @ workDir sy, js ''C-m''],
     Tmux [js ''send-keys'', js ''-t'', js ''lightbox'', js ''source ./start-kernel.sh  --terminal=cli-gdb'', js ''C-m''],
     Tmux [js ''attach-session'', js ''-d'', js ''-t'', js ''lightbox''],
     Tmux [js ''kill-session'', js ''-t'', js ''lightbox''], ReturnOutsideFunction,
     Gdb (KERNEL_SOURCE (kernelPaths sy (defaults sy))) words,
     Killall (js ''qemu-system-aarch64''), Tmux [js ''kill-session'', js ''-t'', js ''lightbox'']]"
proof -
  let ?c = "defaults sy"
  have t: "TERMINAL ?c = js ''tmux''" "KERNEL ?c = []" "DEBUGGER ?c = js ''gdb''" using assms by (simp_all add: defaults_def)
  have ne: "js ''tmux'' \<noteq> js ''gnome''" "js ''tmux'' \<noteq> js ''xfce4''" "js ''tmux'' \<noteq> js ''cli-qemu''"
    "js ''tmux'' \<noteq> js ''cli-gdb''" by simp_all
  have panes: "paneCommand [] (js ''cli-qemu'') = js ''source ./start-kernel.sh  --terminal=cli-qemu''"
    "paneCommand [] (js ''cli-gdb'') = js ''source ./start-kernel.sh  --terminal=cli-gdb''" by code_simp+
  have "launch False sy [] = runConfigured False sy [] ?c" by (simp add: launch_def)
  then show ?thesis
    using ne assms(2) by (auto simp: runConfigured_def startTerminal_def startDebugger_def tmuxSession_def sendKeys_def ret_def t panes Let_def
        simp del: js.simps)
qed

theorem executed_launcher_goes_on_witness:
  "\<exists>words. launch False sampleSystem [] =
    [Echo (js ''Please pass the kernel path: --kernel=<path>''), ReturnOutsideFunction,
     Echo (js ''ERROR: Directory not found: --kernel=<path>''), ReturnOutsideFunction] @ announcements sampleSystem (defaults sampleSystem) @
    [Tmux [js ''kill-session'', js ''-t'', js ''lightbox''],
     Tmux [js ''new-session'', js ''-d'', js ''-s'', js ''lightbox'', js ''bash'', js '';'', js ''pipe-pane'', js ''-o'', js ''cat > ./qemu.log''],
     Tmux [js ''send-keys'', js ''-t'', js ''lightbox'', js ''cd '' @ workDir sampleSystem, js ''C-m''],
     Tmux [js ''send-keys'', js ''-t'', js ''lightbox'', js ''source ./start-kernel.sh  --terminal=cli-qemu'', js ''C-m''],
     Tmux [js ''split-window'', js ''-h'', js ''bash''],
     Tmux [js ''send-keys'', js ''-t'', js ''lightbox'', js ''cd '' @ workDir sampleSystem, js ''C-m''],
     Tmux [js ''send-keys'', js ''-t'', js ''lightbox'', js ''source ./start-kernel.sh  --terminal=cli-gdb'', js ''C-m''],
     Tmux [js ''attach-session'', js ''-d'', js ''-t'', js ''lightbox''],
     Tmux [js ''kill-session'', js ''-t'', js ''lightbox''], ReturnOutsideFunction,
     Gdb (KERNEL_SOURCE (kernelPaths sampleSystem (defaults sampleSystem))) words,
     Killall (js ''qemu-system-aarch64''), Tmux [js ''kill-session'', js ''-t'', js ''lightbox'']]"
  by (rule executed_launcher_goes_on) (simp_all add: sampleSystem_def)

text \<open>
  C11. The emulator gets the arguments the script means, in a run that asks for no device tree: when the paths it uses (the disk
  image, or the initial file system where there is none) hold no character that the shell treats specially, the
  variable \<^verbatim>\<open>DTB_PRAM\<close> is not set and the kernel command line holds no single quote, the shell splits the assembled line into the
  emulator, its machine options, the kernel image, the file system, the share, the extra options, the
  debug port and, as one word, the kernel command line.
\<close>

theorem emulator_arguments:
  assumes "plain (qemuExec sy c)" "plain (KERNEL_IMAGE (kernelPaths sy c))"
    "ambient sy (js ''DTB_PRAM'') = []" "DTB c = []"
    "plain (realpath sy (ifs_words (if ROOTFS c \<noteq> [] then ROOTFS c else INITRD c)))"
    "plain (realpath sy (ifs_words (SHARE_FOLDER c)))"
    "sh_words (QEMU_EXTRA_PARAM c) = Some extra" "39 \<notin> set (bootArgs c)"
  shows "sh_words (qemuCmd sy c) = Some (concat (qemuWords sy c extra))"
  using assms by (rule qemuCmd_words)

theorem emulator_arguments_witness:
  "sh_words (qemuCmd sampleSystem sampleConfig) = Some (concat (qemuWords sampleSystem sampleConfig []))"
  by (rule emulator_arguments) code_simp+

text \<open>
  The device tree option has no effect: whatever \<^verbatim>\<open>--dtb\<close> says, the command
  line of the emulator and everything the launcher then starts are the same.
\<close>

theorem dtb_option_ignored:
  "qemuCmd sy (c\<lparr>DTB := d\<rparr>) = qemuCmd sy c \<and>
   startTerminal sourced sy argv (c\<lparr>DTB := d\<rparr>) = startTerminal sourced sy argv c"
  by (simp add: qemuCmd_dtb startTerminal_def startDebugger_def gdbScript_def kernelPaths_def
      debugPort_def Let_def del: js.simps)

text \<open>
  C12. The two panes of a tmux session meet: for options made of plain words without the
  text \<^verbatim>\<open>tmux\<close>, each pane re-reads exactly the options of the session with its own
  terminal mode added, the left pane starts the emulator and the right one a debugger
  that connects to the port the emulator listens on, whatever random numbers either
  shell draws.
\<close>

theorem tmux_panes_meet:
  assumes "parseArgs True (defaults sy) argv = ([], c, False)" "argv \<noteq> []" "list_all plain argv"
    and "\<not> occurs_in (js ''tmux'') (join [32] argv)"
    and "KERNEL c \<noteq> []" "isDir sy (KERNEL c)" "DEBUGGER c = js ''gdb''"
  shows "sh_words (paneCommand argv (js ''cli-qemu'')) =
      Some ([js ''source'', js ''./start-kernel.sh''] @ argv @ [argOf OTerminal (js ''cli-qemu'')]) \<and>
    sh_words (paneCommand argv (js ''cli-gdb'')) =
      Some ([js ''source'', js ''./start-kernel.sh''] @ argv @ [argOf OTerminal (js ''cli-gdb'')]) \<and>
    BashC (qemuCmd (sy\<lparr>random := r1\<rparr>) (c\<lparr>TERMINAL := js ''cli-qemu''\<rparr>))
      \<in> set (launch True (sy\<lparr>random := r1\<rparr>) (argv @ [argOf OTerminal (js ''cli-qemu'')])) \<and>
    (js '' -gdb tcp::12880'', 15) \<in> set (qemuPieces (sy\<lparr>random := r1\<rparr>) (c\<lparr>TERMINAL := js ''cli-qemu''\<rparr>)) \<and>
    (\<exists>dir words. Gdb dir words \<in>
        set (launch True (sy\<lparr>random := r2\<rparr>) (argv @ [argOf OTerminal (js ''cli-gdb'')])) \<and>
      js ''target remote localhost:12880'' \<in> set words)"
  using paneCommand_words [OF assms(3,2) plain_modes(1) assms(4)]
    paneCommand_words [OF assms(3,2) plain_modes(2) assms(4)]
    launch_cli_qemu [OF assms(1,5,6)] qemu_port_cli launch_cli_gdb [OF assms(1,5-7)]
  by blast

theorem tmux_panes_meet_witness:
  "sh_words (paneCommand [js ''--kernel=/src/linux''] (js ''cli-qemu'')) =
     Some ([js ''source'', js ''./start-kernel.sh''] @ [js ''--kernel=/src/linux''] @
       [argOf OTerminal (js ''cli-qemu'')])"
proof -
  have "parseArgs True (defaults sampleSystem) [js ''--kernel=/src/linux''] =
      ([], (defaults sampleSystem)\<lparr>KERNEL := js ''/src/linux''\<rparr>, False)"
    by (simp add: parseArg_def optMatch_def allOpts_def afterEq_def)
  from tmux_panes_meet [OF this] show ?thesis
    by (simp add: plain_def occurs_in_def indexOf_def sampleSystem_def defaults_def)
qed

text \<open>
  The replacement that gives a pane its mode works on the whole text of the options:
  a kernel path that holds \<^verbatim>\<open>tmux\<close> is changed by it, and the pane looks for the
  kernel elsewhere. An option value with a blank loses its quotes on the way, and the pane
  rejects the second half as an invalid argument and starts nothing.
\<close>

theorem tmux_panes_change_options:
  "sh_words (paneCommand [js ''--kernel=/home/tmux/linux''] (js ''cli-qemu'')) =
     Some [js ''source'', js ''./start-kernel.sh'', js ''--kernel=/home/cli-qemu/linux'',
       js ''--terminal=cli-qemu''] \<and>
   sh_words (paneCommand [js ''--append=quiet debug''] (js ''cli-qemu'')) =
     Some [js ''source'', js ''./start-kernel.sh'', js ''--append=quiet'', js ''debug'',
       js ''--terminal=cli-qemu''] \<and>
   launch True sy [js ''--append=quiet'', js ''debug'', js ''--terminal=cli-qemu''] =
     [Echo (js ''Invalid argument: debug, please check your input.'')]"
proof (intro conjI)
  show "sh_words (paneCommand [js ''--kernel=/home/tmux/linux''] (js ''cli-qemu'')) =
     Some [js ''source'', js ''./start-kernel.sh'', js ''--kernel=/home/cli-qemu/linux'',
       js ''--terminal=cli-qemu'']" by code_simp
  show "sh_words (paneCommand [js ''--append=quiet debug''] (js ''cli-qemu'')) =
     Some [js ''source'', js ''./start-kernel.sh'', js ''--append=quiet'', js ''debug'',
       js ''--terminal=cli-qemu'']" by code_simp
  show "launch True sy [js ''--append=quiet'', js ''debug'', js ''--terminal=cli-qemu''] =
     [Echo (js ''Invalid argument: debug, please check your input.'')]"
    by (simp add: launch_def parseArg_def optMatch_def allOpts_def afterEq_def)
qed


end
